(* ===== verification/Prelude.thy ===== *)
theory Prelude
  imports Main "HOL-Library.Word" "HOL-Library.Monad_Syntax"
begin

text \<open>
  Shared vocabulary of the development: the integer types of \<^verbatim>\<open>kernel/include/types.h\<close>, the
  error numbers the modelled calls return, the reading of \<^verbatim>\<open>assert\<close> and of pointer
  dereferences, and the generic lemmas on lists and words that the component theories use.

  Conventions. A kernel operation that can panic (a failed \<^verbatim>\<open>assert\<close>, an explicit
  \<^verbatim>\<open>panic()\<close>), fault (a null or dangling dereference) or loop forever is a function into
  \<open>'a option\<close>; \<open>None\<close> means that the call does not return. Error codes are ordinary return
  values, as in the code. A pointer is a 64-bit word, null is 0.
\<close>

unbundle bit_operations_syntax

section \<open>Integer types\<close>

type_synonym size_t = "64 word"
type_synonym uint64_t = "64 word"
type_synonym uint32_t = "32 word"
type_synonym uint16_t = "16 word"
type_synonym uint8_t = "8 word"
type_synonym addr = "64 word"

section \<open>Proof collections\<close>

named_theorems kexec \<open>definitions unfolded to evaluate an operation\<close>
named_theorems kinv \<open>invariants and abstraction relations\<close>

section \<open>Assertions\<close>

text \<open>The \<^verbatim>\<open>assert\<close> macro of \<^verbatim>\<open>kernel/include/debug.h\<close> in a DEBUG build: a false
  condition panics.\<close>

definition kassert :: "bool \<Rightarrow> unit option" where
  "kassert b = (if b then Some () else None)"

lemma kassert_True [simp]: "kassert True = Some ()"
  by (simp add: kassert_def)

lemma kassert_False [simp]: "kassert False = None"
  by (simp add: kassert_def)

lemma kassert_bind_eq_Some [simp]:
  "(kassert b \<bind> f = Some x) \<longleftrightarrow> b \<and> f () = Some x"
  by (cases b) auto

lemma kassert_bind_True: "b \<Longrightarrow> kassert b \<bind> f = f ()"
  by simp

section \<open>Stores of objects behind pointers\<close>

text \<open>A typed store maps addresses to objects. Dereferencing null or an address that holds no
  object faults.\<close>

type_synonym 'a store = "addr \<Rightarrow> 'a option"

definition deref :: "'a store \<Rightarrow> addr \<Rightarrow> 'a option" where
  "deref h p = (if p = 0 then None else h p)"

definition modify :: "'a store \<Rightarrow> addr \<Rightarrow> ('a \<Rightarrow> 'a) \<Rightarrow> 'a store option" where
  "modify h p f = (case deref h p of None \<Rightarrow> None | Some x \<Rightarrow> Some (h(p \<mapsto> f x)))"

lemma deref_Some [simp]: "p \<noteq> 0 \<Longrightarrow> h p = Some x \<Longrightarrow> deref h p = Some x"
  by (simp add: deref_def)

lemma deref_null [simp]: "deref h 0 = None"
  by (simp add: deref_def)

lemma modify_Some [simp]: "p \<noteq> 0 \<Longrightarrow> h p = Some x \<Longrightarrow> modify h p f = Some (h(p \<mapsto> f x))"
  by (simp add: modify_def)

lemma modify_null [simp]: "modify h 0 f = None"
  by (simp add: modify_def)

declare deref_def [kexec] modify_def [kexec] Let_def [kexec]

section \<open>Iterating an operation that may fail\<close>

fun iter_opt :: "nat \<Rightarrow> ('s \<Rightarrow> 's option) \<Rightarrow> 's \<Rightarrow> 's option" where
  "iter_opt 0 f s = Some s"
| "iter_opt (Suc k) f s = f s \<bind> iter_opt k f"

section \<open>Lists and words\<close>

lemma distinct_words_length:
  fixes ps :: "'a::len word list"
  assumes "distinct ps" and "0 \<notin> set ps"
  shows "length ps < 2 ^ LENGTH('a)"
proof -
  have "length ps = card (set ps)"
    using assms(1) by (simp add: distinct_card)
  also have "\<dots> < card (insert 0 (set ps))"
    using assms(2) by simp
  also have "\<dots> \<le> card (UNIV :: 'a word set)"
    by (rule card_mono) auto
  finally show ?thesis
    by (simp add: card_word)
qed

lemma unat_less_pow: "unat (w :: 'a::len word) < 2 ^ LENGTH('a)"
  by (rule unsigned_less)

lemma unat_of_nat_small:
  "n < 2 ^ LENGTH('a::len) \<Longrightarrow> unat (of_nat n :: 'a word) = n"
  by (simp add: unat_of_nat take_bit_nat_eq_self)

lemma of_nat_eq_0_small:
  "n < 2 ^ LENGTH('a::len) \<Longrightarrow> (of_nat n = (0 :: 'a word)) \<longleftrightarrow> n = 0"
  using unat_of_nat_small [of n, where 'a = 'a] by (auto simp del: unat_of_nat)

lemma word_of_nat_less_2:
  fixes n :: nat
  assumes "n < 2 ^ 64"
  shows "(of_nat n < (2 :: 64 word)) \<longleftrightarrow> n < 2"
  using assms by (simp add: word_less_nat_alt unat_of_nat_small)

lemma list_update_replicate_append:
  "i < length xs \<Longrightarrow> xs[i := v] = take i xs @ v # drop (Suc i) xs"
  by (rule upd_conv_take_nth_drop)

text \<open>Two positions of a ring are different when they are less than a turn apart.\<close>

lemma ring_index_neq:
  fixes r a b n :: nat
  assumes "a < b" and "b < a + n"
  shows "(r + a) mod n \<noteq> (r + b) mod n"
proof
  assume "(r + a) mod n = (r + b) mod n"
  then have "n dvd (r + b) - (r + a)" using assms(1) by (metis mod_eq_dvd_iff_nat add_le_cancel_left less_imp_le_nat)
  then have "n dvd b - a" by simp
  with assms show False by (auto dest: dvd_imp_le)
qed

end
