(* ===== verification/Klist.thy ===== *)
theory Klist
  imports Prelude
begin

text \<open>
  The intrusive doubly linked list \<^verbatim>\<open>lib::List<T>\<close> of \<^verbatim>\<open>kernel/include/lib/list.h\<close>, with the
  canary of \<^verbatim>\<open>kernel/include/lib/canary.h\<close>. List items live in a store behind pointers, so
  that the pointer surgery of \<^verbatim>\<open>push_back\<close>, \<^verbatim>\<open>remove_it\<close> and \<^verbatim>\<open>rotate\<close> is what is verified. The
  abstraction \<open>contents\<close> reads the items in order; the locale \<open>klist_spec\<close> states what the
  clients (run queue, waiting lists, process list) rely on, and is interpreted on the pointer
  operations at the end.
\<close>

section \<open>Data\<close>

definition MAGIC :: uint32_t where
  "MAGIC = 0xdeadbeef"

record 'a list_item =
  item :: 'a
  next_ptr :: addr
  prev_ptr :: addr

record klist =
  magic :: uint32_t
  m_size :: size_t
  m_first :: addr
  m_last :: addr

type_synonym 'a nodes = "'a list_item store"

section \<open>Operations\<close>

definition verify :: "klist \<Rightarrow> unit option" where
  "verify l = kassert (magic l = MAGIC)"

definition new_list :: klist where
  "new_list = \<lparr>magic = MAGIC, m_size = 0, m_first = 0, m_last = 0\<rparr>"

definition size_of_list :: "klist \<Rightarrow> size_t option" where
  "size_of_list l = do { verify l; Some (m_size l) }"

text \<open>\<open>mem\<close> is the memory of the new item: the caller's, or what \<^verbatim>\<open>kmalloc\<close> returned.\<close>

definition push_back :: "'a \<Rightarrow> addr \<Rightarrow> klist \<times> 'a nodes \<Rightarrow> (klist \<times> 'a nodes) option" where
  "push_back x mem s = (case s of (l, h) \<Rightarrow> do {
     verify l;
     kassert (mem \<noteq> 0);
     let h1 = h(mem \<mapsto> \<lparr>item = x, next_ptr = 0, prev_ptr = m_last l\<rparr>);
     (l1, h2) \<leftarrow> (if m_last l \<noteq> 0
                  then do { h' \<leftarrow> modify h1 (m_last l) (next_ptr_update (\<lambda>_. mem)); Some (l, h') }
                  else Some (l\<lparr>m_first := mem\<rparr>, h1));
     Some (l1\<lparr>m_last := mem, m_size := m_size l1 + 1\<rparr>, h2)
   })"

partial_function (option) find_from :: "'a nodes \<Rightarrow> addr \<Rightarrow> 'a \<Rightarrow> addr option" where
  "find_from h p x =
     (if p = 0 then Some 0
      else case h p of
        None \<Rightarrow> None
      | Some n \<Rightarrow> if item n = x then Some p else find_from h (next_ptr n) x)"

definition find_item :: "'a \<Rightarrow> klist \<times> 'a nodes \<Rightarrow> addr option" where
  "find_item x s = (case s of (l, h) \<Rightarrow> do { verify l; find_from h (m_first l) x })"

definition remove_it :: "addr \<Rightarrow> klist \<times> 'a nodes \<Rightarrow> (klist \<times> 'a nodes) option" where
  "remove_it it s = (case s of (l, h) \<Rightarrow> do {
     kassert (it \<noteq> 0);
     verify l;
     n \<leftarrow> deref h it;
     h1 \<leftarrow> (if prev_ptr n \<noteq> 0 then modify h (prev_ptr n) (next_ptr_update (\<lambda>_. next_ptr n)) else Some h);
     n1 \<leftarrow> deref h1 it;
     h2 \<leftarrow> (if next_ptr n1 \<noteq> 0 then modify h1 (next_ptr n1) (prev_ptr_update (\<lambda>_. prev_ptr n1)) else Some h1);
     n2 \<leftarrow> deref h2 it;
     let l1 = (if it = m_first l then l\<lparr>m_first := next_ptr n2\<rparr> else l);
     let l2 = (if it = m_last l1 then l1\<lparr>m_last := prev_ptr n2\<rparr> else l1);
     Some (l2\<lparr>m_size := m_size l2 - 1\<rparr>, h2)
   })"

text \<open>\<^verbatim>\<open>remove\<close> also deletes the item: its address no longer holds an object.\<close>

definition remove_item :: "addr \<Rightarrow> klist \<times> 'a nodes \<Rightarrow> (klist \<times> 'a nodes) option" where
  "remove_item it s = do { (l, h) \<leftarrow> remove_it it s; Some (l, h(it := None)) }"

definition rotate_list :: "klist \<times> 'a nodes \<Rightarrow> (klist \<times> 'a nodes) option" where
  "rotate_list s = (case s of (l, h) \<Rightarrow> do {
     verify l;
     if m_size l < 2 then Some (l, h)
     else do {
       let it = m_first l;
       n \<leftarrow> deref h it;
       h1 \<leftarrow> modify h (next_ptr n) (prev_ptr_update (\<lambda>_. 0));
       h2 \<leftarrow> modify h1 it (prev_ptr_update (\<lambda>_. m_last l));
       n2 \<leftarrow> deref h2 it;
       let l1 = l\<lparr>m_first := next_ptr n2\<rparr>;
       h3 \<leftarrow> modify h2 it (next_ptr_update (\<lambda>_. 0));
       h4 \<leftarrow> modify h3 (m_last l1) (next_ptr_update (\<lambda>_. it));
       Some (l1\<lparr>m_last := it\<rparr>, h4)
     }
   })"

definition front_item :: "klist \<times> 'a nodes \<Rightarrow> 'a option" where
  "front_item s = (case s of (l, h) \<Rightarrow> do {
     verify l;
     kassert (m_size l > 0);
     kassert (m_first l \<noteq> 0);
     n \<leftarrow> deref h (m_first l);
     Some (item n)
   })"

definition pop_front :: "klist \<times> 'a nodes \<Rightarrow> ('a \<times> klist \<times> 'a nodes) option" where
  "pop_front s = do {
     x \<leftarrow> front_item s;
     s' \<leftarrow> remove_item (m_first (fst s)) s;
     Some (x, s')
   }"

definition back_item :: "klist \<times> 'a nodes \<Rightarrow> 'a option" where
  "back_item s = (case s of (l, h) \<Rightarrow> do {
     verify l;
     kassert (m_last l \<noteq> 0 \<and> m_size l > 0);
     n \<leftarrow> deref h (m_last l);
     Some (item n)
   })"

partial_function (option) clear_list :: "klist \<times> 'a nodes \<Rightarrow> (klist \<times> 'a nodes) option" where
  "clear_list s = do {
     verify (fst s);
     if m_size (fst s) > 0
     then remove_item (m_first (fst s)) s \<bind> clear_list
     else Some s
   }"

section \<open>Representation\<close>

text \<open>\<open>dlseg h pv p ps la nx\<close>: from \<open>p\<close>, whose predecessor is \<open>pv\<close>, the items \<open>ps\<close> are linked both
  ways; the last of them is \<open>la\<close> and its successor is \<open>nx\<close>.\<close>

fun dlseg :: "'a nodes \<Rightarrow> addr \<Rightarrow> addr \<Rightarrow> addr list \<Rightarrow> addr \<Rightarrow> addr \<Rightarrow> bool" where
  "dlseg h pv p [] la nx \<longleftrightarrow> p = nx \<and> la = pv"
| "dlseg h pv p (a # as) la nx \<longleftrightarrow>
     p = a \<and> a \<noteq> 0 \<and>
     (case h a of None \<Rightarrow> False
      | Some n \<Rightarrow> prev_ptr n = pv \<and> dlseg h a (next_ptr n) as la nx)"

definition rep :: "klist \<times> 'a nodes \<Rightarrow> addr list \<Rightarrow> bool" where
  "rep s ps \<longleftrightarrow> magic (fst s) = MAGIC \<and> dlseg (snd s) 0 (m_first (fst s)) ps (m_last (fst s)) 0 \<and>
     distinct ps \<and> m_size (fst s) = of_nat (length ps)"

fun walk :: "'a nodes \<Rightarrow> addr \<Rightarrow> nat \<Rightarrow> addr list" where
  "walk h p 0 = []"
| "walk h p (Suc k) =
     (if p = 0 then [] else case h p of None \<Rightarrow> [] | Some n \<Rightarrow> p # walk h (next_ptr n) k)"

definition ptrs :: "klist \<times> 'a nodes \<Rightarrow> addr list" where
  "ptrs s = walk (snd s) (m_first (fst s)) (unat (m_size (fst s)))"

definition items_at :: "'a nodes \<Rightarrow> addr list \<Rightarrow> 'a list" where
  "items_at h ps = map (\<lambda>p. item (the (h p))) ps"

definition contents :: "klist \<times> 'a nodes \<Rightarrow> 'a list" where
  "contents s = items_at (snd s) (ptrs s)"

definition klist_inv :: "klist \<times> 'a nodes \<Rightarrow> bool" where
  "klist_inv s \<longleftrightarrow> rep s (ptrs s)"

lemma dlseg_append:
  "dlseg h pv p (as @ bs) la nx \<longleftrightarrow> (\<exists>m r. dlseg h pv p as m r \<and> dlseg h m r bs la nx)"
  by (induction as arbitrary: pv p) (auto split: option.splits)

lemma dlseg_frame [simp]:
  "a \<notin> set ps \<Longrightarrow> dlseg (h(a := v)) pv p ps la nx = dlseg h pv p ps la nx"
  by (induction ps arbitrary: pv p) (auto split: option.splits)

lemma dlseg_nonzero: "dlseg h pv p ps la nx \<Longrightarrow> 0 \<notin> set ps"
  by (induction ps arbitrary: pv p) (auto split: option.splits)

lemma dlseg_alloc: "dlseg h pv p ps la nx \<Longrightarrow> a \<in> set ps \<Longrightarrow> \<exists>n. h a = Some n"
  by (induction ps arbitrary: pv p) (auto split: option.splits)

lemma dlseg_last: "dlseg h pv p ps la nx \<Longrightarrow> la = (if ps = [] then pv else last ps)"
  by (induction ps arbitrary: pv p) (auto split: option.splits)

lemma dlseg_first: "dlseg h pv p ps la nx \<Longrightarrow> p = (if ps = [] then nx else hd ps)"
  by (cases ps) auto

lemma dlseg_snoc:
  "dlseg h pv p (ps @ [a]) la nx \<longleftrightarrow>
     la = a \<and> a \<noteq> 0 \<and> (\<exists>n m. h a = Some n \<and> next_ptr n = nx \<and> prev_ptr n = m \<and> dlseg h pv p ps m a)"
  by (auto simp: dlseg_append split: option.splits)

lemma walk_dlseg: "dlseg h pv p ps la 0 \<Longrightarrow> walk h p (length ps) = ps"
  by (induction ps arbitrary: pv p) (auto split: option.splits)

lemma rep_length: "rep s ps \<Longrightarrow> length ps < 2 ^ 64"
  using distinct_words_length [of ps] by (auto simp: rep_def dest: dlseg_nonzero)

lemma rep_size: "rep s ps \<Longrightarrow> unat (m_size (fst s)) = length ps"
  using rep_length [of s ps] by (simp add: rep_def unat_of_nat_small)

lemma rep_ptrs: "rep s ps \<Longrightarrow> ptrs s = ps"
  using rep_size [of s ps] by (auto simp: ptrs_def rep_def intro: walk_dlseg)

lemma rep_inv: "rep s ps \<Longrightarrow> klist_inv s"
  by (simp add: klist_inv_def rep_ptrs)

lemma rep_contents: "rep s ps \<Longrightarrow> contents s = items_at (snd s) ps"
  by (simp add: contents_def rep_ptrs)

lemma rep_first: "rep (l, h) ps \<Longrightarrow> m_first l = (if ps = [] then 0 else hd ps)"
  by (auto simp: rep_def dest: dlseg_first)

lemma rep_last: "rep (l, h) ps \<Longrightarrow> m_last l = (if ps = [] then 0 else last ps)"
  by (auto simp: rep_def dest: dlseg_last)

lemma rep_size_pos: "rep (l, h) ps \<Longrightarrow> (m_size l > 0) = (ps \<noteq> [])"
  using rep_length [of "(l, h)" ps]
  by (auto simp: rep_def word_neq_0_conv [symmetric] of_nat_eq_0_small)

lemma items_at_cong: "(\<And>p. p \<in> set ps \<Longrightarrow> item (the (h p)) = item (the (h' p))) \<Longrightarrow> items_at h ps = items_at h' ps"
  by (simp add: items_at_def)

lemma items_at_frame [simp]: "a \<notin> set ps \<Longrightarrow> items_at (h(a := v)) ps = items_at h ps"
  by (auto simp: items_at_def)

lemma items_at_simps [simp]:
  "items_at h [] = []"
  "items_at h (p # ps) = item (the (h p)) # items_at h ps"
  "items_at h (ps @ qs) = items_at h ps @ items_at h qs"
  by (simp_all add: items_at_def)

section \<open>Correctness of the operations\<close>

lemma verify_rep [simp]: "rep (l, h) ps \<Longrightarrow> verify l = Some ()"
  by (simp add: rep_def verify_def)

lemma push_back_rep:
  assumes "rep (l, h) ps" and "mem \<noteq> 0" and "mem \<notin> set ps"
  shows "\<exists>s'. push_back x mem (l, h) = Some s' \<and> rep s' (ps @ [mem]) \<and>
     items_at (snd s') (ps @ [mem]) = items_at h ps @ [x] \<and>
     (\<forall>q. q \<notin> insert mem (set ps) \<longrightarrow> snd s' q = h q)"
proof (cases ps rule: rev_cases)
  case Nil
  with assms show ?thesis
    by (simp add: push_back_def rep_def verify_def kexec)
next
  case (snoc qs q)
  from assms(1) snoc obtain n where n: "h q = Some n" "next_ptr n = 0" "m_last l = q" "q \<noteq> 0"
    and seg: "dlseg h 0 (m_first l) qs (prev_ptr n) q" and d: "q \<notin> set qs" "distinct qs"
    by (auto simp: rep_def dlseg_snoc)
  let ?h = "h(mem \<mapsto> \<lparr>item = x, next_ptr = 0, prev_ptr = q\<rparr>, q \<mapsto> n\<lparr>next_ptr := mem\<rparr>)"
  let ?l = "l\<lparr>m_last := mem, m_size := m_size l + 1\<rparr>"
  have run: "push_back x mem (l, h) = Some (?l, ?h)"
    using assms n snoc by (auto simp: push_back_def kexec)
  have "rep (?l, ?h) (ps @ [mem])"
    using assms n seg d snoc by (auto simp: rep_def dlseg_append)
  moreover have "items_at ?h ps = items_at h ps"
    using assms n snoc by (intro items_at_cong) auto
  moreover have "item (the (?h mem)) = x"
    using assms n snoc by auto
  ultimately show ?thesis
    unfolding run using snoc by (auto simp del: fun_upd_apply simp: fun_upd_other)
qed

text \<open>Unlinking \<open>it\<close> from between \<open>as\<close> and \<open>bs\<close>, the four shapes of the neighbours treated alike.\<close>

lemma remove_it_rep:
  assumes "rep (l, h) (as @ it # bs)"
  shows "\<exists>s'. remove_it it (l, h) = Some s' \<and> rep s' (as @ bs) \<and>
     items_at (snd s') (as @ bs) = items_at h (as @ bs) \<and>
     item (the (snd s' it)) = item (the (h it)) \<and>
     (\<forall>q. q \<notin> set (as @ bs) \<longrightarrow> snd s' q = h q)"
proof -
  from assms obtain n where n: "h it = Some n" "it \<noteq> 0"
    and L: "dlseg h 0 (m_first l) as (prev_ptr n) it"
    and R: "dlseg h it (next_ptr n) bs (m_last l) 0"
    and d: "distinct as" "distinct bs" "set as \<inter> set bs = {}" "it \<notin> set as" "it \<notin> set bs"
    and m: "magic l = MAGIC" and sz: "m_size l = of_nat (Suc (length as + length bs))"
    by (auto simp: rep_def dlseg_append split: option.splits)
  have la: "m_last l \<noteq> it" if "bs \<noteq> []"
    using dlseg_last [OF R] d that by (auto dest: last_in_set)
  show ?thesis
  proof (cases as rule: rev_cases)
    case Nil
    with L have p0: "prev_ptr n = 0" "m_first l = it" by auto
    show ?thesis
    proof (cases bs)
      case bNil: Nil
      with R have "next_ptr n = 0" "m_last l = it" by auto
      with n p0 Nil bNil m sz show ?thesis
        by (simp add: remove_it_def verify_def rep_def kexec)
    next
      case (Cons r rs)
      with R n p0 Nil m sz d la show ?thesis
        by (auto simp: remove_it_def verify_def rep_def kexec split: option.splits
            intro!: items_at_cong)
    qed
  next
    case (snoc qs q)
    with L obtain k where k: "h q = Some k" "prev_ptr n = q" "q \<noteq> 0" "next_ptr k = it"
      and Lq: "dlseg h 0 (m_first l) qs (prev_ptr k) q"
      by (auto simp: dlseg_snoc)
    have f: "m_first l \<noteq> it"
      using dlseg_first [OF L] d snoc by (auto simp: hd_append split: if_splits)
    show ?thesis
    proof (cases bs)
      case bNil: Nil
      with R have "next_ptr n = 0" "m_last l = it" by auto
      with n k Lq f snoc bNil m sz d show ?thesis
        by (auto simp: remove_it_def verify_def rep_def kexec dlseg_snoc intro!: items_at_cong)
    next
      case (Cons r rs)
      with R obtain j where j: "h r = Some j" "next_ptr n = r" "r \<noteq> 0" "prev_ptr j = it"
        and Rr: "dlseg h r (next_ptr j) rs (m_last l) 0"
        by (auto split: option.splits)
      from n k j Lq Rr f la snoc Cons m sz d show ?thesis
        by (auto simp: remove_it_def verify_def rep_def kexec dlseg_append intro!: items_at_cong)
    qed
  qed
qed

lemma remove_item_rep:
  assumes "rep (l, h) (as @ it # bs)"
  shows "\<exists>s'. remove_item it (l, h) = Some s' \<and> rep s' (as @ bs) \<and>
     items_at (snd s') (as @ bs) = items_at h (as @ bs) \<and>
     (\<forall>q. q \<notin> set (as @ it # bs) \<longrightarrow> snd s' q = h q)"
proof -
  from remove_it_rep [OF assms] obtain l' h' where s': "remove_it it (l, h) = Some (l', h')"
    "rep (l', h') (as @ bs)" "items_at h' (as @ bs) = items_at h (as @ bs)"
    "\<forall>q. q \<notin> set (as @ bs) \<longrightarrow> h' q = h q"
    by auto
  moreover from assms have "it \<notin> set (as @ bs)" by (auto simp: rep_def)
  ultimately have "rep (l', h'(it := None)) (as @ bs)"
    and "items_at (h'(it := None)) (as @ bs) = items_at h' (as @ bs)"
    by (auto simp: rep_def items_at_def)
  with s' show ?thesis
    by (auto simp: remove_item_def simp del: items_at_simps)
qed

lemma rotate_list_rep:
  assumes "rep (l, h) ps"
  shows "\<exists>s'. rotate_list (l, h) = Some s' \<and> rep s' (rotate1 ps) \<and>
     items_at (snd s') (rotate1 ps) = rotate1 (items_at h ps) \<and>
     (\<forall>q. q \<notin> set ps \<longrightarrow> snd s' q = h q)"
proof (cases "length ps < 2")
  case True
  moreover from assms have "m_size l = of_nat (length ps)" by (simp add: rep_def)
  ultimately have "m_size l < 2" "rotate1 ps = ps"
    by (auto simp: word_of_nat_less_2 less_2_cases_iff length_Suc_conv)
  moreover from True have "rotate1 (items_at h ps) = items_at h ps"
    by (auto simp: less_2_cases_iff length_Suc_conv)
  ultimately show ?thesis
    using assms by (simp add: rotate_list_def)
next
  case False
  then obtain a qs z where ps: "ps = a # qs @ [z]"
    by (metis One_nat_def Suc_1 length_Cons list.size(3) lessI less_Suc_eq list.exhaust rev_exhaust)
  have big: "\<not> m_size l < 2"
    using assms False rep_length [OF assms] word_of_nat_less_2 [of "length ps"] by (simp add: rep_def)
  from assms ps obtain n k where n: "h a = Some n" "a \<noteq> 0" "prev_ptr n = 0" "m_first l = a"
    and k: "h z = Some k" "z \<noteq> 0" "next_ptr k = 0" "m_last l = z"
    and mid: "dlseg h a (next_ptr n) qs (prev_ptr k) z"
    and d: "a \<notin> set qs" "z \<notin> set qs" "a \<noteq> z" "distinct qs"
    and m: "magic l = MAGIC" "m_size l = of_nat (length ps)"
    by (auto simp: rep_def dlseg_snoc split: option.splits)
  show ?thesis
  proof (cases qs)
    case Nil
    with mid have "next_ptr n = z" "prev_ptr k = a" by auto
    with n k d m ps Nil big show ?thesis
      by (auto simp: rotate_list_def verify_def kexec rep_def)
  next
    case (Cons b bs)
    with mid obtain j where "h b = Some j" "next_ptr n = b" "b \<noteq> 0" "prev_ptr j = a"
      "dlseg h b (next_ptr j) bs (prev_ptr k) z"
      by (auto split: option.splits)
    with n k d m ps Cons big show ?thesis
      by (auto simp: rotate_list_def verify_def kexec rep_def dlseg_append intro!: items_at_cong)
  qed
qed

lemma front_item_rep: "rep (l, h) (p # ps) \<Longrightarrow> front_item (l, h) = Some (item (the (h p)))"
  using rep_size_pos [of l h "p # ps"]
  by (auto simp: front_item_def kexec rep_def verify_def split: option.splits)

lemma back_item_rep: "rep (l, h) (ps @ [p]) \<Longrightarrow> back_item (l, h) = Some (item (the (h p)))"
  using rep_size_pos [of l h "ps @ [p]"] rep_last [of l h "ps @ [p]"]
  by (auto simp: back_item_def kexec rep_def verify_def dlseg_snoc split: option.splits)

lemma front_item_empty: "rep (l, h) [] \<Longrightarrow> front_item (l, h) = None"
  by (simp add: front_item_def rep_def verify_def)

lemma find_from_dlseg:
  "dlseg h pv p ps la 0 \<Longrightarrow>
   find_from h p x = Some (case find (\<lambda>q. item (the (h q)) = x) ps of None \<Rightarrow> 0 | Some q \<Rightarrow> q)"
proof (induction ps arbitrary: pv p)
  case Nil
  then show ?case by (simp add: find_from.simps)
next
  case (Cons a as)
  then obtain n where "p = a" "a \<noteq> 0" "h a = Some n" "dlseg h a (next_ptr n) as la 0"
    by (auto split: option.splits)
  with Cons.IH [of a "next_ptr n"] show ?case
    by (subst find_from.simps) auto
qed

section \<open>The interface the clients use\<close>

locale klist_spec =
  fixes invar :: "'s \<Rightarrow> bool"
    and elems :: "'s \<Rightarrow> 'a list"
    and fresh :: "addr \<Rightarrow> 's \<Rightarrow> bool"
    and push :: "'a \<Rightarrow> addr \<Rightarrow> 's \<Rightarrow> 's option"
    and pop :: "'s \<Rightarrow> ('a \<times> 's) option"
    and rot :: "'s \<Rightarrow> 's option"
    and first :: "'s \<Rightarrow> 'a option"
  assumes push_law: "invar s \<Longrightarrow> fresh m s \<Longrightarrow> \<exists>s'. push x m s = Some s' \<and> invar s' \<and> elems s' = elems s @ [x]"
    and pop_law: "invar s \<Longrightarrow> elems s = x # xs \<Longrightarrow> \<exists>s'. pop s = Some (x, s') \<and> invar s' \<and> elems s' = xs"
    and rot_law: "invar s \<Longrightarrow> \<exists>s'. rot s = Some s' \<and> invar s' \<and> elems s' = rotate1 (elems s)"
    and first_law: "invar s \<Longrightarrow> elems s \<noteq> [] \<Longrightarrow> first s = Some (hd (elems s))"
begin

lemma rot_iter:
  "invar s \<Longrightarrow> \<exists>s'. iter_opt k rot s = Some s' \<and> invar s' \<and> elems s' = rotate k (elems s)"
proof (induction k arbitrary: s)
  case 0
  then show ?case by simp
next
  case (Suc k)
  from rot_law [OF Suc.prems] obtain s1 where
    s1: "rot s = Some s1" "invar s1" "elems s1 = rotate1 (elems s)" by blast
  with Suc.IH [of s1] show ?case
    by (auto simp: rotate_rotate [symmetric] rotate1_rotate_swap)
qed

text \<open>Round robin: after \<open>k\<close> rotations the front is the element at position \<open>k\<close>.\<close>

lemma rot_iter_front:
  assumes "invar s" and "k < length (elems s)"
  shows "\<exists>s'. iter_opt k rot s = Some s' \<and> first s' = Some (elems s ! k)"
proof -
  from rot_iter [OF assms(1)] obtain s' where
    s': "iter_opt k rot s = Some s'" "invar s'" "elems s' = rotate k (elems s)" by blast
  from assms(2) have "elems s \<noteq> []" by auto
  then have "hd (rotate k (elems s)) = elems s ! k"
    using assms(2) by (simp add: hd_rotate_conv_nth)
  with s' first_law [of s'] \<open>elems s \<noteq> []\<close> show ?thesis by simp
qed

text \<open>First in, first out: popping everything yields the elements in order.\<close>

lemma pop_all:
  "invar s \<Longrightarrow> elems s = xs @ ys \<Longrightarrow>
   \<exists>s'. iter_opt (length xs) (\<lambda>t. map_option snd (pop t)) s = Some s' \<and> invar s' \<and> elems s' = ys"
proof (induction xs arbitrary: s)
  case Nil
  then show ?case by simp
next
  case (Cons x xs)
  from pop_law [OF Cons.prems(1), of x "xs @ ys"] Cons.prems(2) obtain s1 where
    "pop s = Some (x, s1)" "invar s1" "elems s1 = xs @ ys" by auto
  with Cons.IH [of s1] show ?case by simp
qed

end

lemma klist_inv_rep: "klist_inv s \<Longrightarrow> rep s (ptrs s)"
  by (simp add: klist_inv_def)

lemma pop_front_rep:
  assumes "rep (l, h) (p # ps)"
  shows "\<exists>s'. pop_front (l, h) = Some (item (the (h p)), s') \<and> rep s' ps \<and> items_at (snd s') ps = items_at h ps"
proof -
  have "m_first l = p" using rep_first [OF assms] by simp
  with remove_item_rep [of l h "[]" p ps] assms front_item_rep [OF assms] show ?thesis
    by (auto simp: pop_front_def)
qed

lemma rep_abs: "rep s ps \<Longrightarrow> klist_inv s \<and> contents s = items_at (snd s) ps \<and> ptrs s = ps"
  by (simp add: rep_inv rep_contents rep_ptrs)

lemma push_back_abs:
  assumes "klist_inv s" and "m \<noteq> 0" and "m \<notin> set (ptrs s)"
  shows "\<exists>s'. push_back x m s = Some s' \<and> klist_inv s' \<and> contents s' = contents s @ [x] \<and>
     ptrs s' = ptrs s @ [m]"
proof -
  from push_back_rep [of "fst s" "snd s" "ptrs s" m x] assms obtain s' where
    "push_back x m s = Some s'" "rep s' (ptrs s @ [m])"
    "items_at (snd s') (ptrs s @ [m]) = items_at (snd s) (ptrs s) @ [x]"
    by (auto simp: klist_inv_def simp del: items_at_simps)
  then show ?thesis by (auto simp: contents_def simp del: items_at_simps dest: rep_abs)
qed

lemma rotate_list_abs:
  assumes "klist_inv s"
  shows "\<exists>s'. rotate_list s = Some s' \<and> klist_inv s' \<and> contents s' = rotate1 (contents s) \<and>
     ptrs s' = rotate1 (ptrs s)"
proof -
  from rotate_list_rep [of "fst s" "snd s" "ptrs s"] assms obtain s' where
    "rotate_list s = Some s'" "rep s' (rotate1 (ptrs s))"
    "items_at (snd s') (rotate1 (ptrs s)) = rotate1 (items_at (snd s) (ptrs s))"
    by (auto simp: klist_inv_def)
  with rep_abs [of s'] show ?thesis by (metis contents_def)
qed

lemma remove_it_abs:
  assumes "klist_inv s" and "it \<in> set (ptrs s)"
  shows "\<exists>s'. remove_it it s = Some s' \<and> klist_inv s' \<and> ptrs s' = remove1 it (ptrs s) \<and>
     contents s' = items_at (snd s) (remove1 it (ptrs s)) \<and>
     item (the (snd s' it)) = item (the (snd s it))"
proof -
  from split_list_first [OF assms(2)] obtain as bs where
    ps: "ptrs s = as @ it # bs" "it \<notin> set as" by blast
  with remove_it_rep [of "fst s" "snd s" as it bs] assms(1) obtain s' where
    "remove_it it s = Some s'" "rep s' (as @ bs)"
    "items_at (snd s') (as @ bs) = items_at (snd s) (as @ bs)"
    "item (the (snd s' it)) = item (the (snd s it))"
    by (auto simp: klist_inv_def simp del: items_at_simps)
  with rep_abs [of s' "as @ bs"] ps show ?thesis
    by (simp add: remove1_append del: items_at_simps)
qed

lemma pop_front_abs:
  assumes "klist_inv s" and "contents s = x # xs"
  shows "\<exists>s'. pop_front s = Some (x, s') \<and> klist_inv s' \<and> contents s' = xs \<and> ptrs s' = tl (ptrs s)"
proof -
  from assms(2) obtain p ps where p: "ptrs s = p # ps" "x = item (the (snd s p))" "xs = items_at (snd s) ps"
    by (cases "ptrs s") (auto simp: contents_def)
  with assms(1) pop_front_rep [of "fst s" "snd s" p ps] obtain s' where
    "pop_front s = Some (x, s')" "rep s' ps" "items_at (snd s') ps = items_at (snd s) ps"
    by (auto simp: klist_inv_def)
  with rep_abs [of s' ps] p show ?thesis by simp
qed

lemma front_item_abs:
  assumes "klist_inv s" and "contents s \<noteq> []"
  shows "front_item s = Some (hd (contents s))"
proof -
  from assms(2) obtain p ps where "ptrs s = p # ps"
    by (cases "ptrs s") (auto simp: contents_def)
  with assms(1) front_item_rep [of "fst s" "snd s" p ps] show ?thesis
    by (simp add: klist_inv_def contents_def)
qed

interpretation kl: klist_spec klist_inv contents "\<lambda>m s. m \<noteq> 0 \<and> m \<notin> set (ptrs s)"
  push_back pop_front rotate_list front_item
proof (unfold_locales, goal_cases)
  case (1 s m x)
  then show ?case using push_back_abs [of s m x] by blast
next
  case (2 s x xs)
  then show ?case using pop_front_abs [of s x xs] by blast
next
  case (3 s)
  then show ?case using rotate_list_abs [of s] by blast
next
  case (4 s)
  then show ?case by (rule front_item_abs)
qed

text \<open>Finding a value and removing the item that holds it removes its first occurrence.\<close>

lemma find_item_abs:
  assumes "klist_inv s" and "x \<in> set (contents s)"
  shows "\<exists>as it bs. find_item x s = Some it \<and> it \<noteq> 0 \<and> ptrs s = as @ it # bs \<and>
     item (the (snd s it)) = x \<and> x \<notin> set (items_at (snd s) as)"
proof -
  obtain l h where s: "s = (l, h)" by (cases s)
  with assms(1) have r: "rep (l, h) (ptrs s)" by (simp add: klist_inv_def)
  from assms(2) have "\<exists>q \<in> set (ptrs s). item (the (h q)) = x"
    by (auto simp: contents_def items_at_def s)
  then obtain as it bs where ps: "ptrs s = as @ it # bs" "item (the (h it)) = x"
    "\<forall>q \<in> set as. item (the (h q)) \<noteq> x"
    using split_list_first_prop [of "ptrs s" "\<lambda>q. item (the (h q)) = x"] by blast
  then have f: "find (\<lambda>q. item (the (h q)) = x) (ptrs s) = Some it"
    by (auto simp: find_Some_iff nth_append intro!: exI [of _ "length as"])
  from r have "dlseg h 0 (m_first l) (ptrs s) (m_last l) 0" by (simp add: rep_def)
  from find_from_dlseg [OF this, of x] f r have "find_item x s = Some it"
    by (simp add: find_item_def s)
  moreover have "it \<noteq> 0" using r ps(1) dlseg_nonzero [of h 0 "m_first l" "ptrs s"] by (auto simp: rep_def)
  moreover have "x \<notin> set (items_at (snd s) as)" using ps(3) by (auto simp: s items_at_def)
  ultimately show ?thesis using ps(1,2) by (intro exI [of _ as] exI [of _ it] exI [of _ bs]) (simp add: s)
qed

lemma find_remove_abs:
  assumes "klist_inv s" and "x \<in> set (contents s)"
  shows "\<exists>it s'. find_item x s = Some it \<and> it \<noteq> 0 \<and> remove_item it s = Some s' \<and> klist_inv s' \<and>
     contents s' = remove1 x (contents s)"
proof -
  from find_item_abs [OF assms] obtain as it bs where f: "find_item x s = Some it" "it \<noteq> 0"
    "ptrs s = as @ it # bs" "item (the (snd s it)) = x" "x \<notin> set (items_at (snd s) as)" by blast
  from remove_item_rep [of "fst s" "snd s" as it bs] klist_inv_rep [OF assms(1)] f(3) obtain s' where
    r: "remove_item it s = Some s'" "rep s' (as @ bs)" "items_at (snd s') (as @ bs) = items_at (snd s) (as @ bs)"
    by auto
  have c: "contents s = items_at (snd s) as @ x # items_at (snd s) bs"
    using f(3,4) by (simp add: contents_def items_at_def)
  have "contents s' = items_at (snd s) as @ items_at (snd s) bs"
    using rep_contents [OF r(2)] r(3) by (simp add: items_at_def)
  moreover have "remove1 x (contents s) = items_at (snd s) as @ items_at (snd s) bs"
    using c f(5) by (simp add: remove1_append)
  ultimately have "contents s' = remove1 x (contents s)" by simp
  with f r rep_inv [OF r(2)] show ?thesis by blast
qed

section \<open>Clearing a list\<close>

lemma clear_list_rep: "rep (l, h) ps \<Longrightarrow> \<exists>s'. clear_list (l, h) = Some s' \<and> rep s' []"
proof (induction ps arbitrary: l h)
  case Nil
  then show ?case
    using rep_size_pos [OF Nil] by (subst clear_list.simps) simp
next
  case (Cons p ps)
  from rep_first [OF Cons.prems] have "m_first l = p" by simp
  moreover from remove_item_rep [of l h "[]" p ps] Cons.prems obtain l' h' where
    "remove_item p (l, h) = Some (l', h')" "rep (l', h') ps" by auto
  ultimately show ?case
    using rep_size_pos [OF Cons.prems] Cons.prems Cons.IH [of l' h'] by (subst clear_list.simps) auto
qed

section \<open>Properties\<close>

definition example_list :: "klist \<times> nat nodes" where
  "example_list =
     (\<lparr>magic = MAGIC, m_size = 3, m_first = 16, m_last = 48\<rparr>,
      [16 \<mapsto> \<lparr>item = 7, next_ptr = 32, prev_ptr = 0\<rparr>,
       32 \<mapsto> \<lparr>item = 8, next_ptr = 48, prev_ptr = 16\<rparr>,
       48 \<mapsto> \<lparr>item = 9, next_ptr = 0, prev_ptr = 32\<rparr>])"

lemma example_list_ptrs: "ptrs example_list = [16, 32, 48]"
  by (simp add: ptrs_def example_list_def) (simp add: numeral_3_eq_3)

lemma example_list_inv: "klist_inv example_list"
  by (simp add: klist_inv_def example_list_ptrs, simp add: rep_def example_list_def)

lemma example_list_contents: "contents example_list = [7, 8, 9]"
  by (simp add: contents_def example_list_ptrs, simp add: example_list_def)

text \<open>C7. Unlinking an item by pointer surgery (\<^verbatim>\<open>List::remove_it\<close>): on a well-formed list, for any item of
  it wherever it stands (head, middle, tail, only one), the call returns, the list stays well
  formed, exactly that item leaves the sequence, the other items keep their values and their
  order, and the unlinked item itself still holds its value.\<close>

theorem remove_it_correct:
  assumes "klist_inv s" and "it \<in> set (ptrs s)"
  shows "\<exists>s'. remove_it it s = Some s' \<and> klist_inv s' \<and> ptrs s' = remove1 it (ptrs s) \<and>
     contents s' = items_at (snd s) (remove1 it (ptrs s)) \<and>
     item (the (snd s' it)) = item (the (snd s it))"
  by (rule remove_it_abs [OF assms])

theorem remove_it_correct_witness:
  "\<exists>s'. remove_it 32 example_list = Some s' \<and> klist_inv s' \<and> ptrs s' = [16, 48]"
  using remove_it_correct [OF example_list_inv, of 32] by (auto simp: example_list_ptrs)

text \<open>The run queue is a round robin (\<^verbatim>\<open>List::rotate\<close>, \<^verbatim>\<open>List::front\<close>): rotating a well-formed list \<open>k\<close>
  times never fails and brings the element that was at position \<open>k\<close> to the front.\<close>

theorem rotate_round_robin:
  assumes "klist_inv s" and "k < length (contents s)"
  shows "\<exists>s'. iter_opt k rotate_list s = Some s' \<and> front_item s' = Some (contents s ! k)"
  by (rule kl.rot_iter_front [OF assms])

theorem rotate_round_robin_witness:
  "\<exists>s'. iter_opt 2 rotate_list example_list = Some s' \<and> front_item s' = Some 9"
  using rotate_round_robin [OF example_list_inv, of 2] by (simp add: example_list_contents)

text \<open>First in, first out (\<^verbatim>\<open>List::push_back\<close>, \<^verbatim>\<open>List::pop_front\<close>): an item pushed at fresh memory is
  popped after exactly the items that were there before it, and then the list is empty again.\<close>

theorem push_back_pop_front_fifo:
  assumes "klist_inv s" and "m \<noteq> 0" and "m \<notin> set (ptrs s)"
  shows "\<exists>s1 s2 s3. push_back x m s = Some s1 \<and>
     iter_opt (length (contents s)) (\<lambda>t. map_option snd (pop_front t)) s1 = Some s2 \<and>
     pop_front s2 = Some (x, s3) \<and> klist_inv s3 \<and> contents s3 = []"
proof -
  from push_back_abs [OF assms] obtain s1 where
    s1: "push_back x m s = Some s1" "klist_inv s1" "contents s1 = contents s @ [x]" by blast
  from kl.pop_all [OF s1(2,3)] obtain s2 where
    s2: "iter_opt (length (contents s)) (\<lambda>t. map_option snd (pop_front t)) s1 = Some s2"
      "klist_inv s2" "contents s2 = [x]" by blast
  from pop_front_abs [OF s2(2,3)] s1 s2 show ?thesis by blast
qed

theorem push_back_pop_front_fifo_witness:
  "\<exists>s1 s2 s3. push_back 5 64 example_list = Some s1 \<and>
     iter_opt 3 (\<lambda>t. map_option snd (pop_front t)) s1 = Some s2 \<and>
     pop_front s2 = Some (5, s3) \<and> klist_inv s3 \<and> contents s3 = []"
  using push_back_pop_front_fifo [OF example_list_inv, of 64 5]
  by (simp add: example_list_contents example_list_ptrs numeral_3_eq_3)

end
