(* ===== verification/Sync.thy ===== *)
theory Sync
  imports Prelude Klist
begin

text \<open>
  The primitives below the kernel's locks: the atomic instructions of
  \<^verbatim>\<open>arch/x86_64/atomic.S\<close>, the spin lock of \<^verbatim>\<open>kernel/sync/spin.cpp\<close> and the interrupt lock of
  \<^verbatim>\<open>kernel/sync/irq_lock.cpp\<close>, each as the effect of one call by the running task. The
  interleaving of several tasks on a \<^verbatim>\<open>Mutex\<close> is the subject of the theory \<open>Mutex\<close>.
\<close>

section \<open>Atomic instructions\<close>

text \<open>Each returns the old contents of the memory cell and the new ones.\<close>

definition xchg :: "size_t \<Rightarrow> size_t \<Rightarrow> size_t \<times> size_t" where
  "xchg val mem = (mem, val)"

definition atomic_add :: "size_t \<Rightarrow> size_t \<Rightarrow> size_t \<times> size_t" where
  "atomic_add mem increment = (mem, mem + increment)"

definition atomic_add8 :: "uint8_t \<Rightarrow> uint8_t \<Rightarrow> uint8_t \<times> uint8_t" where
  "atomic_add8 mem increment = (mem, mem + increment)"

section \<open>Spin lock\<close>

record spinlock =
  s_magic :: uint32_t
  s_lock :: size_t

definition new_spinlock :: spinlock where
  "new_spinlock = \<lparr>s_magic = MAGIC, s_lock = 0\<rparr>"

text \<open>The exchange loop. When the lock is held the loop goes on until somebody else stores 0;
  within one uninterrupted call that never happens and the call does not return.\<close>

partial_function (option) spin_acquire :: "spinlock \<Rightarrow> spinlock option" where
  "spin_acquire l =
     (case xchg 1 (s_lock l) of (old, new) \<Rightarrow>
        if old \<noteq> 0 then spin_acquire (l\<lparr>s_lock := new\<rparr>) else Some (l\<lparr>s_lock := new\<rparr>))"

definition spin_lock :: "spinlock \<Rightarrow> spinlock option" where
  "spin_lock l = do { kassert (s_magic l = MAGIC); spin_acquire l }"

definition spin_unlock :: "spinlock \<Rightarrow> spinlock option" where
  "spin_unlock l = do {
     kassert (s_magic l = MAGIC);
     kassert (s_lock l = 1);
     Some (l\<lparr>s_lock := 0\<rparr>)
   }"

definition spin_destroy :: "spinlock \<Rightarrow> unit option" where
  "spin_destroy l = do { kassert (s_magic l = MAGIC); kassert (s_lock l = 0) }"

lemma spin_acquire_held:
  assumes "spin_acquire l = Some l'" shows "s_lock l = 0"
proof (rule ccontr)
  assume held: "s_lock l \<noteq> 0"
  have "s_lock l = 0"
  proof (rule spin_acquire.raw_induct [where P = "\<lambda>l _. s_lock l = 0", OF _ assms])
    fix f :: "spinlock \<Rightarrow> spinlock option" and l l'
    assume IH: "\<And>l l'. f l = Some l' \<Longrightarrow> s_lock l = 0"
      and eq: "(case xchg 1 (s_lock l) of (old, new) \<Rightarrow>
        if old \<noteq> 0 then f (l\<lparr>s_lock := new\<rparr>) else Some (l\<lparr>s_lock := new\<rparr>)) = Some l'"
    show "s_lock l = 0"
      using eq IH [of "l\<lparr>s_lock := 1\<rparr>" l'] by (auto simp: xchg_def split: if_splits)
  qed
  with held show False by simp
qed

lemma spin_acquire_eq: "spin_acquire l = (if s_lock l = 0 then Some (l\<lparr>s_lock := 1\<rparr>) else None)"
proof (cases "s_lock l = 0")
  case True
  then show ?thesis by (subst spin_acquire.simps) (simp add: xchg_def)
next
  case False
  with spin_acquire_held [of l] show ?thesis by (cases "spin_acquire l") auto
qed

lemma spin_lock_eq:
  "spin_lock l = (if s_magic l = MAGIC \<and> s_lock l = 0 then Some (l\<lparr>s_lock := 1\<rparr>) else None)"
  by (simp add: spin_lock_def spin_acquire_eq)

lemma spin_unlock_eq:
  "spin_unlock l = (if s_magic l = MAGIC \<and> s_lock l = 1 then Some (l\<lparr>s_lock := 0\<rparr>) else None)"
  by (auto simp: spin_unlock_def kassert_def)

section \<open>Interrupt lock\<close>

text \<open>The lock together with the interrupt flag of the processor.\<close>

record irq_lock =
  i_magic :: uint32_t
  i_locked :: bool
  i_irqsWereEnabled :: bool

definition irq_lock_lock :: "irq_lock \<Rightarrow> bool \<Rightarrow> (irq_lock \<times> bool) option" where
  "irq_lock_lock l irqEnabled = do {
     kassert (i_magic l = MAGIC);
     let l1 = l\<lparr>i_irqsWereEnabled := irqEnabled\<rparr>;
     let flag = (if i_irqsWereEnabled l1 then False else irqEnabled);
     Some (l1\<lparr>i_locked := True\<rparr>, flag)
   }"

definition irq_lock_unlock :: "irq_lock \<Rightarrow> bool \<Rightarrow> (irq_lock \<times> bool) option" where
  "irq_lock_unlock l irqEnabled = do {
     kassert (i_magic l = MAGIC);
     kassert (i_locked l);
     let l1 = l\<lparr>i_locked := False\<rparr>;
     Some (l1, if i_irqsWereEnabled l1 then True else irqEnabled)
   }"

definition irq_lock_destroy :: "irq_lock \<Rightarrow> unit option" where
  "irq_lock_destroy l = kassert (i_locked l = False)"

section \<open>A lock as its users see it\<close>

text \<open>What a critical section relies on: taking a free lock succeeds and makes it held, a held
  lock is released by its holder, and doing both restores it.\<close>

locale lock_spec =
  fixes good :: "'l \<Rightarrow> bool"
    and held :: "'l \<Rightarrow> bool"
    and acquire :: "'l \<Rightarrow> 'l option"
    and release :: "'l \<Rightarrow> 'l option"
  assumes acquire_law: "good l \<Longrightarrow> \<not> held l \<Longrightarrow> \<exists>l'. acquire l = Some l' \<and> good l' \<and> held l'"
    and release_law: "good l \<Longrightarrow> held l \<Longrightarrow> \<exists>l'. release l = Some l' \<and> good l' \<and> \<not> held l'"
    and acquire_release: "good l \<Longrightarrow> \<not> held l \<Longrightarrow> acquire l = Some l' \<Longrightarrow> release l' = Some l"
begin

text \<open>A scoped critical section (\<^verbatim>\<open>ScopedLock\<close>) around a body that does not touch the lock leaves the
  lock as it found it, and a second section can follow.\<close>

lemma scoped_twice:
  assumes "good l" and "\<not> held l"
  shows "(acquire l \<bind> release) \<bind> (\<lambda>l1. acquire l1 \<bind> release) = Some l"
proof -
  from acquire_law [OF assms] obtain l' where a: "acquire l = Some l'" by blast
  with acquire_release [OF assms a] show ?thesis by simp
qed

end

interpretation spin: lock_spec "\<lambda>l. s_magic l = MAGIC \<and> s_lock l \<in> {0, 1}" "\<lambda>l. s_lock l = 1" spin_lock spin_unlock
  by unfold_locales (auto simp: spin_lock_eq spin_unlock_eq split: if_splits)

interpretation irq: lock_spec "\<lambda>(l, e). i_magic l = MAGIC \<and> (i_locked l \<longrightarrow> \<not> e) \<and> (\<not> i_locked l \<longrightarrow> i_irqsWereEnabled l = e)"
  "\<lambda>(l, e). i_locked l" "\<lambda>(l, e). irq_lock_lock l e" "\<lambda>(l, e). irq_lock_unlock l e"
  by unfold_locales (auto simp: irq_lock_lock_def irq_lock_unlock_def Let_def kassert_def split: if_splits)

end
