(* ===== verification/Sched.thy ===== *)
theory Sched
  imports Klist Sync
begin

text \<open>
  Tasks and the scheduler: \<^verbatim>\<open>kernel/task.cpp\<close> and \<^verbatim>\<open>kernel/sched/scheduler.cpp\<close>. The run queue is the
  pointer list of the theory \<open>Klist\<close>; tasks live in a store behind \<^verbatim>\<open>Task*\<close> pointers. An operation
  that yields is modelled up to and including the switch to the next task.
\<close>

section \<open>Data\<close>

datatype task_state = RUNNING | SLEEPING | KILLED

record task =
  m_tid :: size_t
  m_state :: task_state
  m_addrSpace :: addr
  m_wakeUpAt :: uint64_t
  m_kernelStackTop :: size_t
  m_context :: addr
  t_isUserTask :: bool

text \<open>What a task switch does to the processor: the address space in CR3, the stack used on kernel
  entry, and the trap on the next FPU instruction, which \<^verbatim>\<open>fpu::enableTrap\<close> sets when there is an FPU
  (\<^verbatim>\<open>s_fpuEnabled\<close>).\<close>

record cpu =
  cpu_space :: addr
  cpu_kernelStack :: size_t
  cpu_fpuTrap :: bool
  cpu_fpuEnabled :: bool

record sched =
  s_taskList :: "klist \<times> addr nodes"
  s_schedEnable :: bool
  s_currentTask :: addr
  s_tasks :: "task store"
  s_timerTicks :: uint64_t
  s_cpu :: cpu
  s_tidCounter :: size_t

section \<open>Tasks\<close>

definition KERNEL_STACK_SIZE :: size_t where "KERNEL_STACK_SIZE = 8192"

definition getNewTid :: "sched \<Rightarrow> size_t \<times> sched" where
  "getNewTid s = (case atomic_add (s_tidCounter s) 1 of (old, new) \<Rightarrow> (old, s\<lparr>s_tidCounter := new\<rparr>))"

text \<open>The constructor; \<open>self\<close> is the object's address, \<open>stack\<close> what \<^verbatim>\<open>kmalloc\<close> returned and
  \<open>ctxsz\<close> the size of the register frame \<^verbatim>\<open>IrqContext\<close> of the architecture.\<close>

definition new_task :: "size_t \<Rightarrow> addr \<Rightarrow> addr \<Rightarrow> bool \<Rightarrow> addr \<Rightarrow> sched \<Rightarrow> sched" where
  "new_task ctxsz self vspace isUser stack s =
     (case getNewTid s of (tid, s1) \<Rightarrow>
        let top = stack + KERNEL_STACK_SIZE in
        s1\<lparr>s_tasks := (s_tasks s1)(self \<mapsto>
             \<lparr>m_tid = tid, m_state = RUNNING, m_addrSpace = vspace, m_wakeUpAt = - 1,
              m_kernelStackTop = top, m_context = top - ctxsz, t_isUserTask = isUser\<rparr>)\<rparr>)"

definition schedulable :: "uint64_t \<Rightarrow> task \<Rightarrow> bool \<times> task" where
  "schedulable ticks t =
     (let t1 = (if m_state t = SLEEPING \<and> ticks > m_wakeUpAt t
                then t\<lparr>m_state := RUNNING, m_wakeUpAt := - 1\<rparr> else t)
      in (m_state t1 = RUNNING, t1))"

definition resume :: "addr \<Rightarrow> sched \<Rightarrow> sched option" where
  "resume self s = do {
     t \<leftarrow> deref (s_tasks s) self;
     kassert (m_state t = SLEEPING);
     kassert (s_currentTask s \<noteq> self);
     Some (s\<lparr>s_tasks := (s_tasks s)(self \<mapsto> t\<lparr>m_state := RUNNING\<rparr>)\<rparr>)
   }"

section \<open>The scheduler\<close>

partial_function (option) getNextTask :: "sched \<Rightarrow> (addr \<times> sched) option" where
  "getNextTask s = do {
     q \<leftarrow> rotate_list (s_taskList s);
     task \<leftarrow> front_item q;
     kassert (task \<noteq> 0);
     t \<leftarrow> deref (s_tasks s) task;
     case schedulable (s_timerTicks s) t of (ready, t1) \<Rightarrow>
       let s1 = s\<lparr>s_taskList := q, s_tasks := (s_tasks s)(task \<mapsto> t1)\<rparr> in
       if \<not> ready then getNextTask s1 else Some (task, s1)
   }"

definition fpu_enableTrap :: "cpu \<Rightarrow> cpu" where
  "fpu_enableTrap c = (if \<not> cpu_fpuEnabled c then c else c\<lparr>cpu_fpuTrap := True\<rparr>)"

text \<open>\<open>ctx\<close> is the register frame of the interrupted context; the result is the frame to return to.\<close>

definition schedule :: "addr \<Rightarrow> sched \<Rightarrow> (addr \<times> sched) option" where
  "schedule ctx s =
     (if \<not> s_schedEnable s then Some (ctx, s)
      else do {
        (nextTask, s1) \<leftarrow> getNextTask s;
        if nextTask \<noteq> s_currentTask s1 then do {
          s2 \<leftarrow> (if s_currentTask s1 \<noteq> 0
                 then do { ts \<leftarrow> modify (s_tasks s1) (s_currentTask s1) (m_context_update (\<lambda>_. ctx));
                           Some (s1\<lparr>s_tasks := ts\<rparr>) }
                 else Some s1);
          t \<leftarrow> deref (s_tasks s2) nextTask;
          sameSpace \<leftarrow> (if s_currentTask s2 = 0 then Some False
                        else do { c \<leftarrow> deref (s_tasks s2) (s_currentTask s2);
                                  Some (m_addrSpace c = m_addrSpace t) });
          let c1 = (if \<not> sameSpace then (s_cpu s2)\<lparr>cpu_space := m_addrSpace t\<rparr> else s_cpu s2);
          let c2 = (fpu_enableTrap c1)\<lparr>cpu_kernelStack := m_kernelStackTop t\<rparr>;
          Some (m_context t, s2\<lparr>s_cpu := c2, s_currentTask := nextTask\<rparr>)
        }
        else Some (ctx, s1)
      })"

definition yield_task :: "addr \<Rightarrow> sched \<Rightarrow> (addr \<times> sched) option" where
  "yield_task ctx s = (if s_schedEnable s then schedule ctx s else Some (ctx, s))"

definition task_sleep :: "addr \<Rightarrow> addr \<Rightarrow> sched \<Rightarrow> (addr \<times> sched) option" where
  "task_sleep self ctx s = do {
     kassert (s_currentTask s = self);
     t \<leftarrow> deref (s_tasks s) self;
     kassert (m_state t = RUNNING);
     let s1 = s\<lparr>s_tasks := (s_tasks s)(self \<mapsto> t\<lparr>m_state := SLEEPING\<rparr>)\<rparr>;
     if s_schedEnable s1 then yield_task ctx s1 else Some (ctx, s1)
   }"

text \<open>\<open>unlock\<close> is the \<^verbatim>\<open>unlock\<close> method of the lock that is passed.\<close>

definition sleepAndUnlock :: "(sched \<Rightarrow> sched option) \<Rightarrow> addr \<Rightarrow> addr \<Rightarrow> sched \<Rightarrow> (addr \<times> sched) option" where
  "sleepAndUnlock unlock self ctx s = do {
     (ctx1, s1) \<leftarrow> task_sleep self ctx (s\<lparr>s_schedEnable := False\<rparr>);
     s2 \<leftarrow> unlock s1;
     yield_task ctx1 (s2\<lparr>s_schedEnable := True\<rparr>)
   }"

definition sleepTicks :: "size_t \<Rightarrow> addr \<Rightarrow> addr \<Rightarrow> sched \<Rightarrow> (addr \<times> sched) option" where
  "sleepTicks timerTicks self ctx s = do {
     ts \<leftarrow> modify (s_tasks s) self (m_wakeUpAt_update (\<lambda>_. s_timerTicks s + timerTicks));
     task_sleep self ctx (s\<lparr>s_tasks := ts\<rparr>)
   }"

definition task_exit :: "addr \<Rightarrow> addr \<Rightarrow> sched \<Rightarrow> (addr \<times> sched) option" where
  "task_exit self ctx s = do {
     kassert (s_currentTask s = self);
     ts \<leftarrow> modify (s_tasks s) self (m_state_update (\<lambda>_. KILLED));
     yield_task ctx (s\<lparr>s_tasks := ts\<rparr>)
   }"

text \<open>\<open>mem1\<close> and \<open>mem2\<close> are the fresh list items, \<open>idle\<close> the idle task the code creates here.\<close>

definition sched_setup :: "addr \<Rightarrow> addr \<Rightarrow> addr \<Rightarrow> addr \<Rightarrow> addr nodes \<Rightarrow> sched \<Rightarrow> sched option" where
  "sched_setup initialTask mem1 idle mem2 h s = do {
     kassert (\<not> s_schedEnable s);
     q1 \<leftarrow> push_back initialTask mem1 (new_list, h);
     q2 \<leftarrow> push_back idle mem2 q1;
     Some (s\<lparr>s_taskList := q2, s_schedEnable := True\<rparr>)
   }"

definition insertTask :: "addr \<Rightarrow> addr \<Rightarrow> sched \<Rightarrow> sched option" where
  "insertTask task mem s = do {
     kassert (s_schedEnable s);
     t \<leftarrow> deref (s_tasks s) task;
     kassert (m_state t = RUNNING);
     q \<leftarrow> push_back task mem (s_taskList s);
     Some (s\<lparr>s_taskList := q, s_schedEnable := True\<rparr>)
   }"

definition removeTask :: "addr \<Rightarrow> sched \<Rightarrow> sched option" where
  "removeTask task s = do {
     kassert (s_schedEnable s);
     t \<leftarrow> deref (s_tasks s) task;
     kassert (m_state t = KILLED);
     it \<leftarrow> find_item task (s_taskList s);
     kassert (it \<noteq> 0);
     (l, h) \<leftarrow> remove_it it (s_taskList s);
     Some (s\<lparr>s_taskList := (l, h(it := None)), s_schedEnable := True\<rparr>)
   }"

definition currentUserTask :: "sched \<Rightarrow> addr option" where
  "currentUserTask s = do {
     t \<leftarrow> deref (s_tasks s) (s_currentTask s);
     kassert (t_isUserTask t);
     Some (s_currentTask s)
   }"

definition taskCount :: "sched \<Rightarrow> size_t option" where
  "taskCount s = size_of_list (fst (s_taskList s))"

section \<open>Invariant\<close>

definition run_queue :: "sched \<Rightarrow> addr list" where
  "run_queue s = contents (s_taskList s)"

definition sched_inv :: "sched \<Rightarrow> bool" where
  "sched_inv s \<longleftrightarrow> klist_inv (s_taskList s) \<and> run_queue s \<noteq> [] \<and> distinct (run_queue s) \<and>
     (\<forall>p \<in> set (run_queue s). p \<noteq> 0 \<and> s_tasks s p \<noteq> None) \<and>
     (s_currentTask s \<noteq> 0 \<longrightarrow> s_tasks s (s_currentTask s) \<noteq> None)"

definition ready :: "sched \<Rightarrow> addr \<Rightarrow> bool" where
  "ready s p \<longleftrightarrow> (case s_tasks s p of None \<Rightarrow> False | Some t \<Rightarrow> fst (schedulable (s_timerTicks s) t))"

lemma schedulable_not_ready: "\<not> fst (schedulable k t) \<Longrightarrow> snd (schedulable k t) = t"
  by (auto simp: schedulable_def Let_def)

lemma ready_iff:
  "s_tasks s p = Some t \<Longrightarrow>
   ready s p \<longleftrightarrow> m_state t = RUNNING \<or> (m_state t = SLEEPING \<and> s_timerTicks s > m_wakeUpAt t)"
  by (auto simp: ready_def schedulable_def Let_def)

lemma ready_taskList [simp]: "ready (s\<lparr>s_taskList := q\<rparr>) = ready s"
  by (auto simp: ready_def fun_eq_iff split: option.splits)

lemma ready_after_schedulable:
  "ready s p \<Longrightarrow> s_tasks s p = Some t \<Longrightarrow>
   s_tasks s' = (s_tasks s)(p \<mapsto> snd (schedulable (s_timerTicks s) t)) \<Longrightarrow> s_timerTicks s' = s_timerTicks s \<Longrightarrow>
   ready s' = ready s"
  by (auto simp: ready_def schedulable_def Let_def fun_eq_iff split: option.splits)

section \<open>Choosing the next task\<close>

text \<open>One turn of the loop: the queue rotates by one and the task that comes to the front is
  examined.\<close>

lemma getNextTask_turn:
  assumes "sched_inv s" and "rotate1 (run_queue s) = p # ps"
  obtains q t where "rotate_list (s_taskList s) = Some q" "klist_inv q" "contents q = p # ps"
    "s_tasks s p = Some t" "p \<noteq> 0"
    "getNextTask s = (case schedulable (s_timerTicks s) t of (r, t1) \<Rightarrow>
       let s1 = s\<lparr>s_taskList := q, s_tasks := (s_tasks s)(p \<mapsto> t1)\<rparr> in
       if r then Some (p, s1) else getNextTask s1)"
proof -
  from assms obtain q where q: "rotate_list (s_taskList s) = Some q" "klist_inv q" "contents q = p # ps"
    using kl.rot_law [of "s_taskList s"] by (auto simp: sched_inv_def run_queue_def)
  have "p \<in> set (run_queue s)" using assms(2) by (metis list.set_intros(1) set_rotate1)
  with assms(1) obtain t where t: "s_tasks s p = Some t" "p \<noteq> 0" by (auto simp: sched_inv_def)
  from q have "front_item q = Some p" using kl.first_law [of q] by simp
  with q t have "getNextTask s = (case schedulable (s_timerTicks s) t of (r, t1) \<Rightarrow>
       let s1 = s\<lparr>s_taskList := q, s_tasks := (s_tasks s)(p \<mapsto> t1)\<rparr> in
       if r then Some (p, s1) else getNextTask s1)"
    by (subst getNextTask.simps) (auto simp: Let_def split: prod.splits)
  with q t show thesis by (intro that) auto
qed

lemma not_ready_turn:
  assumes "s_tasks s p = Some t" and "\<not> ready s p"
  shows "schedulable (s_timerTicks s) t = (False, t)"
  using assms schedulable_not_ready [of "s_timerTicks s" t]
  by (cases "schedulable (s_timerTicks s) t") (auto simp: ready_def)

lemma sched_inv_queue:
  assumes "sched_inv s" and "klist_inv q" and "contents q = p # ps" and "rotate1 (run_queue s) = p # ps"
    and "s_tasks s p = Some t"
  shows "sched_inv (s\<lparr>s_taskList := q, s_tasks := (s_tasks s)(p \<mapsto> t1)\<rparr>)"
proof -
  have "distinct (p # ps)" "set (p # ps) = set (run_queue s)"
    using assms(1,4) by (metis sched_inv_def distinct1_rotate, metis set_rotate1)
  with assms show ?thesis by (auto simp: sched_inv_def run_queue_def)
qed

lemma getNextTask_finds:
  assumes "sched_inv s" and "rotate1 (run_queue s) = xs @ p # ys"
    and "\<forall>x \<in> set xs. \<not> ready s x" and "ready s p"
  shows "\<exists>s' t. getNextTask s = Some (p, s') \<and> sched_inv s' \<and> run_queue s' = p # ys @ xs \<and>
     s_tasks s p = Some t \<and> s_tasks s' = (s_tasks s)(p \<mapsto> snd (schedulable (s_timerTicks s) t)) \<and>
     s' = s\<lparr>s_taskList := s_taskList s', s_tasks := s_tasks s'\<rparr>"
  using assms
proof (induction xs arbitrary: s ys)
  case Nil
  from Nil(1,2) obtain q t where g: "klist_inv q" "contents q = p # ys" "s_tasks s p = Some t" "p \<noteq> 0"
    "getNextTask s = (case schedulable (s_timerTicks s) t of (r, t1) \<Rightarrow>
       let s1 = s\<lparr>s_taskList := q, s_tasks := (s_tasks s)(p \<mapsto> t1)\<rparr> in
       if r then Some (p, s1) else getNextTask s1)"
    by (auto elim: getNextTask_turn)
  let ?s = "s\<lparr>s_taskList := q, s_tasks := (s_tasks s)(p \<mapsto> snd (schedulable (s_timerTicks s) t))\<rparr>"
  from g Nil(4) have "getNextTask s = Some (p, ?s)"
    by (auto simp: ready_def Let_def split: prod.splits)
  moreover have "sched_inv ?s" using sched_inv_queue [OF Nil(1) g(1,2) _ g(3)] Nil(2) by simp
  ultimately show ?case using g(2,3) by (auto simp: run_queue_def)
next
  case (Cons x xs)
  from Cons.prems(1,2) obtain q t where g: "klist_inv q" "contents q = x # xs @ p # ys" "s_tasks s x = Some t" "x \<noteq> 0"
    "getNextTask s = (case schedulable (s_timerTicks s) t of (r, t1) \<Rightarrow>
       let s1 = s\<lparr>s_taskList := q, s_tasks := (s_tasks s)(x \<mapsto> t1)\<rparr> in
       if r then Some (x, s1) else getNextTask s1)"
    by (auto elim: getNextTask_turn)
  let ?s = "s\<lparr>s_taskList := q\<rparr>"
  from g(3) have upd: "(s_tasks s)(x \<mapsto> t) = s_tasks s" by (auto simp: fun_eq_iff)
  from g Cons.prems(3) have n: "getNextTask s = getNextTask ?s"
    by (simp add: not_ready_turn [OF g(3)] Let_def upd)
  have "sched_inv ?s" using sched_inv_queue [OF Cons.prems(1) g(1,2) _ g(3), of t] Cons.prems(2) by (simp add: upd)
  moreover have "rotate1 (run_queue ?s) = xs @ p # (ys @ [x])" using g(2) by (simp add: run_queue_def)
  moreover have "ready ?s = ready s" by simp
  ultimately show ?case
    using Cons.IH [of ?s "ys @ [x]"] Cons.prems(3,4) n by auto
qed

text \<open>With no task ready the loop never ends.\<close>

lemma getNextTask_stuck:
  assumes "sched_inv s" and "\<forall>x \<in> set (run_queue s). \<not> ready s x"
  shows "getNextTask s = None"
proof (rule ccontr)
  assume "getNextTask s \<noteq> None"
  then obtain r where r: "getNextTask s = Some r" by auto
  let ?P = "\<lambda>s (_ :: addr \<times> sched). \<not> (sched_inv s \<and> (\<forall>x \<in> set (run_queue s). \<not> ready s x))"
  have "?P s r"
  proof (rule getNextTask.raw_induct [where P = ?P, OF _ r])
    fix f :: "sched \<Rightarrow> (addr \<times> sched) option" and s r
    assume IH: "\<And>s r. f s = Some r \<Longrightarrow> ?P s r"
      and eq: "rotate_list (s_taskList s) \<bind> (\<lambda>q. front_item q \<bind> (\<lambda>task. kassert (task \<noteq> 0) \<bind> (\<lambda>_.
        deref (s_tasks s) task \<bind> (\<lambda>t. case schedulable (s_timerTicks s) t of (r, t1) \<Rightarrow>
          let s1 = s\<lparr>s_taskList := q, s_tasks := (s_tasks s)(task \<mapsto> t1)\<rparr> in
          if \<not> r then f s1 else Some (task, s1))))) = Some r"
    show "?P s r"
    proof
      assume a: "sched_inv s \<and> (\<forall>x \<in> set (run_queue s). \<not> ready s x)"
      then obtain p ps where p: "rotate1 (run_queue s) = p # ps"
        by (cases "rotate1 (run_queue s)") (auto simp: sched_inv_def)
      from a p obtain q t where g: "rotate_list (s_taskList s) = Some q" "klist_inv q" "contents q = p # ps"
        "s_tasks s p = Some t" "p \<noteq> 0" by (auto elim: getNextTask_turn)
      from p have "p \<in> set (run_queue s)" by (metis list.set_intros(1) set_rotate1)
      with a g(4) have nr: "schedulable (s_timerTicks s) t = (False, t)" by (intro not_ready_turn) auto
      have upd: "(s_tasks s)(p \<mapsto> t) = s_tasks s" using g(4) by (auto simp: fun_eq_iff)
      have "front_item q = Some p" using kl.first_law [of q] g by simp
      with eq g nr upd have "f (s\<lparr>s_taskList := q\<rparr>) = Some r" by (auto simp: Let_def)
      from IH [OF this] sched_inv_queue [OF _ g(2,3) p g(4), of t] a upd
      have "\<exists>x \<in> set (contents q). ready s x" by (auto simp: run_queue_def)
      moreover have "set (contents q) = set (run_queue s)" using g(3) p by (metis set_rotate1)
      ultimately show False using a by auto
    qed
  qed
  with assms show False by simp
qed

lemma split_first_ready:
  assumes "x \<in> set l" and "ready s x"
  obtains xs p ys where "l = xs @ p # ys" "\<forall>x \<in> set xs. \<not> ready s x" "ready s p"
  using split_list_first_prop [of l "ready s"] assms that by blast

text \<open>\<open>k\<close> consecutive scheduling decisions, with the tasks they pick.\<close>

fun decisions :: "nat \<Rightarrow> sched \<Rightarrow> (addr list \<times> sched) option" where
  "decisions 0 s = Some ([], s)"
| "decisions (Suc k) s = do {
     (p, s1) \<leftarrow> getNextTask s;
     (ps, s2) \<leftarrow> decisions k s1;
     Some (p # ps, s2)
   }"

lemma decisions_reach:
  assumes "sched_inv s" and "rotate1 (run_queue s) = xs @ p # ys" and "ready s p"
  shows "\<exists>k ps s'. k \<le> length xs \<and> decisions (Suc k) s = Some (ps @ [p], s') \<and> sched_inv s'"
  using assms
proof (induction "length xs" arbitrary: s xs ys rule: less_induct)
  case less
  show ?case
  proof (cases "\<exists>x \<in> set xs. ready s x")
    case False
    with getNextTask_finds [OF less.prems(1,2)] less.prems(3) obtain s' where
      "getNextTask s = Some (p, s')" "sched_inv s'" by blast
    then show ?thesis by (intro exI [of _ 0] exI [of _ "[]"]) auto
  next
    case True
    then obtain us x vs where x: "xs = us @ x # vs" "\<forall>u \<in> set us. \<not> ready s u" "ready s x"
      by (auto elim: split_first_ready)
    with getNextTask_finds [OF less.prems(1), of us x "vs @ p # ys"] less.prems(2) obtain s1 t where
      s1: "getNextTask s = Some (x, s1)" "sched_inv s1" "run_queue s1 = x # (vs @ p # ys) @ us"
        "s_tasks s x = Some t" "s_tasks s1 = (s_tasks s)(x \<mapsto> snd (schedulable (s_timerTicks s) t))"
        "s1 = s\<lparr>s_taskList := s_taskList s1, s_tasks := s_tasks s1\<rparr>" by auto
    from s1(6) have "s_timerTicks s1 = s_timerTicks s" by (metis sched.select_convs(5) sched.surjective sched.update_convs(1,4))
    with ready_after_schedulable [OF x(3) s1(4,5)] less.prems(3) have "ready s1 p" by simp
    moreover have "rotate1 (run_queue s1) = vs @ p # (ys @ us @ [x])" using s1(3) by simp
    moreover have "length vs < length xs" using x(1) by simp
    ultimately obtain k ps s' where "k \<le> length vs" "decisions (Suc k) s1 = Some (ps @ [p], s')" "sched_inv s'"
      using less.hyps [of vs s1 "ys @ us @ [x]"] s1(2) by blast
    with s1(1) x(1) show ?thesis
      by (intro exI [of _ "Suc k"] exI [of _ "x # ps"] exI [of _ s']) (simp del: decisions.simps(2) add: decisions.simps(2) [of "Suc k" s])
  qed
qed

section \<open>Inserting and removing\<close>

lemma insertTask_ok:
  assumes "sched_inv s" and "s_schedEnable s" and "s_tasks s p = Some t" and "p \<noteq> 0" and "m_state t = RUNNING"
    and "p \<notin> set (run_queue s)" and "mem \<noteq> 0" and "mem \<notin> set (ptrs (s_taskList s))"
  shows "\<exists>s'. insertTask p mem s = Some s' \<and> sched_inv s' \<and> run_queue s' = run_queue s @ [p] \<and> s_tasks s' = s_tasks s"
proof -
  from kl.push_law [of "s_taskList s" mem p] assms obtain q where
    "push_back p mem (s_taskList s) = Some q" "klist_inv q" "contents q = contents (s_taskList s) @ [p]"
    by (auto simp: sched_inv_def)
  with assms show ?thesis by (auto simp: insertTask_def sched_inv_def run_queue_def)
qed

lemma removeTask_ok:
  assumes "sched_inv s" and "s_schedEnable s" and "p \<in> set (run_queue s)" and "s_tasks s p = Some t"
    and "m_state t = KILLED" and "run_queue s \<noteq> [p]"
  shows "\<exists>s'. removeTask p s = Some s' \<and> sched_inv s' \<and> run_queue s' = remove1 p (run_queue s) \<and> s_tasks s' = s_tasks s"
proof -
  from assms(1) have k: "klist_inv (s_taskList s)" "p \<noteq> 0" "distinct (run_queue s)"
    using assms(3) by (auto simp: sched_inv_def)
  from find_remove_abs [OF k(1), of p] assms(3) obtain it q where
    q: "find_item p (s_taskList s) = Some it" "it \<noteq> 0" "remove_item it (s_taskList s) = Some q" "klist_inv q"
      "contents q = remove1 p (contents (s_taskList s))" by (auto simp: run_queue_def)
  from q(3) have "(do { (l, h) \<leftarrow> remove_it it (s_taskList s); Some (s\<lparr>s_taskList := (l, h(it := None)), s_schedEnable := True\<rparr>) }) =
      Some (s\<lparr>s_taskList := q, s_schedEnable := True\<rparr>)"
    by (auto simp: remove_item_def split: bind_splits prod.splits)
  with q(1,2) k(2) assms have r: "removeTask p s = Some (s\<lparr>s_taskList := q, s_schedEnable := True\<rparr>)"
    by (simp add: removeTask_def)
  have "remove1 p (run_queue s) \<noteq> []"
  proof
    assume "remove1 p (run_queue s) = []"
    with assms(3,6) show False by (cases "run_queue s") (auto split: if_splits)
  qed
  with r q(4,5) assms(1) k(3) show ?thesis
    by (auto simp: sched_inv_def run_queue_def distinct_remove1 dest: notin_set_remove1 set_remove1_subset [THEN subsetD])
qed

section \<open>Properties\<close>

definition example_task :: "task_state \<Rightarrow> uint64_t \<Rightarrow> task" where
  "example_task st w = \<lparr>m_tid = 1, m_state = st, m_addrSpace = 7, m_wakeUpAt = w, m_kernelStackTop = 9000,
     m_context = 8800, t_isUserTask = True\<rparr>"

text \<open>Three tasks: the current one at the front, one that sleeps, one whose wake-up time has passed.\<close>

definition example_sched :: "uint64_t \<Rightarrow> sched" where
  "example_sched now = \<lparr>s_taskList = (\<lparr>magic = MAGIC, m_size = 3, m_first = 16, m_last = 48\<rparr>,
      [16 \<mapsto> \<lparr>item = 100, next_ptr = 32, prev_ptr = 0\<rparr>, 32 \<mapsto> \<lparr>item = 200, next_ptr = 48, prev_ptr = 16\<rparr>,
       48 \<mapsto> \<lparr>item = 300, next_ptr = 0, prev_ptr = 32\<rparr>]),
     s_schedEnable = True, s_currentTask = 100,
     s_tasks = [100 \<mapsto> example_task SLEEPING (- 1), 200 \<mapsto> example_task SLEEPING (- 1),
       300 \<mapsto> example_task SLEEPING 5, 400 \<mapsto> example_task RUNNING (- 1)],
     s_timerTicks = now, s_cpu = \<lparr>cpu_space = 7, cpu_kernelStack = 1, cpu_fpuTrap = False, cpu_fpuEnabled = True\<rparr>, s_tidCounter = 5\<rparr>"

lemma example_sched_ptrs: "ptrs (s_taskList (example_sched now)) = [16, 32, 48]"
  by (simp add: ptrs_def example_sched_def) (simp add: numeral_3_eq_3)

lemma example_sched_queue: "run_queue (example_sched now) = [100, 200, 300]"
  by (simp add: run_queue_def contents_def example_sched_ptrs) (simp add: example_sched_def)

lemma example_sched_inv: "sched_inv (example_sched now)"
proof -
  have "klist_inv (s_taskList (example_sched now))"
    unfolding klist_inv_def example_sched_ptrs by (simp add: rep_def example_sched_def)
  then show ?thesis unfolding sched_inv_def example_sched_queue by (simp add: example_sched_def)
qed

lemma example_sched_ready:
  "\<not> ready (example_sched 9) 100" "\<not> ready (example_sched 9) 200" "ready (example_sched 9) 300"
  "\<not> ready (example_sched 5) 100" "\<not> ready (example_sched 5) 200" "\<not> ready (example_sched 5) 300"
  by (simp_all add: ready_def example_sched_def schedulable_def example_task_def)

text \<open>C1. A scheduling decision (\<^verbatim>\<open>core::schedule\<close>, \<^verbatim>\<open>getNextTask\<close>, \<^verbatim>\<open>Task::schedulable\<close>): when scheduling is
  enabled and some task of the run queue is running or has an expired wake-up time, the call
  returns; the chosen task is the first such task behind the front of the queue and becomes the
  front, tasks that were passed over keep their order at the end; the registers of the task that
  ran are saved in it, and the processor gets the chosen task's kernel stack, address space and
  saved registers.\<close>

theorem schedule_correct:
  assumes "sched_inv s" and "s_schedEnable s" and "rotate1 (run_queue s) = xs @ p # ys"
    and "\<forall>x \<in> set xs. \<not> ready s x" and "ready s p"
    and "s_tasks s p = Some t" and "s_currentTask s \<noteq> p" and "s_currentTask s \<noteq> 0" and "s_tasks s (s_currentTask s) = Some c"
    and "m_addrSpace c = cpu_space (s_cpu s)"
  shows "\<exists>s'. schedule ctx s = Some (m_context t, s') \<and> sched_inv s' \<and> run_queue s' = p # ys @ xs \<and>
     s_currentTask s' = p \<and> s_tasks s' (s_currentTask s) = Some (c\<lparr>m_context := ctx\<rparr>) \<and>
     (\<exists>t'. s_tasks s' p = Some t' \<and> m_state t' = RUNNING) \<and>
     s_cpu s' = (s_cpu s)\<lparr>cpu_space := m_addrSpace t, cpu_kernelStack := m_kernelStackTop t,
       cpu_fpuTrap := cpu_fpuEnabled (s_cpu s) \<or> cpu_fpuTrap (s_cpu s)\<rparr>"
proof -
  from getNextTask_finds [OF assms(1,3,4,5)] assms(6) obtain s1 where
    n: "getNextTask s = Some (p, s1)" "sched_inv s1" "run_queue s1 = p # ys @ xs"
      "s_tasks s1 = (s_tasks s)(p \<mapsto> snd (schedulable (s_timerTicks s) t))"
      and eq: "s1 = s\<lparr>s_taskList := s_taskList s1, s_tasks := s_tasks s1\<rparr>" by auto
  from eq have c: "s_currentTask s1 = s_currentTask s" "s_cpu s1 = s_cpu s"
    by (metis sched.select_convs(3) sched.surjective sched.update_convs(1,4),
        metis sched.select_convs(6) sched.surjective sched.update_convs(1,4))
  have p: "p \<noteq> 0" using n(2,3) by (auto simp: sched_inv_def)
  let ?t = "snd (schedulable (s_timerTicks s) t)"
  have f: "m_context ?t = m_context t" "m_addrSpace ?t = m_addrSpace t" "m_kernelStackTop ?t = m_kernelStackTop t"
    by (simp_all add: schedulable_def Let_def)
  have st: "m_state ?t = RUNNING" using assms(5,6) by (auto simp: ready_def schedulable_def Let_def)
  let ?cpu = "(s_cpu s)\<lparr>cpu_space := m_addrSpace t, cpu_kernelStack := m_kernelStackTop t,
       cpu_fpuTrap := cpu_fpuEnabled (s_cpu s) \<or> cpu_fpuTrap (s_cpu s)\<rparr>"
  let ?s = "s1\<lparr>s_tasks := (s_tasks s1)(s_currentTask s \<mapsto> c\<lparr>m_context := ctx\<rparr>), s_cpu := ?cpu, s_currentTask := p\<rparr>"
  have cpu: "(fpu_enableTrap (s_cpu s))\<lparr>cpu_kernelStack := k\<rparr> = (s_cpu s)\<lparr>cpu_kernelStack := k,
       cpu_fpuTrap := cpu_fpuEnabled (s_cpu s) \<or> cpu_fpuTrap (s_cpu s)\<rparr>"
    "(fpu_enableTrap ((s_cpu s)\<lparr>cpu_space := a\<rparr>))\<lparr>cpu_kernelStack := k\<rparr> = (s_cpu s)\<lparr>cpu_space := a, cpu_kernelStack := k,
       cpu_fpuTrap := cpu_fpuEnabled (s_cpu s) \<or> cpu_fpuTrap (s_cpu s)\<rparr>" for k a
    by (cases "s_cpu s", simp add: fpu_enableTrap_def)+
  have id: "cpu_space (s_cpu s) = a \<Longrightarrow> (s_cpu s)\<lparr>cpu_space := a, cpu_kernelStack := k, cpu_fpuTrap := b\<rparr> = (s_cpu s)\<lparr>cpu_kernelStack := k, cpu_fpuTrap := b\<rparr>"
    for a k b by (cases "s_cpu s") simp
  have "schedule ctx s = Some (m_context t, ?s)"
    using assms(2,7-10) n(1,4) c p f by (auto simp: schedule_def cpu id)
  moreover have "sched_inv ?s" using n(2,3,4) p assms(7) by (auto simp: sched_inv_def run_queue_def)
  moreover have "s_tasks ?s p = Some ?t" using n(4) assms(7) by simp
  ultimately show ?thesis using n(3) st by (auto simp: run_queue_def)
qed

theorem schedule_correct_witness:
  "\<exists>s'. schedule 1234 (example_sched 9) = Some (8800, s') \<and> run_queue s' = [300, 100, 200] \<and> s_currentTask s' = 300"
proof -
  let ?s = "example_sched 9"
  have "rotate1 (run_queue ?s) = [200] @ 300 # [100]" by (simp add: example_sched_queue)
  moreover have "s_schedEnable ?s" "s_tasks ?s 300 = Some (example_task SLEEPING 5)" "s_currentTask ?s = 100"
    "s_tasks ?s 100 = Some (example_task SLEEPING (- 1))" "cpu_space (s_cpu ?s) = 7"
    by (simp_all add: example_sched_def)
  ultimately show ?thesis
    using schedule_correct [OF example_sched_inv, of 9 "[200]" 300 "[100]" "example_task SLEEPING 5"
      "example_task SLEEPING (- 1)" 1234] example_sched_ready by (auto simp: example_task_def)
qed

text \<open>C36. Bounded waiting (\<^verbatim>\<open>getNextTask\<close>): from any state in which the task \<open>p\<close> of the run queue is ready, and
  as long as no task changes its own state, \<open>p\<close> is picked within as many scheduling decisions as
  the queue has tasks; each of those decisions returns.\<close>

theorem getNextTask_bounded_waiting:
  assumes "sched_inv s" and "p \<in> set (run_queue s)" and "ready s p"
  shows "\<exists>k ps s'. 0 < k \<and> k \<le> length (run_queue s) \<and> decisions k s = Some (ps @ [p], s') \<and> sched_inv s'"
proof -
  from assms(2) obtain xs ys where x: "rotate1 (run_queue s) = xs @ p # ys"
    by (metis set_rotate1 split_list)
  then have l: "length (run_queue s) = length xs + Suc (length ys)" by (metis length_Cons length_append length_rotate1)
  from decisions_reach [OF assms(1) x assms(3)] obtain k ps s' where
    "k \<le> length xs" "decisions (Suc k) s = Some (ps @ [p], s')" "sched_inv s'" by blast
  with l show ?thesis by (intro exI [of _ "Suc k"] exI [of _ ps] exI [of _ s']) simp
qed

theorem getNextTask_bounded_waiting_witness:
  "\<exists>k ps s'. 0 < k \<and> k \<le> 3 \<and> decisions k (example_sched 9) = Some (ps @ [300], s')"
  using getNextTask_bounded_waiting [OF example_sched_inv, of 300 9] example_sched_ready
  by (auto simp: example_sched_queue)

text \<open>Nobody ready (\<^verbatim>\<open>getNextTask\<close>): if every task of the run queue is killed or asleep with no
  expired wake-up time, the search loop never ends; the scheduler relies on an idle task that
  never sleeps.\<close>

theorem getNextTask_diverges:
  assumes "sched_inv s" and "\<forall>x \<in> set (run_queue s). \<not> ready s x"
  shows "getNextTask s = None"
  by (rule getNextTask_stuck [OF assms])

theorem getNextTask_diverges_witness: "getNextTask (example_sched 5) = None"
  using getNextTask_diverges [OF example_sched_inv, of 5] example_sched_ready by (simp add: example_sched_queue)

text \<open>Run queue maintenance (\<^verbatim>\<open>insertTask\<close>, \<^verbatim>\<open>removeTask\<close>): inserting a running task that is not queued and
  removing it once it was killed returns the run queue to what it was, with the invariant kept.\<close>

theorem insertTask_removeTask:
  assumes "sched_inv s" and "s_schedEnable s" and "s_tasks s p = Some t" and "p \<noteq> 0" and "m_state t = RUNNING"
    and "p \<notin> set (run_queue s)" and "mem \<noteq> 0" and "mem \<notin> set (ptrs (s_taskList s))"
  shows "\<exists>s1 s2. insertTask p mem s = Some s1 \<and> sched_inv s1 \<and> run_queue s1 = run_queue s @ [p] \<and>
     removeTask p (s1\<lparr>s_tasks := (s_tasks s1)(p \<mapsto> t\<lparr>m_state := KILLED\<rparr>)\<rparr>) = Some s2 \<and>
     sched_inv s2 \<and> run_queue s2 = run_queue s"
proof -
  from insertTask_ok [OF assms] obtain s1 where
    i: "insertTask p mem s = Some s1" "sched_inv s1" "run_queue s1 = run_queue s @ [p]" by blast
  from i(1) have e: "s_schedEnable s1" by (auto simp: insertTask_def split: bind_splits)
  let ?s = "s1\<lparr>s_tasks := (s_tasks s1)(p \<mapsto> t\<lparr>m_state := KILLED\<rparr>)\<rparr>"
  have "sched_inv ?s" "run_queue ?s = run_queue s @ [p]" "run_queue s \<noteq> []"
    using i(2,3) assms(1) by (auto simp: sched_inv_def run_queue_def)
  with removeTask_ok [of ?s p "t\<lparr>m_state := KILLED\<rparr>"] i e assms(6) show ?thesis
    by (auto simp: remove1_append)
qed

theorem insertTask_removeTask_witness:
  "\<exists>s1 s2. insertTask 400 64 (example_sched 9) = Some s1 \<and>
     removeTask 400 (s1\<lparr>s_tasks := (s_tasks s1)(400 \<mapsto> example_task KILLED (- 1))\<rparr>) = Some s2 \<and>
     run_queue s2 = [100, 200, 300]"
proof -
  let ?t = "example_task RUNNING (- 1)"
  have "s_tasks (example_sched 9) 400 = Some ?t" "s_schedEnable (example_sched 9)" "m_state ?t = RUNNING"
    "?t\<lparr>m_state := KILLED\<rparr> = example_task KILLED (- 1)"
    by (simp_all add: example_sched_def example_task_def)
  with insertTask_removeTask [OF example_sched_inv, of 9 400 ?t 64] show ?thesis
    by (auto simp: example_sched_queue example_sched_ptrs)
qed

end
