(* ===== verification/Mutex.thy ===== *)
theory Mutex
  imports Sched
begin

text \<open>
  The sleeping lock of \<^verbatim>\<open>kernel/sync/mutex.cpp\<close> under interleaving. Several tasks run \<^verbatim>\<open>Mutex::lock\<close> and
  \<^verbatim>\<open>Mutex::unlock\<close>; a timer interrupt can switch tasks between any two memory accesses, so each
  access is one step of the relation \<open>mstep\<close>. \<^verbatim>\<open>sleepAndUnlock\<close> runs with the scheduler disabled on
  a single processor, so going to sleep and releasing the list lock are one step (lemma
  \<open>sleepAndUnlock_atomic\<close>). A failed assertion is the state \<open>x_panic\<close>.
\<close>

section \<open>Sleeping and unlocking without a switch in between\<close>

lemma sleepAndUnlock_atomic:
  assumes "s_tasks s self = Some t" and "self \<noteq> 0" and "s_currentTask s = self" and "m_state t = RUNNING"
    and "unlock (s\<lparr>s_schedEnable := False, s_tasks := (s_tasks s)(self \<mapsto> t\<lparr>m_state := SLEEPING\<rparr>)\<rparr>) = Some s2"
  shows "sleepAndUnlock unlock self ctx s = schedule ctx (s2\<lparr>s_schedEnable := True\<rparr>)"
  using assms by (simp add: sleepAndUnlock_def task_sleep_def yield_task_def)

section \<open>Steps\<close>

text \<open>Where a task is in \<^verbatim>\<open>lock\<close> (\<open>Trying\<close>: at the exchange; \<open>Failed\<close>, \<open>Queueing\<close>, \<open>Queued\<close>: in the loop
  body; \<open>Asleep\<close>; \<open>Acquired\<close>: out of the loop) or in \<^verbatim>\<open>unlock\<close> (\<open>Rel1\<close> \dots \<open>Rel4\<close>).\<close>

datatype pc = Idle | Trying | Failed | Queueing | Queued | Asleep | Acquired | Holding | Rel1 | Rel2 | Rel3 | Rel4

record mutex =
  x_lock :: size_t
  x_heldBy :: addr
  x_waitingTasks :: "addr list"
  x_waitingTasksLock :: "addr option"
  x_pc :: "addr \<Rightarrow> pc"
  x_panic :: bool

definition new_mutex :: mutex where
  "new_mutex = \<lparr>x_lock = 0, x_heldBy = 0, x_waitingTasks = [], x_waitingTasksLock = None,
     x_pc = (\<lambda>_. Idle), x_panic = False\<rparr>"

definition goto :: "addr \<Rightarrow> pc \<Rightarrow> mutex \<Rightarrow> mutex" where
  "goto t l m = m\<lparr>x_pc := (x_pc m)(t := l)\<rparr>"

inductive mstep :: "addr \<Rightarrow> mutex \<Rightarrow> mutex \<Rightarrow> bool" for t :: addr where
  lock_call: "t \<noteq> 0 \<Longrightarrow> x_pc m t = Idle \<Longrightarrow> mstep t m (goto t Trying m)"
| lock_xchg: "x_pc m t = Trying \<Longrightarrow> xchg 1 (x_lock m) = (old, new) \<Longrightarrow>
    mstep t m (goto t (if old \<noteq> 0 then Failed else Acquired) (m\<lparr>x_lock := new\<rparr>))"
| lock_list: "x_pc m t = Failed \<Longrightarrow> x_waitingTasksLock m = None \<Longrightarrow>
    mstep t m (goto t Queueing (m\<lparr>x_waitingTasksLock := Some t\<rparr>))"
| lock_push: "x_pc m t = Queueing \<Longrightarrow>
    mstep t m (goto t Queued (m\<lparr>x_waitingTasks := x_waitingTasks m @ [t]\<rparr>))"
| lock_sleep: "x_pc m t = Queued \<Longrightarrow> mstep t m (goto t Asleep (m\<lparr>x_waitingTasksLock := None\<rparr>))"
| lock_done: "x_pc m t = Acquired \<Longrightarrow> mstep t m (goto t Holding (m\<lparr>x_heldBy := t\<rparr>))"
| unlock_call: "x_pc m t = Holding \<Longrightarrow> x_lock m = 1 \<Longrightarrow> x_heldBy m = t \<Longrightarrow>
    mstep t m (goto t Rel1 (m\<lparr>x_heldBy := 0\<rparr>))"
| unlock_assert: "x_pc m t = Holding \<Longrightarrow> x_lock m \<noteq> 1 \<or> x_heldBy m \<noteq> t \<Longrightarrow> mstep t m (m\<lparr>x_panic := True\<rparr>)"
| unlock_store: "x_pc m t = Rel1 \<Longrightarrow> mstep t m (goto t Rel2 (m\<lparr>x_lock := 0\<rparr>))"
| unlock_list: "x_pc m t = Rel2 \<Longrightarrow> x_waitingTasksLock m = None \<Longrightarrow>
    mstep t m (goto t Rel3 (m\<lparr>x_waitingTasksLock := Some t\<rparr>))"
| unlock_none: "x_pc m t = Rel3 \<Longrightarrow> x_waitingTasks m = [] \<Longrightarrow> mstep t m (goto t Rel4 m)"
| unlock_wake: "x_pc m t = Rel3 \<Longrightarrow> x_waitingTasks m = u # us \<Longrightarrow> x_pc m u = Asleep \<Longrightarrow>
    mstep t m (goto t Rel4 (goto u Trying (m\<lparr>x_waitingTasks := us\<rparr>)))"
| unlock_wake_assert: "x_pc m t = Rel3 \<Longrightarrow> x_waitingTasks m = u # us \<Longrightarrow> x_pc m u \<noteq> Asleep \<Longrightarrow>
    mstep t m (m\<lparr>x_panic := True\<rparr>)"
| unlock_done: "x_pc m t = Rel4 \<Longrightarrow> mstep t m (goto t Idle (m\<lparr>x_waitingTasksLock := None\<rparr>))"

inductive_cases mstep_cases: "mstep t m m'"

inductive mreach :: "mutex \<Rightarrow> bool" where
  mreach_init: "mreach new_mutex"
| mreach_step: "mreach m \<Longrightarrow> mstep t m m' \<Longrightarrow> mreach m'"

text \<open>\<^verbatim>\<open>Mutex::getHolder\<close> polls: each element of \<open>obs\<close> is what one turn of its loop reads, \<^verbatim>\<open>m_lock\<close> and
  then \<^verbatim>\<open>m_heldBy\<close> twice.\<close>

fun getHolder :: "(size_t \<times> addr \<times> addr) list \<Rightarrow> addr option" where
  "getHolder [] = None"
| "getHolder ((l, h1, h2) # obs) = (if l \<noteq> 0 then if h1 = 0 then getHolder obs else Some h2 else Some 0)"

definition isHeld :: "addr \<Rightarrow> (size_t \<times> addr \<times> addr) list \<Rightarrow> bool option" where
  "isHeld currentTask obs = do { h \<leftarrow> getHolder obs; Some (currentTask = h) }"

definition mutex_destroy :: "mutex \<Rightarrow> unit option" where
  "mutex_destroy m = do {
     kassert (x_lock m = 0);
     kassert (x_heldBy m = 0);
     kassert (length (x_waitingTasks m) = 0)
   }"

section \<open>Invariant\<close>

definition critical :: "pc \<Rightarrow> bool" where
  "critical l \<longleftrightarrow> l = Acquired \<or> l = Holding \<or> l = Rel1"

definition has_list :: "pc \<Rightarrow> bool" where
  "has_list l \<longleftrightarrow> l = Queueing \<or> l = Queued \<or> l = Rel3 \<or> l = Rel4"

definition waits :: "pc \<Rightarrow> bool" where
  "waits l \<longleftrightarrow> l = Queued \<or> l = Asleep"

lemma pc_classes [simp]:
  "critical Acquired" "critical Holding" "critical Rel1" "\<not> critical Idle" "\<not> critical Trying" "\<not> critical Failed"
  "\<not> critical Queueing" "\<not> critical Queued" "\<not> critical Asleep" "\<not> critical Rel2" "\<not> critical Rel3" "\<not> critical Rel4"
  "has_list Queueing" "has_list Queued" "has_list Rel3" "has_list Rel4" "\<not> has_list Idle" "\<not> has_list Trying"
  "\<not> has_list Failed" "\<not> has_list Asleep" "\<not> has_list Acquired" "\<not> has_list Holding" "\<not> has_list Rel1" "\<not> has_list Rel2"
  "waits Queued" "waits Asleep" "\<not> waits Idle" "\<not> waits Trying" "\<not> waits Failed" "\<not> waits Queueing"
  "\<not> waits Acquired" "\<not> waits Holding" "\<not> waits Rel1" "\<not> waits Rel2" "\<not> waits Rel3" "\<not> waits Rel4"
  by (simp_all add: critical_def has_list_def waits_def)

text \<open>\<open>ow\<close> is the one task past a successful exchange, if any.\<close>

definition minv :: "mutex \<Rightarrow> addr option \<Rightarrow> bool" where
  "minv m ow \<longleftrightarrow> \<not> x_panic m \<and>
     (\<forall>t. critical (x_pc m t) \<longleftrightarrow> ow = Some t) \<and> x_lock m = (if ow = None then 0 else 1) \<and>
     (\<forall>t. x_pc m t = Holding \<longrightarrow> x_heldBy m = t) \<and>
     (\<forall>t. has_list (x_pc m t) \<longleftrightarrow> x_waitingTasksLock m = Some t) \<and>
     distinct (x_waitingTasks m) \<and> (\<forall>t. t \<in> set (x_waitingTasks m) \<longleftrightarrow> waits (x_pc m t))"

lemma minv_init: "minv new_mutex None"
  by (simp add: minv_def new_mutex_def)

lemma goto_sel [simp]:
  "x_pc (goto t l m) = (x_pc m)(t := l)" "x_lock (goto t l m) = x_lock m" "x_heldBy (goto t l m) = x_heldBy m"
  "x_waitingTasks (goto t l m) = x_waitingTasks m" "x_waitingTasksLock (goto t l m) = x_waitingTasksLock m"
  "x_panic (goto t l m) = x_panic m"
  by (simp_all add: goto_def)

lemma minvD:
  assumes "minv m ow"
  shows "\<not> x_panic m" and "critical (x_pc m t) \<longleftrightarrow> ow = Some t" and "x_lock m = (if ow = None then 0 else 1)"
    and "x_pc m t = Holding \<Longrightarrow> x_heldBy m = t" and "has_list (x_pc m t) \<longleftrightarrow> x_waitingTasksLock m = Some t"
    and "distinct (x_waitingTasks m)" and "t \<in> set (x_waitingTasks m) \<longleftrightarrow> waits (x_pc m t)"
  using assms by (auto simp: minv_def)

text \<open>One task moves to the place \<open>l\<close>: what the move must keep.\<close>

lemma minv_move:
  assumes "minv m ow" and "x_pc m' = (x_pc m)(t := l)" and "\<not> x_panic m'"
    and "\<And>u. u \<noteq> t \<Longrightarrow> ow' = Some u \<longleftrightarrow> ow = Some u" and "critical l \<longleftrightarrow> ow' = Some t"
    and "x_lock m' = (if ow' = None then 0 else 1)"
    and "l = Holding \<Longrightarrow> x_heldBy m' = t" and "x_heldBy m' = x_heldBy m \<or> ow = Some t"
    and "\<And>u. u \<noteq> t \<Longrightarrow> x_waitingTasksLock m' = Some u \<longleftrightarrow> x_waitingTasksLock m = Some u"
    and "has_list l \<longleftrightarrow> x_waitingTasksLock m' = Some t" and "distinct (x_waitingTasks m')"
    and "\<And>u. u \<noteq> t \<Longrightarrow> u \<in> set (x_waitingTasks m') \<longleftrightarrow> u \<in> set (x_waitingTasks m)"
    and "waits l \<longleftrightarrow> t \<in> set (x_waitingTasks m')"
  shows "minv m' ow'"
proof -
  have "x_heldBy m' = u" if "x_pc m' u = Holding" for u
  proof (cases "u = t")
    case False
    with that assms(2) have "x_pc m u = Holding" by simp
    with minvD(2,4) [OF assms(1), of u] False assms(8) show ?thesis by auto
  qed (use that assms(2,7) in auto)
  moreover have "critical (x_pc m' u) \<longleftrightarrow> ow' = Some u" for u
    using minvD(2) [OF assms(1), of u] assms(2,4,5) by (cases "u = t") auto
  moreover have "has_list (x_pc m' u) \<longleftrightarrow> x_waitingTasksLock m' = Some u" for u
    using minvD(5) [OF assms(1), of u] assms(2,9,10) by (cases "u = t") auto
  moreover have "u \<in> set (x_waitingTasks m') \<longleftrightarrow> waits (x_pc m' u)" for u
    using minvD(7) [OF assms(1), of u] assms(2,12,13) by (cases "u = t") auto
  ultimately show ?thesis using assms(3,6,11) by (simp add: minv_def)
qed

lemma minv_step:
  assumes "mstep t m m'" and "minv m ow"
  shows "\<exists>ow'. minv m' ow'"
proof -
  note f = minvD [OF assms(2)]
  from assms(1) show ?thesis
  proof cases
    case lock_call
    then show ?thesis
      by (intro exI [of _ "ow"] minv_move [OF assms(2), of m' t Trying]) (use f(1,3,6) f(2,4,5,7) [of t] in \<open>auto\<close>)
  next
    case (lock_xchg old new)
    then have "old = x_lock m" "new = 1" by (simp_all add: xchg_def)
    with lock_xchg show ?thesis
      by (intro exI [of _ "if ow = None then Some t else ow"] minv_move [OF assms(2), of m' t "if old \<noteq> 0 then Failed else Acquired"])
        (use f(1,3,6) f(2,4,5,7) [of t] in \<open>auto split: if_splits\<close>)
  next
    case lock_list
    then show ?thesis
      by (intro exI [of _ "ow"] minv_move [OF assms(2), of m' t Queueing]) (use f(1,3,6) f(2,4,5,7) [of t] in \<open>auto\<close>)
  next
    case lock_push
    then show ?thesis
      by (intro exI [of _ "ow"] minv_move [OF assms(2), of m' t Queued]) (use f(1,3,6) f(2,4,5,7) [of t] in \<open>auto\<close>)
  next
    case lock_sleep
    then show ?thesis
      by (intro exI [of _ "ow"] minv_move [OF assms(2), of m' t Asleep]) (use f(1,3,6) f(2,4,5,7) [of t] in \<open>auto\<close>)
  next
    case lock_done
    then show ?thesis
      by (intro exI [of _ "ow"] minv_move [OF assms(2), of m' t Holding]) (use f(1,3,6) f(2,4,5,7) [of t] in \<open>auto\<close>)
  next
    case unlock_call
    then show ?thesis
      by (intro exI [of _ "ow"] minv_move [OF assms(2), of m' t Rel1]) (use f(1,3,6) f(2,4,5,7) [of t] in \<open>auto\<close>)
  next
    case unlock_assert
    with f(2,4) [of t] f(3) show ?thesis by auto
  next
    case unlock_store
    then show ?thesis
      by (intro exI [of _ "None"] minv_move [OF assms(2), of m' t Rel2]) (use f(1,3,6) f(2,4,5,7) [of t] in \<open>auto\<close>)
  next
    case unlock_list
    then show ?thesis
      by (intro exI [of _ "ow"] minv_move [OF assms(2), of m' t Rel3]) (use f(1,3,6) f(2,4,5,7) [of t] in \<open>auto\<close>)
  next
    case unlock_none
    then show ?thesis
      by (intro exI [of _ "ow"] minv_move [OF assms(2), of m' t Rel4]) (use f(1,3,6) f(2,4,5,7) [of t] in \<open>auto\<close>)
  next
    case (unlock_wake u us)
    let ?m = "goto u Trying (m\<lparr>x_waitingTasks := us\<rparr>)"
    have i: "minv ?m ow"
      by (rule minv_move [OF assms(2), of _ u Trying]) (use unlock_wake f(1,3,6) f(2,4,5,7) [of u] in auto)
    note g = minvD [OF i]
    from unlock_wake f(5) [of t] f(5) [of u] have "t \<noteq> u" by auto
    with unlock_wake show ?thesis
      by (intro exI [of _ ow] minv_move [OF i, of m' t Rel4]) (use g(1,3,6) g(2,4,5,7) [of t] in auto)
  next
    case (unlock_wake_assert u us)
    with f(5) [of t] f(5,7) [of u] show ?thesis by (auto simp: waits_def has_list_def)
  next
    case unlock_done
    then show ?thesis
      by (intro exI [of _ "ow"] minv_move [OF assms(2), of m' t Idle]) (use f(1,3,6) f(2,4,5,7) [of t] in \<open>auto\<close>)
  qed
qed

lemma mreach_inv: "mreach m \<Longrightarrow> \<exists>ow. minv m ow"
  by (induction rule: mreach.induct) (auto intro: minv_init dest: minv_step)

section \<open>Properties\<close>

text \<open>Two tasks, the rest idle.\<close>

definition two :: "size_t \<Rightarrow> addr \<Rightarrow> addr list \<Rightarrow> addr option \<Rightarrow> pc \<Rightarrow> pc \<Rightarrow> mutex" where
  "two l h w wl a b = \<lparr>x_lock = l, x_heldBy = h, x_waitingTasks = w, x_waitingTasksLock = wl,
     x_pc = (\<lambda>t. if t = 1 then a else if t = 2 then b else Idle), x_panic = False\<rparr>"

lemma two_goto:
  "goto 1 c (two l h w wl a b) = two l h w wl c b" "goto 2 c (two l h w wl a b) = two l h w wl a c"
  by (auto simp: goto_def two_def fun_eq_iff)

lemma two_sel [simp]:
  "x_pc (two l h w wl a b) 1 = a" "x_pc (two l h w wl a b) 2 = b" "x_lock (two l h w wl a b) = l"
  "x_heldBy (two l h w wl a b) = h" "x_waitingTasks (two l h w wl a b) = w" "x_waitingTasksLock (two l h w wl a b) = wl"
  "(two l h w wl a b)\<lparr>x_lock := l'\<rparr> = two l' h w wl a b" "(two l h w wl a b)\<lparr>x_heldBy := h'\<rparr> = two l h' w wl a b"
  "(two l h w wl a b)\<lparr>x_waitingTasks := w'\<rparr> = two l h w' wl a b"
  "(two l h w wl a b)\<lparr>x_waitingTasksLock := wl'\<rparr> = two l h w wl' a b"
  by (simp_all add: two_def)

lemma two_step: "mreach m \<Longrightarrow> mstep t m m' \<Longrightarrow> m' = m'' \<Longrightarrow> mreach m''"
  using mreach_step by blast

lemma lost_wakeup_reached: "mreach (two 0 0 [2] None Idle Asleep)"
proof -
  have "new_mutex = two 0 0 [] None Idle Idle"
    by (auto simp: new_mutex_def two_def fun_eq_iff)
  with mreach_init have r0: "mreach (two 0 0 [] None Idle Idle)" by simp
  from r0 have "mreach (two 0 0 [] None Trying Idle)"
    by (rule two_step [OF _ mstep.lock_call [of 1 "two 0 0 [] None Idle Idle"]]) (simp_all add: two_goto xchg_def)
  from this have "mreach (two 1 0 [] None Acquired Idle)"
    by (rule two_step [OF _ mstep.lock_xchg [of "two 0 0 [] None Trying Idle" 1 0 1]]) (simp_all add: two_goto xchg_def)
  from this have "mreach (two 1 1 [] None Holding Idle)"
    by (rule two_step [OF _ mstep.lock_done [of "two 1 0 [] None Acquired Idle" 1]]) (simp_all add: two_goto xchg_def)
  from this have "mreach (two 1 1 [] None Holding Trying)"
    by (rule two_step [OF _ mstep.lock_call [of 2 "two 1 1 [] None Holding Idle"]]) (simp_all add: two_goto xchg_def)
  from this have "mreach (two 1 1 [] None Holding Failed)"
    by (rule two_step [OF _ mstep.lock_xchg [of "two 1 1 [] None Holding Trying" 2 1 1]]) (simp_all add: two_goto xchg_def)
  from this have "mreach (two 1 0 [] None Rel1 Failed)"
    by (rule two_step [OF _ mstep.unlock_call [of "two 1 1 [] None Holding Failed" 1]]) (simp_all add: two_goto xchg_def)
  from this have "mreach (two 0 0 [] None Rel2 Failed)"
    by (rule two_step [OF _ mstep.unlock_store [of "two 1 0 [] None Rel1 Failed" 1]]) (simp_all add: two_goto xchg_def)
  from this have "mreach (two 0 0 [] (Some 1) Rel3 Failed)"
    by (rule two_step [OF _ mstep.unlock_list [of "two 0 0 [] None Rel2 Failed" 1]]) (simp_all add: two_goto xchg_def)
  from this have "mreach (two 0 0 [] (Some 1) Rel4 Failed)"
    by (rule two_step [OF _ mstep.unlock_none [of "two 0 0 [] (Some 1) Rel3 Failed" 1]]) (simp_all add: two_goto xchg_def)
  from this have "mreach (two 0 0 [] None Idle Failed)"
    by (rule two_step [OF _ mstep.unlock_done [of "two 0 0 [] (Some 1) Rel4 Failed" 1]]) (simp_all add: two_goto xchg_def)
  from this have "mreach (two 0 0 [] (Some 2) Idle Queueing)"
    by (rule two_step [OF _ mstep.lock_list [of "two 0 0 [] None Idle Failed" 2]]) (simp_all add: two_goto xchg_def)
  from this have "mreach (two 0 0 [2] (Some 2) Idle Queued)"
    by (rule two_step [OF _ mstep.lock_push [of "two 0 0 [] (Some 2) Idle Queueing" 2]]) (simp_all add: two_goto xchg_def)
  from this have "mreach (two 0 0 [2] None Idle Asleep)"
    by (rule two_step [OF _ mstep.lock_sleep [of "two 0 0 [2] (Some 2) Idle Queued" 2]]) (simp_all add: two_goto xchg_def)
  then show ?thesis .
qed

text \<open>C2. Safety of the mutex under every interleaving (\<^verbatim>\<open>Mutex::lock\<close>, \<^verbatim>\<open>Mutex::unlock\<close>): at most one task is past a
  successful exchange, \<^verbatim>\<open>m_lock\<close> is 1 exactly when there is one, the recorded holder is the task that
  holds it, every sleeping task is on the waiting list, and none of the assertions in
  \<^verbatim>\<open>unlock\<close> and \<^verbatim>\<open>Task::resume\<close> can fail.\<close>

theorem mutex_safe:
  assumes "mreach m"
  shows "\<not> x_panic m \<and> (critical (x_pc m t) \<and> critical (x_pc m u) \<longrightarrow> t = u) \<and>
     (x_lock m = 1 \<longleftrightarrow> (\<exists>t. critical (x_pc m t))) \<and> (x_pc m t = Holding \<longrightarrow> x_heldBy m = t) \<and>
     (x_pc m t = Asleep \<longrightarrow> t \<in> set (x_waitingTasks m))"
proof -
  from mreach_inv [OF assms] obtain ow where i: "minv m ow" ..
  note f = minvD [OF i]
  have "(\<exists>t. critical (x_pc m t)) \<longleftrightarrow> ow \<noteq> None" using f(2) by auto
  with f(1,3) f(2) [of t] f(2) [of u] f(4,7) [of t] show ?thesis by auto
qed

theorem mutex_safe_witness:
  "\<not> x_panic (two 0 0 [2] None Idle Asleep) \<and> 2 \<in> set (x_waitingTasks (two 0 0 [2] None Idle Asleep))"
  using mutex_safe [OF lost_wakeup_reached, of 2 2] by simp

text \<open>C38. A wake-up can be lost (\<^verbatim>\<open>Mutex::lock\<close>): a task whose exchange failed can be preempted before it
  queues itself; when the holder releases the mutex in between it finds nobody to wake. The task
  then goes to sleep on a free mutex: a reachable state in which the mutex is free, every other
  task has left it, and the waiting task has no step of its own.\<close>

theorem mutex_lost_wakeup:
  "\<exists>m. mreach m \<and> x_lock m = 0 \<and> x_waitingTasks m = [2] \<and>
     x_pc m = (\<lambda>_. Idle)(2 := Asleep) \<and> \<not> (\<exists>m'. mstep 2 m m')"
proof -
  let ?m = "two 0 0 [2] None Idle Asleep"
  have "\<not> mstep 2 ?m m'" for m' by (auto elim!: mstep_cases)
  moreover have "x_pc ?m = (\<lambda>_. Idle)(2 := Asleep)" by (auto simp: two_def fun_eq_iff)
  ultimately show ?thesis using lost_wakeup_reached by (intro exI [of _ ?m]) auto
qed

end
