(* ===== verification/Queue.thy ===== *)
theory Queue
  imports Sched
begin

text \<open>
  The byte queue \<^verbatim>\<open>IQueue\<close> of \<^verbatim>\<open>kernel/queue.cpp\<close>, behind terminals and pipes: a ring buffer of 4096
  bytes that drops the oldest byte when it is full, and a list of tasks that wait for data. The
  parts of \<^verbatim>\<open>read\<close> and \<^verbatim>\<open>write\<close> under the buffer lock are one operation each; \<^verbatim>\<open>read\<close> is split where
  the task goes to sleep. The abstraction \<open>stored\<close> is the sequence of bytes in the buffer, oldest
  first.
\<close>

section \<open>Data\<close>

definition QUEUE_BUFFER_SIZE :: size_t where "QUEUE_BUFFER_SIZE = 4096"

record queue =
  q_buffer :: "uint8_t list"
  q_available :: size_t
  q_readPtr :: size_t
  q_writePtr :: size_t
  q_subscriberCount :: size_t
  q_readSubscribers :: "klist \<times> addr nodes"

text \<open>\<open>garbage\<close> is the uninitialised buffer memory.\<close>

definition new_queue :: "uint8_t list \<Rightarrow> addr nodes \<Rightarrow> queue" where
  "new_queue garbage h = \<lparr>q_buffer = garbage, q_available = 0, q_readPtr = 0, q_writePtr = 0,
     q_subscriberCount = 0, q_readSubscribers = (new_list, h)\<rparr>"

section \<open>Operations\<close>

text \<open>The copy loop of \<^verbatim>\<open>read\<close>; the first argument is \<^verbatim>\<open>len - bytes_read\<close>.\<close>

fun read_loop :: "nat \<Rightarrow> queue \<Rightarrow> (uint8_t list \<times> queue) option" where
  "read_loop 0 q = Some ([], q)"
| "read_loop (Suc n) q =
     (if q_available q > 0 then do {
        kassert (q_readPtr q < QUEUE_BUFFER_SIZE);
        let c = q_buffer q ! unat (q_readPtr q);
        let q1 = q\<lparr>q_readPtr := q_readPtr q + 1\<rparr>;
        let q2 = (if q_readPtr q1 = QUEUE_BUFFER_SIZE then q1\<lparr>q_readPtr := 0\<rparr> else q1);
        (cs, q3) \<leftarrow> read_loop n (q2\<lparr>q_available := q_available q2 - 1\<rparr>);
        Some (c # cs, q3)
      }
      else Some ([], q))"

text \<open>Entering \<^verbatim>\<open>read\<close>: with an empty buffer the task queues itself (\<open>mem\<close> is the new list item) and
  goes to sleep; \<open>Inl\<close> is the switch to another task, \<open>Inr\<close> that it goes on at once.\<close>

definition read_enter :: "addr \<Rightarrow> addr \<Rightarrow> queue \<Rightarrow> sched \<Rightarrow> (queue \<times> ((addr \<times> sched) + sched)) option" where
  "read_enter mem ctx q s = do {
     let q1 = q\<lparr>q_subscriberCount := snd (atomic_add (q_subscriberCount q) 1)\<rparr>;
     if q_available q1 = 0 then do {
       subs \<leftarrow> push_back (s_currentTask s) mem (q_readSubscribers q1);
       sw \<leftarrow> sleepAndUnlock Some (s_currentTask s) ctx s;
       Some (q1\<lparr>q_readSubscribers := subs\<rparr>, Inl sw)
     }
     else Some (q1, Inr s)
   }"

text \<open>The rest of \<^verbatim>\<open>read\<close>, under the lock; the result is the number of bytes and the bytes.\<close>

definition read_copy :: "size_t \<Rightarrow> queue \<Rightarrow> (size_t \<times> uint8_t list \<times> queue) option" where
  "read_copy len q = do {
     (cs, q1) \<leftarrow> read_loop (unat len) q;
     let bytes_read = of_nat (length cs);
     let q2 = q1\<lparr>q_subscriberCount := snd (atomic_add (q_subscriberCount q1) (- 1))\<rparr>;
     kassert (bytes_read \<le> len);
     Some (bytes_read, cs, q2)
   }"

definition put_byte :: "uint8_t \<Rightarrow> queue \<Rightarrow> queue option" where
  "put_byte c q = do {
     kassert (q_writePtr q < QUEUE_BUFFER_SIZE);
     let q1 = q\<lparr>q_buffer := (q_buffer q)[unat (q_writePtr q) := c], q_writePtr := q_writePtr q + 1\<rparr>;
     let q2 = (if q_writePtr q1 = QUEUE_BUFFER_SIZE then q1\<lparr>q_writePtr := 0\<rparr> else q1);
     if q_available q2 < QUEUE_BUFFER_SIZE
     then Some (q2\<lparr>q_available := q_available q2 + 1\<rparr>)
     else do {
       let q3 = q2\<lparr>q_readPtr := q_readPtr q2 + 1\<rparr>;
       Some (if q_readPtr q3 = QUEUE_BUFFER_SIZE then q3\<lparr>q_readPtr := 0\<rparr> else q3)
     }
   }"

fun write_loop :: "uint8_t list \<Rightarrow> queue \<Rightarrow> queue option" where
  "write_loop [] q = Some q"
| "write_loop (c # cs) q = put_byte c q \<bind> write_loop cs"

partial_function (option) wakeupSubscribers :: "queue \<times> sched \<Rightarrow> (queue \<times> sched) option" where
  "wakeupSubscribers qs = (case qs of (q, s) \<Rightarrow> do {
     n \<leftarrow> size_of_list (fst (q_readSubscribers q));
     if n > 0 then do {
       (t, subs) \<leftarrow> pop_front (q_readSubscribers q);
       s1 \<leftarrow> resume t s;
       wakeupSubscribers (q\<lparr>q_readSubscribers := subs\<rparr>, s1)
     }
     else Some (q, s)
   })"

definition queue_write :: "uint8_t list \<Rightarrow> queue \<times> sched \<Rightarrow> (size_t \<times> queue \<times> sched) option" where
  "queue_write buffer qs = (case qs of (q, s) \<Rightarrow> do {
     q1 \<leftarrow> write_loop buffer q;
     qs1 \<leftarrow> wakeupSubscribers (q1, s);
     Some (of_nat (length buffer), qs1)
   })"

section \<open>Abstraction\<close>

definition stored :: "queue \<Rightarrow> uint8_t list" where
  "stored q = map (\<lambda>i. q_buffer q ! ((unat (q_readPtr q) + i) mod 4096)) [0..<unat (q_available q)]"

definition queue_inv :: "queue \<Rightarrow> bool" where
  "queue_inv q \<longleftrightarrow> length (q_buffer q) = 4096 \<and> unat (q_readPtr q) < 4096 \<and> unat (q_available q) \<le> 4096 \<and>
     unat (q_writePtr q) = (unat (q_readPtr q) + unat (q_available q)) mod 4096"

text \<open>What a bounded queue keeps: the newest 4096 bytes.\<close>

definition newest :: "uint8_t list \<Rightarrow> uint8_t list" where
  "newest xs = drop (length xs - 4096) xs"

lemma newest_short: "length xs \<le> 4096 \<Longrightarrow> newest xs = xs"
  by (simp add: newest_def)

lemma newest_append: "newest (newest xs @ ys) = newest (xs @ ys)"
proof (cases "length xs \<le> 4096")
  case False
  then have "length xs + length ys - (length xs - 4096 + 4096) + (length xs - 4096) = length xs + length ys - 4096" by simp
  with False show ?thesis by (simp add: newest_def)
qed (simp add: newest_short)

lemma stored_length [simp]: "length (stored q) = unat (q_available q)"
  by (simp add: stored_def)

definition bump :: "size_t \<Rightarrow> size_t" where
  "bump w = (if w + 1 = QUEUE_BUFFER_SIZE then 0 else w + 1)"

lemma unat_bump:
  assumes "unat w < 4096"
  shows "unat (bump w) = (unat w + 1) mod 4096"
proof -
  have u: "unat (w + 1) = unat w + 1" using assms by (simp add: unat_word_ariths)
  have "w + 1 = QUEUE_BUFFER_SIZE \<longleftrightarrow> unat (w + 1) = 4096"
    by (simp add: QUEUE_BUFFER_SIZE_def word_unat_eq_iff)
  with u assms show ?thesis by (auto simp: bump_def)
qed

lemma less_size_iff: "w < QUEUE_BUFFER_SIZE \<longleftrightarrow> unat w < 4096"
  by (simp add: QUEUE_BUFFER_SIZE_def word_less_nat_alt)

lemma put_byte_eq:
  assumes "unat (q_writePtr q) < 4096"
  shows "put_byte c q =
    (let q1 = q\<lparr>q_buffer := (q_buffer q)[unat (q_writePtr q) := c], q_writePtr := bump (q_writePtr q)\<rparr> in
     Some (if unat (q_available q) < 4096 then q1\<lparr>q_available := q_available q + 1\<rparr>
           else q1\<lparr>q_readPtr := bump (q_readPtr q)\<rparr>))"
  using assms by (simp add: put_byte_def less_size_iff bump_def Let_def)

lemma put_byte_correct:
  assumes "queue_inv q"
  shows "\<exists>q'. put_byte c q = Some q' \<and> queue_inv q' \<and> stored q' = newest (stored q @ [c]) \<and>
     q_readSubscribers q' = q_readSubscribers q \<and> q_subscriberCount q' = q_subscriberCount q"
proof -
  let ?r = "unat (q_readPtr q)" and ?n = "unat (q_available q)" and ?w = "unat (q_writePtr q)"
  from assms have i: "length (q_buffer q) = 4096" "?r < 4096" "?n \<le> 4096" "?w = (?r + ?n) mod 4096" "?w < 4096"
    by (auto simp: queue_inv_def)
  let ?q1 = "q\<lparr>q_buffer := (q_buffer q)[?w := c], q_writePtr := bump (q_writePtr q)\<rparr>"
  have same: "(q_buffer q)[?w := c] ! ((?r + k) mod 4096) = q_buffer q ! ((?r + k) mod 4096)" if "k < ?n" "?n < k + 4096" for k
    using ring_index_neq [OF that, of ?r] i(4) by simp
  have new: "(q_buffer q)[?w := c] ! ((?r + ?n) mod 4096) = c" using i by simp
  show ?thesis
  proof (cases "?n < 4096")
    case True
    let ?q = "?q1\<lparr>q_available := q_available q + 1\<rparr>"
    have a: "unat (q_available q + 1) = ?n + 1" using True by (simp add: unat_word_ariths)
    have "put_byte c q = Some ?q" using i(5) True by (simp add: put_byte_eq)
    moreover have "queue_inv ?q" using i True a unat_bump [OF i(5)] by (simp add: queue_inv_def mod_simps)
    moreover have "stored ?q = stored q @ [c]" using a new same True by (simp add: stored_def)
    ultimately show ?thesis using True by (simp add: newest_short)
  next
    case False
    with i(3) have n: "?n = 4096" by simp
    let ?q = "?q1\<lparr>q_readPtr := bump (q_readPtr q)\<rparr>"
    have "put_byte c q = Some ?q" using i(5) False by (simp add: put_byte_eq)
    moreover have "queue_inv ?q" using i n unat_bump [OF i(5)] unat_bump [OF i(2)] by (simp add: queue_inv_def mod_simps)
    moreover have "stored ?q = drop 1 (stored q @ [c])"
    proof (rule nth_equalityI)
      show "length (stored ?q) = length (drop 1 (stored q @ [c]))" using n by simp
      fix k assume "k < length (stored ?q)"
      then have k: "k < 4096" using n by simp
      have s: "stored ?q ! k = (q_buffer q)[?w := c] ! ((?r + Suc k) mod 4096)"
        using k n unat_bump [OF i(2)] by (simp add: stored_def mod_simps)
      show "stored ?q ! k = drop 1 (stored q @ [c]) ! k"
      proof (cases "Suc k < 4096")
        case True
        with s n same [of "Suc k"] show ?thesis by (simp add: nth_append stored_def)
      next
        case False
        with k have "Suc k = 4096" by simp
        with s n new show ?thesis by (simp add: nth_append)
      qed
    qed
    ultimately show ?thesis using n by (simp add: newest_def)
  qed
qed

lemma write_loop_correct:
  "queue_inv q \<Longrightarrow> \<exists>q'. write_loop cs q = Some q' \<and> queue_inv q' \<and> stored q' = newest (stored q @ cs) \<and>
     q_readSubscribers q' = q_readSubscribers q"
proof (induction cs arbitrary: q)
  case Nil
  then have "length (stored q) \<le> 4096" by (simp add: queue_inv_def)
  with Nil show ?case by (simp add: newest_short)
next
  case (Cons c cs)
  from put_byte_correct [OF Cons.prems, of c] obtain q1 where
    "put_byte c q = Some q1" "queue_inv q1" "stored q1 = newest (stored q @ [c])"
    "q_readSubscribers q1 = q_readSubscribers q" by blast
  with Cons.IH [of q1] show ?case by (auto simp: newest_append)
qed

lemma read_loop_step:
  assumes "queue_inv q" and "stored q = x # xs"
  shows "\<exists>q1. read_loop (Suc n) q = (do { (cs, q3) \<leftarrow> read_loop n q1; Some (x # cs, q3) }) \<and> queue_inv q1 \<and>
     stored q1 = xs \<and> q_readSubscribers q1 = q_readSubscribers q"
proof -
  let ?r = "unat (q_readPtr q)" and ?n = "unat (q_available q)"
  from assms(1) have i: "length (q_buffer q) = 4096" "?r < 4096" "?n \<le> 4096"
    "unat (q_writePtr q) = (?r + ?n) mod 4096" by (auto simp: queue_inv_def)
  from assms(2) have n: "?n = Suc (length xs)" by (metis stored_length length_Cons)
  then have pos: "0 < q_available q" by (simp add: word_less_nat_alt)
  let ?q = "q\<lparr>q_readPtr := bump (q_readPtr q), q_available := q_available q - 1\<rparr>"
  have a: "unat (q_available q - 1) = length xs" using n pos by (simp add: unat_minus_one)
  have st: "stored q = q_buffer q ! ?r # map (\<lambda>k. q_buffer q ! ((?r + Suc k) mod 4096)) [0..<length xs]"
    unfolding stored_def n using i(2) by (simp add: upt_conv_Cons map_Suc_upt [symmetric] del: upt_Suc)
  have "stored ?q = map (\<lambda>k. q_buffer q ! ((?r + Suc k) mod 4096)) [0..<length xs]"
    using a unat_bump [OF i(2)] by (simp add: stored_def mod_simps)
  with st assms(2) have "stored ?q = xs" "q_buffer q ! ?r = x" by simp_all
  moreover have "queue_inv ?q" using i n a unat_bump [OF i(2)] by (simp add: queue_inv_def mod_simps)
  moreover have "read_loop (Suc n) q = (do { (cs, q3) \<leftarrow> read_loop n ?q; Some (q_buffer q ! ?r # cs, q3) })"
    using pos i(2) by (simp add: less_size_iff bump_def Let_def)
  ultimately show ?thesis by (intro exI [of _ ?q]) simp
qed

lemma read_loop_correct:
  "queue_inv q \<Longrightarrow> \<exists>q'. read_loop n q = Some (take n (stored q), q') \<and> queue_inv q' \<and> stored q' = drop n (stored q) \<and>
     q_readSubscribers q' = q_readSubscribers q"
proof (induction n arbitrary: q)
  case (Suc n)
  show ?case
  proof (cases "stored q")
    case Nil
    then have "q_available q = 0" by (metis stored_length list.size(3) unat_eq_zero)
    with Nil Suc.prems show ?thesis by simp
  next
    case (Cons x xs)
    with read_loop_step [OF Suc.prems, of x xs n] Suc.IH show ?thesis by fastforce
  qed
qed simp

lemma queue_inv_count [simp]:
  "queue_inv (q\<lparr>q_subscriberCount := k\<rparr>) = queue_inv q" "stored (q\<lparr>q_subscriberCount := k\<rparr>) = stored q"
  "queue_inv (q\<lparr>q_readSubscribers := l\<rparr>) = queue_inv q" "stored (q\<lparr>q_readSubscribers := l\<rparr>) = stored q"
  by (simp_all add: queue_inv_def stored_def)

lemma read_copy_correct:
  assumes "queue_inv q"
  shows "\<exists>q'. read_copy len q = Some (of_nat (min (unat len) (length (stored q))), take (unat len) (stored q), q') \<and>
     queue_inv q' \<and> stored q' = drop (unat len) (stored q)"
proof -
  from read_loop_correct [OF assms, of "unat len"] obtain q1 where
    q1: "read_loop (unat len) q = Some (take (unat len) (stored q), q1)" "queue_inv q1" "stored q1 = drop (unat len) (stored q)"
    by blast
  have "(of_nat (min (length (stored q)) (unat len)) :: size_t) \<le> len"
  proof -
    have "min (length (stored q)) (unat len) < 2 ^ 64" using unat_less_pow [of len] by (simp add: min_less_iff_disj)
    then show ?thesis by (simp add: word_le_nat_alt unat_of_nat_small)
  qed
  with q1 show ?thesis by (simp add: read_copy_def Let_def min.commute)
qed

section \<open>Waking the readers\<close>

lemma resume_sleeping:
  assumes "s_tasks s p = Some t" and "p \<noteq> 0" and "m_state t = SLEEPING" and "p \<noteq> s_currentTask s"
  shows "resume p s = Some (s\<lparr>s_tasks := (s_tasks s)(p \<mapsto> t\<lparr>m_state := RUNNING\<rparr>)\<rparr>)"
  using assms by (simp add: resume_def)

definition asleep :: "sched \<Rightarrow> addr \<Rightarrow> bool" where
  "asleep s p \<longleftrightarrow> p \<noteq> 0 \<and> p \<noteq> s_currentTask s \<and> (\<exists>t. s_tasks s p = Some t \<and> m_state t = SLEEPING)"

definition running :: "sched \<Rightarrow> addr \<Rightarrow> bool" where
  "running s p \<longleftrightarrow> (\<exists>t. s_tasks s p = Some t \<and> m_state t = RUNNING)"

lemma wakeup_all:
  assumes "klist_inv (q_readSubscribers q)" and "contents (q_readSubscribers q) = ts" and "distinct ts"
    and "\<forall>p \<in> set ts. asleep s p"
  shows "\<exists>subs s'. wakeupSubscribers (q, s) = Some (q\<lparr>q_readSubscribers := subs\<rparr>, s') \<and> klist_inv subs \<and>
     contents subs = [] \<and> (\<forall>p \<in> set ts. running s' p) \<and> (\<forall>p. p \<notin> set ts \<longrightarrow> s_tasks s' p = s_tasks s p)"
  using assms
proof (induction ts arbitrary: q s)
  case Nil
  obtain l h where lh: "q_readSubscribers q = (l, h)" by (cases "q_readSubscribers q")
  with Nil(1,2) have r: "rep (l, h) []" by (simp add: klist_inv_def contents_def items_at_def)
  then have "size_of_list l = Some 0" by (simp add: size_of_list_def) (simp add: rep_def)
  then have "wakeupSubscribers (q, s) = Some (q, s)"
    by (subst wakeupSubscribers.simps) (simp add: lh)
  moreover have "q\<lparr>q_readSubscribers := q_readSubscribers q\<rparr> = q" by (cases q) simp
  ultimately show ?case using Nil(1,2) by (intro exI [of _ "q_readSubscribers q"] exI [of _ s]) simp
next
  case (Cons p ts)
  obtain l h where lh: "q_readSubscribers q = (l, h)" by (cases "q_readSubscribers q")
  with Cons.prems(1,2) obtain ps where r: "rep (l, h) ps" "ps \<noteq> []"
    by (auto simp: klist_inv_def contents_def items_at_def)
  then have size: "size_of_list l = Some (m_size l)" "m_size l > 0"
    using rep_size_pos by (auto simp: size_of_list_def)
  from kl.pop_law [OF Cons.prems(1,2)] obtain l1 where
    pop: "pop_front (q_readSubscribers q) = Some (p, l1)" "klist_inv l1" "contents l1 = ts" by blast
  from Cons.prems(4) obtain t where t: "s_tasks s p = Some t" "p \<noteq> 0" "p \<noteq> s_currentTask s" "m_state t = SLEEPING"
    by (auto simp: asleep_def)
  let ?s = "s\<lparr>s_tasks := (s_tasks s)(p \<mapsto> t\<lparr>m_state := RUNNING\<rparr>)\<rparr>"
  have step: "wakeupSubscribers (q, s) = wakeupSubscribers (q\<lparr>q_readSubscribers := l1\<rparr>, ?s)"
    by (subst wakeupSubscribers.simps) (use size pop(1) t in \<open>simp add: lh resume_sleeping\<close>)
  have "\<forall>u \<in> set ts. asleep ?s u" using Cons.prems(3,4) by (auto simp: asleep_def)
  with Cons.IH [of "q\<lparr>q_readSubscribers := l1\<rparr>" ?s] pop Cons.prems(3) obtain subs s' where
    ih: "wakeupSubscribers (q\<lparr>q_readSubscribers := l1\<rparr>, ?s) = Some (q\<lparr>q_readSubscribers := subs\<rparr>, s')"
      "klist_inv subs" "contents subs = []" "\<forall>u \<in> set ts. running s' u"
      "\<forall>u. u \<notin> set ts \<longrightarrow> s_tasks s' u = s_tasks ?s u" by auto
  have "running s' p" using ih(5) Cons.prems(3) by (simp add: running_def)
  with ih step show ?case by (intro exI [of _ subs] exI [of _ s']) auto
qed

section \<open>The queue as its users see it\<close>

locale byte_queue =
  fixes invar :: "'q \<Rightarrow> bool"
    and bytes :: "'q \<Rightarrow> uint8_t list"
    and put :: "uint8_t list \<Rightarrow> 'q \<Rightarrow> 'q option"
    and get :: "nat \<Rightarrow> 'q \<Rightarrow> (uint8_t list \<times> 'q) option"
  assumes put_law: "invar q \<Longrightarrow> \<exists>q'. put xs q = Some q' \<and> invar q' \<and> bytes q' = newest (bytes q @ xs)"
    and get_law: "invar q \<Longrightarrow> \<exists>q'. get n q = Some (take n (bytes q), q') \<and> invar q' \<and> bytes q' = drop n (bytes q)"
begin

text \<open>Bytes come out in the order they went in, in pieces of any size, as long as they fit.\<close>

lemma put_get:
  assumes "invar q" and "length (bytes q @ xs) \<le> 4096"
  shows "\<exists>q1 q2 q3. put xs q = Some q1 \<and> get (length (bytes q)) q1 = Some (bytes q, q2) \<and>
     get (length xs) q2 = Some (xs, q3) \<and> invar q3 \<and> bytes q3 = []"
proof -
  from put_law [OF assms(1), of xs] assms(2) obtain q1 where
    q1: "put xs q = Some q1" "invar q1" "bytes q1 = bytes q @ xs" by (auto simp: newest_short)
  from get_law [OF q1(2), of "length (bytes q)"] q1(3) obtain q2 where
    q2: "get (length (bytes q)) q1 = Some (bytes q, q2)" "invar q2" "bytes q2 = xs" by auto
  from get_law [OF q2(2), of "length xs"] q2(3) q1(1) q2(1) show ?thesis by auto
qed

text \<open>Writing in two pieces is writing at once.\<close>

lemma put_put:
  assumes "invar q"
  shows "\<exists>q1 q2. put xs q = Some q1 \<and> put ys q1 = Some q2 \<and> bytes q2 = newest (bytes q @ xs @ ys)"
proof -
  from put_law [OF assms, of xs] obtain q1 where
    q1: "put xs q = Some q1" "invar q1" "bytes q1 = newest (bytes q @ xs)" by blast
  from put_law [OF q1(2), of ys] q1 show ?thesis by (auto simp: newest_append)
qed

end

interpretation rb: byte_queue queue_inv stored write_loop read_loop
proof unfold_locales
  fix q xs assume "queue_inv q"
  then show "\<exists>q'. write_loop xs q = Some q' \<and> queue_inv q' \<and> stored q' = newest (stored q @ xs)"
    using write_loop_correct by blast
next
  fix q n assume "queue_inv q"
  then show "\<exists>q'. read_loop n q = Some (take n (stored q), q') \<and> queue_inv q' \<and> stored q' = drop n (stored q)"
    using read_loop_correct by blast
qed

section \<open>Properties\<close>

lemma new_queue_ok:
  "length g = 4096 \<Longrightarrow> queue_inv (new_queue g h)" "stored (new_queue g h) = []"
  "klist_inv (q_readSubscribers (new_queue g h))" "contents (q_readSubscribers (new_queue g h)) = []"
  by (simp_all add: new_queue_def queue_inv_def stored_def klist_inv_def ptrs_def new_list_def rep_def contents_def items_at_def)

lemma queue_write_ok:
  assumes "queue_inv q" and "klist_inv (q_readSubscribers q)" and "distinct (contents (q_readSubscribers q))"
    and "\<forall>p \<in> set (contents (q_readSubscribers q)). asleep s p"
  shows "\<exists>q' s'. queue_write xs (q, s) = Some (of_nat (length xs), q', s') \<and> queue_inv q' \<and>
     stored q' = newest (stored q @ xs) \<and> contents (q_readSubscribers q') = [] \<and>
     (\<forall>p \<in> set (contents (q_readSubscribers q)). running s' p)"
proof -
  from write_loop_correct [OF assms(1), of xs] obtain q1 where
    w: "write_loop xs q = Some q1" "queue_inv q1" "stored q1 = newest (stored q @ xs)"
      "q_readSubscribers q1 = q_readSubscribers q" by blast
  with wakeup_all [of q1 _ s] assms(2-4) obtain subs s' where
    "wakeupSubscribers (q1, s) = Some (q1\<lparr>q_readSubscribers := subs\<rparr>, s')" "contents subs = []"
    "\<forall>p \<in> set (contents (q_readSubscribers q)). running s' p" by auto
  with w show ?thesis by (simp add: queue_write_def)
qed

text \<open>C13. Writing to the ring buffer (\<^verbatim>\<open>IQueue::write\<close>, \<^verbatim>\<open>wakeupSubscribers\<close>): for any number of bytes the call returns
  their count, the buffer afterwards holds the newest 4096 of the bytes it held and the bytes
  written, in order, and every task that waited for data is running again while the list of
  waiting tasks is empty.\<close>

theorem queue_write_correct:
  assumes "queue_inv q" and "klist_inv (q_readSubscribers q)" and "distinct (contents (q_readSubscribers q))"
    and "\<forall>p \<in> set (contents (q_readSubscribers q)). asleep s p"
  shows "\<exists>q' s'. queue_write xs (q, s) = Some (of_nat (length xs), q', s') \<and> queue_inv q' \<and>
     stored q' = newest (stored q @ xs) \<and> contents (q_readSubscribers q') = [] \<and>
     (\<forall>p \<in> set (contents (q_readSubscribers q)). running s' p)"
  using assms by (rule queue_write_ok)

definition example_queue :: queue where
  "example_queue = (new_queue (replicate 4096 0) Map.empty)\<lparr>q_readSubscribers :=
     (\<lparr>magic = MAGIC, m_size = 1, m_first = 16, m_last = 16\<rparr>, [16 \<mapsto> \<lparr>item = 200, next_ptr = 0, prev_ptr = 0\<rparr>])\<rparr>"

lemma example_queue_ok:
  "queue_inv example_queue" "stored example_queue = []" "klist_inv (q_readSubscribers example_queue)"
  "contents (q_readSubscribers example_queue) = [200]"
  by (simp_all add: example_queue_def new_queue_ok)
    (simp_all add: klist_inv_def ptrs_def rep_def contents_def items_at_def)

theorem queue_write_correct_witness:
  "\<exists>q' s'. queue_write [1, 2, 3] (example_queue, example_sched 9) = Some (3, q', s') \<and> stored q' = [1, 2, 3] \<and> running s' 200"
proof -
  have "asleep (example_sched 9) 200" by (simp add: asleep_def example_sched_def example_task_def)
  with queue_write_correct [of example_queue "example_sched 9" "[1, 2, 3]"] show ?thesis
    by (auto simp: example_queue_ok newest_def)
qed

text \<open>First in, first out (\<^verbatim>\<open>IQueue::write\<close>, \<^verbatim>\<open>IQueue::read\<close>): bytes that fit behind those already buffered
  are read back in order after them, and the buffer is empty afterwards.\<close>

theorem queue_fifo:
  assumes "queue_inv q" and "length (stored q @ xs) \<le> 4096"
  shows "\<exists>q1 q2 q3. write_loop xs q = Some q1 \<and> read_loop (length (stored q)) q1 = Some (stored q, q2) \<and>
     read_loop (length xs) q2 = Some (xs, q3) \<and> queue_inv q3 \<and> stored q3 = []"
  by (rule rb.put_get [OF assms])

theorem queue_fifo_witness:
  "\<exists>q1 q2 q3. write_loop [65, 66] example_queue = Some q1 \<and> read_loop 0 q1 = Some ([], q2) \<and>
     read_loop 2 q2 = Some ([65, 66], q3) \<and> stored q3 = []"
proof -
  have "length [65, 66 :: uint8_t] = 2" by simp
  with queue_fifo [of example_queue "[65, 66]"] show ?thesis
    unfolding example_queue_ok by (auto simp: example_queue_ok numeral_2_eq_2 simp del: read_loop.simps write_loop.simps)
qed

text \<open>Reading (\<^verbatim>\<open>IQueue::read\<close> once data is there): the call returns, copies the oldest bytes, as many as
  asked for or as there are, reports their number and removes exactly them.\<close>

theorem queue_read_correct:
  assumes "queue_inv q"
  shows "\<exists>q'. read_copy len q = Some (of_nat (min (unat len) (length (stored q))), take (unat len) (stored q), q') \<and>
     queue_inv q' \<and> stored q' = drop (unat len) (stored q)"
  by (rule read_copy_correct [OF assms])

theorem queue_read_correct_witness: "\<exists>q'. read_copy 5 example_queue = Some (0, [], q')"
  using queue_read_correct [of example_queue 5] by (auto simp: example_queue_ok)

end
