(* ===== verification/Bytes.thy ===== *)
theory Bytes
  imports Prelude
begin

text \<open>
  Byte-addressed memory for the C code: a partial map from addresses to bytes, in which an access
  to an address that is not mapped faults. \<open>bytes_at\<close> and \<open>str_at\<close> say that a sequence of bytes, or
  a NUL-terminated string, stands at an address.
\<close>

type_synonym mem = "addr \<Rightarrow> uint8_t option"

definition load :: "mem \<Rightarrow> addr \<Rightarrow> uint8_t option" where
  "load m p = m p"

definition store :: "mem \<Rightarrow> addr \<Rightarrow> uint8_t \<Rightarrow> mem option" where
  "store m p v = (case m p of None \<Rightarrow> None | Some _ \<Rightarrow> Some (m(p \<mapsto> v)))"

declare load_def [kexec] store_def [kexec]

definition bytes_at :: "mem \<Rightarrow> addr \<Rightarrow> uint8_t list \<Rightarrow> bool" where
  "bytes_at m p bs \<longleftrightarrow> length bs \<le> 2 ^ 64 \<and> (\<forall>i < length bs. m (p + of_nat i) = Some (bs ! i))"

definition str_at :: "mem \<Rightarrow> addr \<Rightarrow> uint8_t list \<Rightarrow> bool" where
  "str_at m p cs \<longleftrightarrow> bytes_at m p (cs @ [0]) \<and> 0 \<notin> set cs"

text \<open>Room for \<open>n\<close> bytes.\<close>

definition room :: "mem \<Rightarrow> addr \<Rightarrow> nat \<Rightarrow> bool" where
  "room m p n \<longleftrightarrow> n \<le> 2 ^ 64 \<and> (\<forall>i < n. m (p + of_nat i) \<noteq> None)"

text \<open>The addresses of a region.\<close>

definition region :: "addr \<Rightarrow> nat \<Rightarrow> addr set" where
  "region p n = (\<lambda>i. p + of_nat i) ` {..<n}"

lemma addr_inj:
  fixes p :: addr
  assumes "i < 2 ^ 64" and "j < 2 ^ 64"
  shows "p + of_nat i = p + of_nat j \<longleftrightarrow> i = j"
proof
  assume "p + of_nat i = p + of_nat j"
  then have "(of_nat i :: addr) = of_nat j" by simp
  then have "unat (of_nat i :: addr) = unat (of_nat j :: addr)" by (rule arg_cong)
  moreover have "unat (of_nat i :: addr) = i" "unat (of_nat j :: addr) = j"
    using assms by (auto intro: unat_of_nat_small simp del: unat_of_nat)
  ultimately show "i = j" by (simp only:)
qed simp

lemma bytes_at_nil [simp]: "bytes_at m p []"
  by (simp add: bytes_at_def)

lemma bytes_at_Cons:
  "length bs < 2 ^ 64 \<Longrightarrow> bytes_at m p (b # bs) \<longleftrightarrow> m p = Some b \<and> bytes_at m (p + 1) bs"
  unfolding bytes_at_def by (auto simp: All_less_Suc2 add.assoc)

lemma bytes_at_nth: "bytes_at m p bs \<Longrightarrow> i < length bs \<Longrightarrow> m (p + of_nat i) = Some (bs ! i)"
  by (simp add: bytes_at_def)

lemma bytes_at_first: "bytes_at m p (b # bs) \<Longrightarrow> m p = Some b"
  using bytes_at_nth [of m p "b # bs" 0] by simp

lemma bytes_at_tail: "bytes_at m p (b # bs) \<Longrightarrow> bytes_at m (p + 1) bs"
proof -
  assume a: "bytes_at m p (b # bs)"
  then have "length bs < 2 ^ 64" by (simp add: bytes_at_def)
  with a show ?thesis by (simp add: bytes_at_Cons)
qed

lemma bytes_at_take: "bytes_at m p bs \<Longrightarrow> bytes_at m p (take n bs)"
  by (simp add: bytes_at_def min.coboundedI1)

lemma bytes_at_append1: "bytes_at m p (as @ bs) \<Longrightarrow> bytes_at m p as"
  using bytes_at_take [of m p "as @ bs" "length as"] by simp

lemma bytes_at_append2: "bytes_at m p (as @ bs) \<Longrightarrow> bytes_at m (p + of_nat (length as)) bs"
proof (induction as arbitrary: p)
  case (Cons a as)
  from Cons.prems have "bytes_at m (p + 1) (as @ bs)" by (auto intro: bytes_at_tail)
  from Cons.IH [OF this] show ?case by (simp add: add.assoc)
qed simp

lemma bytes_at_snoc:
  assumes "bytes_at m p bs" and "m (p + of_nat (length bs)) = Some b" and "length bs < 2 ^ 64"
  shows "bytes_at m p (bs @ [b])"
  using assms by (auto simp: bytes_at_def nth_append less_Suc_eq)

lemma bytes_at_update:
  assumes "bytes_at m p bs" and "i < length bs"
  shows "bytes_at (m(p + of_nat i \<mapsto> v)) p (bs[i := v])"
proof -
  have "i < 2 ^ 64" using assms by (auto simp: bytes_at_def)
  then have "p + of_nat j = p + of_nat i \<longleftrightarrow> j = i" if "j < length bs" for j
    using that assms(1) by (intro addr_inj) (auto simp: bytes_at_def)
  with assms show ?thesis by (auto simp: bytes_at_def nth_list_update)
qed

lemma bytes_at_cong:
  "(\<And>a. a \<in> region p (length bs) \<Longrightarrow> m a = m' a) \<Longrightarrow> bytes_at m p bs = bytes_at m' p bs"
  by (auto simp: bytes_at_def region_def)

lemma bytes_at_frame: "q \<notin> region p (length bs) \<Longrightarrow> bytes_at (m(q := v)) p bs = bytes_at m p bs"
  by (rule bytes_at_cong) auto

lemma bytes_at_unique: "bytes_at m p as \<Longrightarrow> bytes_at m p bs \<Longrightarrow> length as = length bs \<Longrightarrow> as = bs"
proof (rule nth_equalityI)
  fix i assume "bytes_at m p as" "bytes_at m p bs" "length as = length bs" "i < length as"
  then have "Some (as ! i) = Some (bs ! i)" by (metis bytes_at_nth)
  then show "as ! i = bs ! i" by simp
qed

lemma room_bytes: "room m p n \<longleftrightarrow> (\<exists>bs. length bs = n \<and> bytes_at m p bs)"
proof
  assume "room m p n"
  then show "\<exists>bs. length bs = n \<and> bytes_at m p bs"
    by (intro exI [of _ "map (\<lambda>i. the (m (p + of_nat i))) [0..<n]"]) (auto simp: room_def bytes_at_def)
qed (auto simp: room_def bytes_at_def)

lemma str_at_length: "str_at m p cs \<Longrightarrow> length cs < 2 ^ 64"
  by (simp add: str_at_def bytes_at_def)

lemma str_at_Nil: "str_at m p [] \<longleftrightarrow> m p = Some 0"
  by (simp add: str_at_def bytes_at_Cons)

lemma str_at_Cons: "str_at m p (c # cs) \<Longrightarrow> m p = Some c \<and> c \<noteq> 0 \<and> str_at m (p + 1) cs"
  by (auto simp: str_at_def dest: bytes_at_first bytes_at_tail)

lemma str_at_unique: "str_at m p as \<Longrightarrow> str_at m p bs \<Longrightarrow> as = bs"
proof (induction as arbitrary: p bs)
  case Nil
  then show ?case by (cases bs) (auto simp: str_at_Nil dest: str_at_Cons)
next
  case (Cons a as)
  then show ?case by (cases bs) (auto simp: str_at_Nil dest!: str_at_Cons)
qed

lemma region_Suc: "region p (Suc n) = insert p (region (p + 1) n)"
proof -
  have "region p (Suc n) = insert p ((\<lambda>i. p + of_nat (Suc i)) ` {..<n})"
    unfolding region_def lessThan_Suc_eq_insert_0 by (simp add: image_image)
  also have "(\<lambda>i. p + of_nat (Suc i)) ` {..<n} = region (p + 1) n" by (simp add: region_def add.assoc)
  finally show ?thesis .
qed

lemma region_0 [simp]: "region p 0 = {}"
  by (simp add: region_def)

lemma region_first: "0 < n \<Longrightarrow> p \<in> region p n"
  by (cases n) (auto simp: region_Suc)

lemma region_mono: "m \<le> n \<Longrightarrow> region p m \<subseteq> region p n"
  by (auto simp: region_def)

lemma first_notin_rest: "n < 2 ^ 64 \<Longrightarrow> p \<notin> region (p + 1) n"
proof
  assume n: "n < 2 ^ 64" and "p \<in> region (p + 1) n"
  then obtain i where "i < n" "p + of_nat 0 = p + of_nat (Suc i)" by (auto simp: region_def add.assoc)
  with n addr_inj [of 0 "Suc i" p] show False by simp
qed

section \<open>Copying and filling\<close>

text \<open>The byte loops of \<^verbatim>\<open>memcpy\<close> and \<^verbatim>\<open>memset\<close> in \<^verbatim>\<open>kernel/lib/string.c\<close>.\<close>

fun memcpy_loop :: "nat \<Rightarrow> addr \<Rightarrow> addr \<Rightarrow> mem \<Rightarrow> mem option" where
  "memcpy_loop 0 s1 s2 m = Some m"
| "memcpy_loop (Suc n) s1 s2 m = do {
     c \<leftarrow> load m s2;
     m1 \<leftarrow> store m s1 c;
     memcpy_loop n (s1 + 1) (s2 + 1) m1
   }"

definition memcpy :: "addr \<Rightarrow> addr \<Rightarrow> size_t \<Rightarrow> mem \<Rightarrow> (addr \<times> mem) option" where
  "memcpy dest src len m = do { m1 \<leftarrow> memcpy_loop (unat len) dest src m; Some (dest, m1) }"

fun memset_loop :: "nat \<Rightarrow> addr \<Rightarrow> uint8_t \<Rightarrow> mem \<Rightarrow> mem option" where
  "memset_loop 0 s c m = Some m"
| "memset_loop (Suc n) s c m = do { m1 \<leftarrow> store m s c; memset_loop n (s + 1) c m1 }"

definition memset :: "addr \<Rightarrow> uint8_t \<Rightarrow> size_t \<Rightarrow> mem \<Rightarrow> (addr \<times> mem) option" where
  "memset block c n m = do { m1 \<leftarrow> memset_loop (unat n) block c m; Some (block, m1) }"

lemma memcpy_loop_correct:
  assumes "bytes_at m src bs" and "room m dest (length bs)" and "region dest (length bs) \<inter> region src (length bs) = {}"
  shows "\<exists>m'. memcpy_loop (length bs) dest src m = Some m' \<and> bytes_at m' dest bs \<and>
     (\<forall>a. a \<notin> region dest (length bs) \<longrightarrow> m' a = m a) \<and> (\<forall>a. m' a = None \<longleftrightarrow> m a = None)"
  using assms
proof (induction bs arbitrary: src dest m)
  case (Cons b bs)
  have l: "length bs < 2 ^ 64" using Cons.prems(1) by (simp add: bytes_at_def)
  from Cons.prems(1) l have b: "m src = Some b" "bytes_at m (src + 1) bs" by (simp_all add: bytes_at_Cons)
  from Cons.prems(2) have d: "m dest \<noteq> None" "room m (dest + 1) (length bs)"
    unfolding room_def by (force simp: All_less_Suc2 add.assoc)+
  let ?m = "m(dest \<mapsto> b)"
  have "bytes_at ?m (src + 1) bs"
    using b(2) Cons.prems(3) by (subst bytes_at_frame) (auto simp: region_Suc)
  moreover have "room ?m (dest + 1) (length bs)" using d(2) by (auto simp: room_def)
  moreover have "region (dest + 1) (length bs) \<inter> region (src + 1) (length bs) = {}" using Cons.prems(3) by (auto simp: region_Suc)
  ultimately obtain m' where m': "memcpy_loop (length bs) (dest + 1) (src + 1) ?m = Some m'" "bytes_at m' (dest + 1) bs"
    "\<forall>a. a \<notin> region (dest + 1) (length bs) \<longrightarrow> m' a = ?m a" "\<forall>a. m' a = None \<longleftrightarrow> ?m a = None" using Cons.IH by blast
  have "m' dest = Some b" using m'(3) first_notin_rest [OF l] by simp
  with m' b(1) d(1) l show ?case by (auto simp: load_def store_def bytes_at_Cons region_Suc split: if_splits)
qed simp

lemma memset_loop_correct:
  assumes "room m p n"
  shows "\<exists>m'. memset_loop n p c m = Some m' \<and> bytes_at m' p (replicate n c) \<and> (\<forall>a. a \<notin> region p n \<longrightarrow> m' a = m a)"
  using assms
proof (induction n arbitrary: p m)
  case (Suc n)
  then have d: "m p \<noteq> None" "room m (p + 1) n" and l: "n < 2 ^ 64"
    unfolding room_def by (force simp: All_less_Suc2 add.assoc)+
  let ?m = "m(p \<mapsto> c)"
  have "room ?m (p + 1) n" using d(2) by (auto simp: room_def)
  from Suc.IH [OF this] obtain m' where m': "memset_loop n (p + 1) c ?m = Some m'" "bytes_at m' (p + 1) (replicate n c)"
    "\<forall>a. a \<notin> region (p + 1) n \<longrightarrow> m' a = ?m a" by blast
  have "m' p = Some c" using m'(3) first_notin_rest [OF l] by simp
  with m' d(1) l show ?case by (auto simp: store_def bytes_at_Cons region_Suc)
qed simp

section \<open>Words of memory\<close>

text \<open>Multi-byte accesses, little endian.\<close>

fun le_word :: "uint8_t list \<Rightarrow> 64 word" where
  "le_word [] = 0"
| "le_word (b # bs) = ucast b OR push_bit 8 (le_word bs)"

fun load_bytes :: "mem \<Rightarrow> addr \<Rightarrow> nat \<Rightarrow> uint8_t list option" where
  "load_bytes m p 0 = Some []"
| "load_bytes m p (Suc n) = do { b \<leftarrow> load m p; bs \<leftarrow> load_bytes m (p + 1) n; Some (b # bs) }"

lemma bit_le_word:
  "bit (le_word bs) n \<longleftrightarrow> n < 64 \<and> n div 8 < length bs \<and> bit (bs ! (n div 8)) (n mod 8)"
proof (induction bs arbitrary: n)
  case (Cons b bs)
  show ?case
  proof (cases "n < 8")
    case True
    then show ?thesis by (simp add: bit_simps)
  next
    case False
    then obtain k where k: "n = k + 8" by (metis add.commute le_Suc_ex not_less)
    have d: "(k + 8) div 8 = Suc (k div 8)" by simp
    have "\<not> bit b n" using False by (auto dest: bit_imp_le_length)
    then show ?thesis unfolding k by (auto simp: bit_simps Cons.IH d)
  qed
qed simp

lemma load_bytes_mapped: "(\<And>j. j < n \<Longrightarrow> m (p + of_nat j) \<noteq> None) \<Longrightarrow> \<exists>bs. load_bytes m p n = Some bs"
proof (induction n arbitrary: p)
  case (Suc n)
  have "m (p + 1 + of_nat j) \<noteq> None" if "j < n" for j
    using Suc.prems [of "Suc j"] that by (simp add: add.assoc)
  from Suc.IH [OF this] obtain bs where "load_bytes m (p + 1) n = Some bs" by blast
  with Suc.prems [of 0] show ?case by (auto simp: load_def)
qed simp

lemma load_bytes_nth:
  "load_bytes m p n = Some bs \<Longrightarrow> length bs = n \<and> (\<forall>j < n. m (p + of_nat j) = Some (bs ! j))"
proof (induction n arbitrary: p bs)
  case (Suc n)
  then obtain b cs where b: "m p = Some b" "load_bytes m (p + 1) n = Some cs" "bs = b # cs"
    by (auto simp: load_def bind_eq_Some_conv)
  have "m (p + of_nat j) = Some (bs ! j)" if "j < Suc n" for j
    using b Suc.IH [OF b(2)] that by (cases j) (simp_all add: add.assoc [symmetric])
  with Suc.IH [OF b(2)] b(3) show ?case by (simp del: of_nat_Suc)
qed simp

end
