(* ===== verification/KString.thy ===== *)
theory KString
  imports Bytes "HOL-Library.Signed_Division" "HOL-Library.List_Lexorder"
begin

text \<open>
  The kernel's string library \<^verbatim>\<open>kernel/lib/string.c\<close>, on the byte memory of the theory \<open>Bytes\<close>: every
  loop moves pointers through memory as the C code does, and an access outside mapped memory
  fails. Loops whose end depends on the data are \<open>partial_function\<close>s; that they end is proved.
\<close>

section \<open>Lengths and copies\<close>

partial_function (option) strlen_loop :: "mem \<Rightarrow> addr \<Rightarrow> size_t \<Rightarrow> size_t option" where
  "strlen_loop m str len = do {
     c \<leftarrow> load m str;
     if c \<noteq> 0 then strlen_loop m (str + 1) (len + 1) else Some len
   }"

definition strlen :: "mem \<Rightarrow> addr \<Rightarrow> size_t option" where
  "strlen m str = strlen_loop m str 0"

definition strcpy :: "addr \<Rightarrow> addr \<Rightarrow> mem \<Rightarrow> (addr \<times> mem) option" where
  "strcpy dest src m = do { len \<leftarrow> strlen m src; memcpy dest src (len + 1) m }"

fun strnlen_loop :: "mem \<Rightarrow> addr \<Rightarrow> size_t \<Rightarrow> nat \<Rightarrow> size_t option" where
  "strnlen_loop m src i 0 = Some i"
| "strnlen_loop m src i (Suc k) = do {
     c \<leftarrow> load m (src + i);
     if c = 0 then Some (i + 1) else strnlen_loop m src (i + 1) k
   }"

definition strnlen :: "mem \<Rightarrow> addr \<Rightarrow> size_t \<Rightarrow> size_t option" where
  "strnlen m src n = strnlen_loop m src 0 (unat n)"

definition strncpy :: "addr \<Rightarrow> addr \<Rightarrow> size_t \<Rightarrow> mem \<Rightarrow> (addr \<times> mem) option" where
  "strncpy dest src n m = do {
     len \<leftarrow> strnlen m src n;
     m1 \<leftarrow> memcpy_loop (unat len) dest src m;
     Some (dest, m1)
   }"

text \<open>\<^verbatim>\<open>strccpy\<close> copies up to a terminator and returns the position behind it, or the position of the
  NUL byte when the string ends first.\<close>

partial_function (option) strccpy :: "addr \<Rightarrow> addr \<Rightarrow> uint8_t \<Rightarrow> mem \<Rightarrow> (addr \<times> mem) option" where
  "strccpy dest src terminator m = do {
     c \<leftarrow> load m src;
     if c \<noteq> 0 \<and> c \<noteq> terminator then do {
       m1 \<leftarrow> store m dest c;
       strccpy (dest + 1) (src + 1) terminator m1
     }
     else do {
       m1 \<leftarrow> store m dest 0;
       Some (if c = 0 then src else src + 1, m1)
     }
   }"

partial_function (option) str_end :: "mem \<Rightarrow> addr \<Rightarrow> addr option" where
  "str_end m dest = do { c \<leftarrow> load m dest; if c \<noteq> 0 then str_end m (dest + 1) else Some dest }"

definition strcat :: "addr \<Rightarrow> addr \<Rightarrow> mem \<Rightarrow> (addr \<times> mem) option" where
  "strcat dest app m = do {
     d \<leftarrow> str_end m dest;
     (_, m1) \<leftarrow> strcpy d app m;
     Some (dest, m1)
   }"

section \<open>Comparing and searching\<close>

fun memcmp_loop :: "mem \<Rightarrow> addr \<Rightarrow> addr \<Rightarrow> nat \<Rightarrow> int option" where
  "memcmp_loop m s1 s2 0 = Some 0"
| "memcmp_loop m s1 s2 (Suc k) = do {
     a \<leftarrow> load m s1;
     b \<leftarrow> load m s2;
     if a \<noteq> b then Some (if a < b then - 1 else 1) else memcmp_loop m (s1 + 1) (s2 + 1) k
   }"

definition memcmp :: "mem \<Rightarrow> addr \<Rightarrow> addr \<Rightarrow> size_t \<Rightarrow> int option" where
  "memcmp m region1 region2 n = memcmp_loop m region1 region2 (unat n)"

partial_function (option) strcmp :: "mem \<Rightarrow> addr \<Rightarrow> addr \<Rightarrow> int option" where
  "strcmp m str1 str2 = do {
     a \<leftarrow> load m str1;
     b \<leftarrow> load m str2;
     if a \<noteq> 0 \<and> a = b then strcmp m (str1 + 1) (str2 + 1) else Some (uint a - uint b)
   }"

fun memchr_loop :: "mem \<Rightarrow> addr \<Rightarrow> uint8_t \<Rightarrow> nat \<Rightarrow> addr option" where
  "memchr_loop m src c 0 = Some 0"
| "memchr_loop m src c (Suc k) = do {
     a \<leftarrow> load m src;
     if a = c then Some src else memchr_loop m (src + 1) c k
   }"

definition memchr :: "mem \<Rightarrow> addr \<Rightarrow> uint8_t \<Rightarrow> size_t \<Rightarrow> addr option" where
  "memchr m block c n = memchr_loop m block c (unat n)"

partial_function (option) strclen_loop :: "mem \<Rightarrow> addr \<Rightarrow> uint8_t \<Rightarrow> size_t \<Rightarrow> size_t option" where
  "strclen_loop m src terminator len = do {
     c \<leftarrow> load m src;
     if c \<noteq> terminator \<and> c \<noteq> 0 then strclen_loop m (src + 1) terminator (len + 1) else Some len
   }"

definition strclen :: "mem \<Rightarrow> addr \<Rightarrow> uint8_t \<Rightarrow> size_t option" where
  "strclen m src terminator = strclen_loop m src terminator 0"

section \<open>Numbers\<close>

definition nchar :: "uint32_t \<Rightarrow> uint8_t" where
  "nchar index = (if index < 10 then ucast (48 + index) else ucast (97 + index - 10))"

fun strrev_loop :: "addr \<Rightarrow> nat \<Rightarrow> nat \<Rightarrow> nat \<Rightarrow> mem \<Rightarrow> mem option" where
  "strrev_loop buf len i 0 m = Some m"
| "strrev_loop buf len i (Suc k) m = do {
     tmp \<leftarrow> load m (buf + of_nat i);
     c \<leftarrow> load m (buf + of_nat (len - 1 - i));
     m1 \<leftarrow> store m (buf + of_nat i) c;
     m2 \<leftarrow> store m1 (buf + of_nat (len - 1 - i)) tmp;
     strrev_loop buf len (Suc i) k m2
   }"

definition strrev :: "addr \<Rightarrow> mem \<Rightarrow> (addr \<times> mem) option" where
  "strrev buf m = do {
     len \<leftarrow> strlen m buf;
     m1 \<leftarrow> strrev_loop buf (unat len) 0 (unat len div 2) m;
     Some (buf, m1)
   }"

text \<open>The digit loop of \<^verbatim>\<open>utoa\<close> and \<^verbatim>\<open>ultoa\<close>, least significant digit first; \<open>base\<close> is the base as the
  unsigned operand. A zero base is a division fault.\<close>

partial_function (option) udigits :: "'a::len word \<Rightarrow> 'a word \<Rightarrow> addr \<Rightarrow> mem \<Rightarrow> (addr \<times> mem) option" where
  "udigits base value bufPtr m =
     (if base = 0 then None
      else do {
        m1 \<leftarrow> store m bufPtr (nchar (ucast (value mod base)));
        if value div base = 0 then Some (bufPtr + 1, m1) else udigits base (value div base) (bufPtr + 1) m1
      })"

definition utoa :: "uint32_t \<Rightarrow> addr \<Rightarrow> int \<Rightarrow> mem \<Rightarrow> (addr \<times> mem) option" where
  "utoa value str base m = do {
     (p, m1) \<leftarrow> udigits (word_of_int base) value str m;
     m2 \<leftarrow> store m1 p 0;
     strrev str m2
   }"

definition ultoa :: "uint64_t \<Rightarrow> addr \<Rightarrow> int \<Rightarrow> mem \<Rightarrow> (addr \<times> mem) option" where
  "ultoa value str base m = do {
     (p, m1) \<leftarrow> udigits (word_of_int base) value str m;
     m2 \<leftarrow> store m1 p 0;
     strrev str m2
   }"

text \<open>The digit loop of \<^verbatim>\<open>itoa\<close> and \<^verbatim>\<open>ltoa\<close>: C division truncates, and \<^verbatim>\<open>nchar\<close> takes the remainder as an
  unsigned number.\<close>

partial_function (option) sdigits :: "int \<Rightarrow> int \<Rightarrow> addr \<Rightarrow> mem \<Rightarrow> (addr \<times> mem) option" where
  "sdigits base value bufPtr m =
     (if base = 0 then None
      else do {
        m1 \<leftarrow> store m bufPtr (nchar (word_of_int (value smod base)));
        if value sdiv base = 0 then Some (bufPtr + 1, m1) else sdigits base (value sdiv base) (bufPtr + 1) m1
      })"

text \<open>The signed conversions at width \<open>w\<close>; negating the least value wraps to itself.\<close>

definition stoa :: "nat \<Rightarrow> int \<Rightarrow> addr \<Rightarrow> int \<Rightarrow> mem \<Rightarrow> (addr \<times> mem) option" where
  "stoa w value str base m = do {
     let isNegative = value < 0;
     let v = (if isNegative then (if value = - (2 ^ (w - 1)) then value else - value) else value);
     (p, m1) \<leftarrow> sdigits base v str m;
     (p2, m2) \<leftarrow> (if isNegative then do { m' \<leftarrow> store m1 p 45; Some (p + 1, m') } else Some (p, m1));
     m3 \<leftarrow> store m2 p2 0;
     strrev str m3
   }"

definition itoa :: "int \<Rightarrow> addr \<Rightarrow> int \<Rightarrow> mem \<Rightarrow> (addr \<times> mem) option" where
  "itoa value str base m = stoa 32 value str base m"

definition ltoa :: "int \<Rightarrow> addr \<Rightarrow> int \<Rightarrow> mem \<Rightarrow> (addr \<times> mem) option" where
  "ltoa value str base m = stoa 64 value str base m"

fun ptoa_loop :: "uint64_t \<Rightarrow> nat \<Rightarrow> addr \<Rightarrow> mem \<Rightarrow> (addr \<times> mem) option" where
  "ptoa_loop value 0 bufPtr m = Some (bufPtr, m)"
| "ptoa_loop value (Suc i) bufPtr m = do {
     m1 \<leftarrow> store m bufPtr (nchar (ucast (drop_bit (i * 4) value AND 0xf)));
     ptoa_loop value i (bufPtr + 1) m1
   }"

definition ptoa :: "uint64_t \<Rightarrow> addr \<Rightarrow> mem \<Rightarrow> (addr \<times> mem) option" where
  "ptoa value str m = do {
     m1 \<leftarrow> store m str 48;
     m2 \<leftarrow> store m1 (str + 1) 120;
     (p, m3) \<leftarrow> ptoa_loop value 16 (str + 2) m2;
     m4 \<leftarrow> store m3 p 0;
     Some (str, m4)
   }"

section \<open>Correctness of the string operations\<close>

lemma strlen_loop_correct: "str_at m p cs \<Longrightarrow> strlen_loop m p n = Some (n + of_nat (length cs))"
proof (induction cs arbitrary: p n)
  case Nil
  then show ?case by (subst strlen_loop.simps) (simp add: str_at_Nil load_def)
next
  case (Cons c cs)
  from str_at_Cons [OF Cons.prems] have "m p = Some c" "c \<noteq> 0" "str_at m (p + 1) cs" by auto
  with Cons.IH [of "p + 1" "n + 1"] show ?case by (subst strlen_loop.simps) (simp add: load_def add.assoc)
qed

lemma strlen_correct: "str_at m p cs \<Longrightarrow> strlen m p = Some (of_nat (length cs))"
  by (simp add: strlen_def strlen_loop_correct)

lemma str_end_correct: "str_at m p cs \<Longrightarrow> str_end m p = Some (p + of_nat (length cs))"
proof (induction cs arbitrary: p)
  case Nil
  then show ?case by (subst str_end.simps) (simp add: str_at_Nil load_def)
next
  case (Cons c cs)
  from str_at_Cons [OF Cons.prems] have "m p = Some c" "c \<noteq> 0" "str_at m (p + 1) cs" by auto
  with Cons.IH [of "p + 1"] show ?case by (subst str_end.simps) (simp add: load_def add.assoc)
qed

lemma memcpy_correct:
  assumes "bytes_at m src bs" and "room m dest (length bs)" and "region dest (length bs) \<inter> region src (length bs) = {}"
    and "length bs < 2 ^ 64"
  shows "\<exists>m'. memcpy dest src (of_nat (length bs)) m = Some (dest, m') \<and> bytes_at m' dest bs \<and>
     (\<forall>a. a \<notin> region dest (length bs) \<longrightarrow> m' a = m a) \<and> (\<forall>a. m' a = None \<longleftrightarrow> m a = None)"
proof -
  have u: "unat (of_nat (length bs) :: size_t) = length bs" using assms(4) by (intro unat_of_nat_small) simp
  show ?thesis using memcpy_loop_correct [OF assms(1-3)] unfolding memcpy_def u by auto
qed

lemma strcpy_correct:
  assumes "str_at m src cs" and "room m dest (length cs + 1)" and "region dest (length cs + 1) \<inter> region src (length cs + 1) = {}"
    and "length cs + 1 < 2 ^ 64"
  shows "\<exists>m'. strcpy dest src m = Some (dest, m') \<and> str_at m' dest cs \<and>
     (\<forall>a. a \<notin> region dest (length cs + 1) \<longrightarrow> m' a = m a)"
proof -
  from memcpy_correct [of m src "cs @ [0]" dest] assms obtain m' where
    "memcpy dest src (of_nat (length cs + 1)) m = Some (dest, m')" "bytes_at m' dest (cs @ [0])"
    "\<forall>a. a \<notin> region dest (length cs + 1) \<longrightarrow> m' a = m a" by (auto simp: str_at_def)
  with assms(1) strlen_correct [OF assms(1)] show ?thesis by (auto simp: strcpy_def str_at_def add.commute)
qed

lemma strcmp_correct:
  "str_at m p as \<Longrightarrow> str_at m q bs \<Longrightarrow>
   \<exists>d. strcmp m p q = Some d \<and> (d = 0 \<longleftrightarrow> as = bs) \<and> (d < 0 \<longleftrightarrow> as < bs)"
proof (induction as arbitrary: p q bs)
  case Nil
  show ?case
  proof (cases bs)
    case Nil
    with \<open>str_at m p []\<close> \<open>str_at m q bs\<close> show ?thesis by (subst strcmp.simps) (simp add: str_at_Nil load_def)
  next
    case (Cons b bs')
    with Nil str_at_Cons [of m q b bs'] have "m p = Some 0" "m q = Some b" "b \<noteq> 0" by (auto simp: str_at_Nil)
    moreover from this have "0 < uint b" by (metis uint_0_iff uint_ge_0 order_le_less)
    ultimately show ?thesis using Cons by (subst strcmp.simps) (simp add: load_def)
  qed
next
  case (Cons a as)
  from str_at_Cons [OF Cons.prems(1)] have a: "m p = Some a" "a \<noteq> 0" "str_at m (p + 1) as" by auto
  show ?case
  proof (cases bs)
    case Nil
    with Cons.prems have "m q = Some 0" by (simp add: str_at_Nil)
    with a Nil show ?thesis by (subst strcmp.simps) (simp add: load_def uint_0_iff)
  next
    case (Cons b bs')
    with str_at_Cons [of m q b bs'] Cons.prems(2) have b: "m q = Some b" "str_at m (q + 1) bs'" by auto
    show ?thesis
    proof (cases "a = b")
      case True
      with a b Cons.IH [OF a(3) b(2)] Cons show ?thesis by (subst strcmp.simps) (simp add: load_def)
    next
      case False
      with a b Cons show ?thesis by (subst strcmp.simps) (simp add: load_def word_less_def word_uint_eq_iff)
    qed
  qed
qed

lemma memcmp_loop_correct:
  "bytes_at m p as \<Longrightarrow> bytes_at m q bs \<Longrightarrow> length as = length bs \<Longrightarrow>
   memcmp_loop m p q (length as) = Some (if as = bs then 0 else if as < bs then - 1 else 1)"
proof (induction as arbitrary: p q bs)
  case (Cons a as)
  then obtain b bs' where bs: "bs = b # bs'" by (cases bs) auto
  with Cons.prems have "m p = Some a" "m q = Some b" "bytes_at m (p + 1) as" "bytes_at m (q + 1) bs'"
    by (auto dest: bytes_at_first bytes_at_tail)
  with Cons bs show ?case by (auto simp: load_def)
qed simp

lemma memchr_loop_correct:
  "bytes_at m p bs \<Longrightarrow> \<exists>q. memchr_loop m p c (length bs) = Some q \<and>
     (c \<notin> set bs \<longrightarrow> q = 0) \<and>
     (c \<in> set bs \<longrightarrow> (\<exists>i < length bs. q = p + of_nat i \<and> bs ! i = c \<and> c \<notin> set (take i bs)))"
proof (induction bs arbitrary: p)
  case (Cons b bs)
  from Cons.prems have b: "m p = Some b" "bytes_at m (p + 1) bs" by (auto dest: bytes_at_first bytes_at_tail)
  show ?case
  proof (cases "b = c")
    case True
    with b show ?thesis by (auto simp: load_def intro!: exI [of _ 0])
  next
    case False
    from Cons.IH [OF b(2)] obtain q where q: "memchr_loop m (p + 1) c (length bs) = Some q" "c \<notin> set bs \<longrightarrow> q = 0"
      "c \<in> set bs \<longrightarrow> (\<exists>i < length bs. q = p + 1 + of_nat i \<and> bs ! i = c \<and> c \<notin> set (take i bs))" by blast
    have "\<exists>i < length (b # bs). q = p + of_nat i \<and> (b # bs) ! i = c \<and> c \<notin> set (take i (b # bs))" if "c \<in> set bs"
    proof -
      from q(3) that obtain i where "i < length bs" "q = p + 1 + of_nat i" "bs ! i = c" "c \<notin> set (take i bs)" by blast
      with False show ?thesis by (intro exI [of _ "Suc i"]) (simp add: add.assoc)
    qed
    with False b q(1,2) show ?thesis by (auto simp: load_def)
  qed
qed simp

lemma strclen_loop_correct:
  assumes "t \<noteq> 0"
  shows "str_at m p cs \<Longrightarrow> strclen_loop m p t n = Some (n + of_nat (length (takeWhile (\<lambda>c. c \<noteq> t) cs)))"
proof (induction cs arbitrary: p n)
  case Nil
  with assms show ?case by (subst strclen_loop.simps) (simp add: str_at_Nil load_def)
next
  case (Cons c cs)
  from str_at_Cons [OF Cons.prems] have "m p = Some c" "c \<noteq> 0" "str_at m (p + 1) cs" by auto
  with Cons.IH [of "p + 1" "n + 1"] show ?case by (subst strclen_loop.simps) (simp add: load_def add.assoc)
qed

section \<open>Reversing\<close>

text \<open>The bytes after the first \<open>i\<close> swaps.\<close>

definition swapped :: "nat \<Rightarrow> uint8_t list \<Rightarrow> uint8_t list" where
  "swapped i cs = map (\<lambda>j. if j < i \<or> length cs - i \<le> j then cs ! (length cs - 1 - j) else cs ! j) [0..<length cs]"

lemma swapped_0: "swapped 0 cs = cs"
  by (auto simp: swapped_def intro: nth_equalityI)

lemma swapped_half: "length cs div 2 \<le> i \<Longrightarrow> i \<le> length cs div 2 \<Longrightarrow> swapped i cs = rev cs"
  by (rule nth_equalityI) (auto simp: swapped_def rev_nth intro: arg_cong [of _ _ "nth cs"])

lemma swapped_Suc:
  assumes "i < length cs div 2"
  shows "(swapped i cs)[i := swapped i cs ! (length cs - 1 - i), length cs - 1 - i := swapped i cs ! i] = swapped (Suc i) cs"
  by (rule nth_equalityI) (use assms in \<open>auto simp: swapped_def nth_list_update\<close>)

lemma strrev_loop_correct:
  assumes "i + k = length cs div 2" and "bytes_at m p (swapped i cs @ [0])"
  shows "\<exists>m'. strrev_loop p (length cs) i k m = Some m' \<and> bytes_at m' p (rev cs @ [0]) \<and>
     (\<forall>a. a \<notin> region p (length cs) \<longrightarrow> m' a = m a)"
  using assms
proof (induction k arbitrary: i m)
  case 0
  then show ?case by (simp add: swapped_half)
next
  case (Suc k)
  let ?j = "length cs - 1 - i" and ?s = "swapped i cs"
  have l: "length ?s = length cs" by (simp add: swapped_def)
  from Suc.prems(1) have i: "i < length cs div 2" "i < length cs" "?j < length cs" by auto
  let ?m = "m(p + of_nat i \<mapsto> ?s ! ?j, p + of_nat ?j \<mapsto> ?s ! i)"
  have at: "m (p + of_nat i) = Some (?s ! i)" "m (p + of_nat ?j) = Some (?s ! ?j)"
    using bytes_at_nth [OF Suc.prems(2), of i] bytes_at_nth [OF Suc.prems(2), of ?j] i l by (simp_all add: nth_append)
  have b1: "bytes_at (m(p + of_nat i \<mapsto> ?s ! ?j)) p ((?s @ [0])[i := ?s ! ?j])"
    using i l by (intro bytes_at_update [OF Suc.prems(2)]) simp
  have "bytes_at ?m p ((?s @ [0])[i := ?s ! ?j, ?j := ?s ! i])"
    by (rule bytes_at_update [OF b1]) (use i l in simp)
  also have "(?s @ [0])[i := ?s ! ?j, ?j := ?s ! i] = swapped (Suc i) cs @ [0]"
    using i l swapped_Suc [OF i(1)] by (simp add: list_update_append)
  finally have b2: "bytes_at ?m p (swapped (Suc i) cs @ [0])" .
  have "Suc i + k = length cs div 2" using Suc.prems(1) by simp
  from Suc.IH [OF this b2] obtain m' where m': "strrev_loop p (length cs) (Suc i) k ?m = Some m'"
    "bytes_at m' p (rev cs @ [0])" "\<forall>a. a \<notin> region p (length cs) \<longrightarrow> m' a = ?m a" by blast
  have "p + of_nat i \<in> region p (length cs)" "p + of_nat ?j \<in> region p (length cs)"
    using i unfolding region_def by blast+
  with m'(3) have "\<forall>a. a \<notin> region p (length cs) \<longrightarrow> m' a = m a" by (metis fun_upd_other)
  moreover have "m (p + of_nat ?j) \<noteq> None" using at by simp
  then have "strrev_loop p (length cs) i (Suc k) m = strrev_loop p (length cs) (Suc i) k ?m"
    using at unfolding strrev_loop.simps load_def store_def by (auto split: option.splits)
  ultimately show ?case using m' by auto
qed

lemma strrev_correct:
  assumes "str_at m p cs"
  shows "\<exists>m'. strrev p m = Some (p, m') \<and> str_at m' p (rev cs) \<and> (\<forall>a. a \<notin> region p (length cs) \<longrightarrow> m' a = m a)"
proof -
  have u: "unat (of_nat (length cs) :: size_t) = length cs" using str_at_length [OF assms] by (intro unat_of_nat_small) simp
  from strrev_loop_correct [of 0 "length cs div 2" cs m p] assms show ?thesis
    by (auto simp: strrev_def strlen_correct [OF assms] u swapped_0 str_at_def simp del: unat_of_nat)
qed

section \<open>Number conversion\<close>

text \<open>Digits of a number, least significant first, and the value of a string of digit characters.\<close>

function ldigits :: "nat \<Rightarrow> nat \<Rightarrow> nat list" where
  "ldigits b n = n mod b # (if b < 2 \<or> n div b = 0 then [] else ldigits b (n div b))"
  by pat_completeness auto
termination
proof (relation "measure snd")
  fix b n :: nat
  assume "\<not> (b < 2 \<or> n div b = 0)"
  then show "((b, n div b), (b, n)) \<in> measure snd"
    by (cases n) (auto intro: div_less_dividend)
qed simp

declare ldigits.simps [simp del]

definition digit_char :: "nat \<Rightarrow> uint8_t" where
  "digit_char d = of_nat (if d < 10 then 48 + d else 87 + d)"

definition digit_val :: "uint8_t \<Rightarrow> nat" where
  "digit_val c = (if unat c < 58 then unat c - 48 else unat c - 87)"

definition number :: "nat \<Rightarrow> uint8_t list \<Rightarrow> nat" where
  "number b cs = foldl (\<lambda>a c. a * b + digit_val c) 0 cs"

definition signed_number :: "nat \<Rightarrow> uint8_t list \<Rightarrow> int" where
  "signed_number b cs = (case cs of [] \<Rightarrow> 0 | c # r \<Rightarrow> if c = 45 then - int (number b r) else int (number b cs))"

lemma digit_char_ok:
  assumes "d < 36"
  shows "unat (digit_char d) = (if d < 10 then 48 + d else 87 + d)" "digit_val (digit_char d) = d" "digit_char d \<noteq> 0"
    "digit_char d \<noteq> 45"
proof -
  show u: "unat (digit_char d) = (if d < 10 then 48 + d else 87 + d)"
    unfolding digit_char_def using assms by (intro unat_of_nat_small) auto
  then show "digit_val (digit_char d) = d" using assms by (auto simp: digit_val_def)
  from u show "digit_char d \<noteq> 0" by (auto split: if_splits)
  from u show "digit_char d \<noteq> 45" using assms by (auto split: if_splits)
qed

lemma nchar_digit:
  assumes "d < 36"
  shows "nchar (of_nat d) = digit_char d"
proof -
  have u: "unat (of_nat d :: uint32_t) = d" using assms by (intro unat_of_nat_small) simp
  have lt: "(of_nat d :: uint32_t) < 10 \<longleftrightarrow> d < 10" using u by (simp add: word_less_nat_alt del: unat_of_nat)
  show ?thesis
  proof (cases "d < 10")
    case True
    have "(48 + of_nat d :: uint32_t) = of_nat (48 + d)" by simp
    then have "nchar (of_nat d) = ucast (of_nat (48 + d) :: uint32_t)" using True lt by (simp add: nchar_def)
    also have "\<dots> = of_nat (48 + d)" using True by (simp only: unsigned_of_nat) (simp add: take_bit_nat_eq_self)
    finally show ?thesis using True by (simp add: digit_char_def)
  next
    case False
    have "(97 + of_nat d - 10 :: uint32_t) = of_nat (87 + d)" by simp
    then have "nchar (of_nat d) = ucast (of_nat (87 + d) :: uint32_t)" using False lt by (simp add: nchar_def)
    also have "\<dots> = of_nat (87 + d)" using assms by (simp only: unsigned_of_nat) (simp add: take_bit_nat_eq_self)
    finally show ?thesis using False by (simp add: digit_char_def)
  qed
qed

lemma ldigits_split:
  assumes "2 \<le> b"
  obtains ds where "ldigits b n = n mod b # ds" and "ds = (if n div b = 0 then [] else ldigits b (n div b))"
proof (rule that)
  show "ldigits b n = n mod b # (if n div b = 0 then [] else ldigits b (n div b))"
    using assms by (subst ldigits.simps) simp
qed (rule refl)

lemma ldigits_less: "2 \<le> b \<Longrightarrow> d \<in> set (ldigits b n) \<Longrightarrow> d < b"
proof (induction b n rule: ldigits.induct)
  case (1 b n)
  then show ?case by (subst (asm) (2) ldigits.simps) (auto split: if_splits)
qed

lemma ldigits_value: "2 \<le> b \<Longrightarrow> b \<le> 36 \<Longrightarrow> number b (rev (map digit_char (ldigits b n))) = n"
proof (induction b n rule: ldigits.induct)
  case (1 b n)
  have "n mod b < 36" using 1(2,3) mod_less_divisor [of b n] by linarith
  then have v: "digit_val (digit_char (n mod b)) = n mod b" by (rule digit_char_ok)
  show ?case
  proof (cases "n div b = 0")
    case True
    with v 1(2) show ?thesis by (subst ldigits.simps) (auto simp: number_def div_eq_0_iff)
  next
    case False
    with 1 have "number b (rev (map digit_char (ldigits b (n div b)))) = n div b" by simp
    with False 1(2) v show ?thesis by (subst ldigits.simps) (simp add: number_def)
  qed
qed

lemma ldigits_length: "2 \<le> b \<Longrightarrow> n < 2 ^ Suc k \<Longrightarrow> length (ldigits b n) \<le> Suc k"
proof (induction k arbitrary: n)
  case 0
  then have "n < b" by simp
  then show ?case by (subst ldigits.simps) simp
next
  case (Suc k)
  have "n div b \<le> n div 2" using Suc.prems(1) by (simp add: div_le_mono2)
  with Suc.prems(2) have "n div b < 2 ^ Suc k" by simp
  with Suc show ?case by (subst ldigits.simps) simp
qed

lemma room_tail:
  assumes "room m p (Suc n)"
  shows "m p \<noteq> None" and "room (m(p \<mapsto> c)) (p + 1) n" and "n < 2 ^ 64"
  using assms unfolding room_def by (force simp: All_less_Suc2 add.assoc)+

text \<open>Writing a digit and going on: the bytes of the whole number.\<close>

lemma bytes_after_store:
  assumes "n < 2 ^ 64" and "length cs = n" and "bytes_at m' (p + 1) cs"
    and "\<forall>a. a \<notin> region (p + 1) n \<longrightarrow> m' a = (m(p \<mapsto> c)) a"
  shows "bytes_at m' p (c # cs) \<and> (\<forall>a. a \<notin> region p (Suc n) \<longrightarrow> m' a = m a)"
proof -
  have "m' p = Some c" using assms(4) first_notin_rest [OF assms(1)] by simp
  with assms show ?thesis by (auto simp: bytes_at_Cons region_Suc)
qed

lemma udigits_correct:
  fixes base v :: "'a::len word"
  assumes "2 \<le> unat base" and "unat base \<le> 36" and "room m p (length (ldigits (unat base) (unat v)))"
  shows "\<exists>m'. udigits base v p m = Some (p + of_nat (length (ldigits (unat base) (unat v))), m') \<and>
     bytes_at m' p (map digit_char (ldigits (unat base) (unat v))) \<and>
     (\<forall>a. a \<notin> region p (length (ldigits (unat base) (unat v))) \<longrightarrow> m' a = m a)"
  using assms
proof (induction "unat base" "unat v" arbitrary: v p m rule: ldigits.induct)
  case 1
  let ?b = "unat base" and ?n = "unat v"
  have "?n mod ?b < 36" using 1(2,3) mod_less_divisor [of ?b ?n] by linarith
  moreover have "ucast (v mod base) = (of_nat (?n mod ?b) :: uint32_t)"
    by (metis of_nat_unat unat_mod_distrib)
  ultimately have c: "nchar (ucast (v mod base)) = digit_char (?n mod ?b)" by (simp add: nchar_digit)
  have z: "base \<noteq> 0" "v div base = 0 \<longleftrightarrow> ?n div ?b = 0"
    using 1(2) by (auto simp flip: unat_div_distrib simp: unat_eq_zero)
  obtain ds where ds: "ldigits ?b ?n = ?n mod ?b # ds" "ds = (if ?n div ?b = 0 then [] else ldigits ?b (?n div ?b))"
    using ldigits_split [of ?b ?n] 1(2) by blast
  have rm: "room m p (Suc (length ds))" using 1(4) ds(1) by simp
  have r: "m p \<noteq> None" "room (m(p \<mapsto> digit_char (?n mod ?b))) (p + 1) (length ds)" "length ds < 2 ^ 64"
    using room_tail [OF rm] by blast+
  let ?m = "m(p \<mapsto> digit_char (?n mod ?b))"
  show ?case
  proof (cases "?n div ?b = 0")
    case True
    then show ?thesis using ds z c r(1) by (subst udigits.simps) (auto simp: store_def bytes_at_def region_Suc)
  next
    case False
    have d: "unat (v div base) = ?n div ?b" by (simp add: unat_div_distrib)
    have dse: "ds = ldigits ?b (unat (v div base))" using ds(2) False d by simp
    from False 1(2) have cond: "\<not> (?b < 2 \<or> ?n div ?b = 0)" by simp
    from 1(1) [OF cond d [symmetric] 1(2,3) r(2) [unfolded dse], folded dse] obtain m' where
      m': "udigits base (v div base) (p + 1) ?m = Some (p + 1 + of_nat (length ds), m')"
        "bytes_at m' (p + 1) (map digit_char ds)" "\<forall>a. a \<notin> region (p + 1) (length ds) \<longrightarrow> m' a = ?m a" by blast
    from bytes_after_store [OF r(3) _ m'(2,3)] have
      "bytes_at m' p (map digit_char (ldigits ?b ?n)) \<and> (\<forall>a. a \<notin> region p (length (ldigits ?b ?n)) \<longrightarrow> m' a = m a)" by (simp add: ds(1))
    moreover have "udigits base v p m = Some (p + of_nat (length (ldigits ?b ?n)), m')"
      using m'(1) False z c r(1) ds(1) by (subst udigits.simps) (auto simp: store_def add.assoc)
    ultimately show ?thesis by blast
  qed
qed

lemma sdigits_correct:
  assumes "2 \<le> base" and "base \<le> 36" and "0 \<le> v" and "room m p (length (ldigits (nat base) (nat v)))"
  shows "\<exists>m'. sdigits base v p m = Some (p + of_nat (length (ldigits (nat base) (nat v))), m') \<and>
     bytes_at m' p (map digit_char (ldigits (nat base) (nat v))) \<and>
     (\<forall>a. a \<notin> region p (length (ldigits (nat base) (nat v))) \<longrightarrow> m' a = m a)"
  using assms
proof (induction "nat base" "nat v" arbitrary: v p m rule: ldigits.induct)
  case 1
  let ?b = "nat base" and ?n = "nat v"
  have s: "v smod base = v mod base" "v sdiv base = v div base"
    using 1(2,4) by (simp_all add: signed_modulo_int_def signed_divide_int_def sgn_if)
  have nm: "v mod base = int (?n mod ?b)" "nat (v div base) = ?n div ?b" "v div base = 0 \<longleftrightarrow> ?n div ?b = 0"
  proof -
    obtain a c where ac: "v = int a" "base = int c" using 1(2,4) by (metis nonneg_int_cases order_trans zero_le_numeral)
    show "v mod base = int (?n mod ?b)" "nat (v div base) = ?n div ?b" "v div base = 0 \<longleftrightarrow> ?n div ?b = 0"
      unfolding ac by (simp_all flip: zdiv_int zmod_int of_nat_0)
  qed
  have "?n mod ?b < 36" using 1(2,3) mod_less_divisor [of ?b ?n] by linarith
  then have c: "nchar (word_of_int (v smod base)) = digit_char (?n mod ?b)" using nchar_digit s(1) nm(1) by simp
  obtain ds where ds: "ldigits ?b ?n = ?n mod ?b # ds" "ds = (if ?n div ?b = 0 then [] else ldigits ?b (?n div ?b))"
    using ldigits_split [of ?b ?n] 1(2) by force
  have rm: "room m p (Suc (length ds))" using 1(5) ds(1) by simp
  have r: "m p \<noteq> None" "room (m(p \<mapsto> digit_char (?n mod ?b))) (p + 1) (length ds)" "length ds < 2 ^ 64"
    using room_tail [OF rm] by blast+
  let ?m = "m(p \<mapsto> digit_char (?n mod ?b))"
  show ?case
  proof (cases "?n div ?b = 0")
    case True
    then show ?thesis using ds nm s c r(1) 1(2) by (subst sdigits.simps) (auto simp: store_def bytes_at_def region_Suc)
  next
    case False
    have pos: "0 \<le> v div base" using 1(2,4) by (simp add: pos_imp_zdiv_nonneg_iff)
    have dse: "ds = ldigits ?b (nat (v div base))" using ds(2) False nm(2) by simp
    from False 1(2) have cond: "\<not> (?b < 2 \<or> ?n div ?b = 0)" by simp
    from 1(1) [OF cond nm(2) [symmetric] 1(2,3) pos r(2) [unfolded dse], folded dse] obtain m' where
      m': "sdigits base (v div base) (p + 1) ?m = Some (p + 1 + of_nat (length ds), m')"
        "bytes_at m' (p + 1) (map digit_char ds)" "\<forall>a. a \<notin> region (p + 1) (length ds) \<longrightarrow> m' a = ?m a" by blast
    from bytes_after_store [OF r(3) _ m'(2,3)] have
      "bytes_at m' p (map digit_char (ldigits ?b ?n)) \<and> (\<forall>a. a \<notin> region p (length (ldigits ?b ?n)) \<longrightarrow> m' a = m a)" by (simp add: ds(1))
    moreover have "sdigits base v p m = Some (p + of_nat (length (ldigits ?b ?n)), m')"
      using m'(1) False nm s c r(1) ds(1) 1(2) by (subst sdigits.simps) (auto simp: store_def add.assoc)
    ultimately show ?thesis by blast
  qed
qed

lemma next_notin_region:
  assumes "n < 2 ^ 64"
  shows "p + of_nat n \<notin> region p n"
proof
  assume "p + of_nat n \<in> region p n"
  then obtain i where "i < n" "p + of_nat n = p + of_nat i" by (auto simp: region_def)
  with assms addr_inj [of n i p] show False by simp
qed

text \<open>Terminating and reversing what the digit loop wrote.\<close>

lemma finish_number:
  assumes "bytes_at m p cs" and "0 \<notin> set cs" and "m (p + of_nat (length cs)) \<noteq> None" and "length cs < 2 ^ 64"
  shows "\<exists>m'. (do { m2 \<leftarrow> store m (p + of_nat (length cs)) 0; strrev p m2 }) = Some (p, m') \<and> str_at m' p (rev cs) \<and>
     (\<forall>a. a \<notin> region p (Suc (length cs)) \<longrightarrow> m' a = m a)"
proof -
  let ?q = "p + of_nat (length cs)"
  have q: "?q \<in> region p (Suc (length cs))" "region p (length cs) \<subseteq> region p (Suc (length cs))" by (auto simp: region_def)
  have "?q \<notin> region p (length cs)" by (rule next_notin_region [OF assms(4)])
  then have "bytes_at (m(?q \<mapsto> 0)) p cs" using assms(1) by (simp add: bytes_at_frame)
  then have "bytes_at (m(?q \<mapsto> 0)) p (cs @ [0])" using assms(4) by (intro bytes_at_snoc) auto
  with assms(2) have "str_at (m(?q \<mapsto> 0)) p cs" by (simp add: str_at_def)
  from strrev_correct [OF this] assms(3) q show ?thesis by (fastforce simp: store_def)
qed

lemma digits_nonzero:
  assumes "2 \<le> b" and "b \<le> 36"
  shows "0 \<notin> set (map digit_char (ldigits b n))" and "45 \<notin> set (map digit_char (ldigits b n))"
proof -
  have "d < 36" if "d \<in> set (ldigits b n)" for d using ldigits_less [OF assms(1) that] assms(2) by simp
  then have "digit_char d \<noteq> 0 \<and> digit_char d \<noteq> 45" if "d \<in> set (ldigits b n)" for d using digit_char_ok(3,4) that by blast
  then show "0 \<notin> set (map digit_char (ldigits b n))" "45 \<notin> set (map digit_char (ldigits b n))" by force+
qed

lemma room_le: "room m p n \<Longrightarrow> k \<le> n \<Longrightarrow> room m p k"
  by (auto simp: room_def)

lemma room_at: "room m p n \<Longrightarrow> k < n \<Longrightarrow> m (p + of_nat k) \<noteq> None"
  by (auto simp: room_def)

text \<open>The unsigned conversions at either width.\<close>

lemma utoa_generic:
  fixes v bw :: "'a::len word"
  assumes "2 \<le> base" and "base \<le> 36" and "unat bw = nat base" and "room m str (LENGTH('a) + 1)"
    and "LENGTH('a) \<le> 64"
  shows "\<exists>m' cs. (do { (p, m1) \<leftarrow> udigits bw v str m; m2 \<leftarrow> store m1 p 0; strrev str m2 }) = Some (str, m') \<and>
     str_at m' str cs \<and> number (nat base) cs = unat v \<and> 0 < length cs \<and> length cs \<le> LENGTH('a)"
proof -
  let ?b = "nat base" and ?ds = "ldigits (nat base) (unat v)"
  have b: "2 \<le> ?b" "?b \<le> 36" using assms(1,2) by simp_all
  obtain k where k: "LENGTH('a) = Suc k" using len_gt_0 [where 'a = 'a] by (metis gr0_implies_Suc)
  from ldigits_length [OF b(1), of "unat v" k] unat_less_pow [of v] k have l: "length ?ds \<le> LENGTH('a)" by simp
  have r: "room m str (length ?ds)" by (rule room_le [OF assms(4)]) (use l in simp)
  have l64: "length ?ds < 2 ^ 64" using l assms(5) by simp
  from udigits_correct [of bw m str v] b r assms(3) obtain m1 where
    m1: "udigits bw v str m = Some (str + of_nat (length ?ds), m1)" "bytes_at m1 str (map digit_char ?ds)"
      "\<forall>a. a \<notin> region str (length ?ds) \<longrightarrow> m1 a = m a" by auto
  have "m1 (str + of_nat (length ?ds)) \<noteq> None"
    using m1(3) next_notin_region [OF l64] room_at [OF assms(4), of "length ?ds"] l by simp
  with finish_number [OF m1(2) digits_nonzero(1) [OF b]] l64 obtain m' where
    "(do { m2 \<leftarrow> store m1 (str + of_nat (length ?ds)) 0; strrev str m2 }) = Some (str, m')"
    "str_at m' str (rev (map digit_char ?ds))" by auto
  moreover have "0 < length ?ds" by (subst ldigits.simps) simp
  ultimately show ?thesis using m1(1) l ldigits_value [OF b, of "unat v"]
    by (intro exI [of _ m'] exI [of _ "rev (map digit_char ?ds)"]) simp
qed

lemma stoa_generic:
  assumes "2 \<le> base" and "base \<le> 36" and "0 < w" and "w \<le> 64" and "- (2 ^ (w - 1)) < v" and "v < 2 ^ (w - 1)"
    and "room m str (w + 2)"
  shows "\<exists>m' cs. stoa w v str base m = Some (str, m') \<and> str_at m' str cs \<and> signed_number (nat base) cs = v"
proof -
  define u where "u = (if v < 0 then - v else v)"
  let ?b = "nat base" and ?n = "nat u"
  let ?ds = "ldigits ?b ?n" and ?p = "str + of_nat (length (ldigits ?b ?n))"
  have b: "2 \<le> ?b" "?b \<le> 36" using assms(1,2) by simp_all
  have "?n < 2 ^ (w - 1)" using assms(5,6) by (auto simp: nat_less_iff u_def)
  also have "\<dots> \<le> 2 ^ Suc (w - 1)" by simp
  finally have l: "length ?ds \<le> w" using ldigits_length [OF b(1), of ?n "w - 1"] assms(3) by simp
  then have l64: "length ?ds < 2 ^ 64" using assms(4) by simp
  have r: "room m str (length ?ds)" by (rule room_le [OF assms(7)]) (use l in simp)
  have "0 \<le> u" by (simp add: u_def)
  from sdigits_correct [OF assms(1,2) this r] obtain m1 where
    m1: "sdigits base u str m = Some (?p, m1)" "bytes_at m1 str (map digit_char ?ds)"
      "\<forall>a. a \<notin> region str (length ?ds) \<longrightarrow> m1 a = m a" by blast
  have at: "m1 ?p \<noteq> None" using m1(3) next_notin_region [OF l64] room_at [OF assms(7), of "length ?ds"] l by simp
  have val: "number ?b (rev (map digit_char ?ds)) = ?n" by (rule ldigits_value [OF b])
  have ne: "?ds \<noteq> []" by (subst ldigits.simps) simp
  show ?thesis
  proof (cases "v < 0")
    case False
    with finish_number [OF m1(2) digits_nonzero(1) [OF b]] at l64 obtain m' where
      "(do { m2 \<leftarrow> store m1 ?p 0; strrev str m2 }) = Some (str, m')" "str_at m' str (rev (map digit_char ?ds))" by auto
    moreover have "signed_number ?b (rev (map digit_char ?ds)) = v"
    proof -
      obtain c cs where c: "rev (map digit_char ?ds) = c # cs" using ne by (cases "rev (map digit_char ?ds)") auto
      then have "c \<noteq> 45" using digits_nonzero(2) [OF b, of ?n] by (metis list.set_intros(1) set_rev)
      with c val False show ?thesis by (simp add: signed_number_def u_def)
    qed
    ultimately show ?thesis using m1(1) False by (auto simp: stoa_def Let_def u_def)
  next
    case True
    let ?m = "m1(?p \<mapsto> 45)"
    have "bytes_at ?m str (map digit_char ?ds)"
      using m1(2) next_notin_region [OF l64, of str] by (simp add: bytes_at_frame)
    then have byt: "bytes_at ?m str (map digit_char ?ds @ [45])" using l64 by (intro bytes_at_snoc) auto
    have q: "str + of_nat (length (map digit_char ?ds @ [45 :: uint8_t])) = ?p + 1" by (simp add: add.assoc add.commute)
    have "str + of_nat (length ?ds + 1) \<notin> region str (length ?ds)"
    proof
      assume "str + of_nat (length ?ds + 1) \<in> region str (length ?ds)"
      then obtain i where "i < length ?ds" "str + of_nat (length ?ds + 1) = str + of_nat i" by (auto simp: region_def)
      with addr_inj [of "length ?ds + 1" i str] l assms(4) show False by simp
    qed
    then have "?m (?p + 1) \<noteq> None"
      using m1(3) room_at [OF assms(7), of "length ?ds + 1"] l at by (auto simp: ac_simps)
    then have nn: "?m (str + of_nat (length (map digit_char ?ds @ [45 :: uint8_t]))) \<noteq> None" unfolding q .
    have z: "0 \<notin> set (map digit_char ?ds @ [45])" using digits_nonzero(1) [OF b, of ?n] by simp
    have ll: "length (map digit_char ?ds @ [45 :: uint8_t]) < 2 ^ 64" using l assms(4) by simp
    from finish_number [OF byt z nn ll, unfolded q] obtain m' where
      "(do { m2 \<leftarrow> store ?m (?p + 1) 0; strrev str m2 }) = Some (str, m')" "str_at m' str (rev (map digit_char ?ds @ [45]))" by blast
    moreover have "signed_number ?b (rev (map digit_char ?ds @ [45])) = v" using val True by (simp add: signed_number_def u_def)
    moreover have "v \<noteq> - (2 ^ (w - 1))" using assms(5) by simp
    ultimately show ?thesis using m1(1) True at
      by (intro exI [of _ m'] exI [of _ "rev (map digit_char ?ds @ [45])"]) (auto simp: stoa_def Let_def store_def u_def)
  qed
qed

section \<open>Properties\<close>

text \<open>Memory with a string at 100 and another at 200, and a zeroed buffer at 300.\<close>

definition example_mem :: mem where
  "example_mem = (\<lambda>a. if 300 \<le> a \<and> a < 400 then Some 0
     else [100 \<mapsto> 97, 101 \<mapsto> 98, 102 \<mapsto> 0, 200 \<mapsto> 97, 201 \<mapsto> 99, 202 \<mapsto> 0] a)"

lemma example_mem_strings: "str_at example_mem 100 [97, 98]" "str_at example_mem 200 [97, 99]"
  by (simp_all add: str_at_def bytes_at_Cons example_mem_def)

lemma example_mem_room: "n \<le> 100 \<Longrightarrow> room example_mem 300 n"
proof -
  assume n: "n \<le> 100"
  have "300 \<le> (300 + of_nat i :: addr) \<and> (300 + of_nat i :: addr) < 400" if "i < n" for i
  proof -
    have i: "i < 100" using that n by simp
    have "unat (300 + of_nat i :: addr) = unat (of_nat (300 + i) :: addr)" by simp
    also have "\<dots> = 300 + i" using i by (intro unat_of_nat_small) simp
    finally show ?thesis using i by (simp add: word_le_nat_alt word_less_nat_alt)
  qed
  with n show ?thesis by (simp add: room_def example_mem_def)
qed

text \<open>String comparison (\<^verbatim>\<open>strcmp\<close>): on any two NUL-terminated strings the loop ends inside them, the
  result is zero exactly when they are equal and negative exactly when the first is smaller in
  the byte-wise lexicographic order.\<close>

theorem strcmp_total_order:
  assumes "str_at m p as" and "str_at m q bs"
  shows "\<exists>d. strcmp m p q = Some d \<and> (d = 0 \<longleftrightarrow> as = bs) \<and> (d < 0 \<longleftrightarrow> as < bs)"
  by (rule strcmp_correct [OF assms])

theorem strcmp_total_order_witness: "\<exists>d. strcmp example_mem 100 200 = Some d \<and> d < 0"
  using strcmp_total_order [OF example_mem_strings] by auto

text \<open>Unsigned numbers print and read back (\<^verbatim>\<open>ultoa\<close>): for every 64-bit value, every base from 2 to 36 and a
  buffer of 65 bytes, the call returns and leaves a NUL-terminated string of 1 to 64 digits in
  the buffer whose value in that base is the number.\<close>

theorem ultoa_roundtrip:
  assumes "2 \<le> base" and "base \<le> 36" and "room m str 65"
  shows "\<exists>m' cs. ultoa v str base m = Some (str, m') \<and> str_at m' str cs \<and> number (nat base) cs = unat v \<and>
     0 < length cs \<and> length cs \<le> 64"
proof -
  have "unat (word_of_int base :: uint64_t) = nat base"
    using assms(1,2) by (simp add: unsigned_of_int take_bit_int_eq_self)
  with utoa_generic [OF assms(1,2), of "word_of_int base" m str v] assms(3) show ?thesis by (simp add: ultoa_def)
qed

theorem ultoa_roundtrip_witness:
  "\<exists>m' cs. ultoa 3735928559 300 16 example_mem = Some (300, m') \<and> str_at m' 300 cs \<and> number 16 cs = 3735928559"
  using ultoa_roundtrip [of 16 example_mem 300 3735928559] example_mem_room [of 65] by auto

text \<open>Signed numbers print and read back (\<^verbatim>\<open>itoa\<close>): for every \<^verbatim>\<open>int\<close> but the least one, every base from 2 to 36
  and a buffer of 34 bytes, the buffer afterwards holds the digits of the absolute value, behind
  a minus sign when the number is negative.\<close>

theorem itoa_roundtrip:
  assumes "2 \<le> base" and "base \<le> 36" and "- (2 ^ 31) < v" and "v < 2 ^ 31" and "room m str 34"
  shows "\<exists>m' cs. itoa v str base m = Some (str, m') \<and> str_at m' str cs \<and> signed_number (nat base) cs = v"
  using stoa_generic [OF assms(1,2), of 32 v m str] assms(3-5) by (simp add: itoa_def)

theorem itoa_roundtrip_witness:
  "\<exists>m' cs. itoa (- 1234) 300 10 example_mem = Some (300, m') \<and> str_at m' 300 cs \<and> signed_number 10 cs = - 1234"
  using itoa_roundtrip [of 10 "- 1234" example_mem 300] example_mem_room [of 34] by auto

end
