(* ===== verification/LibcString.thy ===== *)
theory LibcString
  imports KString
begin

text \<open>
  The string functions of the C library, \<^verbatim>\<open>libc/generic/string\<close>: \<^verbatim>\<open>memchr\<close> and \<^verbatim>\<open>strlen\<close>, which read
  memory a machine word at a time once the pointer is aligned, \<^verbatim>\<open>strnlen\<close> and \<^verbatim>\<open>strcmp\<close>. A word
  access reads eight bytes, little endian, and faults when one of them is not mapped.
\<close>

section \<open>Words of memory\<close>

definition load_word :: "mem \<Rightarrow> addr \<Rightarrow> 64 word option" where
  "load_word m p = do { bs \<leftarrow> load_bytes m p 8; Some (le_word bs) }"

definition ALIGN :: size_t where
  "ALIGN = 8 - 1"

definition ONES :: size_t where
  "ONES = - 1 div 255"

definition HIGHS :: size_t where
  "HIGHS = ONES * (255 div 2 + 1)"

definition HASZERO :: "size_t \<Rightarrow> size_t" where
  "HASZERO x = (x - ONES) AND NOT x AND HIGHS"

section \<open>The functions\<close>

text \<open>The alignment loop and the tail loop of \<^verbatim>\<open>memchr\<close> are the same loop up to the alignment test.\<close>

function memchr_align :: "mem \<Rightarrow> addr \<Rightarrow> uint8_t \<Rightarrow> size_t \<Rightarrow> (addr \<times> size_t) option" where
  "memchr_align m s c n =
     (if s AND ALIGN \<noteq> 0 \<and> n \<noteq> 0
      then do { a \<leftarrow> load m s; if a \<noteq> c then memchr_align m (s + 1) c (n - 1) else Some (s, n) }
      else Some (s, n))"
  by pat_completeness auto
termination
  by (relation "measure (\<lambda>(m, s, c, n). unat n)") (auto simp: unat_minus_one unat_gt_0)

function memchr_words :: "mem \<Rightarrow> addr \<Rightarrow> size_t \<Rightarrow> size_t \<Rightarrow> (addr \<times> size_t) option" where
  "memchr_words m w k n =
     (if 8 \<le> n
      then do { x \<leftarrow> load_word m w; if HASZERO (x XOR k) = 0 then memchr_words m (w + 8) k (n - 8) else Some (w, n) }
      else Some (w, n))"
  by pat_completeness auto
termination
  by (relation "measure (\<lambda>(m, w, k, n). unat n)") (auto simp: unat_sub word_le_nat_alt)

function memchr_bytes :: "mem \<Rightarrow> addr \<Rightarrow> uint8_t \<Rightarrow> size_t \<Rightarrow> (addr \<times> size_t) option" where
  "memchr_bytes m s c n =
     (if n \<noteq> 0
      then do { a \<leftarrow> load m s; if a \<noteq> c then memchr_bytes m (s + 1) c (n - 1) else Some (s, n) }
      else Some (s, n))"
  by pat_completeness auto
termination
  by (relation "measure (\<lambda>(m, s, c, n). unat n)") (auto simp: unat_minus_one unat_gt_0)

declare memchr_align.simps [simp del] memchr_words.simps [simp del] memchr_bytes.simps [simp del]

definition libc_memchr :: "mem \<Rightarrow> addr \<Rightarrow> uint8_t \<Rightarrow> size_t \<Rightarrow> addr option" where
  "libc_memchr m src c n = do {
     (s, n) \<leftarrow> memchr_align m src c n;
     differs \<leftarrow> (if n \<noteq> 0 then do { a \<leftarrow> load m s; Some (a \<noteq> c) } else Some False);
     (s, n) \<leftarrow> (if differs then memchr_words m s (ONES * ucast c) n else Some (s, n));
     (s, n) \<leftarrow> memchr_bytes m s c n;
     Some (if n \<noteq> 0 then s else 0)
   }"

definition libc_strnlen :: "mem \<Rightarrow> addr \<Rightarrow> size_t \<Rightarrow> size_t option" where
  "libc_strnlen m s n = do { p \<leftarrow> libc_memchr m s 0 n; Some (if p \<noteq> 0 then p - s else n) }"

partial_function (option) strlen_words :: "mem \<Rightarrow> addr \<Rightarrow> addr option" where
  "strlen_words m w = do { x \<leftarrow> load_word m w; if HASZERO x = 0 then strlen_words m (w + 8) else Some w }"

partial_function (option) strlen_bytes :: "mem \<Rightarrow> addr \<Rightarrow> addr option" where
  "strlen_bytes m s = do { c \<leftarrow> load m s; if c \<noteq> 0 then strlen_bytes m (s + 1) else Some s }"

text \<open>The loop that aligns the pointer returns from the function when it meets the end of the string;
  the flag of the result says so.\<close>

partial_function (option) strlen_align :: "mem \<Rightarrow> addr \<Rightarrow> (bool \<times> addr) option" where
  "strlen_align m s =
     (if s mod 8 \<noteq> 0
      then do { c \<leftarrow> load m s; if c = 0 then Some (True, s) else strlen_align m (s + 1) }
      else Some (False, s))"

definition libc_strlen :: "mem \<Rightarrow> addr \<Rightarrow> size_t option" where
  "libc_strlen m a = do {
     (found, s) \<leftarrow> strlen_align m a;
     if found then Some (s - a)
     else do {
       w \<leftarrow> strlen_words m s;
       s \<leftarrow> strlen_bytes m w;
       Some (s - a)
     }
   }"

partial_function (option) libc_strcmp :: "mem \<Rightarrow> addr \<Rightarrow> addr \<Rightarrow> int option" where
  "libc_strcmp m l r = do {
     a \<leftarrow> load m l;
     b \<leftarrow> load m r;
     if a = b \<and> a \<noteq> 0 then libc_strcmp m (l + 1) (r + 1) else Some (uint a - uint b)
   }"

section \<open>The zero-byte test\<close>

lemma ONES_value: "ONES = 0x0101010101010101"
  by (simp add: ONES_def)

lemma HIGHS_value: "HIGHS = 0x8080808080808080"
  by (simp add: HIGHS_def ONES_value)

lemma borrow_sets_high_bit:
  fixes lo b :: int
  assumes "0 \<le> lo" "lo < 2 ^ N" "0 \<le> b" "b < 2 ^ N"
  shows "bit (lo - (2 ^ N + b)) (N + 7)"
proof -
  let ?z = "lo - (2 ^ N + b)"
  have "(?z + 2 ^ (N + 7)) div 2 ^ (N + 7) = 0"
    using assms by (intro div_pos_pos_trivial) (simp_all add: power_add)
  then have "?z div 2 ^ (N + 7) = - 1"
    using div_add_self2 [of "2 ^ (N + 7)" ?z] by simp
  then show ?thesis by (simp add: bit_iff_odd)
qed

lemma take_bit_gap:
  fixes X :: int
  assumes "\<And>j. j < 8 \<Longrightarrow> \<not> bit X (N + j)"
  shows "take_bit (N + 8) X = take_bit N X"
proof (rule bit_eqI)
  fix n
  have "bit X n \<Longrightarrow> n < N + 8 \<Longrightarrow> n < N"
    using assms [of "n - N"] by (cases "n < N") (simp_all add: less_diff_conv2)
  then show "bit (take_bit (N + 8) X) n = bit (take_bit N X) n" by (auto simp: bit_take_bit_iff)
qed

lemma HASZERO_byte:
  assumes i: "i < 8" and z: "\<And>j. j < 8 \<Longrightarrow> \<not> bit x (8 * i + j)"
  shows "HASZERO x \<noteq> 0"
proof -
  let ?N = "8 * i"
  have "i = 0 \<or> i = 1 \<or> i = 2 \<or> i = 3 \<or> i = 4 \<or> i = 5 \<or> i = 6 \<or> i = 7" using i by arith
  then obtain b :: int where b: "take_bit (?N + 8) (uint ONES) = 2 ^ ?N + b" "0 \<le> b" "b < 2 ^ ?N"
  proof (elim disjE)
  qed (auto simp: ONES_value take_bit_eq_mod)
  have "take_bit (?N + 8) (uint x) = take_bit ?N (uint x)"
    by (rule take_bit_gap) (use z in \<open>auto simp: bit_uint_iff\<close>)
  then have "take_bit (?N + 8) (uint x - uint ONES) = take_bit (?N + 8) (take_bit ?N (uint x) - (2 ^ ?N + b))"
    using b(1) by (metis take_bit_diff)
  moreover have "bit (take_bit ?N (uint x) - (2 ^ ?N + b)) (?N + 7)"
    using b by (intro borrow_sets_high_bit) auto
  ultimately have "bit (uint x - uint ONES) (?N + 7)"
    by (auto dest!: arg_cong [where f = "\<lambda>y. bit y (?N + 7)"] simp: bit_take_bit_iff)
  moreover have n: "?N + 7 < 64" using i by simp
  ultimately have "bit (x - ONES) (?N + 7)"
    unfolding word_sub_wi bit_word_of_int_iff by simp
  moreover have "bit HIGHS (?N + 7)" 
    using i by (auto simp: HIGHS_value less_Suc_eq numeral_eq_Suc)
  ultimately have "bit (HASZERO x) (?N + 7)"
    using z [of 7] n by (auto simp: HASZERO_def bit_simps)
  then show ?thesis by auto
qed

lemma ONES_times: "ONES * ucast c = le_word (replicate 8 (c :: uint8_t))"
proof -
  have d: "push_bit k (x :: 64 word) = x * 2 ^ k" for k x by (simp add: push_bit_eq_mult)
  have "ucast c OR push_bit 8 (y :: 64 word) = ucast c + 256 * y" for y
  proof -
    have "ucast c AND push_bit 8 y = 0"
      by (rule bit_eqI) (auto simp: bit_simps dest: bit_imp_le_length)
    then have "ucast c OR push_bit 8 y = ucast c + push_bit 8 y"
      by (simp add: disjunctive_add_eq_or)
    then show ?thesis by (simp add: d)
  qed
  note step = this
  have r: "replicate 8 c = [c, c, c, c, c, c, c, c]" by (simp add: numeral_eq_Suc)
  show ?thesis unfolding r le_word.simps step by (simp add: ONES_value algebra_simps)
qed

lemma HASZERO_member:
  assumes "length bs = 8" and "c \<in> set bs"
  shows "HASZERO (le_word bs XOR ONES * ucast c) \<noteq> 0"
proof -
  from assms obtain i where i: "i < 8" "bs ! i = c" by (metis in_set_conv_nth)
  show ?thesis
  proof (rule HASZERO_byte [OF i(1)])
    fix j :: nat assume j: "j < 8"
    then have "(8 * i + j) div 8 = i" "(8 * i + j) mod 8 = j" "8 * i + j < 64" using i(1) by simp_all
    then show "\<not> bit (le_word bs XOR ONES * ucast c) (8 * i + j)"
      using i assms(1) by (simp add: bit_xor_iff ONES_times bit_le_word)
  qed
qed

text \<open>Memory is mapped in aligned words: a word with a mapped byte is mapped. Pages give this.\<close>

definition word_mapped :: "mem \<Rightarrow> bool" where
  "word_mapped m \<longleftrightarrow> (\<forall>p. p mod 8 = 0 \<and> m p \<noteq> None \<longrightarrow> (\<forall>j < 8. m (p + of_nat j) \<noteq> None))"

lemma load_word_aligned:
  assumes "word_mapped m" and "p mod 8 = 0" and "m p \<noteq> None"
  obtains bs where "load_word m p = Some (le_word bs)" "length bs = 8" "\<And>j. j < 8 \<Longrightarrow> m (p + of_nat j) = Some (bs ! j)"
proof -
  have "m (p + of_nat j) \<noteq> None" if "j < 8" for j
    using assms that unfolding word_mapped_def by presburger
  then have "\<exists>bs. load_bytes m p 8 = Some bs" by (rule load_bytes_mapped)
  then obtain bs where bs: "load_bytes m p 8 = Some bs" ..
  then have "load_word m p = Some (le_word bs)" by (simp add: load_word_def)
  with load_bytes_nth [OF bs] that show thesis by blast
qed

lemma unat_numeral_8: "unat (8 :: addr) = 8"
  by simp

lemma aligned_step: "(p :: addr) mod 8 = 0 \<Longrightarrow> (p + 8) mod 8 = 0"
proof -
  assume "p mod 8 = 0"
  then have "unat p mod 8 = 0" by (metis unat_mod_distrib unat_0 unat_numeral_8)
  then have "unat (p + 8) mod 8 = 0" by (simp add: unat_word_ariths mod_mod_cancel)
  then show ?thesis by (metis unat_mod_distrib unat_eq_zero unat_numeral_8)
qed

lemma aligned_and: "(p :: addr) AND ALIGN = p mod 8"
  using take_bit_eq_mask [of 3 p] take_bit_eq_mod [of 3 p] by (simp add: ALIGN_def mask_eq_exp_minus_1)

section \<open>The word-at-a-time searches agree with the byte loops\<close>

lemma unat_pred: "(n :: size_t) \<noteq> 0 \<Longrightarrow> unat n = Suc (unat (n - 1))"
  by (simp add: unat_minus_one unat_gt_0)

lemma memchr_bytes_loop:
  "memchr_loop m s c (unat n) = do { (s', n') \<leftarrow> memchr_bytes m s c n; Some (if n' \<noteq> 0 then s' else 0) }"
proof (induction m s c n rule: memchr_bytes.induct)
  case (1 m s c n)
  show ?case
  proof (cases "n = 0")
    case False
    then show ?thesis
      using 1 by (subst memchr_bytes.simps) (auto simp: unat_pred split: bind_splits)
  qed (simp add: memchr_bytes.simps)
qed

lemma memchr_align_loop:
  assumes "memchr_loop m s c (unat n) = Some r"
  shows "\<exists>s' n'. memchr_align m s c n = Some (s', n') \<and> memchr_loop m s' c (unat n') = Some r \<and>
     (s' mod 8 = 0 \<or> n' = 0 \<or> m s' = Some c)"
  using assms
proof (induction m s c n rule: memchr_align.induct)
  case (1 m s c n)
  show ?case
  proof (cases "s AND ALIGN \<noteq> 0 \<and> n \<noteq> 0")
    case True
    then obtain a where a: "load m s = Some a" using "1.prems" by (auto simp: unat_pred bind_eq_Some_conv)
    show ?thesis
    proof (cases "a = c")
      case True
      then show ?thesis using a \<open>s AND ALIGN \<noteq> 0 \<and> n \<noteq> 0\<close> "1.prems" by (subst memchr_align.simps) (simp add: load_def)
    next
      case False
      then have "memchr_loop m (s + 1) c (unat (n - 1)) = Some r" using "1.prems" True a by (simp add: unat_pred)
      from "1.IH" [OF True a False this] show ?thesis using a False True by (subst memchr_align.simps) simp
    qed
  next
    case False
    then have "memchr_align m s c n = Some (s, n)" by (subst memchr_align.simps) (simp only: if_False)
    moreover have "s mod 8 = 0 \<or> n = 0" using False unfolding aligned_and by blast
    ultimately show ?thesis using "1.prems" by metis
  qed
qed

lemma memchr_loop_skip:
  assumes "\<And>j. j < k \<Longrightarrow> \<exists>a. m (s + of_nat j) = Some a \<and> a \<noteq> c"
  shows "memchr_loop m s c (k + n) = memchr_loop m (s + of_nat k) c n"
  using assms
proof (induction k arbitrary: s)
  case (Suc k)
  have "\<exists>a. m (s + 1 + of_nat j) = Some a \<and> a \<noteq> c" if "j < k" for j
    using Suc.prems [of "Suc j"] that by (simp add: add.assoc)
  from Suc.IH [OF this] Suc.prems [of 0] show ?case by (auto simp: load_def add.assoc)
qed simp

lemma memchr_words_loop:
  assumes "word_mapped m" and "s mod 8 = 0" and "memchr_loop m s c (unat n) = Some r"
  shows "\<exists>s' n'. memchr_words m s (ONES * ucast c) n = Some (s', n') \<and> memchr_loop m s' c (unat n') = Some r"
  using assms
proof (induction "unat n" arbitrary: s n rule: less_induct)
  case less
  show ?case
  proof (cases "8 \<le> n")
    case True
    then have n8: "unat n = 8 + unat (n - 8)" by (simp add: unat_sub word_le_nat_alt)
    then have "memchr_loop m s c (Suc (7 + unat (n - 8))) = Some r" using less.prems(3) by simp
    then have "m s \<noteq> None" unfolding memchr_loop.simps by (auto simp: load_def bind_eq_Some_conv)
    then obtain bs where bs: "load_word m s = Some (le_word bs)" "length bs = 8"
      "\<And>j. j < 8 \<Longrightarrow> m (s + of_nat j) = Some (bs ! j)"
      using load_word_aligned [OF less.prems(1,2)] by metis
    show ?thesis
    proof (cases "HASZERO (le_word bs XOR ONES * ucast c) = 0")
      case zero: True
      then have "c \<notin> set bs" using HASZERO_member [OF bs(2)] by blast
      then have "\<exists>a. m (s + of_nat j) = Some a \<and> a \<noteq> c" if "j < 8" for j
        using bs(2,3) that by (metis nth_mem)
      then have "memchr_loop m s c (8 + unat (n - 8)) = memchr_loop m (s + of_nat 8) c (unat (n - 8))"
        by (rule memchr_loop_skip)
      then have "memchr_loop m (s + 8) c (unat (n - 8)) = Some r" using less.prems(3) n8 by simp
      from less.hyps [OF _ less.prems(1) aligned_step [OF less.prems(2)] this] n8
      show ?thesis using True bs(1) zero by (subst memchr_words.simps) simp
    next
      case False
      then show ?thesis using True bs(1) less.prems(3) by (subst memchr_words.simps) simp
    qed
  next
    case False
    then show ?thesis using less.prems(3) by (subst memchr_words.simps) simp
  qed
qed

lemma libc_memchr_same:
  assumes "word_mapped m" and "memchr m s c n = Some r"
  shows "libc_memchr m s c n = Some r"
proof -
  obtain s1 n1 where 1: "memchr_align m s c n = Some (s1, n1)" "memchr_loop m s1 c (unat n1) = Some r"
    "s1 mod 8 = 0 \<or> n1 = 0 \<or> m s1 = Some c"
    using memchr_align_loop [OF assms(2) [unfolded memchr_def]] by metis
  have fin: "do { (s', n') \<leftarrow> memchr_bytes m s2 c n2; Some (if n' \<noteq> 0 then s' else 0) } = Some r"
    if "memchr_loop m s2 c (unat n2) = Some r" for s2 n2
    using that by (simp only: memchr_bytes_loop)
  show ?thesis
  proof (cases "n1 = 0")
    case True
    then show ?thesis using 1(1) fin [OF 1(2)] by (simp add: libc_memchr_def split_def)
  next
    case False
    then obtain a where a: "load m s1 = Some a" using 1(2) by (auto simp: unat_pred bind_eq_Some_conv)
    show ?thesis
    proof (cases "a = c")
      case True
      then show ?thesis using 1(1) a fin [OF 1(2)] False by (simp add: libc_memchr_def split_def)
    next
      case ac: False
      then have "s1 mod 8 = 0" using 1(3) False a by (auto simp: load_def)
      from memchr_words_loop [OF assms(1) this 1(2)] obtain s2 n2 where
        2: "memchr_words m s1 (ONES * ucast c) n1 = Some (s2, n2)" "memchr_loop m s2 c (unat n2) = Some r" by blast
      then show ?thesis using 1(1) a fin [OF 2(2)] False ac by (simp add: libc_memchr_def split_def)
    qed
  qed
qed

text \<open>C15. The word-at-a-time \<^verbatim>\<open>memchr\<close> of the C library is the byte-by-byte search: wherever the byte
  loop returns (it meets the character before it leaves mapped memory, or the whole block is mapped),
  the library's function returns the same pointer, null included. The \<^verbatim>\<open>HASZERO\<close> trick
  skips a word only when no byte of it matches, and the aligned word reads beyond the end of the
  block do not fault.\<close>

theorem memchr_equiv:
  assumes "word_mapped m" and "memchr m s c n = Some r"
  shows "libc_memchr m s c n = Some r"
  by (rule libc_memchr_same [OF assms])

theorem memchr_equiv_witness:
  "libc_memchr (\<lambda>a. if a < 16 then Some (if a = 11 then 7 else 1) else None) 3 7 20 = Some 11"
proof (rule memchr_equiv)
  show "word_mapped (\<lambda>a. if a < 16 then Some (if a = 11 then 7 else 1) else None)"
    unfolding word_mapped_def
  proof (intro allI impI)
    fix p :: addr and j :: nat
    assume p: "p mod 8 = 0 \<and> (if p < 16 then Some (if p = 11 then (7 :: uint8_t) else 1) else None) \<noteq> None" and "j < 8"
    then have "unat p mod 8 = 0" "unat p < 16"
      by (metis unat_mod_distrib unat_0 unat_numeral_8) (use p in \<open>auto simp: word_less_nat_alt split: if_splits\<close>)
    then have "unat p + j < 16" using \<open>j < 8\<close> by arith
    moreover have "unat (of_nat j :: addr) = j" using \<open>j < 8\<close> by (intro unat_of_nat_small) simp
    ultimately have "p + of_nat j < 16" by (simp add: word_less_nat_alt unat_word_ariths del: unat_of_nat)
    then show "(if p + of_nat j < 16 then Some (if p + of_nat j = 11 then (7 :: uint8_t) else 1) else None) \<noteq> None" by simp
  qed
  show "memchr (\<lambda>a. if a < 16 then Some (if a = 11 then 7 else 1) else None) 3 7 20 = Some 11"
    by code_simp
qed

lemma str_at_drop: "str_at m p cs \<Longrightarrow> k \<le> length cs \<Longrightarrow> str_at m (p + of_nat k) (drop k cs)"
proof (induction k arbitrary: p cs)
  case (Suc k)
  then obtain c cs' where "cs = c # cs'" by (cases cs) auto
  with Suc.prems Suc.IH [of "p + 1" cs'] show ?case by (auto simp: add.assoc dest: str_at_Cons)
qed simp

lemma str_at_mapped: "str_at m p cs \<Longrightarrow> m p \<noteq> None"
  by (cases cs) (auto simp: str_at_Nil dest: str_at_Cons)

lemma strlen_bytes_str: "str_at m s cs \<Longrightarrow> strlen_bytes m s = Some (s + of_nat (length cs))"
proof (induction cs arbitrary: s)
  case Nil
  then show ?case by (subst strlen_bytes.simps) (simp add: str_at_Nil load_def)
next
  case (Cons c cs)
  then show ?case by (subst strlen_bytes.simps) (auto simp: load_def add.assoc dest!: str_at_Cons)
qed

lemma strlen_words_str:
  assumes "word_mapped m" and "s mod 8 = 0" and "str_at m s cs"
  shows "\<exists>k \<le> length cs. strlen_words m s = Some (s + of_nat k)"
  using assms
proof (induction "length cs" arbitrary: s cs rule: less_induct)
  case less
  obtain bs where bs: "load_word m s = Some (le_word bs)" "length bs = 8"
    "\<And>j. j < 8 \<Longrightarrow> m (s + of_nat j) = Some (bs ! j)"
    using load_word_aligned [OF less.prems(1,2) str_at_mapped [OF less.prems(3)]] by metis
  show ?case
  proof (cases "HASZERO (le_word bs) = 0")
    case True
    then have z: "0 \<notin> set bs" using HASZERO_member [OF bs(2), of 0] by auto
    have "m (s + of_nat (length cs)) = Some 0"
      using str_at_drop [OF less.prems(3), of "length cs"] by (simp add: str_at_Nil)
    then have l: "8 \<le> length cs"
      using bs z by (metis nth_mem not_le option.inject)
    have "str_at m (s + of_nat 8) (drop 8 cs)" using str_at_drop [OF less.prems(3) l] .
    then have "str_at m (s + 8) (drop 8 cs)" by simp
    moreover have "length (drop 8 cs) < length cs" using l by simp
    ultimately obtain k where k: "k \<le> length cs - 8" "strlen_words m (s + 8) = Some (s + 8 + of_nat k)"
      using less.hyps [OF _ less.prems(1) aligned_step [OF less.prems(2)]] by (metis length_drop)
    have "strlen_words m s = Some (s + of_nat (8 + k))"
      using bs(1) True k(2) by (subst strlen_words.simps) (simp add: add.assoc)
    then show ?thesis using k(1) l by (intro exI [of _ "8 + k"]) simp
  next
    case False
    then have "strlen_words m s = Some (s + of_nat 0)" using bs(1) by (subst strlen_words.simps) simp
    then show ?thesis by blast
  qed
qed

lemma strlen_align_str:
  assumes "str_at m s cs"
  shows "\<exists>k q. k \<le> length cs \<and> q = s + of_nat k \<and>
     (strlen_align m s = Some (True, q) \<and> k = length cs \<or> strlen_align m s = Some (False, q) \<and> q mod 8 = 0)"
  using assms
proof (induction cs arbitrary: s)
  case Nil
  then show ?case by (subst (1 2) strlen_align.simps) (auto simp: str_at_Nil load_def)
next
  case (Cons c cs)
  from str_at_Cons [OF Cons.prems] have c: "m s = Some c" "c \<noteq> 0" "str_at m (s + 1) cs" by auto
  show ?case
  proof (cases "s mod 8 = 0")
    case True
    then have "strlen_align m s = Some (False, s)" by (subst strlen_align.simps) simp
    then show ?thesis using True by (intro exI [of _ 0] exI [of _ s] conjI disjI2) simp_all
  next
    case False
    then have step: "strlen_align m s = strlen_align m (s + 1)" using c by (subst strlen_align.simps) (simp add: load_def)
    obtain k q where k: "k \<le> length cs" "q = s + 1 + of_nat k"
      "strlen_align m (s + 1) = Some (True, q) \<and> k = length cs \<or> strlen_align m (s + 1) = Some (False, q) \<and> q mod 8 = 0"
      using Cons.IH [OF c(3)] by (elim exE conjE) (rule that)
    have "q = s + of_nat (Suc k)" using k(2) by simp
    then show ?thesis using k(1,3) step by (intro exI [of _ "Suc k"] exI [of _ q]) (simp del: of_nat_Suc)
  qed
qed

text \<open>The C library's \<^verbatim>\<open>strlen\<close>, which reads whole words beyond the end of the string, returns
  exactly the length of the string, as the kernel's byte loop does.\<close>

theorem libc_strlen_correct:
  assumes "word_mapped m" and "str_at m s cs"
  shows "libc_strlen m s = Some (of_nat (length cs))"
proof -
  obtain k q where k: "k \<le> length cs" "q = s + of_nat k"
    "strlen_align m s = Some (True, q) \<and> k = length cs \<or> strlen_align m s = Some (False, q) \<and> q mod 8 = 0"
    using strlen_align_str [OF assms(2)] by (elim exE conjE) (rule that)
  from k(3) show ?thesis
  proof
    assume "strlen_align m s = Some (True, q) \<and> k = length cs"
    then show ?thesis using k(2) by (simp add: libc_strlen_def)
  next
    assume "strlen_align m s = Some (False, q) \<and> q mod 8 = 0"
    then have a: "strlen_align m s = Some (False, s + of_nat k) \<and> (s + of_nat k) mod 8 = 0" using k(2) by simp
    note d = str_at_drop [OF assms(2) k(1)]
    from strlen_words_str [OF assms(1) conjunct2 [OF a] d] obtain j where
      j: "j \<le> length (drop k cs)" "strlen_words m (s + of_nat k) = Some (s + of_nat k + of_nat j)" by blast
    have e: "s + of_nat k + of_nat j + of_nat (length (drop j (drop k cs))) = s + of_nat (k + j + length (drop j (drop k cs)))"
      by (simp only: of_nat_add add.assoc)
    have "k + j + length (drop j (drop k cs)) = length cs" using k(1) j(1) by simp
    with strlen_bytes_str [OF str_at_drop [OF d j(1)]]
    have "strlen_bytes m (s + of_nat k + of_nat j) = Some (s + of_nat (length cs))" unfolding e by metis
    then show ?thesis using a j(2) unfolding libc_strlen_def by simp
  qed
qed

lemma word_mapped_all: "(\<And>a. m a \<noteq> None) \<Longrightarrow> word_mapped m"
  by (simp add: word_mapped_def)

theorem libc_strlen_witness:
  "libc_strlen (\<lambda>a. Some (if a < 14 then 65 else 0)) 3 = Some (of_nat (length (replicate 11 (65 :: uint8_t))))"
proof (rule libc_strlen_correct)
  show "word_mapped (\<lambda>a :: addr. Some (if a < 14 then 65 else 0))" by (rule word_mapped_all) simp
  show "str_at (\<lambda>a. Some (if a < 14 then 65 else 0)) 3 (replicate 11 65)"
    unfolding str_at_def bytes_at_def
  proof (intro conjI allI impI)
    fix i :: nat assume i: "i < length (replicate 11 (65 :: uint8_t) @ [0])"
    have "unat (of_nat i :: addr) = i" using i by (intro unat_of_nat_small) simp
    then have "(3 + of_nat i < (14 :: addr)) \<longleftrightarrow> i < 11"
      using i by (simp add: word_less_nat_alt unat_word_ariths del: unat_of_nat)
    then show "Some (if 3 + of_nat i < (14 :: addr) then 65 else 0) = Some ((replicate 11 (65 :: uint8_t) @ [0]) ! i)"
      using i by (auto simp: nth_append)
  qed auto
qed

text \<open>\<^verbatim>\<open>strnlen\<close> is \<^verbatim>\<open>memchr\<close> for the NUL byte.\<close>

lemma memchr_loop_absent:
  "(\<And>j. j < n \<Longrightarrow> \<exists>a. m (s + of_nat j) = Some a \<and> a \<noteq> c) \<Longrightarrow> memchr_loop m s c n = Some 0"
  using memchr_loop_skip [of n m s c 0] by simp

lemma str_at_nonzero:
  assumes "str_at m s cs" and "j < length cs"
  shows "\<exists>a. m (s + of_nat j) = Some a \<and> a \<noteq> 0"
proof -
  have "drop j cs = cs ! j # drop (Suc j) cs" using assms(2) by (simp add: Cons_nth_drop_Suc)
  with str_at_drop [OF assms(1), of j] assms(2) show ?thesis by (auto dest!: str_at_Cons)
qed

lemma libc_strnlen_correct:
  assumes "word_mapped m" and "str_at m s cs" and nz: "\<And>j. j \<le> length cs \<Longrightarrow> s + of_nat j \<noteq> 0"
  shows "libc_strnlen m s n = Some (of_nat (min (length cs) (unat n)))"
proof (cases "length cs < unat n")
  case True
  have "memchr_loop m s 0 (length cs + (unat n - length cs)) = memchr_loop m (s + of_nat (length cs)) 0 (unat n - length cs)"
    using str_at_nonzero [OF assms(2)] by (rule memchr_loop_skip)
  also have "\<dots> = Some (s + of_nat (length cs))"
    using True str_at_drop [OF assms(2), of "length cs"] by (cases "unat n - length cs") (auto simp: str_at_Nil load_def)
  finally have "memchr m s 0 n = Some (s + of_nat (length cs))" using True by (simp add: memchr_def)
  from libc_memchr_same [OF assms(1) this] True nz [of "length cs"] show ?thesis by (simp add: libc_strnlen_def)
next
  case False
  have "memchr_loop m s 0 (unat n) = Some 0"
    by (rule memchr_loop_absent, rule str_at_nonzero [OF assms(2)]) (use False in simp)
  then have "memchr m s 0 n = Some 0" by (simp only: memchr_def)
  from libc_memchr_same [OF assms(1) this] False show ?thesis by (simp add: libc_strnlen_def min_def)
qed

text \<open>The C library's \<^verbatim>\<open>strcmp\<close> tests its two loop conditions in the other order than the kernel's.\<close>

lemma libc_strcmp_eq:
  assumes "str_at m l as" and "str_at m r bs"
  shows "libc_strcmp m l r = strcmp m l r"
  using assms
proof (induction as arbitrary: l r bs)
  case Nil
  then have "m l = Some 0" by (simp add: str_at_Nil)
  then show ?case by (subst libc_strcmp.simps, subst strcmp.simps) (simp add: load_def)
next
  case (Cons a as)
  from str_at_Cons [OF Cons.prems(1)] have a: "m l = Some a" "a \<noteq> 0" "str_at m (l + 1) as" by auto
  show ?case
  proof (cases bs)
    case Nil
    then have "m r = Some 0" using Cons.prems(2) by (simp add: str_at_Nil)
    then show ?thesis using a by (subst libc_strcmp.simps, subst strcmp.simps) (simp add: load_def)
  next
    case (Cons b bs')
    with \<open>str_at m r bs\<close> have b: "m r = Some b" "str_at m (r + 1) bs'" by (auto dest: str_at_Cons)
    then show ?thesis using a Cons.IH [OF a(3) b(2)]
      by (subst libc_strcmp.simps, subst strcmp.simps) (simp add: load_def)
  qed
qed

end
