(* ===== verification/ErrorMsg.thy ===== *)
theory ErrorMsg
  imports Prelude
begin

text \<open>
  Error numbers (\<^verbatim>\<open>kernel/include/lib/errno.h\<close>) and the message tables of \<^verbatim>\<open>kernel/lib/error_msg.c\<close>. The
  bound of the table lookups is the size of the array in bytes, as the code has it; an access
  behind the last entry fails.
\<close>

section \<open>Error numbers\<close>

text \<open>The numbers the modelled calls return, and the whole table.\<close>

definition SUCCESS :: int where "SUCCESS = 0"
definition EPERM :: int where "EPERM = 1"
definition ENOENT :: int where "ENOENT = 2"
definition ENOEXEC :: int where "ENOEXEC = 8"
definition EBADF :: int where "EBADF = 9"
definition ENOMEM :: int where "ENOMEM = 12"
definition EACCES :: int where "EACCES = 13"
definition EFAULT :: int where "EFAULT = 14"
definition ENOTDIR :: int where "ENOTDIR = 20"
definition EISDIR :: int where "EISDIR = 21"
definition EINVAL :: int where "EINVAL = 22"
definition ENOSYS :: int where "ENOSYS = 38"
definition EAGAIN :: int where "EAGAIN = 11"
definition ECHILD :: int where "ECHILD = 10"
definition ESRCH :: int where "ESRCH = 3"
definition E2BIG :: int where "E2BIG = 7"
definition ENOTSUP :: int where "ENOTSUP = 95"
definition EROFS :: int where "EROFS = 30"
definition ESPIPE :: int where "ESPIPE = 29"

definition errno_table :: "(string \<times> nat) list" where
  "errno_table = [
     (''SUCCESS'', 0), (''EPERM'', 1), (''ENOENT'', 2), (''ESRCH'', 3),
     (''EINTR'', 4), (''EIO'', 5), (''ENXIO'', 6), (''E2BIG'', 7),
     (''ENOEXEC'', 8), (''EBADF'', 9), (''ECHILD'', 10), (''EAGAIN'', 11),
     (''ENOMEM'', 12), (''EACCES'', 13), (''EFAULT'', 14), (''ENOTBLK'', 15),
     (''EBUSY'', 16), (''EEXIST'', 17), (''EXDEV'', 18), (''ENODEV'', 19),
     (''ENOTDIR'', 20), (''EISDIR'', 21), (''EINVAL'', 22), (''ENFILE'', 23),
     (''EMFILE'', 24), (''ENOTTY'', 25), (''ETXTBSY'', 26), (''EFBIG'', 27),
     (''ENOSPC'', 28), (''ESPIPE'', 29), (''EROFS'', 30), (''EMLINK'', 31),
     (''EPIPE'', 32), (''EDOM'', 33), (''ERANGE'', 34), (''EDEADLK'', 35),
     (''ENAMETOOLONG'', 36), (''ENOLCK'', 37), (''ENOSYS'', 38), (''ENOTEMPTY'', 39),
     (''ELOOP'', 40), (''EWOULDBLOCK'', 11), (''ENOMSG'', 42), (''EIDRM'', 43),
     (''ECHRNG'', 44), (''EL2NSYNC'', 45), (''EL3HLT'', 46), (''EL3RST'', 47),
     (''ELNRNG'', 48), (''EUNATCH'', 49), (''ENOCSI'', 50), (''EL2HLT'', 51),
     (''EBADE'', 52), (''EBADR'', 53), (''EXFULL'', 54), (''ENOANO'', 55),
     (''EBADRQC'', 56), (''EBADSLT'', 57), (''EDEADLOCK'', 35), (''EBFONT'', 59),
     (''ENOSTR'', 60), (''ENODATA'', 61), (''ETIME'', 62), (''ENOSR'', 63),
     (''ENONET'', 64), (''ENOPKG'', 65), (''EREMOTE'', 66), (''ENOLINK'', 67),
     (''EADV'', 68), (''ESRMNT'', 69), (''ECOMM'', 70), (''EPROTO'', 71),
     (''EMULTIHOP'', 72), (''EDOTDOT'', 73), (''EBADMSG'', 74), (''EOVERFLOW'', 75),
     (''ENOTUNIQ'', 76), (''EBADFD'', 77), (''EREMCHG'', 78), (''ELIBACC'', 79),
     (''ELIBBAD'', 80), (''ELIBSCN'', 81), (''ELIBMAX'', 82), (''ELIBEXEC'', 83),
     (''EILSEQ'', 84), (''ERESTART'', 85), (''ESTRPIPE'', 86), (''EUSERS'', 87),
     (''ENOTSOCK'', 88), (''EDESTADDRREQ'', 89), (''EMSGSIZE'', 90), (''EPROTOTYPE'', 91),
     (''ENOPROTOOPT'', 92), (''EPROTONOSUPPORT'', 93), (''ESOCKTNOSUPPORT'', 94), (''EOPNOTSUPP'', 95),
     (''EPFNOSUPPORT'', 96), (''EAFNOSUPPORT'', 97), (''EADDRINUSE'', 98), (''EADDRNOTAVAIL'', 99),
     (''ENETDOWN'', 100), (''ENETUNREACH'', 101), (''ENETRESET'', 102), (''ECONNABORTED'', 103),
     (''ECONNRESET'', 104), (''ENOBUFS'', 105), (''EISCONN'', 106), (''ENOTCONN'', 107),
     (''ESHUTDOWN'', 108), (''ETOOMANYREFS'', 109), (''ETIMEDOUT'', 110), (''ECONNREFUSED'', 111),
     (''EHOSTDOWN'', 112), (''EHOSTUNREACH'', 113), (''EALREADY'', 114), (''EINPROGRESS'', 115),
     (''ESTALE'', 116), (''EUCLEAN'', 117), (''ENOTNAM'', 118), (''ENAVAIL'', 119),
     (''EISNAM'', 120), (''EREMOTEIO'', 121), (''EDQUOT'', 122), (''ENOMEDIUM'', 123),
     (''EMEDIUMTYPE'', 124), (''ECANCELED'', 125), (''ENOKEY'', 126), (''EKEYEXPIRED'', 127),
     (''EKEYREVOKED'', 128), (''EKEYREJECTED'', 129), (''EOWNERDEAD'', 130), (''ENOTRECOVERABLE'', 131),
     (''ERFKILL'', 132), (''EHWPOISON'', 133), (''ENOTSUP'', 95)]"

section \<open>Messages\<close>

definition exceptions :: "string list" where
  "exceptions = [
     ''Divide by zero'', ''Debug'', ''NMI'',
     ''Breakpoint'', ''Overflow'', ''Bounds check'',
     ''Invalid opcode'', ''FPU/SSE register requested'', ''Double fault'',
     ''Coprocessor segment overrun'', ''Invalid TSS'', ''Segment not present'',
     ''Stack segment fault'', ''General protection fault'', ''Page fault'',
     ''reserved'', ''Floating-point error'', ''Alignment check'',
     ''Machine check'', ''SIMD floating point exception'']"

definition err_messages :: "string list" where
  "err_messages = [
     ''success'', ''operation not permitted'', ''no such file or directory'',
     ''no such process'', ''interrupted system call'', ''input/output error'',
     ''no such device or address'', ''argument list too long'', ''exec format error'',
     ''bad file descriptor'', ''no child processes'', ''resource temporarily unavailable'',
     ''cannot allocate memory'', ''permission denied'', ''bad address'',
     ''block device required'', ''device or resource busy'', ''file exists'',
     ''invalid cross-device link'', ''no such device'', ''not a directory'',
     ''is a directory'', ''invalid argument'', ''too many open files in system'',
     ''too many open files'', ''inappropriate ioctl for device'', ''text file busy'',
     ''file too large'', ''no space left on device'', ''illegal seek'',
     ''read-only file system'', ''too many links'', ''broken pipe'',
     ''numerical argument out of domain'', ''numerical result out of range'', ''resource deadlock avoided'',
     ''file name too long'', ''no locks available'', ''function not implemented'',
     ''directory not empty'', ''too many levels of symbolic links'', ''resource temporarily unavailable'',
     ''no message of desired type'', ''identifier removed'', ''channel number out of range'',
     ''level 2 not synchronized'', ''level 3 halted'', ''level 3 reset'',
     ''link number out of range'', ''protocol driver not attached'', ''no csi structure available'',
     ''level 2 halted'', ''invalid exchange'', ''invalid request descriptor'',
     ''exchange full'', ''no anode'', ''invalid request code'',
     ''invalid slot'', ''resource deadlock avoided'', ''bad font file format'',
     ''device not a stream'', ''no data available'', ''timer expired'',
     ''out of streams resources'', ''machine is not on the network'', ''package not installed'',
     ''object is remote'', ''link has been severed'', ''advertise error'',
     ''srmount error'', ''communication error on send'', ''protocol error'',
     ''multihop attempted'', ''rfs specific error'', ''bad message'',
     ''value too large for defined data type'', ''name not unique on network'', ''file descriptor in bad state'',
     ''remote address changed'', ''can not access a needed shared library'', ''accessing a corrupted shared library'',
     ''.lib section in a.out corrupted'', ''attempting to link in too many shared libraries'', ''cannot exec a shared library directly'',
     ''invalid or incomplete multibyte or wide character'', ''interrupted system call should be restarted'', ''streams pipe error'',
     ''too many users'', ''socket operation on non-socket'', ''destination address required'',
     ''message too long'', ''protocol wrong type for socket'', ''protocol not available'',
     ''protocol not supported'', ''socket type not supported'', ''operation not supported'',
     ''protocol family not supported'', ''address family not supported by protocol'', ''address already in use'',
     ''cannot assign requested address'', ''network is down'', ''network is unreachable'',
     ''network dropped connection on reset'', ''software caused connection abort'', ''connection reset by peer'',
     ''no buffer space available'', ''transport endpoint is already connected'', ''transport endpoint is not connected'',
     ''cannot send after transport endpoint shutdown'', ''too many references: cannot splice'', ''connection timed out'',
     ''connection refused'', ''host is down'', ''no route to host'',
     ''operation already in progress'', ''operation now in progress'', ''stale file handle'',
     ''structure needs cleaning'', ''not a xenix named type file'', ''no xenix semaphores available'',
     ''is a named type file'', ''remote i/o error'', ''disk quota exceeded'',
     ''no medium found'', ''wrong medium type'', ''operation canceled'',
     ''required key not available'', ''key has expired'', ''key has been revoked'',
     ''key was rejected by service'', ''owner died'', ''state not recoverable'',
     ''operation not possible due to rf-kill'', ''memory page has hardware error'', ''operation not supported'',
     ''filesystem not supported'', ''interference conflict'']"

text \<open>\<^verbatim>\<open>sizeof\<close> of an array of pointers.\<close>

definition sizeof_table :: "string list \<Rightarrow> nat" where
  "sizeof_table t = 8 * length t"

definition table_get :: "string list \<Rightarrow> nat \<Rightarrow> string option" where
  "table_get t i = (if i < length t then Some (t ! i) else None)"

definition strerror :: "uint32_t \<Rightarrow> string option" where
  "strerror err = (if unat err < sizeof_table err_messages then table_get err_messages (unat err) else Some ''Unknown error'')"

definition strexcept :: "uint32_t \<Rightarrow> string option" where
  "strexcept exc = (if unat exc < sizeof_table exceptions then table_get exceptions (unat exc) else Some ''unknown'')"

lemma err_messages_length: "length err_messages = 137"
  by (simp add: err_messages_def)

lemma exceptions_length: "length exceptions = 20"
  by (simp add: exceptions_def)

lemma errno_table_covered: "list_all (\<lambda>(_, c). c < 137) errno_table"
  by (simp add: errno_table_def)

section \<open>Properties\<close>

text \<open>Every error number the kernel defines has a message (\<^verbatim>\<open>strerror\<close>), but the guard of the lookup is the
  size of the table in bytes: the call is defined exactly outside the range from 137 to 1095,
  where it reads behind the table.\<close>

theorem strerror_defined:
  "(strerror err \<noteq> None \<longleftrightarrow> unat err < 137 \<or> 1096 \<le> unat err) \<and> list_all (\<lambda>(_, c). c < 137) errno_table"
  using errno_table_covered by (auto simp: strerror_def sizeof_table_def table_get_def err_messages_length)

end
