(* ===== verification/KMap.thy ===== *)
theory KMap
  imports Prelude "HOL-Library.Tree"
begin

text \<open>
  The associative container \<^verbatim>\<open>lib::Map<K,V>\<close> of \<^verbatim>\<open>kernel/include/lib/map.h\<close>, an unbalanced binary search
  tree of \<^verbatim>\<open>MapEntry\<close> objects linked by pointers; it holds the open files of a process. Entries live
  in a store, a reference to a pointer (\<^verbatim>\<open>MapEntry*&\<close>) is modelled by returning the pointer to be
  stored there.
\<close>

section \<open>Data\<close>

record ('k, 'v) map_entry =
  m_key :: 'k
  m_value :: 'v
  m_parent :: addr
  m_left :: addr
  m_right :: addr

type_synonym ('k, 'v) entries = "('k, 'v) map_entry store"

section \<open>Operations of an entry\<close>

partial_function (option) insert_entry ::
  "addr \<Rightarrow> addr \<Rightarrow> addr \<Rightarrow> ('k::linorder, 'v) entries \<Rightarrow> (addr \<times> ('k, 'v) entries) option" where
  "insert_entry self root parent h =
     (if root = 0 then do {
        h1 \<leftarrow> modify h self (m_parent_update (\<lambda>_. parent));
        Some (self, h1)
      }
      else do {
        r \<leftarrow> deref h root;
        e \<leftarrow> deref h self;
        if m_key r > m_key e then do {
          (p, h1) \<leftarrow> insert_entry self (m_left r) root h;
          h2 \<leftarrow> modify h1 root (m_left_update (\<lambda>_. p));
          Some (root, h2)
        }
        else do {
          (p, h1) \<leftarrow> insert_entry self (m_right r) root h;
          h2 \<leftarrow> modify h1 root (m_right_update (\<lambda>_. p));
          Some (root, h2)
        }
      })"

partial_function (option) entry_height :: "('k, 'v) entries \<Rightarrow> addr \<Rightarrow> uint64_t option" where
  "entry_height h self = do {
     e \<leftarrow> deref h self;
     l \<leftarrow> (if m_left e \<noteq> 0 then entry_height h (m_left e) else Some 0);
     r \<leftarrow> (if m_right e \<noteq> 0 then entry_height h (m_right e) else Some 0);
     Some (1 + max l r)
   }"

text \<open>\<^verbatim>\<open>me\<close> selects the field of \<open>self\<close> that holds \<open>ptr\<close>; here with the store to that field.\<close>

definition set_me :: "('k, 'v) entries \<Rightarrow> addr \<Rightarrow> addr \<Rightarrow> addr \<Rightarrow> ('k, 'v) entries option" where
  "set_me h self ptr v = do {
     e \<leftarrow> deref h self;
     if m_left e = ptr then modify h self (m_left_update (\<lambda>_. v))
     else if m_right e = ptr then modify h self (m_right_update (\<lambda>_. v))
     else do { kassert False; Some h }
   }"

text \<open>\<^verbatim>\<open>m_right->insert(m_parent)\<close> passes the entry's own \<^verbatim>\<open>m_parent\<close> field as the root.\<close>

definition erase_entry :: "addr \<Rightarrow> ('k::linorder, 'v) entries \<Rightarrow> ('k, 'v) entries option" where
  "erase_entry self h = do {
     e \<leftarrow> deref h self;
     hr \<leftarrow> entry_height h (m_right e);
     hl \<leftarrow> entry_height h (m_left e);
     h1 \<leftarrow> (if hr > hl then set_me h (m_parent e) self (m_right e) else set_me h (m_parent e) self (m_left e));
     e1 \<leftarrow> deref h1 self;
     (p, h2) \<leftarrow> insert_entry (m_right e1) (m_parent e1) 0 h1;
     modify h2 self (m_parent_update (\<lambda>_. p))
   }"

partial_function (option) find_entry :: "('k::linorder, 'v) entries \<Rightarrow> addr \<Rightarrow> 'k \<Rightarrow> addr option" where
  "find_entry h self key = do {
     e \<leftarrow> deref h self;
     if m_key e > key then (if m_left e = 0 then Some 0 else find_entry h (m_left e) key)
     else if m_key e < key then (if m_right e = 0 then Some 0 else find_entry h (m_right e) key)
     else Some self
   }"

text \<open>The copy constructor. The list yields the memory for the next objects; \<^verbatim>\<open>kmalloc\<close> clears it, so that
  the fields the constructor does not set (\<^verbatim>\<open>m_parent\<close> always, \<^verbatim>\<open>m_left\<close> and \<^verbatim>\<open>m_right\<close> when the original
  has no child there) are null.\<close>

partial_function (option) copy_entry ::
  "addr \<Rightarrow> addr list \<times> ('k, 'v) entries \<Rightarrow> (addr \<times> addr list \<times> ('k, 'v) entries) option" where
  "copy_entry self st = (case st of
     (new # rest, h) \<Rightarrow> do {
       e \<leftarrow> deref h self;
       let h1 = h(new \<mapsto> \<lparr>m_key = m_key e, m_value = m_value e, m_parent = 0, m_left = 0, m_right = 0\<rparr>);
       (rest2, h2) \<leftarrow> (if m_left e \<noteq> 0
          then do { (p, rest', h') \<leftarrow> copy_entry (m_left e) (rest, h1);
                    h'' \<leftarrow> modify h' new (m_left_update (\<lambda>_. p)); Some (rest', h'') }
          else Some (rest, h1));
       (rest3, h3) \<leftarrow> (if m_right e \<noteq> 0
          then do { (p, rest', h') \<leftarrow> copy_entry (m_right e) (rest2, h2);
                    h'' \<leftarrow> modify h' new (m_right_update (\<lambda>_. p)); Some (rest', h'') }
          else Some (rest2, h2));
       Some (new, rest3, h3)
     }
   | ([], h) \<Rightarrow> None)"

partial_function (option) destroyChildren :: "addr \<Rightarrow> ('k, 'v) entries \<Rightarrow> ('k, 'v) entries option" where
  "destroyChildren self h = do {
     e \<leftarrow> deref h self;
     h1 \<leftarrow> (if m_left e \<noteq> 0 then do { h' \<leftarrow> destroyChildren (m_left e) h; Some (h'(m_left e := None)) } else Some h);
     if m_right e \<noteq> 0 then do { h' \<leftarrow> destroyChildren (m_right e) h1; Some (h'(m_right e := None)) } else Some h1
   }"

section \<open>Operations of the map\<close>

text \<open>A map is its \<^verbatim>\<open>m_root\<close> with the store of entries.\<close>

type_synonym ('k, 'v) kmap = "addr \<times> ('k, 'v) entries"

definition new_map :: "('k, 'v) entries \<Rightarrow> ('k, 'v) kmap" where
  "new_map h = (0, h)"

definition map_find :: "'k::linorder \<Rightarrow> ('k, 'v) kmap \<Rightarrow> addr option" where
  "map_find key m = (case m of (m_root, h) \<Rightarrow> if m_root = 0 then Some 0 else find_entry h m_root key)"

definition map_erase :: "'k::linorder \<Rightarrow> ('k, 'v) kmap \<Rightarrow> (bool \<times> ('k, 'v) kmap) option" where
  "map_erase key m = do {
     entry \<leftarrow> map_find key m;
     if entry = 0 then Some (False, m)
     else do {
       h1 \<leftarrow> erase_entry entry (snd m);
       Some (True, (fst m, h1(entry := None)))
     }
   }"

text \<open>\<^verbatim>\<open>operator[]\<close>: the entry whose value the reference denotes; \<open>new\<close> is memory for a new entry and
  \<open>v0\<close> the default value. The constructor leaves \<^verbatim>\<open>m_parent\<close> to \<^verbatim>\<open>insert\<close>, which sets it.\<close>

definition map_subscript :: "addr \<Rightarrow> 'v \<Rightarrow> 'k::linorder \<Rightarrow> ('k, 'v) kmap \<Rightarrow> (addr \<times> ('k, 'v) kmap) option" where
  "map_subscript new v0 key m = do {
     entry \<leftarrow> map_find key m;
     if entry \<noteq> 0 then Some (entry, m)
     else do {
       let h1 = (snd m)(new \<mapsto> \<lparr>m_key = key, m_value = v0, m_parent = 0, m_left = 0, m_right = 0\<rparr>);
       (root, h2) \<leftarrow> insert_entry new (fst m) 0 h1;
       Some (new, (root, h2))
     }
   }"

text \<open>An assignment \<^verbatim>\<open>map[key] = v\<close>.\<close>

definition map_assign :: "addr \<Rightarrow> 'v \<Rightarrow> 'k::linorder \<Rightarrow> 'v \<Rightarrow> ('k, 'v) kmap \<Rightarrow> ('k, 'v) kmap option" where
  "map_assign new v0 key v m = do {
     (p, m1) \<leftarrow> map_subscript new v0 key m;
     h \<leftarrow> modify (snd m1) p (m_value_update (\<lambda>_. v));
     Some (fst m1, h)
   }"

definition map_copy :: "addr list \<Rightarrow> ('k, 'v) kmap \<Rightarrow> (('k, 'v) kmap) option" where
  "map_copy news m =
     (if fst m \<noteq> 0 then do { (p, _, h) \<leftarrow> copy_entry (fst m) (news, snd m); Some (p, h) }
      else Some (0, snd m))"

definition map_destroy :: "('k, 'v) kmap \<Rightarrow> ('k, 'v) entries option" where
  "map_destroy m =
     (if fst m \<noteq> 0 then do { h \<leftarrow> destroyChildren (fst m) (snd m); Some (h(fst m := None)) } else Some (snd m))"

section \<open>Representation\<close>

text \<open>The links \<^verbatim>\<open>m_left\<close> and \<^verbatim>\<open>m_right\<close> form a tree; \<^verbatim>\<open>m_parent\<close> is not part of the representation, only
  \<^verbatim>\<open>erase\<close> follows it.\<close>

fun tree_at :: "('k, 'v) entries \<Rightarrow> addr \<Rightarrow> addr tree \<Rightarrow> bool" where
  "tree_at h p Leaf \<longleftrightarrow> p = 0"
| "tree_at h p (Node l a r) \<longleftrightarrow> p = a \<and> a \<noteq> 0 \<and>
     (case h a of None \<Rightarrow> False | Some e \<Rightarrow> tree_at h (m_left e) l \<and> tree_at h (m_right e) r)"

definition key_at :: "('k, 'v) entries \<Rightarrow> addr \<Rightarrow> 'k" where
  "key_at h a = m_key (the (h a))"

definition map_rep :: "('k::linorder, 'v) kmap \<Rightarrow> addr tree \<Rightarrow> bool" where
  "map_rep m t \<longleftrightarrow> tree_at (snd m) (fst m) t \<and> distinct (inorder t) \<and> bst (map_tree (key_at (snd m)) t)"

text \<open>What the map holds.\<close>

fun lookup_tree :: "('k::linorder, 'v) entries \<Rightarrow> addr tree \<Rightarrow> 'k \<Rightarrow> 'v option" where
  "lookup_tree h Leaf k = None"
| "lookup_tree h (Node l a r) k =
     (if key_at h a > k then lookup_tree h l k
      else if key_at h a < k then lookup_tree h r k else Some (m_value (the (h a))))"

fun ins_tree :: "('k::linorder, 'v) entries \<Rightarrow> addr \<Rightarrow> addr tree \<Rightarrow> addr tree" where
  "ins_tree h self Leaf = Node Leaf self Leaf"
| "ins_tree h self (Node l a r) =
     (if key_at h a > key_at h self then Node (ins_tree h self l) a r else Node l a (ins_tree h self r))"

lemma tree_at_cong:
  "(\<And>a. a \<in> set_tree t \<Longrightarrow> h a = h' a) \<Longrightarrow> tree_at h p t = tree_at h' p t"
  by (induction t arbitrary: p) (auto split: option.splits)

lemma tree_at_frame: "a \<notin> set_tree t \<Longrightarrow> tree_at (h(a := v)) p t = tree_at h p t"
  by (rule tree_at_cong) auto

lemma tree_at_nonzero: "tree_at h p t \<Longrightarrow> a \<in> set_tree t \<Longrightarrow> a \<noteq> 0 \<and> (\<exists>e. h a = Some e)"
  by (induction t arbitrary: p) (auto split: option.splits)

lemma set_ins_tree [simp]: "set_tree (ins_tree h self t) = insert self (set_tree t)"
  by (induction t) auto

lemma distinct_ins_tree:
  "distinct (inorder t) \<Longrightarrow> self \<notin> set_tree t \<Longrightarrow> distinct (inorder (ins_tree h self t))"
  by (induction t) auto

lemma map_tree_cong': "(\<And>a. a \<in> set_tree t \<Longrightarrow> f a = g a) \<Longrightarrow> map_tree f t = map_tree g t"
  by (rule tree.map_cong0)

lemma ins_tree_cong: "(\<And>a. a \<in> insert self (set_tree t) \<Longrightarrow> key_at h a = key_at h' a) \<Longrightarrow> ins_tree h self t = ins_tree h' self t"
  by (induction t) auto

lemma bst_ins_tree:
  "bst (map_tree (key_at h) t) \<Longrightarrow> key_at h self \<notin> key_at h ` set_tree t \<Longrightarrow> bst (map_tree (key_at h) (ins_tree h self t))"
  by (induction t) (auto simp: tree.set_map)

lemma lookup_cong:
  "(\<And>a. a \<in> set_tree t \<Longrightarrow> key_at h a = key_at h' a \<and> m_value (the (h a)) = m_value (the (h' a))) \<Longrightarrow>
   lookup_tree h t k = lookup_tree h' t k"
  by (induction t) auto

lemma lookup_None: "lookup_tree h t k = None \<Longrightarrow> bst (map_tree (key_at h) t) \<Longrightarrow> k \<notin> key_at h ` set_tree t"
  by (induction t) (auto simp: tree.set_map split: if_splits)

lemma lookup_ins_tree:
  "lookup_tree h (ins_tree h self t) k =
     (if k = key_at h self \<and> lookup_tree h t k = None then Some (m_value (the (h self))) else lookup_tree h t k)"
  by (induction t) auto

section \<open>Correctness of the operations\<close>

text \<open>\<^verbatim>\<open>find\<close> ends and returns the entry with the key, or null.\<close>

lemma find_entry_correct:
  assumes "tree_at h p t" and "t \<noteq> Leaf"
  shows "\<exists>q. find_entry h p k = Some q \<and>
    (if lookup_tree h t k = None then q = 0 else q \<in> set_tree t \<and> key_at h q = k \<and> lookup_tree h t k = Some (m_value (the (h q))))"
  using assms
proof (induction t arbitrary: p)
  case (Node l a r)
  then obtain e where e: "p = a" "a \<noteq> 0" "h a = Some e" "tree_at h (m_left e) l" "tree_at h (m_right e) r"
    by (auto split: option.splits)
  have z: "m_left e = 0 \<longleftrightarrow> l = Leaf" "m_right e = 0 \<longleftrightarrow> r = Leaf" using e(4,5) by (cases l; cases r; auto)+
  consider "m_key e > k" | "m_key e < k" | "m_key e = k" using linorder_cases by blast
  then show ?case
  proof cases
    case 1
    with e z Node.IH(1) [OF e(4)] show ?thesis by (subst find_entry.simps) (cases "l = Leaf"; auto simp: key_at_def split: if_splits)
  next
    case 2
    with e z Node.IH(2) [OF e(5)] show ?thesis by (subst find_entry.simps) (cases "r = Leaf"; auto simp: key_at_def split: if_splits)
  next
    case 3
    with e show ?thesis by (subst find_entry.simps) (auto simp: key_at_def)
  qed
qed simp

text \<open>Inserting an entry that is not in the tree yet ends, changes only links, and keeps the shape
  of a search tree.\<close>

lemma insert_entry_correct:
  assumes "tree_at h p t" and "distinct (inorder t)" and "self \<notin> set_tree t" and "self \<noteq> 0" and "h self = Some e"
    and "m_left e = 0" and "m_right e = 0"
  shows "\<exists>p' h'. insert_entry self p par h = Some (p', h') \<and> tree_at h' p' (ins_tree h self t) \<and>
    (\<forall>a. a \<notin> insert self (set_tree t) \<longrightarrow> h' a = h a) \<and>
    (\<forall>a. map_option (\<lambda>e. (m_key e, m_value e)) (h' a) = map_option (\<lambda>e. (m_key e, m_value e)) (h a))"
  using assms
proof (induction t arbitrary: par p)
  case Leaf
  then show ?case
    by (subst insert_entry.simps) (auto simp: intro!: exI [of _ "h(self \<mapsto> e\<lparr>m_parent := par\<rparr>)"])
next
  case (Node l a r)
  then obtain d where d: "p = a" "a \<noteq> 0" "h a = Some d" "tree_at h (m_left d) l" "tree_at h (m_right d) r"
    by (auto split: option.splits)
  have dis: "distinct (inorder l)" "distinct (inorder r)" "set_tree l \<inter> set_tree r = {}" "a \<notin> set_tree l" "a \<notin> set_tree r"
    using Node.prems(2) by auto
  have self: "self \<notin> set_tree l" "self \<notin> set_tree r" "self \<noteq> a" using Node.prems(3) by auto
  note prem = Node.prems(4-7)
  show ?case
  proof (cases "m_key d > m_key e")
    case True
    from Node.IH(1) [OF d(4) dis(1) self(1) prem] obtain p' h' where
      ih: "insert_entry self (m_left d) a h = Some (p', h')" "tree_at h' p' (ins_tree h self l)"
        "\<forall>b. b \<notin> insert self (set_tree l) \<longrightarrow> h' b = h b"
        "\<forall>b. map_option (\<lambda>e. (m_key e, m_value e)) (h' b) = map_option (\<lambda>e. (m_key e, m_value e)) (h b)" by blast
    let ?h = "h'(a \<mapsto> d\<lparr>m_left := p'\<rparr>)"
    have ha: "h' a = Some d" using ih(3) dis self d(3) by auto
    have "tree_at ?h p' (ins_tree h self l)" using ih(2) dis self by (simp add: tree_at_frame)
    moreover have "tree_at ?h (m_right d) r"
      by (rule tree_at_cong [of r h, THEN iffD1, OF _ d(5)]) (use ih(3) dis self in auto)
    moreover have "insert_entry self p par h = Some (a, ?h)"
      by (subst insert_entry.simps) (use True d prem ih(1) ha in auto)
    ultimately show ?thesis using True d prem(2) ih(3,4) ha by (auto simp: key_at_def)
  next
    case False
    from Node.IH(2) [OF d(5) dis(2) self(2) prem] obtain p' h' where
      ih: "insert_entry self (m_right d) a h = Some (p', h')" "tree_at h' p' (ins_tree h self r)"
        "\<forall>b. b \<notin> insert self (set_tree r) \<longrightarrow> h' b = h b"
        "\<forall>b. map_option (\<lambda>e. (m_key e, m_value e)) (h' b) = map_option (\<lambda>e. (m_key e, m_value e)) (h b)" by blast
    let ?h = "h'(a \<mapsto> d\<lparr>m_right := p'\<rparr>)"
    have ha: "h' a = Some d" using ih(3) dis self d(3) by auto
    have "tree_at ?h p' (ins_tree h self r)" using ih(2) dis self by (simp add: tree_at_frame)
    moreover have "tree_at ?h (m_left d) l"
      by (rule tree_at_cong [of l h, THEN iffD1, OF _ d(4)]) (use ih(3) dis self in auto)
    moreover have "insert_entry self p par h = Some (a, ?h)"
      by (subst insert_entry.simps) (use False d prem ih(1) ha in auto)
    ultimately show ?thesis using False d prem(2) ih(3,4) ha by (auto simp: key_at_def)
  qed
qed

text \<open>Reading through \<^verbatim>\<open>find\<close> and \<^verbatim>\<open>value\<close>, as the callers do.\<close>

definition map_get :: "('k::linorder, 'v) kmap \<Rightarrow> 'k \<Rightarrow> 'v option" where
  "map_get m k = (case map_find k m of None \<Rightarrow> None | Some p \<Rightarrow> map_option m_value (deref (snd m) p))"

definition map_inv :: "('k::linorder, 'v) kmap \<Rightarrow> bool" where
  "map_inv m \<longleftrightarrow> (\<exists>t. map_rep m t)"

definition map_fresh :: "addr \<Rightarrow> ('k, 'v) kmap \<Rightarrow> bool" where
  "map_fresh a m \<longleftrightarrow> a \<noteq> 0 \<and> snd m a = None"

lemma map_find_correct:
  assumes "map_rep m t"
  shows "\<exists>q. map_find k m = Some q \<and> (if lookup_tree (snd m) t k = None then q = 0
     else q \<noteq> 0 \<and> q \<in> set_tree t \<and> key_at (snd m) q = k \<and> lookup_tree (snd m) t k = Some (m_value (the (snd m q))))"
proof (cases "t = Leaf")
  case True
  with assms show ?thesis by (auto simp: map_rep_def map_find_def split: prod.splits)
next
  case False
  from assms have t: "tree_at (snd m) (fst m) t" by (simp add: map_rep_def)
  with False have "fst m \<noteq> 0" by (cases t) auto
  moreover from find_entry_correct [OF t False, of k] obtain q where "find_entry (snd m) (fst m) k = Some q"
    "if lookup_tree (snd m) t k = None then q = 0
     else q \<in> set_tree t \<and> key_at (snd m) q = k \<and> lookup_tree (snd m) t k = Some (m_value (the (snd m q)))" by blast
  ultimately show ?thesis using tree_at_nonzero [OF t] by (auto simp: map_find_def split: prod.splits if_splits)
qed

lemma map_get_rep:
  assumes "map_rep m t"
  shows "map_get m k = lookup_tree (snd m) t k"
proof -
  from map_find_correct [OF assms, of k] obtain q where q: "map_find k m = Some q"
    "if lookup_tree (snd m) t k = None then q = 0
     else q \<noteq> 0 \<and> q \<in> set_tree t \<and> key_at (snd m) q = k \<and> lookup_tree (snd m) t k = Some (m_value (the (snd m q)))" by blast
  show ?thesis
  proof (cases "lookup_tree (snd m) t k = None")
    case True
    with q show ?thesis by (simp add: map_get_def)
  next
    case False
    with q assms tree_at_nonzero [of "snd m" "fst m" t q] obtain e where "snd m q = Some e" by (auto simp: map_rep_def)
    with q False show ?thesis by (simp add: map_get_def)
  qed
qed

lemma key_at_upd [simp]: "key_at (h(a \<mapsto> e)) b = (if b = a then m_key e else key_at h b)"
  by (simp add: key_at_def)

text \<open>Storing a value in an entry of the tree.\<close>

lemma lookup_store:
  assumes "h q = Some e"
  shows "bst (map_tree (key_at h) t) \<Longrightarrow> q \<in> set_tree t \<Longrightarrow> distinct (inorder t) \<Longrightarrow>
   lookup_tree (h(q \<mapsto> e\<lparr>m_value := v\<rparr>)) t k = (if k = m_key e then Some v else lookup_tree h t k)"
proof -
  define h' where "h' = h(q \<mapsto> e\<lparr>m_value := v\<rparr>)"
  have ks: "key_at h' = key_at h" "key_at h q = m_key e" using assms by (auto simp: h'_def fun_eq_iff key_at_def)
  have vs: "m_value (the (h' q)) = v" "\<And>b. b \<noteq> q \<Longrightarrow> h' b = h b" by (auto simp: h'_def)
  have "bst (map_tree (key_at h) t) \<Longrightarrow> q \<in> set_tree t \<Longrightarrow> distinct (inorder t) \<Longrightarrow>
    lookup_tree h' t k = (if k = m_key e then Some v else lookup_tree h t k)"
  proof (induction t)
    case (Node l a r)
    have c: "lookup_tree h' s k = lookup_tree h s k" if "q \<notin> set_tree s" for s
      using that vs(2) by (intro lookup_cong) (metis ks(1))
    show ?case
    proof (cases "q = a")
      case True
      with Node.prems ks vs c [of l] c [of r] show ?thesis by auto
    next
      case False
      with Node.prems(2) consider "q \<in> set_tree l" | "q \<in> set_tree r" by auto
      then show ?thesis
      proof cases
        case 1
        with Node.prems ks(2) have "m_key e < key_at h a" "q \<notin> set_tree r" by (auto simp: tree.set_map)
        with 1 False Node.prems Node.IH(1) ks(1) vs(2) [of a] c [of r] show ?thesis by auto
      next
        case 2
        with Node.prems ks(2) have "key_at h a < m_key e" "q \<notin> set_tree l" by (auto simp: tree.set_map)
        with 2 False Node.prems Node.IH(2) ks(1) vs(2) [of a] c [of l] show ?thesis by auto
      qed
    qed
  qed simp
  then show "bst (map_tree (key_at h) t) \<Longrightarrow> q \<in> set_tree t \<Longrightarrow> distinct (inorder t) \<Longrightarrow>
   lookup_tree (h(q \<mapsto> e\<lparr>m_value := v\<rparr>)) t k = (if k = m_key e then Some v else lookup_tree h t k)"
    by (simp add: h'_def)
qed

lemma map_rep_store:
  assumes "map_rep (p, h) t" and "q \<in> set_tree t" and "h q = Some e"
  shows "map_rep (p, h(q \<mapsto> e\<lparr>m_value := v\<rparr>)) t"
proof -
  have "tree_at h p s \<Longrightarrow> tree_at (h(q \<mapsto> e\<lparr>m_value := v\<rparr>)) p s" for p s
    by (induction s arbitrary: p) (use assms(3) in \<open>auto split: option.splits\<close>)
  moreover have "map_tree (key_at (h(q \<mapsto> e\<lparr>m_value := v\<rparr>))) t = map_tree (key_at h) t"
    by (rule map_tree_cong') (use assms(3) in \<open>auto simp: key_at_def\<close>)
  ultimately show ?thesis using assms(1) by (simp add: map_rep_def del: key_at_upd)
qed

lemma subscript_new:
  assumes "map_rep m t" and "map_fresh new m" and "lookup_tree (snd m) t k = None"
  shows "\<exists>m' t' e. map_subscript new v0 k m = Some (new, m') \<and> map_rep m' t' \<and> new \<in> set_tree t' \<and>
     snd m' new = Some e \<and> m_key e = k \<and> m_value e = v0 \<and> (\<forall>j. j \<noteq> k \<longrightarrow> lookup_tree (snd m') t' j = lookup_tree (snd m) t j)"
proof -
  let ?h = "(snd m)(new \<mapsto> \<lparr>m_key = k, m_value = v0, m_parent = 0, m_left = 0, m_right = 0\<rparr>)"
  from assms(1) have t: "tree_at (snd m) (fst m) t" "distinct (inorder t)" "bst (map_tree (key_at (snd m)) t)"
    by (auto simp: map_rep_def)
  have n: "new \<notin> set_tree t" "new \<noteq> 0" using assms(2) tree_at_nonzero [OF t(1), of new] by (auto simp: map_fresh_def)
  have k: "key_at ?h b = key_at (snd m) b" if "b \<in> set_tree t" for b using that n by auto
  from insert_entry_correct [of ?h "fst m" t new "\<lparr>m_key = k, m_value = v0, m_parent = 0, m_left = 0, m_right = 0\<rparr>" 0] t n obtain p h where
    i: "insert_entry new (fst m) 0 ?h = Some (p, h)" "tree_at h p (ins_tree ?h new t)"
      "\<forall>a. map_option (\<lambda>e. (m_key e, m_value e)) (h a) = map_option (\<lambda>e. (m_key e, m_value e)) (?h a)"
    by (auto simp: tree_at_frame)
  have eqs: "key_at h a = key_at ?h a \<and> m_value (the (h a)) = m_value (the (?h a))" if "?h a \<noteq> None" for a
    using i(3) [rule_format, of a] that by (auto simp: key_at_def simp del: fun_upd_apply)
  have al: "?h a \<noteq> None" if "a \<in> set_tree (ins_tree ?h new t)" for a using that tree_at_nonzero [OF t(1)] by auto
  have "bst (map_tree (key_at ?h) (ins_tree ?h new t))"
  proof (rule bst_ins_tree)
    show "bst (map_tree (key_at ?h) t)" using t(3) map_tree_cong' [of t "key_at ?h" "key_at (snd m)"] k by simp
    show "key_at ?h new \<notin> key_at ?h ` set_tree t" using lookup_None [OF assms(3) t(3)] k by auto
  qed
  then have "bst (map_tree (key_at h) (ins_tree ?h new t))"
    using map_tree_cong' [of "ins_tree ?h new t" "key_at h" "key_at ?h"] eqs al by simp
  with i(2) t(2) n have r: "map_rep (p, h) (ins_tree ?h new t)" by (simp add: map_rep_def distinct_ins_tree)
  have "lookup_tree h (ins_tree ?h new t) j = lookup_tree (snd m) t j" if "j \<noteq> k" for j
  proof -
    have "lookup_tree h (ins_tree ?h new t) j = lookup_tree ?h (ins_tree ?h new t) j" using eqs al by (intro lookup_cong) auto
    also have "\<dots> = lookup_tree ?h t j" using that by (simp add: lookup_ins_tree)
    also have "\<dots> = lookup_tree (snd m) t j" using n by (intro lookup_cong) (auto simp: key_at_def)
    finally show ?thesis .
  qed
  moreover obtain e where "h new = Some e" "m_key e = k" "m_value e = v0" using i(3) [rule_format, of new] by auto
  moreover from map_find_correct [OF assms(1), of k] assms(3) have "map_find k m = Some 0" by auto
  then have "map_subscript new v0 k m = Some (new, p, h)" using i(1) by (simp add: map_subscript_def)
  ultimately show ?thesis using r by (intro exI [of _ "(p, h)"] exI [of _ "ins_tree ?h new t"] exI [of _ e]) auto
qed

lemma map_subscript_value:
  assumes "map_inv m" and "map_fresh new m"
  shows "\<exists>p m1 e. map_subscript new v0 k m = Some (p, m1) \<and> p \<noteq> 0 \<and> snd m1 p = Some e \<and>
     m_value e = (case map_get m k of Some w \<Rightarrow> w | None \<Rightarrow> v0)"
proof -
  from assms(1) obtain t where t: "map_rep m t" by (auto simp: map_inv_def)
  show ?thesis
  proof (cases "map_get m k")
    case None
    with map_get_rep [OF t, of k] have "lookup_tree (snd m) t k = None" by simp
    from subscript_new [OF t assms(2) this, of v0] assms(2) None show ?thesis by (auto simp: map_fresh_def)
  next
    case (Some w)
    with map_get_rep [OF t, of k] have "lookup_tree (snd m) t k = Some w" by simp
    with map_find_correct [OF t, of k] obtain q where
      q: "map_find k m = Some q" "q \<noteq> 0" "q \<in> set_tree t" "w = m_value (the (snd m q))" by auto
    with t tree_at_nonzero [of "snd m" "fst m" t q] obtain e where "snd m q = Some e" by (auto simp: map_rep_def)
    with q Some show ?thesis by (simp add: map_subscript_def)
  qed
qed

lemma map_assign_correct:
  assumes "map_inv m" and "map_fresh new m"
  shows "\<exists>m'. map_assign new v0 k v m = Some m' \<and> map_inv m' \<and> map_get m' = (map_get m)(k \<mapsto> v)"
proof -
  from assms(1) obtain t where t: "map_rep m t" by (auto simp: map_inv_def)
  obtain q m1 t1 e where s: "map_subscript new v0 k m = Some (q, m1)" "map_rep m1 t1" "q \<in> set_tree t1"
    "snd m1 q = Some e" "m_key e = k" "\<forall>j. j \<noteq> k \<longrightarrow> lookup_tree (snd m1) t1 j = lookup_tree (snd m) t j"
  proof (cases "lookup_tree (snd m) t k = None")
    case True
    from subscript_new [OF t assms(2) this, of v0] that show ?thesis by blast
  next
    case False
    with map_find_correct [OF t, of k] obtain q where q: "map_find k m = Some q" "q \<noteq> 0" "q \<in> set_tree t" "key_at (snd m) q = k" by auto
    with t tree_at_nonzero [of "snd m" "fst m" t q] obtain e where e: "snd m q = Some e" by (auto simp: map_rep_def)
    with q have "m_key e = k" by (simp add: key_at_def)
    with q e t show ?thesis by (intro that [of q m t e]) (simp_all add: map_subscript_def)
  qed
  let ?m = "(fst m1, (snd m1)(q \<mapsto> e\<lparr>m_value := v\<rparr>))"
  from s(2,3) have "q \<noteq> 0" using tree_at_nonzero [of "snd m1" "fst m1" t1 q] by (auto simp: map_rep_def)
  with s(1,4) have a: "map_assign new v0 k v m = Some ?m" by (simp add: map_assign_def)
  have r: "map_rep ?m t1" using map_rep_store [of "fst m1" "snd m1" t1 q e v] s by simp
  have "map_get ?m j = ((map_get m)(k \<mapsto> v)) j" for j
    using map_get_rep [OF r, of j] map_get_rep [OF t, of j] s lookup_store [of "snd m1" q e t1 v j]
    by (auto simp: map_rep_def)
  with a r show ?thesis by (auto simp: map_inv_def)
qed

section \<open>The map as its users see it\<close>

locale assoc_spec =
  fixes invar :: "'m \<Rightarrow> bool"
    and lookup :: "'m \<Rightarrow> 'k \<Rightarrow> 'v option"
    and fresh :: "addr \<Rightarrow> 'm \<Rightarrow> bool"
    and assign :: "addr \<Rightarrow> 'k \<Rightarrow> 'v \<Rightarrow> 'm \<Rightarrow> 'm option"
  assumes assign_law: "invar m \<Longrightarrow> fresh a m \<Longrightarrow> \<exists>m'. assign a k v m = Some m' \<and> invar m' \<and> lookup m' = (lookup m)(k \<mapsto> v)"
begin

lemma assign_twice:
  assumes "invar m" and "fresh a m" and "\<And>m'. assign a k v m = Some m' \<Longrightarrow> fresh b m'"
  shows "\<exists>m1 m2. assign a k v m = Some m1 \<and> assign b k w m1 = Some m2 \<and> invar m2 \<and> lookup m2 = (lookup m)(k \<mapsto> w)"
proof -
  from assign_law [OF assms(1,2), of k v] obtain m1 where
    m1: "assign a k v m = Some m1" "invar m1" "lookup m1 = (lookup m)(k \<mapsto> v)" by blast
  from assign_law [OF m1(2) assms(3) [OF m1(1)], of k w] m1 show ?thesis by auto
qed

lemma assign_other:
  assumes "invar m" and "fresh a m" and "j \<noteq> k"
  shows "\<exists>m'. assign a k v m = Some m' \<and> invar m' \<and> lookup m' k = Some v \<and> lookup m' j = lookup m j"
  using assign_law [OF assms(1,2), of k v] assms(3) by auto

end

interpretation km: assoc_spec "map_inv :: ('k::linorder, 'v) kmap \<Rightarrow> bool" map_get map_fresh "\<lambda>a. map_assign a v0"
  by unfold_locales (rule map_assign_correct)

section \<open>Copying\<close>

definition kv_at :: "('k, 'v) entries \<Rightarrow> addr \<Rightarrow> 'k \<times> 'v" where
  "kv_at h a = (m_key (the (h a)), m_value (the (h a)))"

lemma kv_at_frame [simp]: "b \<noteq> a \<Longrightarrow> kv_at (h(a := v)) b = kv_at h b"
  by (simp add: kv_at_def)

text \<open>What a copy of the tree \<open>t\<close> at the addresses \<open>as\<close> looks like.\<close>

definition copied :: "('k, 'v) entries \<Rightarrow> addr tree \<Rightarrow> addr set \<Rightarrow> ('k, 'v) entries \<Rightarrow> addr \<Rightarrow> bool" where
  "copied h t as h' p \<longleftrightarrow> (\<exists>t'. tree_at h' p t' \<and> set_tree t' \<subseteq> as \<and> distinct (inorder t') \<and>
     map_tree (kv_at h') t' = map_tree (kv_at h) t)"

lemma copied_frame:
  assumes "copied h t as h' p" and "\<And>a. a \<in> as \<Longrightarrow> h'' a = h' a"
  shows "copied h t as h'' p"
proof -
  from assms(1) obtain t' where t': "tree_at h' p t'" "set_tree t' \<subseteq> as" "distinct (inorder t')"
    "map_tree (kv_at h') t' = map_tree (kv_at h) t" by (auto simp: copied_def)
  have "tree_at h'' p t'" using t'(1,2) assms(2) tree_at_cong [of t' h'' h' p] by auto
  moreover have "map_tree (kv_at h'') t' = map_tree (kv_at h') t'"
    by (rule map_tree_cong') (use t'(2) assms(2) in \<open>auto simp: kv_at_def\<close>)
  ultimately show ?thesis using t' by (auto simp: copied_def)
qed

lemma copied_src:
  assumes "copied h t as h' p" and "\<And>a. a \<in> set_tree t \<Longrightarrow> h2 a = h a"
  shows "copied h2 t as h' p"
proof -
  have "map_tree (kv_at h2) t = map_tree (kv_at h) t" by (rule map_tree_cong') (use assms(2) in \<open>auto simp: kv_at_def\<close>)
  with assms(1) show ?thesis by (simp add: copied_def)
qed

lemma copied_node:
  assumes "copied h l A h' p" and "copied h r B h' q" and "A \<inter> B = {}" and "n \<notin> A \<union> B" and "n \<noteq> 0"
    and "h' n = Some e" and "m_left e = p" and "m_right e = q" and "kv_at h' n = kv_at h a"
  shows "copied h (Node l a r) (insert n (A \<union> B)) h' n"
proof -
  from assms(1,2) obtain l' r' where
    "tree_at h' p l'" "set_tree l' \<subseteq> A" "distinct (inorder l')" "map_tree (kv_at h') l' = map_tree (kv_at h) l"
    "tree_at h' q r'" "set_tree r' \<subseteq> B" "distinct (inorder r')" "map_tree (kv_at h') r' = map_tree (kv_at h) r"
    by (auto simp: copied_def)
  with assms(3-9) show ?thesis
    unfolding copied_def by (intro exI [of _ "Node l' n r'"]) auto
qed

lemma copy_entry_correct:
  assumes "tree_at h self t" and "t \<noteq> Leaf" and "size t \<le> length news" and "distinct news" and "0 \<notin> set news"
    and "set news \<inter> set_tree t = {}"
  shows "\<exists>h'. copy_entry self (news, h) = Some (hd news, drop (size t) news, h') \<and>
     copied h t (set (take (size t) news)) h' (hd news) \<and> (\<forall>a. a \<notin> set (take (size t) news) \<longrightarrow> h' a = h a)"
  using assms
proof (induction t arbitrary: self news h)
  case (Node l a r)
  then obtain n rest where news: "news = n # rest" by (cases news) auto
  from Node.prems(1) obtain e where e: "self = a" "a \<noteq> 0" "h a = Some e" "tree_at h (m_left e) l" "tree_at h (m_right e) r"
    by (auto split: option.splits)
  have z: "m_left e = 0 \<longleftrightarrow> l = Leaf" "m_right e = 0 \<longleftrightarrow> r = Leaf" using e(4,5) by (cases l; cases r; auto)+
  have n: "n \<noteq> 0" "n \<noteq> a" "n \<notin> set_tree l" "n \<notin> set_tree r" "n \<notin> set rest" "distinct rest" "0 \<notin> set rest"
    "set rest \<inter> set_tree l = {}" "set rest \<inter> set_tree r = {}" "a \<notin> set rest" "size l + size r \<le> length rest"
    using Node.prems news by auto
  let ?e = "\<lparr>m_key = m_key e, m_value = m_value e, m_parent = 0, m_left = 0, m_right = 0\<rparr>"
  let ?h1 = "h(n \<mapsto> ?e)" and ?A = "set (take (size l) rest)" and ?rest2 = "drop (size l) rest"
  let ?B = "set (take (size r) ?rest2)"
  have AB: "?A \<inter> ?B = {}" "n \<notin> ?A \<union> ?B" "a \<notin> ?A \<union> ?B"
    using n(5,6,10) set_take_disj_set_drop_if_distinct [of rest "size l" "size l"] set_take_subset [of "size l" rest]
      set_take_subset [of "size r" ?rest2] set_drop_subset [of "size l" rest] by blast+
  obtain h2 p where L: "(if m_left e \<noteq> 0 then do { (p, rest', h') \<leftarrow> copy_entry (m_left e) (rest, ?h1);
        h'' \<leftarrow> modify h' n (m_left_update (\<lambda>_. p)); Some (rest', h'') } else Some (rest, ?h1)) = Some (?rest2, h2)"
    "copied h l ?A h2 p" "h2 n = Some (?e\<lparr>m_left := p\<rparr>)" "\<forall>b. b \<notin> insert n ?A \<longrightarrow> h2 b = h b"
  proof (cases "l = Leaf")
    case True
    then show ?thesis using z that [of ?h1 0] by (simp add: copied_def)
  next
    case False
    have "tree_at ?h1 (m_left e) l" using e(4) n(3) by (simp add: tree_at_frame)
    moreover have "size l \<le> length rest" using n(11) by simp
    ultimately obtain h' where
      h': "copy_entry (m_left e) (rest, ?h1) = Some (hd rest, ?rest2, h')" "copied ?h1 l ?A h' (hd rest)"
        "\<forall>b. b \<notin> ?A \<longrightarrow> h' b = ?h1 b" using Node.IH(1) [OF _ False _ n(6,7,8)] by blast
    have hn: "h' n = Some ?e" using h'(3) AB(2) by simp
    have "copied h l ?A (h'(n \<mapsto> ?e\<lparr>m_left := hd rest\<rparr>)) (hd rest)"
      by (rule copied_frame [OF copied_src [OF h'(2)]]) (use n(3) AB(2) in auto)
    with False z h' hn n(1) show ?thesis by (intro that [of "h'(n \<mapsto> ?e\<lparr>m_left := hd rest\<rparr>)" "hd rest"]) auto
  qed
  obtain h3 q where R: "(if m_right e \<noteq> 0 then do { (p, rest', h') \<leftarrow> copy_entry (m_right e) (?rest2, h2);
        h'' \<leftarrow> modify h' n (m_right_update (\<lambda>_. p)); Some (rest', h'') } else Some (?rest2, h2)) = Some (drop (size r) ?rest2, h3)"
    "copied h r ?B h3 q" "h3 n = Some (?e\<lparr>m_left := p, m_right := q\<rparr>)" "\<forall>b. b \<notin> insert n ?B \<longrightarrow> h3 b = h2 b"
  proof (cases "r = Leaf")
    case True
    then show ?thesis using z L(3) that [of h2 0] by (simp add: copied_def)
  next
    case False
    have sub: "h2 b = h b" if "b \<in> set_tree r" for b
    proof -
      have "b \<notin> insert n ?A" using that n(4,9) set_take_subset [of "size l" rest] by auto
      with L(4) show ?thesis by blast
    qed
    then have "tree_at h2 (m_right e) r" using e(5) tree_at_cong [of r h2 h] by blast
    moreover have "size r \<le> length ?rest2" "distinct ?rest2" "0 \<notin> set ?rest2" "set ?rest2 \<inter> set_tree r = {}"
      using n set_drop_subset [of "size l" rest] by auto
    ultimately obtain h' where
      h': "copy_entry (m_right e) (?rest2, h2) = Some (hd ?rest2, drop (size r) ?rest2, h')" "copied h2 r ?B h' (hd ?rest2)"
        "\<forall>b. b \<notin> ?B \<longrightarrow> h' b = h2 b" using Node.IH(2) [OF _ False] by blast
    have hn: "h' n = Some (?e\<lparr>m_left := p\<rparr>)" using h'(3) AB(2) L(3) by simp
    have "copied h r ?B (h'(n \<mapsto> ?e\<lparr>m_left := p, m_right := hd ?rest2\<rparr>)) (hd ?rest2)"
      by (rule copied_frame [OF copied_src [OF h'(2)]]) (use sub AB(2) in auto)
    with False z h' hn n(1) show ?thesis
      by (intro that [of "h'(n \<mapsto> ?e\<lparr>m_left := p, m_right := hd ?rest2\<rparr>)" "hd ?rest2"]) auto
  qed
  have c: "copy_entry self (news, h) = Some (n, drop (size r) ?rest2, h3)"
    using L(1) R(1) e(1-3) by (subst copy_entry.simps) (simp add: news)
  have "copied h (Node l a r) (insert n (?A \<union> ?B)) h3 n"
  proof (rule copied_node [OF _ R(2) AB(1,2) n(1) R(3)])
    show "copied h l ?A h3 p" by (rule copied_frame [OF L(2)]) (use R(4) AB in auto)
    show "kv_at h3 n = kv_at h a" using R(3) e(3) by (simp add: kv_at_def)
  qed simp_all
  moreover have "\<forall>b. b \<notin> insert n (?A \<union> ?B) \<longrightarrow> h3 b = h b" using L(4) R(4) by simp
  moreover have "insert n (?A \<union> ?B) = set (take (size (Node l a r)) news)" by (auto simp: news take_add)
  moreover have "drop (size r) ?rest2 = drop (size (Node l a r)) news" "hd news = n" by (simp_all add: news add.commute)
  ultimately show ?case using c by metis
qed simp

lemma lookup_kv:
  "map_tree (kv_at h') t' = map_tree (kv_at h) t \<Longrightarrow> lookup_tree h' t' k = lookup_tree h t k"
proof (induction t' arbitrary: t)
  case (Node l' a' r')
  then obtain l a r where "t = Node l a r" "kv_at h' a' = kv_at h a" "map_tree (kv_at h') l' = map_tree (kv_at h) l"
    "map_tree (kv_at h') r' = map_tree (kv_at h) r" by (cases t) auto
  moreover from this have "lookup_tree h' l' k = lookup_tree h l k" "lookup_tree h' r' k = lookup_tree h r k"
    using Node.IH by blast+
  ultimately show ?case by (auto simp: kv_at_def key_at_def)
qed (cases t; auto)

lemma map_tree_key_kv: "map_tree (key_at h) t = map_tree fst (map_tree (kv_at h) t)"
  by (simp add: tree.map_comp comp_def kv_at_def key_at_def cong: tree.map_cong)

lemma map_copy_ok:
  assumes "map_rep m t" and "size t \<le> length news" and "distinct news" and "0 \<notin> set news"
    and "set news \<inter> set_tree t = {}"
  shows "\<exists>m'. map_copy news m = Some m' \<and> map_inv m' \<and> map_get m' = map_get m \<and> map_rep (fst m, snd m') t \<and>
     map_get (fst m, snd m') = map_get m"
proof (cases "t = Leaf")
  case True
  with assms(1) have "fst m = 0" by (simp add: map_rep_def)
  then have "map_copy news m = Some m" by (cases m) (simp add: map_copy_def)
  with assms(1) show ?thesis by (auto simp: map_inv_def)
next
  case False
  from assms(1) have t: "tree_at (snd m) (fst m) t" "bst (map_tree (key_at (snd m)) t)" by (auto simp: map_rep_def)
  with False have "fst m \<noteq> 0" by (cases t) auto
  with copy_entry_correct [OF t(1) False assms(2-5)] obtain h' t' where
    c: "map_copy news m = Some (hd news, h')" "tree_at h' (hd news) t'" "distinct (inorder t')"
      "map_tree (kv_at h') t' = map_tree (kv_at (snd m)) t" "\<forall>a. a \<notin> set (take (size t) news) \<longrightarrow> h' a = snd m a"
    by (auto simp: map_copy_def copied_def)
  have r: "map_rep (hd news, h') t'" using c(2,3,4) t(2) by (simp add: map_rep_def map_tree_key_kv)
  have same: "h' a = snd m a" if "a \<in> set_tree t" for a using that c(5) assms(5) by (auto dest: in_set_takeD)
  then have kv: "map_tree (kv_at h') t = map_tree (kv_at (snd m)) t" by (intro map_tree_cong') (simp add: kv_at_def)
  have o: "map_rep (fst m, h') t"
    using assms(1) same tree_at_cong [of t h' "snd m"] kv by (auto simp: map_rep_def map_tree_key_kv)
  have "map_get (hd news, h') = map_get m" "map_get (fst m, h') = map_get m"
    using map_get_rep [OF r] map_get_rep [OF assms(1)] map_get_rep [OF o] lookup_kv [OF c(4)] lookup_kv [OF kv] by (auto simp: fun_eq_iff)
  with c(1) r o show ?thesis by (auto simp: map_inv_def)
qed

section \<open>Erasing\<close>

lemma entry_height_null: "entry_height h 0 = None"
  by (subst entry_height.simps) simp

lemma erase_entry_fault:
  assumes "h q = Some e" and "m_left e = 0 \<or> m_right e = 0 \<or> m_parent e = 0"
  shows "erase_entry q h = None"
  using assms by (cases "q = 0"; cases "entry_height h (m_right e)"; cases "entry_height h (m_left e)")
    (auto simp: erase_entry_def entry_height_null set_me_def)

section \<open>Properties\<close>

text \<open>Three entries with keys 5 (root), 2 and 8.\<close>

definition example_map :: "(nat, nat) kmap" where
  "example_map = (16, [16 \<mapsto> \<lparr>m_key = 5, m_value = 50, m_parent = 0, m_left = 32, m_right = 48\<rparr>,
     32 \<mapsto> \<lparr>m_key = 2, m_value = 20, m_parent = 16, m_left = 0, m_right = 0\<rparr>,
     48 \<mapsto> \<lparr>m_key = 8, m_value = 80, m_parent = 16, m_left = 0, m_right = 0\<rparr>])"

definition example_tree :: "addr tree" where
  "example_tree = Node (Node Leaf 32 Leaf) 16 (Node Leaf 48 Leaf)"

lemma example_map_rep: "map_rep example_map example_tree"
  by (simp add: example_map_def example_tree_def map_rep_def key_at_def)

lemma example_map_inv: "map_inv example_map"
  using example_map_rep by (auto simp: map_inv_def)

text \<open>C9. Insertion and lookup (\<^verbatim>\<open>Map::operator[]\<close>, \<^verbatim>\<open>Map::find\<close>): on a search tree, with fresh memory for a new
  entry, an assignment returns, the tree stays a search tree, the key now has the assigned value
  and every other key keeps what it had, whether the key was present or not.\<close>

theorem map_assign_lookup:
  assumes "map_inv m" and "map_fresh new m"
  shows "\<exists>m'. map_assign new v0 k v m = Some m' \<and> map_inv m' \<and> map_get m' = (map_get m)(k \<mapsto> v)"
  by (rule km.assign_law [OF assms])

theorem map_assign_lookup_witness:
  "\<exists>m'. map_assign 64 0 3 30 example_map = Some m' \<and> map_get m' 3 = Some 30 \<and> map_get m' 5 = map_get example_map 5"
proof -
  have "map_fresh 64 example_map" by (simp add: map_fresh_def example_map_def)
  from map_assign_lookup [OF example_map_inv this, of 0 3 30] show ?thesis by auto
qed

text \<open>Copying (the copy constructors of \<^verbatim>\<open>Map\<close> and \<^verbatim>\<open>MapEntry\<close>, used by fork): with enough fresh memory the
  copy is a search tree of its own with the same associations, and the original is unchanged.\<close>

theorem map_copy_correct:
  assumes "map_rep m t" and "size t \<le> length news" and "distinct news" and "0 \<notin> set news"
    and "set news \<inter> set_tree t = {}"
  shows "\<exists>m'. map_copy news m = Some m' \<and> map_inv m' \<and> map_get m' = map_get m \<and> map_rep (fst m, snd m') t \<and>
     map_get (fst m, snd m') = map_get m"
  by (rule map_copy_ok [OF assms])

theorem map_copy_correct_witness:
  "\<exists>m'. map_copy [64, 80, 96] example_map = Some m' \<and> map_inv m' \<and> map_get m' = map_get example_map"
  using map_copy_correct [OF example_map_rep, of "[64, 80, 96]"] by (auto simp: example_tree_def)

text \<open>Erasing faults (\<^verbatim>\<open>Map::erase\<close>): when the entry of a present key lacks a child or is the root, the call
  dereferences a null pointer; so removing a leaf, the root, or any entry of a copied map never
  works.\<close>

theorem map_erase_faults:
  assumes "map_find k m = Some q" and "q \<noteq> 0" and "snd m q = Some e"
    and "m_left e = 0 \<or> m_right e = 0 \<or> m_parent e = 0"
  shows "map_erase k m = None"
  using assms erase_entry_fault [of "snd m" q e] by (simp add: map_erase_def)

theorem map_erase_faults_witness: "map_erase 2 example_map = None \<and> map_erase 5 example_map = None"
proof -
  have "map_find 2 example_map = Some 32" "map_find 5 example_map = Some 16"
    by (simp_all add: map_find_def example_map_def find_entry.simps)
  then show ?thesis
    using map_erase_faults [of 2 example_map 32] map_erase_faults [of 5 example_map 16] by (simp add: example_map_def)
qed

end
