(* ===== verification/Handles.thy ===== *)
theory Handles
  imports Prelude "HOL-Library.Multiset"
begin

text \<open>
  Reference-counted handles. The kernel counts references in three places: file objects
  (\<^verbatim>\<open>kernel/fs/file.cpp\<close>), shared pointers (\<^verbatim>\<open>kernel/include/lib/shared_ptr.h\<close>) and page frames. The locale
  \<open>handles\<close> states the contract that the first two have in common, and derives what their clients
  need: a process that forks copies a whole table of handles, and one that ends drops one.
\<close>

section \<open>Sequences of operations that may fail\<close>

fun fold_opt :: "('a \<Rightarrow> 's \<Rightarrow> 's option) \<Rightarrow> 'a list \<Rightarrow> 's \<Rightarrow> 's option" where
  "fold_opt f [] s = Some s"
| "fold_opt f (x # xs) s = f x s \<bind> fold_opt f xs"

lemma fold_opt_append: "fold_opt f (xs @ ys) s = fold_opt f xs s \<bind> fold_opt f ys"
  by (induction xs arbitrary: s) (auto split: bind_splits)

section \<open>The contract\<close>

text \<open>\<open>live h xs\<close>: in the store \<open>h\<close> exactly the handles \<open>xs\<close> are in use and every count is exact.\<close>

locale handles =
  fixes live :: "'h \<Rightarrow> 'a list \<Rightarrow> bool"
    and acquire :: "'a \<Rightarrow> 'h \<Rightarrow> 'h option"
    and release :: "'a \<Rightarrow> 'h \<Rightarrow> 'h option"
    and bound :: nat
  assumes acquire_law: "live h xs \<Longrightarrow> x \<in> set xs \<Longrightarrow> Suc (length xs) < bound \<Longrightarrow> \<exists>h'. acquire x h = Some h' \<and> live h' (x # xs)"
    and release_law: "live h (x # xs) \<Longrightarrow> \<exists>h'. release x h = Some h' \<and> live h' xs"
    and perm_law: "mset xs = mset ys \<Longrightarrow> live h xs = live h ys"
begin

lemma acquire_all:
  "live h xs \<Longrightarrow> set ys \<subseteq> set xs \<Longrightarrow> length ys + length xs < bound \<Longrightarrow>
     \<exists>h'. fold_opt acquire ys h = Some h' \<and> live h' (ys @ xs)"
proof (induction ys arbitrary: h xs)
  case (Cons y ys)
  from acquire_law [OF Cons.prems(1), of y] Cons.prems(2,3) obtain h1 where
    h1: "acquire y h = Some h1" "live h1 (y # xs)" by auto
  from Cons.IH [OF h1(2)] Cons.prems(2,3) obtain h' where
    h': "fold_opt acquire ys h1 = Some h'" "live h' (ys @ y # xs)" by auto
  have "mset (ys @ y # xs) = mset ((y # ys) @ xs)" by simp
  then have "live h' ((y # ys) @ xs)" using perm_law h'(2) by blast
  with h1(1) h'(1) show ?case by simp
qed simp

lemma release_all: "live h (ys @ xs) \<Longrightarrow> \<exists>h'. fold_opt release ys h = Some h' \<and> live h' xs"
proof (induction ys arbitrary: h)
  case (Cons y ys)
  from release_law [of h y "ys @ xs"] Cons.prems obtain h1 where
    h1: "release y h = Some h1" "live h1 (ys @ xs)" by auto
  with Cons.IH [OF h1(2)] show ?case by auto
qed simp

text \<open>A table that is copied and dropped again leaves the counts as they were.\<close>

lemma copy_drop:
  assumes "live h xs" and "set ys \<subseteq> set xs" and "length ys + length xs < bound"
  shows "\<exists>h'. (fold_opt acquire ys h \<bind> fold_opt release ys) = Some h' \<and> live h' xs"
  using acquire_all [OF assms] release_all by fastforce

end

end
