(* ===== verification/FileSys.thy ===== *)
theory FileSys
  imports Queue KMap ErrorMsg Handles "HOL-Library.Sublist"
begin

text \<open>
  Files, directories and descriptors: \<^verbatim>\<open>kernel/fs\<close>, \<^verbatim>\<open>kernel/dev/devfs.cpp\<close> and \<^verbatim>\<open>kernel/pipe.cpp\<close>. File
  objects live in a store; a descriptor holds a counted reference to one. Path names are lists of
  characters without the terminating NUL.
\<close>

section \<open>Data\<close>

text \<open>The subclasses of \<^verbatim>\<open>File\<close>: a directory with its entries and mount overlay (null when nothing is
  mounted), a pipe with its buffer, a device known by its number.\<close>

datatype file_kind =
    DirFile "(string \<times> addr) list" addr
  | PipeFile queue
  | DeviceFile nat

record fs_file =
  m_refs :: size_t
  f_kind :: file_kind

type_synonym files = "fs_file store"

record file_desc =
  m_valid :: bool
  m_write :: bool
  m_file :: addr

section \<open>Reference counts\<close>

definition file_addRef :: "addr \<Rightarrow> files \<Rightarrow> files option" where
  "file_addRef p h = modify h p (\<lambda>f. f\<lparr>m_refs := snd (atomic_add (m_refs f) 1)\<rparr>)"

text \<open>\<^verbatim>\<open>closed\<close>: a pipe deletes itself, the other files do nothing.\<close>

definition file_closed :: "addr \<Rightarrow> files \<Rightarrow> files option" where
  "file_closed p h = do {
     f \<leftarrow> deref h p;
     case f_kind f of PipeFile _ \<Rightarrow> Some (h(p := None)) | _ \<Rightarrow> Some h
   }"

definition file_release :: "addr \<Rightarrow> files \<Rightarrow> files option" where
  "file_release p h = do {
     f \<leftarrow> deref h p;
     kassert (m_refs f > 0);
     let (refs_before, refs) = atomic_add (m_refs f) (- 1);
     let h1 = h(p \<mapsto> f\<lparr>m_refs := refs\<rparr>);
     if refs_before = 1 then file_closed p h1 else Some h1
   }"

section \<open>Descriptors\<close>

definition fd_null :: file_desc where
  "fd_null = \<lparr>m_valid = False, m_write = False, m_file = 0\<rparr>"

definition fd_new :: "addr \<Rightarrow> bool \<Rightarrow> files \<Rightarrow> (file_desc \<times> files) option" where
  "fd_new f w h = do {
     kassert (f \<noteq> 0);
     h1 \<leftarrow> file_addRef f h;
     Some (\<lparr>m_valid = True, m_write = w, m_file = f\<rparr>, h1)
   }"

definition fd_copy :: "file_desc \<Rightarrow> files \<Rightarrow> (file_desc \<times> files) option" where
  "fd_copy fd h = do {
     h1 \<leftarrow> (if m_file fd \<noteq> 0 then file_addRef (m_file fd) h else Some h);
     Some (fd, h1)
   }"

text \<open>Assignment: the descriptor \<open>this\<close> is overwritten with \<open>fd\<close>; the old file is released before the
  new one is referenced.\<close>

definition fd_assign :: "file_desc \<Rightarrow> file_desc \<Rightarrow> files \<Rightarrow> (file_desc \<times> files) option" where
  "fd_assign this fd h = do {
     h1 \<leftarrow> (if m_file this \<noteq> 0 then file_release (m_file this) h else Some h);
     h2 \<leftarrow> (if m_file fd \<noteq> 0 then file_addRef (m_file fd) h1 else Some h1);
     Some (fd, h2)
   }"

definition fd_destroy :: "file_desc \<Rightarrow> files \<Rightarrow> files option" where
  "fd_destroy fd h = (if m_file fd \<noteq> 0 then file_release (m_file fd) h else Some h)"

text \<open>Reading and writing dispatch on the kind of file. \<open>dread\<close> and \<open>dwrite\<close> are the device drivers'
  calls; a pipe that has data copies it out.\<close>

definition file_read :: "(nat \<Rightarrow> size_t \<Rightarrow> int \<times> uint8_t list) \<Rightarrow> addr \<Rightarrow> size_t \<Rightarrow> files \<Rightarrow> (int \<times> uint8_t list \<times> files) option" where
  "file_read dread p len h = do {
     f \<leftarrow> deref h p;
     case f_kind f of
       DirFile _ _ \<Rightarrow> Some (- ENOTSUP, [], h)
     | PipeFile q \<Rightarrow> do {
         (n, cs, q1) \<leftarrow> read_copy len q;
         Some (uint n, cs, h(p \<mapsto> f\<lparr>f_kind := PipeFile q1\<rparr>))
       }
     | DeviceFile d \<Rightarrow> (case dread d len of (r, cs) \<Rightarrow> Some (r, cs, h))
   }"

definition file_write :: "(nat \<Rightarrow> uint8_t list \<Rightarrow> int) \<Rightarrow> addr \<Rightarrow> uint8_t list \<Rightarrow> files \<times> sched \<Rightarrow> (int \<times> files \<times> sched) option" where
  "file_write dwrite p buf hs = (case hs of (h, s) \<Rightarrow> do {
     f \<leftarrow> deref h p;
     case f_kind f of
       DirFile _ _ \<Rightarrow> Some (- ENOTSUP, h, s)
     | PipeFile q \<Rightarrow> do {
         (n, q1, s1) \<leftarrow> queue_write buf (q, s);
         Some (uint n, h(p \<mapsto> f\<lparr>f_kind := PipeFile q1\<rparr>), s1)
       }
     | DeviceFile d \<Rightarrow> Some (dwrite d buf, h, s)
   })"

definition fd_read :: "(nat \<Rightarrow> size_t \<Rightarrow> int \<times> uint8_t list) \<Rightarrow> file_desc \<Rightarrow> size_t \<Rightarrow> files \<Rightarrow> (int \<times> uint8_t list \<times> files) option" where
  "fd_read dread fd len h = do { kassert (m_file fd \<noteq> 0); file_read dread (m_file fd) len h }"

definition fd_write :: "(nat \<Rightarrow> uint8_t list \<Rightarrow> int) \<Rightarrow> file_desc \<Rightarrow> uint8_t list \<Rightarrow> files \<times> sched \<Rightarrow> (int \<times> files \<times> sched) option" where
  "fd_write dwrite fd buf hs =
     (if \<not> m_write fd then Some (- EPERM, hs)
      else do { kassert (m_file fd \<noteq> 0); file_write dwrite (m_file fd) buf hs })"

section \<open>Directories\<close>

fun matchesFileName :: "string \<Rightarrow> string \<Rightarrow> bool" where
  "matchesFileName (p # path) (r # reference) =
     (if p = CHR ''/'' then True else if p \<noteq> r then False else matchesFileName path reference)"
| "matchesFileName path reference = True"

text \<open>The results of a lookup: an error number or a file.\<close>

definition doLookup :: "(string \<times> addr) list \<Rightarrow> string \<Rightarrow> int + addr" where
  "doLookup m_files path =
     (case find (\<lambda>(name, file). matchesFileName name path) m_files of
        Some (_, file) \<Rightarrow> Inr file
      | None \<Rightarrow> Inl ENOENT)"

partial_function (option) dir_lookup :: "files \<Rightarrow> addr \<Rightarrow> string \<Rightarrow> (int + addr) option" where
  "dir_lookup h d path = do {
     f \<leftarrow> deref h d;
     case f_kind f of
       DirFile m_files m_mountOverlay \<Rightarrow>
         (if m_mountOverlay = 0 then Some (doLookup m_files path) else dir_lookup h m_mountOverlay path)
     | _ \<Rightarrow> None
   }"

definition dir_mount :: "addr \<Rightarrow> addr \<Rightarrow> files \<Rightarrow> ((int + unit) \<times> files) option" where
  "dir_mount d fs h = do {
     f \<leftarrow> deref h d;
     case f_kind f of
       DirFile m_files m_mountOverlay \<Rightarrow>
         (if m_mountOverlay \<noteq> 0 then Some (Inl ENOTSUP, h)
          else Some (Inr (), h(d \<mapsto> f\<lparr>f_kind := DirFile m_files fs\<rparr>)))
     | _ \<Rightarrow> None
   }"

text \<open>\<^verbatim>\<open>addFile\<close> copies the name into 256 bytes; a longer one overruns the entry.\<close>

definition addFile :: "addr \<Rightarrow> string \<Rightarrow> addr \<Rightarrow> files \<Rightarrow> files option" where
  "addFile d name file h = do {
     f \<leftarrow> deref h d;
     kassert (length name < 256);
     case f_kind f of
       DirFile m_files ov \<Rightarrow> Some (h(d \<mapsto> f\<lparr>f_kind := DirFile (m_files @ [(name, file)]) ov\<rparr>))
     | _ \<Rightarrow> None
   }"

section \<open>The virtual file system\<close>

record vfs =
  s_root :: addr
  v_files :: files

definition vfs_lookup :: "vfs \<Rightarrow> string \<Rightarrow> (int + addr) option" where
  "vfs_lookup v path = (if s_root v = 0 then Some (Inl ENOENT) else dir_lookup (v_files v) (s_root v) path)"

definition vfs_open :: "string \<Rightarrow> vfs \<Rightarrow> ((int + file_desc) \<times> vfs) option" where
  "vfs_open filename v = do {
     r \<leftarrow> vfs_lookup v filename;
     case r of
       Inl error \<Rightarrow> Some (Inl error, v)
     | Inr file \<Rightarrow> do {
         (fd, h) \<leftarrow> fd_new file True (v_files v);
         Some (Inr fd, v\<lparr>v_files := h\<rparr>)
       }
   }"

definition vfs_mount :: "string \<Rightarrow> addr \<Rightarrow> vfs \<Rightarrow> ((int + unit) \<times> vfs) option" where
  "vfs_mount filename fs v =
     (if filename = ''/'' then Some (Inr (), v\<lparr>s_root := fs\<rparr>)
      else do {
        r \<leftarrow> vfs_lookup v filename;
        case r of
          Inl error \<Rightarrow> Some (Inl error, v)
        | Inr file \<Rightarrow> do {
            f \<leftarrow> deref (v_files v) file;
            case f_kind f of
              DirFile _ _ \<Rightarrow> do { (res, h) \<leftarrow> dir_mount file fs (v_files v); Some (res, v\<lparr>v_files := h\<rparr>) }
            | _ \<Rightarrow> Some (Inl ENOTDIR, v)
          }
      })"

text \<open>\<^verbatim>\<open>DeviceFs::registerDevice\<close>.\<close>

definition registerDevice :: "string \<Rightarrow> addr \<Rightarrow> vfs \<Rightarrow> vfs option" where
  "registerDevice name device v = do {
     h \<leftarrow> addFile (s_root v) name device (v_files v);
     Some (v\<lparr>v_files := h\<rparr>)
   }"

section \<open>Reference counts are exact\<close>

text \<open>\<open>counted h fds\<close>: every file's count is the number of live descriptors that hold it, each
  descriptor's file exists, and a pipe exists only while somebody holds it.\<close>

definition holders :: "addr \<Rightarrow> file_desc list \<Rightarrow> nat" where
  "holders p fds = length (filter (\<lambda>fd. m_file fd = p) fds)"

definition counted :: "files \<Rightarrow> file_desc list \<Rightarrow> bool" where
  "counted h fds \<longleftrightarrow> length fds < 2 ^ 63 \<and>
     (\<forall>fd \<in> set fds. m_file fd \<noteq> 0 \<longrightarrow> h (m_file fd) \<noteq> None) \<and>
     (\<forall>p f. p \<noteq> 0 \<longrightarrow> h p = Some f \<longrightarrow> m_refs f = of_nat (holders p fds))"

lemma holders_simps [simp]:
  "holders p [] = 0" "holders p (fd # fds) = (if m_file fd = p then 1 else 0) + holders p fds"
  "holders p (xs @ ys) = holders p xs + holders p ys"
  by (simp_all add: holders_def)

lemma holders_le: "holders p fds \<le> length fds"
  by (simp add: holders_def)

lemma holders_pos: "fd \<in> set fds \<Longrightarrow> m_file fd = p \<Longrightarrow> 0 < holders p fds"
  by (auto simp: holders_def filter_empty_conv)

lemma holders_0: "holders p fds = 0 \<Longrightarrow> fd \<in> set fds \<Longrightarrow> m_file fd \<noteq> p"
  using holders_pos by fastforce

lemma counted_add:
  assumes "counted h fds" and "h p = Some f" and "p \<noteq> 0" and "m_file fd = p" and "Suc (length fds) < 2 ^ 63"
  shows "\<exists>h'. file_addRef p h = Some h' \<and> counted h' (fd # fds) \<and> h' p = Some (f\<lparr>m_refs := m_refs f + 1\<rparr>)"
  using assms by (auto simp: counted_def file_addRef_def atomic_add_def)

lemma counted_drop:
  assumes "counted h fds" and "holders p fds = 0"
  shows "counted (h(p := None)) fds"
proof -
  have "m_file fd \<noteq> p" if "fd \<in> set fds" for fd using holders_0 [OF assms(2) that] .
  with assms(1) show ?thesis unfolding counted_def by (metis fun_upd_other fun_upd_same option.distinct(1))
qed

lemma counted_release:
  assumes "counted h (fd # fds)" and "m_file fd = p" and "p \<noteq> 0"
  shows "\<exists>h' f. file_release p h = Some h' \<and> counted h' fds \<and> h p = Some f \<and>
     (\<forall>q. q \<noteq> p \<longrightarrow> h' q = h q) \<and>
     (h' p = None \<longleftrightarrow> (\<exists>q. f_kind f = PipeFile q) \<and> holders p fds = 0)"
proof -
  from assms have "h p \<noteq> None" by (simp add: counted_def)
  then obtain f where f0: "h p = Some f" by blast
  from assms(1,3) f0 have r: "m_refs f = of_nat (holders p (fd # fds))" unfolding counted_def by blast
  have e: "holders p (fd # fds) = Suc (holders p fds)" using assms(2) by simp
  note f = f0 r [unfolded e]
  have l: "Suc (holders p fds) < 2 ^ 64" using assms(1) holders_le [of p fds] by (simp add: counted_def)
  have u: "unat (m_refs f) = Suc (holders p fds)" unfolding f(2) using l by (intro unat_of_nat_small) simp
  have pos: "m_refs f > 0" and one: "m_refs f = 1 \<longleftrightarrow> holders p fds = 0"
    by (auto simp: word_less_nat_alt word_unat_eq_iff u)
  let ?h = "h(p \<mapsto> f\<lparr>m_refs := m_refs f - 1\<rparr>)"
  have c: "counted ?h fds" using assms f by (auto simp: counted_def)
  show ?thesis
  proof (cases "holders p fds = 0")
    case False
    with f pos one c assms(3) show ?thesis by (auto simp: file_release_def atomic_add_def)
  next
    case True
    have "counted (?h(p := None)) fds" by (rule counted_drop [OF c True])
    with f pos one c assms(3) True show ?thesis
      by (cases "f_kind f") (auto simp: file_release_def atomic_add_def file_closed_def)
  qed
qed

lemma counted_perm:
  assumes "mset fds = mset fds'"
  shows "counted h fds = counted h fds'"
proof -
  have "holders p fds = holders p fds'" for p
    unfolding holders_def by (metis assms mset_filter size_mset)
  moreover have "length fds = length fds'" "set fds = set fds'"
    using assms by (metis size_mset, metis set_mset_mset)
  ultimately show ?thesis by (simp add: counted_def)
qed

section \<open>Descriptor operations in sequence\<close>

text \<open>The live descriptors of the system as a list; an operation names them by position.\<close>

datatype fdop = Open addr bool | Copy nat | Assign nat nat | Destroy nat

fun fd_op :: "fdop \<Rightarrow> files \<times> file_desc list \<Rightarrow> (files \<times> file_desc list) option" where
  "fd_op (Open p w) (h, fds) = do { (fd, h1) \<leftarrow> fd_new p w h; Some (h1, fd # fds) }"
| "fd_op (Copy i) (h, fds) = do { (fd, h1) \<leftarrow> fd_copy (fds ! i) h; Some (h1, fd # fds) }"
| "fd_op (Assign i j) (h, fds) = do { (fd, h1) \<leftarrow> fd_assign (fds ! i) (fds ! j) h; Some (h1, fds[i := fd]) }"
| "fd_op (Destroy i) (h, fds) = do { h1 \<leftarrow> fd_destroy (fds ! i) h; Some (h1, take i fds @ drop (Suc i) fds) }"

fun valid_op :: "fdop \<Rightarrow> files \<times> file_desc list \<Rightarrow> bool" where
  "valid_op (Open p w) (h, fds) \<longleftrightarrow> p \<noteq> 0 \<and> h p \<noteq> None"
| "valid_op (Copy i) (h, fds) \<longleftrightarrow> i < length fds"
| "valid_op (Assign i j) (h, fds) \<longleftrightarrow> i < length fds \<and> j < length fds \<and> i \<noteq> j"
| "valid_op (Destroy i) (h, fds) \<longleftrightarrow> i < length fds"

lemma counted_null:
  assumes "m_file fd = 0"
  shows "counted h (fd # fds) \<longleftrightarrow> Suc (length fds) < 2 ^ 63 \<and> counted h fds"
proof -
  have hp: "p \<noteq> 0 \<Longrightarrow> holders p (fd # fds) = holders p fds" for p using assms by simp
  have e1: "(\<forall>p f. p \<noteq> 0 \<longrightarrow> h p = Some f \<longrightarrow> m_refs f = of_nat (holders p (fd # fds))) \<longleftrightarrow>
    (\<forall>p f. p \<noteq> 0 \<longrightarrow> h p = Some f \<longrightarrow> m_refs f = of_nat (holders p fds))"
  proof (intro iff_allI imp_cong refl)
    fix p :: addr and f :: fs_file assume "p \<noteq> 0"
    from hp [OF this] show "(m_refs f = of_nat (holders p (fd # fds))) = (m_refs f = of_nat (holders p fds))" by (simp only:)
  qed
  have e2: "(\<forall>x \<in> set (fd # fds). m_file x \<noteq> 0 \<longrightarrow> h (m_file x) \<noteq> None) \<longleftrightarrow>
    (\<forall>x \<in> set fds. m_file x \<noteq> 0 \<longrightarrow> h (m_file x) \<noteq> None)" using assms by simp
  have e3: "length (fd # fds) < 2 ^ 63 \<longleftrightarrow> Suc (length fds) < 2 ^ 63 \<and> length fds < 2 ^ 63" by auto
  show ?thesis unfolding counted_def e1 e2 e3 by blast
qed

lemma fd_copy_counted:
  assumes "counted h fds" and "fd \<in> set fds" and "Suc (length fds) < 2 ^ 63"
  shows "\<exists>h'. fd_copy fd h = Some (fd, h') \<and> counted h' (fd # fds)"
proof (cases "m_file fd = 0")
  case True
  with assms counted_null [OF True] show ?thesis by (simp add: fd_copy_def)
next
  case False
  with assms obtain f where "h (m_file fd) = Some f" by (auto simp: counted_def)
  from counted_add [OF assms(1) this False refl assms(3)] False show ?thesis by (auto simp: fd_copy_def)
qed

lemma fd_destroy_counted:
  assumes "counted h (fd # fds)"
  shows "\<exists>h'. fd_destroy fd h = Some h' \<and> counted h' fds"
proof (cases "m_file fd = 0")
  case True
  with assms counted_null [OF True] show ?thesis by (simp add: fd_destroy_def)
next
  case False
  from counted_release [OF assms refl False] False show ?thesis by (auto simp: fd_destroy_def)
qed

interpretation fdh: handles counted "\<lambda>fd h. map_option snd (fd_copy fd h)" fd_destroy "2 ^ 63"
proof unfold_locales
  show "counted h xs \<Longrightarrow> x \<in> set xs \<Longrightarrow> Suc (length xs) < 2 ^ 63 \<Longrightarrow>
     \<exists>h'. map_option snd (fd_copy x h) = Some h' \<and> counted h' (x # xs)" for h x xs
    using fd_copy_counted [of h xs x] by force
qed (rule fd_destroy_counted, assumption, rule counted_perm)

lemma fd_assign_counted:
  assumes "counted h (this # fds)" and "fd \<in> set fds"
  shows "\<exists>h'. fd_assign this fd h = Some (fd, h') \<and> counted h' (fd # fds)"
proof -
  from fd_destroy_counted [OF assms(1)] obtain h1 where
    h1: "fd_destroy this h = Some h1" "counted h1 fds" by blast
  have l: "Suc (length fds) < 2 ^ 63" using assms(1) by (simp add: counted_def)
  from fd_copy_counted [OF h1(2) assms(2) l] obtain h2 where
    "fd_copy fd h1 = Some (fd, h2)" "counted h2 (fd # fds)" by blast
  with h1(1) show ?thesis by (auto simp: fd_assign_def fd_destroy_def fd_copy_def split: if_splits bind_splits)
qed

lemma mset_nth: "i < length xs \<Longrightarrow> mset xs = mset (xs ! i # take i xs @ drop (Suc i) xs)"
  by (metis id_take_nth_drop mset.simps(2) mset_append union_mset_add_mset_right)

lemma fd_op_counted:
  assumes "counted h fds" and "Suc (length fds) < 2 ^ 63" and "valid_op op (h, fds)"
  shows "\<exists>h' fds'. fd_op op (h, fds) = Some (h', fds') \<and> counted h' fds'"
proof (cases op)
  case (Open p w)
  with assms(3) obtain f where f: "h p = Some f" "p \<noteq> 0" by auto
  from counted_add [OF assms(1) f, of "\<lparr>m_valid = True, m_write = w, m_file = p\<rparr>"] assms(2) Open f
  show ?thesis by (auto simp: fd_new_def)
next
  case (Copy i)
  with fd_copy_counted [OF assms(1) _ assms(2), of "fds ! i"] assms(3) show ?thesis by auto
next
  case (Assign i j)
  with assms(3) have ij: "i < length fds" "j < length fds" "i \<noteq> j" by auto
  let ?r = "take i fds @ drop (Suc i) fds"
  have "counted h (fds ! i # ?r)" using assms(1) counted_perm [OF mset_nth [OF ij(1)]] by simp
  moreover have "fds ! j \<in> set ?r"
  proof (cases "j < i")
    case True
    with ij(1) have "take i fds ! j \<in> set (take i fds)" by (intro nth_mem) simp
    with True show ?thesis by simp
  next
    case False
    with ij have "drop (Suc i) fds ! (j - Suc i) \<in> set (drop (Suc i) fds)" by (intro nth_mem) simp
    with False ij show ?thesis by simp
  qed
  ultimately obtain h' where h': "fd_assign (fds ! i) (fds ! j) h = Some (fds ! j, h')" "counted h' (fds ! j # ?r)"
    using fd_assign_counted by blast
  have "mset (fds[i := fds ! j]) = mset (fds ! j # ?r)" using ij(1) by (simp add: upd_conv_take_nth_drop)
  then have "counted h' (fds[i := fds ! j])" using h'(2) counted_perm by blast
  with h'(1) Assign show ?thesis by simp
next
  case (Destroy i)
  with assms(3) have i: "i < length fds" by simp
  have "counted h (fds ! i # take i fds @ drop (Suc i) fds)" using assms(1) counted_perm [OF mset_nth [OF i]] by simp
  from fd_destroy_counted [OF this] Destroy show ?thesis by auto
qed

section \<open>Names\<close>

lemma matches_iff_prefix:
  "CHR ''/'' \<notin> set name \<Longrightarrow> matchesFileName name path \<longleftrightarrow> prefix name path \<or> prefix path name"
proof (induction name path rule: matchesFileName.induct)
  case (1 p path r reference)
  from "1.prems" have "p \<noteq> CHR ''/''" "CHR ''/'' \<notin> set path" by auto
  with "1.IH" show ?case by (cases "p = r") simp_all
qed simp_all

lemma dir_lookup_plain:
  "h d = Some f \<Longrightarrow> d \<noteq> 0 \<Longrightarrow> f_kind f = DirFile es 0 \<Longrightarrow> dir_lookup h d path = Some (doLookup es path)"
  by (subst dir_lookup.simps) simp

lemma dir_lookup_overlay:
  "h d = Some f \<Longrightarrow> d \<noteq> 0 \<Longrightarrow> f_kind f = DirFile es ov \<Longrightarrow> ov \<noteq> 0 \<Longrightarrow> dir_lookup h d path = dir_lookup h ov path"
  by (subst dir_lookup.simps) simp

section \<open>Properties\<close>

text \<open>C12. Reference counts are exact (\<^verbatim>\<open>FileDesc\<close>, \<^verbatim>\<open>File::addRef\<close>, \<^verbatim>\<open>File::release\<close>): whatever valid operation comes next
  (opening a file, copying a descriptor, assigning one to another, destroying one), it returns,
  none of its assertions fails and no freed file is touched, and afterwards every file's count is
  again the number of live descriptors that hold it.\<close>

theorem fd_refcount_exact:
  assumes "counted h fds" and "Suc (length fds) < 2 ^ 63" and "valid_op op (h, fds)"
  shows "\<exists>h' fds'. fd_op op (h, fds) = Some (h', fds') \<and> counted h' fds'"
  by (rule fd_op_counted [OF assms])

definition example_files :: files where
  "example_files = [16 \<mapsto> \<lparr>m_refs = 1, f_kind = PipeFile (new_queue (replicate 4096 0) Map.empty)\<rparr>,
     32 \<mapsto> \<lparr>m_refs = 0, f_kind = DirFile [(''uart0'', 48), (''fb0'', 64)] 0\<rparr>,
     48 \<mapsto> \<lparr>m_refs = 0, f_kind = DeviceFile 1\<rparr>, 64 \<mapsto> \<lparr>m_refs = 0, f_kind = DeviceFile 2\<rparr>]"

definition example_fd :: file_desc where
  "example_fd = \<lparr>m_valid = True, m_write = True, m_file = 16\<rparr>"

lemma example_files_counted: "counted example_files [example_fd]"
  by (auto simp: counted_def example_files_def example_fd_def split: if_splits)

theorem fd_refcount_exact_witness:
  "\<exists>h' fds'. fd_op (Destroy 0) (example_files, [example_fd]) = Some (h', fds') \<and> counted h' fds'"
  using fd_refcount_exact [OF example_files_counted, of "Destroy 0"] by simp

text \<open>A pipe lives exactly as long as it is held (\<^verbatim>\<open>File::release\<close>, \<^verbatim>\<open>Pipe::closed\<close>): releasing a reference
  removes the file from memory exactly when it is a pipe and no other descriptor holds it, and
  touches no other file.\<close>

theorem pipe_lifetime:
  assumes "counted h (fd # fds)" and "m_file fd = p" and "p \<noteq> 0"
  shows "\<exists>h' f. file_release p h = Some h' \<and> counted h' fds \<and> h p = Some f \<and>
     (\<forall>q. q \<noteq> p \<longrightarrow> h' q = h q) \<and>
     (h' p = None \<longleftrightarrow> (\<exists>q. f_kind f = PipeFile q) \<and> holders p fds = 0)"
  by (rule counted_release [OF assms])

theorem pipe_lifetime_witness: "\<exists>h'. file_release 16 example_files = Some h' \<and> h' 16 = None"
  using pipe_lifetime [OF example_files_counted, of 16]
  by (auto simp: example_fd_def example_files_def)

text \<open>C37. Opening by name (\<^verbatim>\<open>fs::open\<close>, \<^verbatim>\<open>Dir::lookup\<close>, \<^verbatim>\<open>matchesFileName\<close>): in a directory without overlay the call
  opens the first entry whose name is a prefix of the path or of which the path is a prefix, and
  otherwise reports \<^verbatim>\<open>ENOENT\<close> and changes nothing; so an incomplete or an overlong name opens a file
  too.\<close>

theorem vfs_open_correct:
  assumes "s_root v \<noteq> 0" and "v_files v (s_root v) = Some d" and "f_kind d = DirFile es 0"
    and "\<forall>(n, p) \<in> set es. CHR ''/'' \<notin> set n \<and> p \<noteq> 0 \<and> v_files v p \<noteq> None"
  shows "case find (\<lambda>(n, p). prefix n path \<or> prefix path n) es of
      None \<Rightarrow> vfs_open path v = Some (Inl ENOENT, v)
    | Some (n, p) \<Rightarrow> (\<exists>v' f. vfs_open path v = Some (Inr \<lparr>m_valid = True, m_write = True, m_file = p\<rparr>, v') \<and>
        v_files v p = Some f \<and> v_files v' = (v_files v)(p \<mapsto> f\<lparr>m_refs := m_refs f + 1\<rparr>))"
proof -
  have "find (\<lambda>(n, p). matchesFileName n path) es = find (\<lambda>(n, p). prefix n path \<or> prefix path n) es"
    using assms(4) by (intro find_cong) (auto simp: matches_iff_prefix)
  then have l: "vfs_lookup v path = Some (case find (\<lambda>(n, p). prefix n path \<or> prefix path n) es of
      Some (_, p) \<Rightarrow> Inr p | None \<Rightarrow> Inl ENOENT)"
    using dir_lookup_plain [of "v_files v" "s_root v" d es path] assms(1-3) by (simp add: vfs_lookup_def doLookup_def)
  show ?thesis
  proof (cases "find (\<lambda>(n, p). prefix n path \<or> prefix path n) es")
    case None
    with l show ?thesis by (simp add: vfs_open_def)
  next
    case (Some np)
    then have "np \<in> set es" by (metis find_Some_iff nth_mem)
    with assms(4) obtain f where "snd np \<noteq> 0" "v_files v (snd np) = Some f" by (cases np) auto
    with l Some show ?thesis
      by (cases np) (simp add: vfs_open_def fd_new_def file_addRef_def atomic_add_def)
  qed
qed

theorem vfs_open_correct_witness:
  "\<exists>v'. vfs_open ''uart'' \<lparr>s_root = 32, v_files = example_files\<rparr> =
     Some (Inr \<lparr>m_valid = True, m_write = True, m_file = 48\<rparr>, v')"
proof -
  let ?v = "\<lparr>s_root = 32, v_files = example_files\<rparr>"
  have "v_files ?v (s_root ?v) = Some \<lparr>m_refs = 0, f_kind = DirFile [(''uart0'', 48), (''fb0'', 64)] 0\<rparr>"
    by (simp add: example_files_def)
  from vfs_open_correct [OF _ this, of "[(''uart0'', 48), (''fb0'', 64)]" "''uart''"] show ?thesis
    by (simp add: example_files_def) blast
qed

text \<open>Mounting (\<^verbatim>\<open>Dir::mount\<close>, \<^verbatim>\<open>Dir::lookup\<close>): mounting on a free directory succeeds and from then on every
  lookup in it is answered by the mounted file system; a second mount on it is refused with
  \<^verbatim>\<open>ENOTSUP\<close> and changes nothing.\<close>

theorem mount_redirects:
  assumes "d \<noteq> 0" and "h d = Some f" and "f_kind f = DirFile es 0" and "fs \<noteq> 0" and "fs \<noteq> d"
    and "h fs = Some g" and "f_kind g = DirFile gs 0"
  shows "\<exists>h'. dir_mount d fs h = Some (Inr (), h') \<and> dir_lookup h' d path = Some (doLookup gs path) \<and>
     dir_mount d fs2 h' = Some (Inl ENOTSUP, h')"
proof -
  let ?h = "h(d \<mapsto> f\<lparr>f_kind := DirFile es fs\<rparr>)"
  have "dir_lookup ?h d path = dir_lookup ?h fs path"
    using assms(1,4) by (intro dir_lookup_overlay [of _ _ "f\<lparr>f_kind := DirFile es fs\<rparr>" es]) simp_all
  also have "\<dots> = Some (doLookup gs path)" using assms by (intro dir_lookup_plain [of _ _ g]) simp_all
  finally show ?thesis using assms by (simp add: dir_mount_def)
qed

theorem mount_redirects_witness:
  "\<exists>h'. dir_mount 80 32 (example_files(80 \<mapsto> \<lparr>m_refs = 0, f_kind = DirFile [] 0\<rparr>)) = Some (Inr (), h') \<and>
     dir_lookup h' 80 ''fb0'' = Some (Inr 64)"
proof -
  let ?h = "example_files(80 \<mapsto> \<lparr>m_refs = 0, f_kind = DirFile [] 0\<rparr>)"
  from mount_redirects [of 80 ?h "\<lparr>m_refs = 0, f_kind = DirFile [] 0\<rparr>" "[]" 32
      "\<lparr>m_refs = 0, f_kind = DirFile [(''uart0'', 48), (''fb0'', 64)] 0\<rparr>" "[(''uart0'', 48), (''fb0'', 64)]" "''fb0''" 0]
  show ?thesis by (auto simp: example_files_def doLookup_def)
qed

end
