(* ===== verification/Vector.thy ===== *)
theory Vector
  imports Prelude
begin

text \<open>
  The growing array \<^verbatim>\<open>lib::vector<T>\<close> of \<^verbatim>\<open>kernel/include/lib/vector.h\<close>: a block of memory with a size and a
  capacity. The block is a list of as many elements as the capacity; what fresh memory holds is the
  parameter \<open>z\<close> (memory from \<^verbatim>\<open>kmalloc\<close> is cleared).
\<close>

record 'a vector =
  v_size :: size_t
  v_capacity :: size_t
  v_array :: "'a list"

definition round_capacity :: "size_t \<Rightarrow> size_t" where
  "round_capacity capacity = push_bit 4 (drop_bit 4 capacity) + 16"

definition vec_alloc :: "'a \<Rightarrow> size_t \<Rightarrow> 'a vector \<Rightarrow> 'a vector" where
  "vec_alloc z capacity v =
     (let c = round_capacity capacity in v\<lparr>v_array := replicate (unat c) z, v_capacity := c\<rparr>)"

definition new_vector :: "'a \<Rightarrow> 'a vector" where
  "new_vector z = vec_alloc z 0 \<lparr>v_size = 0, v_capacity = 0, v_array = []\<rparr>"

definition vec_copy :: "'a \<Rightarrow> 'a vector \<Rightarrow> 'a vector" where
  "vec_copy z self =
     (let v = vec_alloc z (v_size self) \<lparr>v_size = v_size self, v_capacity = 0, v_array = []\<rparr>;
          n = unat (v_size v)
      in v\<lparr>v_array := take n (v_array self) @ drop n (v_array v)\<rparr>)"

definition vec_get :: "'a vector \<Rightarrow> size_t \<Rightarrow> 'a option" where
  "vec_get v index = do { kassert (index < v_size v); Some (v_array v ! unat index) }"

definition vec_set :: "'a vector \<Rightarrow> size_t \<Rightarrow> 'a \<Rightarrow> 'a vector option" where
  "vec_set v index x = do { kassert (index < v_size v); Some (v\<lparr>v_array := (v_array v)[unat index := x]\<rparr>) }"

definition vec_realloc :: "'a \<Rightarrow> size_t \<Rightarrow> 'a vector \<Rightarrow> 'a vector" where
  "vec_realloc z capacity v =
     (let old = v_array v; v1 = vec_alloc z capacity v; n = unat (v_size v1)
      in v1\<lparr>v_array := take n old @ drop n (v_array v1)\<rparr>)"

text \<open>A store behind the block is memory corruption and fails.\<close>

definition vec_push_back :: "'a \<Rightarrow> 'a \<Rightarrow> 'a vector \<Rightarrow> 'a vector option" where
  "vec_push_back z x v = do {
     let v1 = (if v_size v + 1 > v_capacity v then vec_realloc z (v_size v + 1) v else v);
     kassert (unat (v_size v1) < length (v_array v1));
     Some (v1\<lparr>v_array := (v_array v1)[unat (v_size v1) := x], v_size := v_size v1 + 1\<rparr>)
   }"

definition vec_pop_back :: "'a vector \<Rightarrow> ('a \<times> 'a vector) option" where
  "vec_pop_back v = do {
     let v1 = v\<lparr>v_size := v_size v - 1\<rparr>;
     kassert (unat (v_size v1) < length (v_array v1));
     Some (v_array v1 ! unat (v_size v1), v1)
   }"

section \<open>Abstraction\<close>

definition elems :: "'a vector \<Rightarrow> 'a list" where
  "elems v = take (unat (v_size v)) (v_array v)"

definition vec_inv :: "'a vector \<Rightarrow> bool" where
  "vec_inv v \<longleftrightarrow> length (v_array v) = unat (v_capacity v) \<and> v_size v \<le> v_capacity v"

lemma elems_length: "vec_inv v \<Longrightarrow> length (elems v) = unat (v_size v)"
  by (simp add: vec_inv_def elems_def word_le_nat_alt)

lemma unat_round_capacity:
  assumes "unat c < 2 ^ 63"
  shows "unat (round_capacity c) = unat c div 16 * 16 + 16"
proof -
  have d: "unat (drop_bit 4 c) = unat c div 16"
    using unat_div_distrib [of c "16 :: size_t"] drop_bit_eq_div [of 4 c] by simp
  have "unat (push_bit 4 (drop_bit 4 c)) = unat c div 16 * 16"
    using unat_word_ariths(2) [of "drop_bit 4 c" "16 :: size_t"] push_bit_eq_mult [of 4 "drop_bit 4 c"] d assms
    by (simp add: mod_less)
  then show ?thesis using assms unat_word_ariths(1) [of "push_bit 4 (drop_bit 4 c)" "16 :: size_t"]
    by (simp add: round_capacity_def)
qed

lemma round_capacity_gt: "unat c < 2 ^ 63 \<Longrightarrow> unat c < unat (round_capacity c)"
  by (simp add: unat_round_capacity)

lemma new_vector_ok: "vec_inv (new_vector z)" "elems (new_vector z) = []"
  by (simp_all add: new_vector_def vec_alloc_def vec_inv_def elems_def Let_def)

lemma vec_get_elems: "vec_inv v \<Longrightarrow> vec_get v i = (if unat i < length (elems v) then Some (elems v ! unat i) else None)"
  by (auto simp: vec_get_def vec_inv_def elems_def word_less_nat_alt word_le_nat_alt)

lemma vec_set_elems:
  "vec_inv v \<Longrightarrow> unat i < length (elems v) \<Longrightarrow>
   \<exists>v'. vec_set v i x = Some v' \<and> vec_inv v' \<and> elems v' = (elems v)[unat i := x] \<and> v_size v' = v_size v"
  by (auto simp: vec_set_def vec_inv_def elems_def word_less_nat_alt word_le_nat_alt take_update_swap)

lemma vec_push_back_elems:
  assumes "vec_inv v" and "unat (v_size v) < 2 ^ 62"
  shows "\<exists>v'. vec_push_back z x v = Some v' \<and> vec_inv v' \<and> elems v' = elems v @ [x] \<and> v_size v' = v_size v + 1"
proof -
  let ?n = "unat (v_size v)"
  have n1: "unat (v_size v + 1) = ?n + 1" using assms(2) by (simp add: unat_word_ariths)
  show ?thesis
  proof (cases "v_size v + 1 > v_capacity v")
    case True
    let ?v = "vec_realloc z (v_size v + 1) v" and ?c = "round_capacity (v_size v + 1)"
    have c: "?n + 1 < unat ?c" using round_capacity_gt [of "v_size v + 1"] n1 assms(2) by simp
    have l: "?n \<le> length (v_array v)" using assms(1) by (simp add: vec_inv_def word_le_nat_alt)
    have v: "v_size ?v = v_size v" "v_capacity ?v = ?c" "length (v_array ?v) = unat ?c" "take ?n (v_array ?v) = take ?n (v_array v)"
      using c l by (simp_all add: vec_realloc_def vec_alloc_def Let_def)
    from True v c n1 have "vec_push_back z x v = Some (?v\<lparr>v_array := (v_array ?v)[?n := x], v_size := v_size v + 1\<rparr>)"
      by (simp add: vec_push_back_def Let_def)
    with v c n1 show ?thesis by (simp add: vec_inv_def elems_def word_le_nat_alt take_Suc_conv_app_nth)
  next
    case False
    with n1 assms(1) have "?n < length (v_array v)" by (simp add: vec_inv_def word_less_nat_alt)
    with False n1 assms(1) show ?thesis
      by (simp add: vec_push_back_def vec_inv_def elems_def word_le_nat_alt word_less_nat_alt take_Suc_conv_app_nth)
  qed
qed

lemma vec_pop_back_elems:
  assumes "vec_inv v" and "elems v \<noteq> []"
  shows "\<exists>v'. vec_pop_back v = Some (last (elems v), v') \<and> vec_inv v' \<and> elems v' = butlast (elems v) \<and> v_size v' = v_size v - 1"
proof -
  have n: "unat (v_size v) \<le> length (v_array v)" using assms(1) by (simp add: vec_inv_def word_le_nat_alt)
  with assms(2) have pos: "0 < unat (v_size v)" by (auto simp: elems_def)
  then have u: "unat (v_size v - 1) = unat (v_size v) - 1" by (simp add: unat_minus_one word_neq_0_conv unat_gt_0)
  have "vec_inv (v\<lparr>v_size := v_size v - 1\<rparr>)" using assms(1) u by (auto simp: vec_inv_def word_le_nat_alt)
  moreover have "vec_pop_back v = Some (v_array v ! (unat (v_size v) - 1), v\<lparr>v_size := v_size v - 1\<rparr>)"
    using n pos u by (simp add: vec_pop_back_def Let_def)
  moreover have "v_array v ! (unat (v_size v) - 1) = last (elems v)"
    using n pos assms(2) by (simp add: elems_def last_conv_nth)
  moreover have "elems (v\<lparr>v_size := v_size v - 1\<rparr>) = butlast (elems v)" using n u by (simp add: elems_def butlast_take)
  ultimately show ?thesis by simp
qed

lemma vec_copy_elems:
  assumes "vec_inv v" and "unat (v_size v) < 2 ^ 62"
  shows "vec_inv (vec_copy z v)" and "elems (vec_copy z v) = elems v"
proof -
  have c: "unat (v_size v) < unat (round_capacity (v_size v))" using round_capacity_gt [of "v_size v"] assms(2) by simp
  have "unat (v_size v) \<le> length (v_array v)" using assms(1) by (simp add: vec_inv_def word_le_nat_alt)
  with c show "vec_inv (vec_copy z v)" "elems (vec_copy z v) = elems v"
    by (simp_all add: vec_copy_def vec_alloc_def vec_inv_def elems_def Let_def word_le_nat_alt)
qed

section \<open>A vector as its users see it\<close>

locale vector_spec =
  fixes invar :: "'v \<Rightarrow> bool"
    and items :: "'v \<Rightarrow> 'a list"
    and push :: "'a \<Rightarrow> 'v \<Rightarrow> 'v option"
    and pop :: "'v \<Rightarrow> ('a \<times> 'v) option"
    and limit :: nat
  assumes push_law: "invar v \<Longrightarrow> length (items v) < limit \<Longrightarrow> \<exists>v'. push x v = Some v' \<and> invar v' \<and> items v' = items v @ [x]"
    and pop_law: "invar v \<Longrightarrow> items v \<noteq> [] \<Longrightarrow> \<exists>v'. pop v = Some (last (items v), v') \<and> invar v' \<and> items v' = butlast (items v)"
begin

lemma push_pop:
  assumes "invar v" and "length (items v) < limit"
  shows "\<exists>v1 v2. push x v = Some v1 \<and> pop v1 = Some (x, v2) \<and> invar v2 \<and> items v2 = items v"
proof -
  from push_law [OF assms, of x] obtain v1 where "push x v = Some v1" "invar v1" "items v1 = items v @ [x]" by blast
  with pop_law [of v1] show ?thesis by auto
qed

end

interpretation vec: vector_spec vec_inv elems "vec_push_back z" vec_pop_back "2 ^ 62"
proof unfold_locales
  fix v :: "'a vector" and x
  assume a: "vec_inv v" "length (elems v) < 2 ^ 62"
  with elems_length [OF a(1)] vec_push_back_elems [OF a(1), of z x]
  show "\<exists>v'. vec_push_back z x v = Some v' \<and> vec_inv v' \<and> elems v' = elems v @ [x]" by auto
next
  fix v :: "'a vector"
  assume "vec_inv v" "elems v \<noteq> []"
  from vec_pop_back_elems [OF this] show "\<exists>v'. vec_pop_back v = Some (last (elems v), v') \<and> vec_inv v' \<and> elems v' = butlast (elems v)"
    by blast
qed

end
