(* ===== verification/PageMap.thy ===== *)
theory PageMap
  imports Sync
begin

text \<open>
  The page-frame reference counter: \<^verbatim>\<open>kernel/mm/pagemap.cpp\<close>, \<^verbatim>\<open>kernel/include/pagemap.h\<close> and its
  construction from the boot loader's memory map in \<^verbatim>\<open>arch/x86_64/pagemap.cpp\<close>. Reference counts
  are bytes and wrap; the page counters are 64-bit words.
\<close>

section \<open>Data\<close>

definition PAGE_SHIFT :: nat where "PAGE_SHIFT = 12"
definition PAGE_SIZE :: size_t where "PAGE_SIZE = 4096"

record pagemap =
  p_lock :: spinlock
  m_totalPages :: size_t
  m_usablePages :: size_t
  m_freePageCount :: size_t
  m_usedPages :: size_t
  m_pagemap :: "uint8_t list"

section \<open>Operations\<close>

definition new_pagemap :: "size_t \<Rightarrow> size_t \<Rightarrow> size_t \<Rightarrow> uint8_t list \<Rightarrow> pagemap" where
  "new_pagemap pagemapSize freePages usablePages initializedPagemap =
     \<lparr>p_lock = new_spinlock, m_totalPages = pagemapSize, m_usablePages = usablePages,
      m_freePageCount = freePages, m_usedPages = usablePages - freePages,
      m_pagemap = initializedPagemap\<rparr>"

definition pm_lock :: "pagemap \<Rightarrow> pagemap option" where
  "pm_lock pm = do { l \<leftarrow> spin_lock (p_lock pm); Some (pm\<lparr>p_lock := l\<rparr>) }"

definition pm_unlock :: "pagemap \<Rightarrow> pagemap option" where
  "pm_unlock pm = do { l \<leftarrow> spin_unlock (p_lock pm); Some (pm\<lparr>p_lock := l\<rparr>) }"

definition getRefs :: "pagemap \<Rightarrow> size_t \<Rightarrow> size_t" where
  "getRefs pm ppn =
     (if m_totalPages pm \<le> ppn then 1 else ucast (m_pagemap pm ! unat ppn))"

text \<open>The search loop of \<^verbatim>\<open>alloc\<close>.\<close>

function alloc_scan :: "uint8_t list \<Rightarrow> nat \<Rightarrow> nat \<Rightarrow> nat option" where
  "alloc_scan m i n =
     (if i < n then (if m ! i = 0 then Some i else alloc_scan m (Suc i) n) else None)"
  by pat_completeness auto
termination
  by (relation "measure (\<lambda>(m, i, n). n - i)") auto

declare alloc_scan.simps [simp del]

definition alloc :: "bool \<Rightarrow> pagemap \<Rightarrow> (size_t \<times> pagemap) option" where
  "alloc noLock pm = do {
     pm1 \<leftarrow> (if \<not> noLock then pm_lock pm else Some pm);
     case alloc_scan (m_pagemap pm1) 0 (unat (m_totalPages pm1)) of
       Some i \<Rightarrow> do {
         let pm2 = pm1\<lparr>m_pagemap := (m_pagemap pm1)[i := m_pagemap pm1 ! i + 1],
                       m_freePageCount := m_freePageCount pm1 - 1,
                       m_usedPages := m_usedPages pm1 + 1\<rparr>;
         pm3 \<leftarrow> (if \<not> noLock then pm_unlock pm2 else Some pm2);
         Some (of_nat i, pm3)
       }
     | None \<Rightarrow> do {
         _ \<leftarrow> (if \<not> noLock then pm_unlock pm1 else Some pm1);
         kassert False;
         Some (- 1, pm1)
       }
   }"

definition addRef :: "size_t \<Rightarrow> pagemap \<Rightarrow> pagemap" where
  "addRef ppn pm =
     (if m_totalPages pm \<le> ppn then pm
      else case atomic_add8 (m_pagemap pm ! unat ppn) 1 of (old, new) \<Rightarrow>
        let pm1 = pm\<lparr>m_pagemap := (m_pagemap pm)[unat ppn := new]\<rparr> in
        if old = 0
        then pm1\<lparr>m_freePageCount := m_freePageCount pm1 - 1, m_usedPages := m_usedPages pm1 + 1\<rparr>
        else pm1)"

definition free_page :: "size_t \<Rightarrow> pagemap \<Rightarrow> pagemap option" where
  "free_page ppn pm =
     (if m_totalPages pm \<le> ppn then Some pm
      else case atomic_add8 (m_pagemap pm ! unat ppn) (- 1) of (before, new) \<Rightarrow>
        let pm1 = pm\<lparr>m_pagemap := (m_pagemap pm)[unat ppn := new]\<rparr> in
        if before = 0 then do {
          kassert False;
          Some (pm1\<lparr>m_pagemap := (m_pagemap pm1)[unat ppn := 0]\<rparr>)
        }
        else if before = 1
        then Some (pm1\<lparr>m_usedPages := m_usedPages pm1 - 1, m_freePageCount := m_freePageCount pm1 + 1\<rparr>)
        else Some pm1)"

definition getTotalMemory :: "pagemap \<Rightarrow> uint64_t" where
  "getTotalMemory pm = push_bit PAGE_SHIFT (m_totalPages pm)"

definition getUsableMemory :: "pagemap \<Rightarrow> uint64_t" where
  "getUsableMemory pm = push_bit PAGE_SHIFT (m_usablePages pm)"

definition getFreePageCount :: "pagemap \<Rightarrow> size_t" where
  "getFreePageCount pm = m_usablePages pm - m_usedPages pm"

definition getFreeMemory :: "pagemap \<Rightarrow> uint64_t" where
  "getFreeMemory pm = push_bit PAGE_SHIFT (getFreePageCount pm)"

definition getUsedMemory :: "pagemap \<Rightarrow> uint64_t" where
  "getUsedMemory pm = push_bit PAGE_SHIFT (m_usedPages pm)"

section \<open>Building the page map at boot\<close>

record mmap_entry =
  mm_base :: uint64_t
  mm_length :: uint64_t
  mm_type :: uint32_t

definition MEM_USABLE :: uint32_t where "MEM_USABLE = 1"
definition MEM_LOADER_RECLAIMABLE :: uint32_t where "MEM_LOADER_RECLAIMABLE = 0x1000"

definition getSystemPageCount :: "mmap_entry list \<Rightarrow> size_t option" where
  "getSystemPageCount mmap =
     (case find (\<lambda>e. mm_type e = MEM_USABLE \<or> mm_type e = MEM_LOADER_RECLAIMABLE) (rev mmap) of
        Some e \<Rightarrow> Some (drop_bit PAGE_SHIFT (mm_base e + mm_length e))
      | None \<Rightarrow> do { kassert False; Some 0 })"

definition getFirstNFreePages :: "size_t \<Rightarrow> mmap_entry list \<Rightarrow> size_t" where
  "getFirstNFreePages n mmap =
     (case find (\<lambda>e. mm_type e = MEM_USABLE \<and> push_bit PAGE_SHIFT n \<le> mm_length e) mmap of
        Some e \<Rightarrow> drop_bit PAGE_SHIFT (mm_base e)
      | None \<Rightarrow> - 1)"

text \<open>The loops of \<^verbatim>\<open>create_page_bitmap\<close> that clear and set counts; a store outside the array is
  memory corruption and fails. Page numbers stay below \<open>2\<^sup>5\<^sup>3\<close>, so their sums are exact.\<close>

fun mark_free :: "nat \<Rightarrow> nat \<Rightarrow> uint8_t list \<times> size_t \<Rightarrow> (uint8_t list \<times> size_t) option" where
  "mark_free s 0 (m, free_pages) = Some (m, free_pages)"
| "mark_free s (Suc k) (m, free_pages) =
     (if s < length m then mark_free (Suc s) k (m[s := 0], free_pages + 1) else None)"

fun mark_used :: "nat \<Rightarrow> nat \<Rightarrow> uint8_t list \<times> size_t \<Rightarrow> (uint8_t list \<times> size_t) option" where
  "mark_used s 0 (m, free_pages) = Some (m, free_pages)"
| "mark_used s (Suc k) (m, free_pages) =
     (if s < length m then mark_used (Suc s) k (m[s := 0xff], free_pages - 1) else None)"

fun mark_usable :: "mmap_entry list \<Rightarrow> uint8_t list \<times> size_t \<Rightarrow> (uint8_t list \<times> size_t) option" where
  "mark_usable [] mc = Some mc"
| "mark_usable (e # es) mc =
     (if mm_type e = MEM_USABLE
      then do {
        mc1 \<leftarrow> mark_free (unat (drop_bit PAGE_SHIFT (mm_base e))) (unat (drop_bit PAGE_SHIFT (mm_length e))) mc;
        mark_usable es mc1
      }
      else mark_usable es mc)"

definition pagemap_pages :: "size_t \<Rightarrow> size_t" where
  "pagemap_pages total_pages =
     (let n = drop_bit PAGE_SHIFT total_pages in if total_pages mod PAGE_SIZE \<noteq> 0 then n + 1 else n)"

text \<open>With no region large enough the array would lie at a non-canonical address: the first
  store faults.\<close>

definition create_page_bitmap :: "mmap_entry list \<Rightarrow> pagemap option" where
  "create_page_bitmap mmap = do {
     total_pages \<leftarrow> getSystemPageCount mmap;
     let n = pagemap_pages total_pages;
     let start = getFirstNFreePages n mmap;
     kassert (start \<noteq> - 1);
     let m = replicate (unat total_pages) 0xff;
     (m1, usable_pages) \<leftarrow> mark_usable mmap (m, 0);
     (m2, free_pages) \<leftarrow> mark_used (unat start) (unat n) (m1, usable_pages);
     Some (new_pagemap total_pages free_pages usable_pages m2)
   }"

section \<open>Invariant\<close>

text \<open>The array has one count per frame, the free counter is the number of zero counts, and the
  used counter is what is left of the usable pages.\<close>

definition zeros :: "uint8_t list \<Rightarrow> nat" where
  "zeros m = length (filter (\<lambda>r. r = 0) m)"

definition pm_inv :: "pagemap \<Rightarrow> bool" where
  "pm_inv pm \<longleftrightarrow> length (m_pagemap pm) = unat (m_totalPages pm) \<and>
     m_freePageCount pm = of_nat (zeros (m_pagemap pm)) \<and>
     m_usedPages pm = m_usablePages pm - m_freePageCount pm"

definition unlocked :: "pagemap \<Rightarrow> bool" where
  "unlocked pm \<longleftrightarrow> s_magic (p_lock pm) = MAGIC \<and> s_lock (p_lock pm) = 0"

text \<open>The reference count of a frame the map covers.\<close>

definition refs :: "pagemap \<Rightarrow> size_t \<Rightarrow> nat" where
  "refs pm ppn = unat (m_pagemap pm ! unat ppn)"

lemma zeros_update:
  "i < length m \<Longrightarrow> zeros (m[i := v]) + (if m ! i = 0 then 1 else 0) = zeros m + (if v = 0 then 1 else 0)"
proof -
  assume i: "i < length m"
  have "zeros m = zeros (take i m) + zeros (m ! i # drop (Suc i) m)"
    using i unfolding zeros_def
    by (metis filter_append id_take_nth_drop length_append)
  moreover have "zeros (m[i := v]) = zeros (take i m) + zeros (v # drop (Suc i) m)"
    using i by (simp add: zeros_def upd_conv_take_nth_drop)
  ultimately show ?thesis by (simp add: zeros_def)
qed

lemma alloc_scan_Some:
  "alloc_scan m i n = Some k \<Longrightarrow> i \<le> k \<and> k < n \<and> m ! k = 0 \<and> (\<forall>j. i \<le> j \<and> j < k \<longrightarrow> m ! j \<noteq> 0)"
proof (induction m i n rule: alloc_scan.induct)
  case (1 m i n)
  show ?case
  proof (cases "i < n \<and> m ! i \<noteq> 0")
    case True
    with "1.prems" have "alloc_scan m (Suc i) n = Some k" by (simp add: alloc_scan.simps [of m i n])
    with True "1.IH" have "Suc i \<le> k \<and> k < n \<and> m ! k = 0 \<and> (\<forall>j. Suc i \<le> j \<and> j < k \<longrightarrow> m ! j \<noteq> 0)" by simp
    with True show ?thesis by (metis Suc_leD Suc_leI le_neq_implies_less)
  next
    case False
    with "1.prems" show ?thesis by (auto simp: alloc_scan.simps [of m i n] split: if_splits)
  qed
qed

lemma alloc_scan_None:
  "alloc_scan m i n = None \<Longrightarrow> i \<le> j \<Longrightarrow> j < n \<Longrightarrow> m ! j \<noteq> 0"
proof (induction m i n rule: alloc_scan.induct)
  case (1 m i n)
  then have "i < n" "m ! i \<noteq> 0" "alloc_scan m (Suc i) n = None"
    by (auto simp: alloc_scan.simps [of m i n] split: if_splits)
  with "1.IH" "1.prems" show ?case by (cases "i = j") auto
qed

section \<open>Correctness of the operations\<close>

text \<open>Storing a count keeps the invariant when the counters move with it.\<close>

definition set_refs :: "nat \<Rightarrow> uint8_t \<Rightarrow> pagemap \<Rightarrow> pagemap" where
  "set_refs i v pm = pm\<lparr>m_pagemap := (m_pagemap pm)[i := v],
     m_freePageCount := m_freePageCount pm - (if m_pagemap pm ! i = 0 then 1 else 0) + (if v = 0 then 1 else 0),
     m_usedPages := m_usedPages pm + (if m_pagemap pm ! i = 0 then 1 else 0) - (if v = 0 then 1 else 0)\<rparr>"

lemma pm_inv_set_refs:
  assumes "pm_inv pm" and "i < length (m_pagemap pm)"
  shows "pm_inv (set_refs i v pm)"
proof -
  from zeros_update [OF assms(2), of v]
  have "(of_nat (zeros ((m_pagemap pm)[i := v]) + (if m_pagemap pm ! i = 0 then 1 else 0)) :: size_t) =
      of_nat (zeros (m_pagemap pm) + (if v = 0 then 1 else 0))" by simp
  then have "(of_nat (zeros ((m_pagemap pm)[i := v])) :: size_t) =
      of_nat (zeros (m_pagemap pm)) - (if m_pagemap pm ! i = 0 then 1 else 0) + (if v = 0 then 1 else 0)"
    by (auto simp: algebra_simps split: if_splits)
  with assms(1) show ?thesis by (simp add: pm_inv_def set_refs_def)
qed

lemma set_refs_fields [simp]:
  "m_pagemap (set_refs i v pm) = (m_pagemap pm)[i := v]"
  "m_totalPages (set_refs i v pm) = m_totalPages pm"
  "p_lock (set_refs i v pm) = p_lock pm"
  "m_usablePages (set_refs i v pm) = m_usablePages pm"
  by (simp_all add: set_refs_def)

lemma unat_lt_total: "\<not> m_totalPages pm \<le> ppn \<longleftrightarrow> unat ppn < unat (m_totalPages pm)"
  by (simp add: word_less_nat_alt not_le)

lemma pm_lock_eq:
  "pm_lock pm = (if unlocked pm then Some (pm\<lparr>p_lock := (p_lock pm)\<lparr>s_lock := 1\<rparr>\<rparr>) else None)"
  by (simp add: pm_lock_def spin_lock_eq unlocked_def)

lemma alloc_unlocked:
  assumes "unlocked pm \<or> noLock"
  shows "alloc noLock pm =
    map_option (\<lambda>i. (of_nat i, set_refs i 1 pm)) (alloc_scan (m_pagemap pm) 0 (unat (m_totalPages pm)))"
proof (cases noLock)
  case True
  then show ?thesis
    by (auto simp: alloc_def set_refs_def dest: alloc_scan_Some split: option.splits)
next
  case False
  with assms have "unlocked pm" by simp
  moreover from this have "p_lock pm = \<lparr>s_magic = MAGIC, s_lock = 0\<rparr>" by (simp add: unlocked_def)
  ultimately show ?thesis using False
    by (cases pm) (auto simp: alloc_def pm_lock_eq pm_unlock_def spin_unlock_eq set_refs_def
        dest!: alloc_scan_Some split: option.splits)
qed

lemma alloc_scan_ex: "j < n \<Longrightarrow> m ! j = 0 \<Longrightarrow> \<exists>k. alloc_scan m 0 n = Some k"
  using alloc_scan_None [of m 0 n j] by (cases "alloc_scan m 0 n") auto

lemma alloc_correct:
  assumes "pm_inv pm" and "unlocked pm \<or> noLock" and "alloc noLock pm = Some (ppn, pm')"
  shows "unat ppn < unat (m_totalPages pm) \<and> refs pm ppn = 0 \<and> (\<forall>q < ppn. refs pm q \<noteq> 0) \<and>
     pm' = set_refs (unat ppn) 1 pm \<and> pm_inv pm' \<and> (unlocked pm \<longrightarrow> unlocked pm')"
proof -
  from assms(2,3) obtain i where i: "alloc_scan (m_pagemap pm) 0 (unat (m_totalPages pm)) = Some i"
    and r: "ppn = of_nat i" "pm' = set_refs i 1 pm"
    by (auto simp: alloc_unlocked)
  from alloc_scan_Some [OF i] have s: "i < unat (m_totalPages pm)" "m_pagemap pm ! i = 0"
    "\<forall>j < i. m_pagemap pm ! j \<noteq> 0" by auto
  then have u: "unat ppn = i"
    using r(1) unat_less_pow [of "m_totalPages pm"] by (simp add: unat_of_nat_small)
  have "pm_inv pm'"
    using pm_inv_set_refs [of pm i 1] assms(1) s r by (simp add: pm_inv_def)
  with s r u show ?thesis
    by (auto simp: refs_def unlocked_def word_less_nat_alt unsigned_eq_0_iff)
qed

lemma alloc_returns:
  assumes "pm_inv pm" and "unlocked pm \<or> noLock" and "unat q < unat (m_totalPages pm)" and "refs pm q = 0"
  shows "\<exists>ppn pm'. alloc noLock pm = Some (ppn, pm')"
  using assms alloc_scan_ex [of "unat q" "unat (m_totalPages pm)" "m_pagemap pm"]
  by (auto simp: alloc_unlocked refs_def unsigned_eq_0_iff)

lemma alloc_out_of_memory:
  assumes "\<forall>i < unat (m_totalPages pm). m_pagemap pm ! i \<noteq> 0"
  shows "alloc noLock pm = None"
proof -
  have "alloc_scan (m_pagemap pm) 0 (unat (m_totalPages pm)) = None"
    using assms alloc_scan_Some [of "m_pagemap pm" 0 "unat (m_totalPages pm)"]
    by (cases "alloc_scan (m_pagemap pm) 0 (unat (m_totalPages pm))") auto
  then show ?thesis
    by (auto simp: alloc_def pm_lock_eq Option.bind_eq_None_conv split: option.splits)
qed

lemma addRef_correct:
  assumes "pm_inv pm" and "unat ppn < unat (m_totalPages pm)" and "refs pm ppn < 255"
  shows "pm_inv (addRef ppn pm) \<and> refs (addRef ppn pm) ppn = Suc (refs pm ppn) \<and>
     (\<forall>q. q \<noteq> ppn \<longrightarrow> refs (addRef ppn pm) q = refs pm q)"
proof -
  let ?o = "m_pagemap pm ! unat ppn"
  have len: "unat ppn < length (m_pagemap pm)" using assms by (simp add: pm_inv_def)
  have nz: "?o + 1 \<noteq> 0" and un: "unat (?o + 1) = Suc (unat ?o)"
    using assms(3) unat_add_lem [of ?o 1] by (auto simp: refs_def unat_eq_zero [symmetric])
  have "addRef ppn pm = set_refs (unat ppn) (?o + 1) pm"
    using nz assms(2) by (simp add: addRef_def atomic_add8_def word_le_nat_alt Let_def set_refs_def)
  with pm_inv_set_refs [OF assms(1) len] len un show ?thesis
    by (auto simp: refs_def nth_list_update word_unat_eq_iff)
qed

lemma free_page_correct:
  assumes "pm_inv pm" and "unat ppn < unat (m_totalPages pm)" and "0 < refs pm ppn"
  shows "\<exists>pm'. free_page ppn pm = Some pm' \<and> pm_inv pm' \<and> refs pm' ppn = refs pm ppn - 1 \<and>
     (\<forall>q. q \<noteq> ppn \<longrightarrow> refs pm' q = refs pm q)"
proof -
  let ?o = "m_pagemap pm ! unat ppn"
  have len: "unat ppn < length (m_pagemap pm)" using assms by (simp add: pm_inv_def)
  have o: "?o \<noteq> 0" using assms(3) by (auto simp: refs_def)
  then have un: "unat (?o - 1) = unat ?o - 1" by (simp add: unat_minus_one)
  have "free_page ppn pm = Some (set_refs (unat ppn) (?o - 1) pm)"
    using assms(2) o
    by (simp add: free_page_def atomic_add8_def word_le_nat_alt Let_def set_refs_def)
  with pm_inv_set_refs [OF assms(1) len] len un show ?thesis
    by (auto simp: refs_def nth_list_update word_unat_eq_iff)
qed

lemma free_page_double:
  assumes "unat ppn < unat (m_totalPages pm)" and "refs pm ppn = 0"
  shows "free_page ppn pm = None"
  using assms by (simp add: free_page_def atomic_add8_def refs_def unsigned_eq_0_iff word_le_nat_alt Let_def)

lemma outside_ignored:
  assumes "\<not> unat ppn < unat (m_totalPages pm)"
  shows "addRef ppn pm = pm" and "free_page ppn pm = Some pm" and "getRefs pm ppn = 1"
  using assms by (simp_all add: addRef_def free_page_def getRefs_def word_le_nat_alt)

section \<open>The interface of a frame allocator\<close>

locale frame_alloc =
  fixes invar :: "'m \<Rightarrow> bool"
    and frames :: "'m \<Rightarrow> size_t set"
    and cnt :: "'m \<Rightarrow> size_t \<Rightarrow> nat"
    and get :: "'m \<Rightarrow> (size_t \<times> 'm) option"
    and incr :: "size_t \<Rightarrow> 'm \<Rightarrow> 'm"
    and decr :: "size_t \<Rightarrow> 'm \<Rightarrow> 'm option"
  assumes get_law: "invar m \<Longrightarrow> get m = Some (p, m') \<Longrightarrow>
        p \<in> frames m \<and> cnt m p = 0 \<and> invar m' \<and> frames m' = frames m \<and> cnt m' p = 1 \<and>
        (\<forall>q. q \<noteq> p \<longrightarrow> cnt m' q = cnt m q)"
    and get_total: "invar m \<Longrightarrow> q \<in> frames m \<Longrightarrow> cnt m q = 0 \<Longrightarrow> \<exists>r. get m = Some r"
    and incr_law: "invar m \<Longrightarrow> p \<in> frames m \<Longrightarrow> cnt m p < 255 \<Longrightarrow>
        invar (incr p m) \<and> frames (incr p m) = frames m \<and> cnt (incr p m) p = Suc (cnt m p) \<and>
        (\<forall>q. q \<noteq> p \<longrightarrow> cnt (incr p m) q = cnt m q)"
    and decr_law: "invar m \<Longrightarrow> p \<in> frames m \<Longrightarrow> 0 < cnt m p \<Longrightarrow>
        \<exists>m'. decr p m = Some m' \<and> invar m' \<and> frames m' = frames m \<and> cnt m' p = cnt m p - 1 \<and>
        (\<forall>q. q \<noteq> p \<longrightarrow> cnt m' q = cnt m q)"
begin

text \<open>A frame handed out is not handed out again while it is referenced.\<close>

lemma get_get_distinct:
  "invar m \<Longrightarrow> get m = Some (p, m1) \<Longrightarrow> get m1 = Some (q, m2) \<Longrightarrow> p \<noteq> q \<and> cnt m2 p = 1"
  by (metis get_law zero_neq_one)

text \<open>References balance: after sharing and releasing once, the frame is free exactly when the
  last reference goes.\<close>

lemma get_incr_decr:
  assumes "invar m" and "get m = Some (p, m1)"
  shows "\<exists>m2 m3. decr p (incr p m1) = Some m2 \<and> cnt m2 p = 1 \<and> decr p m2 = Some m3 \<and> invar m3 \<and>
     (\<forall>q. cnt m3 q = cnt m q)"
proof -
  from get_law [OF assms] have g: "p \<in> frames m1" "cnt m p = 0" "invar m1" "cnt m1 p = 1"
    "\<forall>q. q \<noteq> p \<longrightarrow> cnt m1 q = cnt m q" by auto
  from incr_law [of m1 p] g have i: "invar (incr p m1)" "p \<in> frames (incr p m1)" "cnt (incr p m1) p = 2"
    "\<forall>q. q \<noteq> p \<longrightarrow> cnt (incr p m1) q = cnt m1 q" by auto
  from decr_law [OF i(1,2)] i obtain m2 where d: "decr p (incr p m1) = Some m2" "invar m2"
    "p \<in> frames m2" "cnt m2 p = 1" "\<forall>q. q \<noteq> p \<longrightarrow> cnt m2 q = cnt (incr p m1) q" by auto
  from decr_law [OF d(2,3)] d(4) obtain m3 where "decr p m2 = Some m3" "invar m3" "cnt m3 p = 0"
    "\<forall>q. q \<noteq> p \<longrightarrow> cnt m3 q = cnt m2 q" by auto
  with d i g show ?thesis by (metis (no_types))
qed

end

abbreviation frame_set :: "pagemap \<Rightarrow> size_t set" where
  "frame_set pm \<equiv> {p. unat p < unat (m_totalPages pm)}"

lemma addRef_total [simp]: "m_totalPages (addRef p pm) = m_totalPages pm"
  by (simp add: addRef_def Let_def split: prod.split)

lemma addRef_lock [simp]: "p_lock (addRef p pm) = p_lock pm"
  by (simp add: addRef_def Let_def split: prod.split)

lemma free_page_total: "free_page p pm = Some pm' \<Longrightarrow> m_totalPages pm' = m_totalPages pm \<and> p_lock pm' = p_lock pm"
  by (auto simp: free_page_def Let_def split: prod.splits if_splits)

lemma alloc_frame:
  assumes "pm_inv pm" and "unlocked pm \<or> noLock" and "alloc noLock pm = Some (p, pm')"
  shows "p \<in> frame_set pm \<and> refs pm p = 0 \<and> pm_inv pm' \<and> (unlocked pm \<longrightarrow> unlocked pm') \<and>
    frame_set pm' = frame_set pm \<and> refs pm' p = 1 \<and> (\<forall>q. q \<noteq> p \<longrightarrow> refs pm' q = refs pm q)"
  using alloc_correct [OF assms] assms(1) by (auto simp: refs_def pm_inv_def word_unat_eq_iff)

interpretation pmf: frame_alloc "\<lambda>pm. pm_inv pm \<and> unlocked pm" frame_set refs "alloc False" addRef free_page
proof (unfold_locales, goal_cases)
  case (1 m p m')
  then show ?case using alloc_frame [of m False p m'] by simp
next
  case (2 m q)
  then show ?case using alloc_returns [of m False q] by auto
next
  case (3 m p)
  then show ?case using addRef_correct [of m p] by (simp add: unlocked_def)
next
  case (4 m p)
  then show ?case
    using free_page_correct [of m p] free_page_total [of p m] by (fastforce simp: unlocked_def)
qed

text \<open>The same under the lock, as \<^verbatim>\<open>triggerCow\<close> uses it.\<close>

interpretation pml: frame_alloc pm_inv frame_set refs "alloc True" addRef free_page
proof (unfold_locales, goal_cases)
  case (1 m p m')
  then show ?case using alloc_frame [of m True p m'] by simp
next
  case (2 m q)
  then show ?case using alloc_returns [of m True q] by auto
next
  case (3 m p)
  then show ?case using addRef_correct [of m p] by simp
next
  case (4 m p)
  then show ?case using free_page_correct [of m p] free_page_total [of p m] by fastforce
qed

section \<open>Correctness of the boot-time construction\<close>

lemma mark_free_ok:
  "s + k \<le> length m \<Longrightarrow> \<forall>i. s \<le> i \<and> i < s + k \<longrightarrow> m ! i \<noteq> 0 \<Longrightarrow> c = of_nat (zeros m) \<Longrightarrow>
   \<exists>m' c'. mark_free s k (m, c) = Some (m', c') \<and> length m' = length m \<and> c' = of_nat (zeros m') \<and>
     (\<forall>i < length m. m' ! i = (if s \<le> i \<and> i < s + k then 0 else m ! i))"
proof (induction k arbitrary: s m c)
  case 0
  then show ?case by auto
next
  case (Suc k)
  from Suc.prems have s: "s < length m" "m ! s \<noteq> 0" by auto
  from zeros_update [OF s(1), of 0] s(2) have "zeros (m[s := 0]) = Suc (zeros m)" by simp
  with Suc.prems have "\<exists>m' c'. mark_free (Suc s) k (m[s := 0], c + 1) = Some (m', c') \<and>
      length m' = length (m[s := 0]) \<and> c' = of_nat (zeros m') \<and>
      (\<forall>i < length (m[s := 0]). m' ! i = (if Suc s \<le> i \<and> i < Suc s + k then 0 else m[s := 0] ! i))"
    by (intro Suc.IH) auto
  with s show ?case by (fastforce simp: nth_list_update)
qed

lemma mark_used_ok:
  "s + k \<le> length m \<Longrightarrow> \<forall>i. s \<le> i \<and> i < s + k \<longrightarrow> m ! i = 0 \<Longrightarrow> c = of_nat (zeros m) \<Longrightarrow>
   \<exists>m' c'. mark_used s k (m, c) = Some (m', c') \<and> length m' = length m \<and> c' = of_nat (zeros m') \<and>
     (\<forall>i < length m. m' ! i = (if s \<le> i \<and> i < s + k then 0xff else m ! i))"
proof (induction k arbitrary: s m c)
  case 0
  then show ?case by auto
next
  case (Suc k)
  from Suc.prems have s: "s < length m" "m ! s = 0" by auto
  from zeros_update [OF s(1), of "0xff"] s(2) have "zeros m = Suc (zeros (m[s := 0xff]))" by simp
  with Suc.prems have "\<exists>m' c'. mark_used (Suc s) k (m[s := 0xff], c - 1) = Some (m', c') \<and>
      length m' = length (m[s := 0xff]) \<and> c' = of_nat (zeros m') \<and>
      (\<forall>i < length (m[s := 0xff]). m' ! i = (if Suc s \<le> i \<and> i < Suc s + k then 0xff else m[s := 0xff] ! i))"
    by (intro Suc.IH) auto
  with s show ?case by (fastforce simp: nth_list_update)
qed

definition mm_pages :: "mmap_entry \<Rightarrow> nat set" where
  "mm_pages e = (if mm_type e = MEM_USABLE
     then {unat (drop_bit PAGE_SHIFT (mm_base e)) ..<
           unat (drop_bit PAGE_SHIFT (mm_base e)) + unat (drop_bit PAGE_SHIFT (mm_length e))}
     else {})"

definition regions_ok :: "mmap_entry list \<Rightarrow> nat \<Rightarrow> bool" where
  "regions_ok mmap n \<longleftrightarrow>
     sorted_wrt (\<lambda>e f. mm_pages e \<inter> mm_pages f = {}) mmap \<and>
     (\<forall>e \<in> set mmap. mm_type e = MEM_USABLE \<longrightarrow>
        unat (drop_bit PAGE_SHIFT (mm_base e)) + unat (drop_bit PAGE_SHIFT (mm_length e)) \<le> n)"

lemma mark_usable_ok:
  "regions_ok es (length m) \<Longrightarrow> \<forall>i < length m. (\<exists>e \<in> set es. i \<in> mm_pages e) \<longrightarrow> m ! i \<noteq> 0 \<Longrightarrow>
   c = of_nat (zeros m) \<Longrightarrow>
   \<exists>m' c'. mark_usable es (m, c) = Some (m', c') \<and> length m' = length m \<and> c' = of_nat (zeros m') \<and>
     (\<forall>i < length m. m' ! i = (if \<exists>e \<in> set es. i \<in> mm_pages e then 0 else m ! i))"
proof (induction es arbitrary: m c)
  case Nil
  then show ?case by simp
next
  case (Cons e es)
  from Cons.prems(1) have rok: "regions_ok es n" if "n = length m" for n
    using that by (simp add: regions_ok_def)
  show ?case
  proof (cases "mm_type e = MEM_USABLE")
    case True
    let ?s = "unat (drop_bit PAGE_SHIFT (mm_base e))" and ?k = "unat (drop_bit PAGE_SHIFT (mm_length e))"
    have pe: "i \<in> mm_pages e \<longleftrightarrow> ?s \<le> i \<and> i < ?s + ?k" for i using True by (auto simp: mm_pages_def)
    have "?s + ?k \<le> length m" using Cons.prems(1) True by (simp add: regions_ok_def)
    moreover have "\<forall>i. ?s \<le> i \<and> i < ?s + ?k \<longrightarrow> m ! i \<noteq> 0"
    proof (intro allI impI)
      fix i assume "?s \<le> i \<and> i < ?s + ?k"
      then have "i \<in> mm_pages e" "i < length m" using pe \<open>?s + ?k \<le> length m\<close> by auto
      with Cons.prems(2) show "m ! i \<noteq> 0" by simp
    qed
    ultimately obtain m1 c1 where m1: "mark_free ?s ?k (m, c) = Some (m1, c1)" "length m1 = length m"
      "c1 = of_nat (zeros m1)" "\<forall>i < length m. m1 ! i = (if ?s \<le> i \<and> i < ?s + ?k then 0 else m ! i)"
      using mark_free_ok [OF _ _ Cons.prems(3)] by blast
    have "\<forall>i < length m1. (\<exists>f \<in> set es. i \<in> mm_pages f) \<longrightarrow> m1 ! i \<noteq> 0"
    proof (intro allI impI)
      fix i assume i: "i < length m1" and "\<exists>f \<in> set es. i \<in> mm_pages f"
      then have "i \<notin> mm_pages e" and "m ! i \<noteq> 0"
        using Cons.prems(1,2) m1(2) by (auto simp: regions_ok_def)
      with m1(2,4) i pe show "m1 ! i \<noteq> 0" by simp
    qed
    with Cons.IH [of m1 c1] rok m1 obtain m' c' where "mark_usable es (m1, c1) = Some (m', c')"
      "length m' = length m1" "c' = of_nat (zeros m')"
      and n: "\<forall>i < length m1. m' ! i = (if \<exists>e \<in> set es. i \<in> mm_pages e then 0 else m1 ! i)" by auto
    moreover have "\<forall>i < length m. m' ! i = (if \<exists>f \<in> set (e # es). i \<in> mm_pages f then 0 else m ! i)"
    proof (intro allI impI)
      fix i assume "i < length m"
      with n m1(2,4) show "m' ! i = (if \<exists>f \<in> set (e # es). i \<in> mm_pages f then 0 else m ! i)"
        by (simp add: pe)
    qed
    ultimately show ?thesis using m1(1,2) True by simp
  next
    case False
    with Cons.prems rok Cons.IH [of m c] show ?thesis by (auto simp: mm_pages_def)
  qed
qed

lemma unat_drop_page: "unat (drop_bit PAGE_SHIFT (w :: size_t)) = unat w div 4096"
  using unat_div_distrib [of w "4096 :: size_t"] drop_bit_eq_div [of 12 w] by (simp add: PAGE_SHIFT_def)

lemma unat_push_page: "unat (n :: size_t) * 4096 < 2 ^ 64 \<Longrightarrow> unat (push_bit PAGE_SHIFT n) = unat n * 4096"
  using unat_word_ariths(2) [of n "4096 :: size_t"] push_bit_eq_mult [of 12 n] by (simp add: PAGE_SHIFT_def)

lemma pagemap_pages_bound:
  assumes "getSystemPageCount mmap = Some tp"
  shows "unat (pagemap_pages tp) * 4096 < 2 ^ 64"
proof -
  from assms obtain w :: size_t where "tp = drop_bit PAGE_SHIFT w"
    by (auto simp: getSystemPageCount_def split: option.splits)
  then have "unat tp = unat w div 4096" by (simp add: unat_drop_page)
  moreover have "unat w < 2 ^ 64" using unat_less_pow [of w] by simp
  ultimately have t: "unat tp < 2 ^ 52" by simp
  have d: "unat (drop_bit PAGE_SHIFT tp) = unat tp div 4096" by (rule unat_drop_page)
  have "unat (pagemap_pages tp) \<le> unat tp div 4096 + 1"
    using d unat_word_ariths(1) [of "drop_bit PAGE_SHIFT tp" 1]
    by (auto simp: pagemap_pages_def Let_def)
  with t show ?thesis by simp
qed

lemma getFirstNFreePages_region:
  assumes "getFirstNFreePages n mmap \<noteq> - 1" and "unat n * 4096 < 2 ^ 64"
  shows "\<exists>e \<in> set mmap. \<forall>i. unat (getFirstNFreePages n mmap) \<le> i \<and>
     i < unat (getFirstNFreePages n mmap) + unat n \<longrightarrow> i \<in> mm_pages e"
proof -
  from assms(1) obtain e where f: "find (\<lambda>e. mm_type e = MEM_USABLE \<and> push_bit PAGE_SHIFT n \<le> mm_length e) mmap = Some e"
    and s: "getFirstNFreePages n mmap = drop_bit PAGE_SHIFT (mm_base e)"
    by (auto simp: getFirstNFreePages_def split: option.splits)
  from f have e: "e \<in> set mmap" "mm_type e = MEM_USABLE" "push_bit PAGE_SHIFT n \<le> mm_length e"
    by (auto simp: find_Some_iff)
  from assms(2) have "unat (push_bit PAGE_SHIFT n) = unat n * 4096"
    by (rule unat_push_page)
  with e(3) have "unat n * 4096 \<le> unat (mm_length e)" by (simp add: word_le_nat_alt)
  then have "unat n \<le> unat (drop_bit PAGE_SHIFT (mm_length e))"
    by (simp add: unat_drop_page)
  with e s show ?thesis by (intro bexI [of _ e]) (auto simp: mm_pages_def)
qed

lemma mm_pages_below: "regions_ok mmap n \<Longrightarrow> e \<in> set mmap \<Longrightarrow> i \<in> mm_pages e \<Longrightarrow> i < n"
  by (auto simp: regions_ok_def mm_pages_def split: if_splits)

section \<open>Properties\<close>

text \<open>Building the page map (\<^verbatim>\<open>create_page_bitmap\<close>): when the usable regions of the memory map do not
  overlap and lie below the last usable byte, and one of them can hold the counters, the
  construction succeeds; a frame starts free exactly when it belongs to a usable region and
  not to the counter array itself, every other frame is pinned at 255, and the free and used
  counters agree with the array.\<close>

theorem create_page_bitmap_correct:
  assumes "getSystemPageCount mmap = Some tp" and "regions_ok mmap (unat tp)"
    and "getFirstNFreePages (pagemap_pages tp) mmap = start" and "start \<noteq> - 1"
  shows "\<exists>pm. create_page_bitmap mmap = Some pm \<and> pm_inv pm \<and> unlocked pm \<and> m_totalPages pm = tp \<and>
     (\<forall>i < unat tp. m_pagemap pm ! i =
        (if (\<exists>e \<in> set mmap. i \<in> mm_pages e) \<and>
            \<not> (unat start \<le> i \<and> i < unat start + unat (pagemap_pages tp)) then 0 else 0xff))"
proof -
  let ?n = "unat (pagemap_pages tp)" and ?m = "replicate (unat tp) (0xff :: uint8_t)"
  from mark_usable_ok [of mmap ?m 0] assms(2) obtain m1 c1 where
    u: "mark_usable mmap (?m, 0) = Some (m1, c1)" "length m1 = unat tp" "c1 = of_nat (zeros m1)"
      "\<forall>i < unat tp. m1 ! i = (if \<exists>e \<in> set mmap. i \<in> mm_pages e then 0 else 0xff)"
    by (auto simp: zeros_def)
  from getFirstNFreePages_region [of "pagemap_pages tp" mmap] assms(3,4) pagemap_pages_bound [OF assms(1)]
  obtain e where e: "e \<in> set mmap"
    and r: "\<forall>i. unat start \<le> i \<and> i < unat start + ?n \<longrightarrow> i \<in> mm_pages e" by auto
  have inr: "i < unat tp" if "unat start \<le> i \<and> i < unat start + ?n" for i
    using that r e mm_pages_below [OF assms(2)] by blast
  obtain m2 c2 where d: "mark_used (unat start) ?n (m1, c1) = Some (m2, c2)" "length m2 = length m1"
    "c2 = of_nat (zeros m2)"
    "\<forall>i < length m1. m2 ! i = (if unat start \<le> i \<and> i < unat start + ?n then 0xff else m1 ! i)"
  proof (cases "?n = 0")
    case True
    with u(3) show ?thesis by (intro that [of m1 c1]) auto
  next
    case False
    with inr [of "unat start + ?n - 1"] u(2) have "unat start + ?n \<le> length m1" by linarith
    moreover have "\<forall>i. unat start \<le> i \<and> i < unat start + ?n \<longrightarrow> m1 ! i = 0"
      using inr r e u(4) by auto
    ultimately show ?thesis using mark_used_ok [OF _ _ u(3)] that by blast
  qed
  let ?pm = "new_pagemap tp c2 c1 m2"
  have "create_page_bitmap mmap = Some ?pm"
    using assms u(1) d(1) by (simp add: create_page_bitmap_def Let_def)
  moreover have "pm_inv ?pm" "unlocked ?pm" "m_totalPages ?pm = tp" "m_pagemap ?pm = m2"
    using u d by (simp_all add: pm_inv_def new_pagemap_def unlocked_def new_spinlock_def)
  moreover have "m2 ! i = (if (\<exists>e \<in> set mmap. i \<in> mm_pages e) \<and>
      \<not> (unat start \<le> i \<and> i < unat start + ?n) then 0 else 0xff)" if "i < unat tp" for i
    using that u(2,4) d(4) by simp
  ultimately show ?thesis by auto
qed

definition example_mmap :: "mmap_entry list" where
  "example_mmap =
     [\<lparr>mm_base = 0, mm_length = 0x1000, mm_type = 2\<rparr>,
      \<lparr>mm_base = 0x1000, mm_length = 0x3000, mm_type = MEM_USABLE\<rparr>,
      \<lparr>mm_base = 0x4000, mm_length = 0x1000, mm_type = 10\<rparr>,
      \<lparr>mm_base = 0x5000, mm_length = 0x1000, mm_type = MEM_LOADER_RECLAIMABLE\<rparr>]"

theorem create_page_bitmap_correct_witness:
  "\<exists>pm. create_page_bitmap example_mmap = Some pm \<and> pm_inv pm \<and> unlocked pm \<and>
     m_totalPages pm = 6 \<and> m_pagemap pm ! 2 = 0"
proof -
  have c: "getSystemPageCount example_mmap = Some 6"
    by (simp add: getSystemPageCount_def example_mmap_def MEM_USABLE_def MEM_LOADER_RECLAIMABLE_def PAGE_SHIFT_def)
  have n: "pagemap_pages 6 = 1"
    by (simp add: pagemap_pages_def PAGE_SHIFT_def PAGE_SIZE_def)
  have s: "getFirstNFreePages (pagemap_pages 6) example_mmap = 1"
    unfolding n by (simp add: getFirstNFreePages_def example_mmap_def MEM_USABLE_def PAGE_SHIFT_def)
  have r: "regions_ok example_mmap (unat (6 :: size_t))"
    by (simp add: regions_ok_def example_mmap_def mm_pages_def MEM_USABLE_def MEM_LOADER_RECLAIMABLE_def PAGE_SHIFT_def)
  have e: "\<exists>e \<in> set example_mmap. 2 \<in> mm_pages e"
    by (simp add: example_mmap_def mm_pages_def MEM_USABLE_def MEM_LOADER_RECLAIMABLE_def PAGE_SHIFT_def)
  from create_page_bitmap_correct [OF c r s] e n show ?thesis by auto
qed

text \<open>C8. Frame references balance (\<^verbatim>\<open>PageMap::alloc\<close>, \<^verbatim>\<open>addRef\<close>, \<^verbatim>\<open>free\<close>): allocation returns a frame that
  had no reference; shared once and released once it still has its owner's reference, and
  releasing that one too gives every frame its original count back, with the counters
  consistent and the lock free.\<close>

theorem alloc_share_release:
  assumes "pm_inv pm" and "unlocked pm" and "alloc False pm = Some (p, pm1)"
  shows "refs pm p = 0 \<and> (\<exists>pm2 pm3. free_page p (addRef p pm1) = Some pm2 \<and> refs pm2 p = 1 \<and>
     free_page p pm2 = Some pm3 \<and> pm_inv pm3 \<and> unlocked pm3 \<and> (\<forall>q. refs pm3 q = refs pm q))"
  using pmf.get_law [of pm p pm1] pmf.get_incr_decr [of pm p pm1] assms by blast

definition example_pm :: pagemap where
  "example_pm = new_pagemap 4 2 3 [0xff, 1, 0, 0]"

lemma example_pm_inv: "pm_inv example_pm" "unlocked example_pm"
  by (simp_all add: example_pm_def new_pagemap_def pm_inv_def zeros_def unlocked_def new_spinlock_def)

theorem alloc_share_release_witness:
  "\<exists>pm1 pm2 pm3. alloc False example_pm = Some (2, pm1) \<and> free_page 2 (addRef 2 pm1) = Some pm2 \<and>
     refs pm2 2 = 1 \<and> free_page 2 pm2 = Some pm3 \<and> (\<forall>q. refs pm3 q = refs example_pm q)"
proof -
  have "alloc_scan [0xff, 1, 0, 0] 0 4 = Some 2"
    by (simp add: alloc_scan.simps)
  then have "\<exists>pm1. alloc False example_pm = Some (2, pm1)"
    using example_pm_inv by (simp add: alloc_unlocked) (simp add: example_pm_def new_pagemap_def)
  then obtain pm1 where "alloc False example_pm = Some (2, pm1)" ..
  with alloc_share_release [OF example_pm_inv] show ?thesis by blast
qed

text \<open>C40. The byte-sized count wraps (\<^verbatim>\<open>PageMap::addRef\<close>): the 256th reference to a frame sets its count
  to zero without touching the counters, and the next \<^verbatim>\<open>alloc\<close> hands the frame out (it is the first
  with a zero count) although 255 references to it are live.\<close>

theorem addRef_overflow_frees:
  assumes "pm_inv pm" and "unlocked pm" and "unat p < unat (m_totalPages pm)" and "refs pm p = 255"
    and "\<forall>q < p. refs pm q \<noteq> 0"
  shows "refs (addRef p pm) p = 0 \<and> m_freePageCount (addRef p pm) = m_freePageCount pm \<and>
     (\<exists>pm'. alloc False (addRef p pm) = Some (p, pm'))"
proof -
  let ?m = "(m_pagemap pm)[unat p := 0]" and ?n = "unat (m_totalPages pm)"
  from assms(4) have v: "m_pagemap pm ! unat p = 0xff"
    by (simp add: refs_def word_unat_eq_iff)
  from assms(1,3) have l: "unat p < length (m_pagemap pm)" by (simp add: pm_inv_def)
  have wrap: "(256 :: uint8_t) = 0" by (simp add: word_unat_eq_iff)
  have a: "addRef p pm = pm\<lparr>m_pagemap := ?m\<rparr>"
    using assms(3) v by (simp add: wrap addRef_def atomic_add8_def word_le_nat_alt)
  have "alloc_scan ?m 0 ?n = Some (unat p)"
  proof (cases "alloc_scan ?m 0 ?n")
    case None
    from alloc_scan_None [OF this, of "unat p"] assms(3) l show ?thesis by simp
  next
    case (Some k)
    from alloc_scan_Some [OF this] have k: "k < ?n" "?m ! k = 0" "\<forall>j < k. ?m ! j \<noteq> 0" by auto
    have "\<not> k < unat p"
    proof
      assume "k < unat p"
      with unat_less_pow [of p] have u: "unat (of_nat k :: size_t) = k" by (intro unat_of_nat_small) simp
      with \<open>k < unat p\<close> assms(5) have "m_pagemap pm ! k \<noteq> 0"
        by (metis refs_def unat_0 word_less_nat_alt)
      with k(2) \<open>k < unat p\<close> show False by simp
    qed
    with k(3) l have "k = unat p" by (metis linorder_neqE_nat nth_list_update_eq)
    with Some show ?thesis by simp
  qed
  with a l assms(2) show ?thesis
    by (simp add: refs_def alloc_unlocked unlocked_def)
qed

theorem addRef_overflow_frees_witness:
  "\<exists>pm'. alloc False (addRef 1 (new_pagemap 3 1 2 [1, 0xff, 0])) = Some (1, pm')"
proof -
  let ?pm = "new_pagemap 3 1 2 [1, 0xff, 0]"
  have "pm_inv ?pm" "unlocked ?pm" "unat (1 :: size_t) < unat (m_totalPages ?pm)" "refs ?pm 1 = 255"
    by (simp_all add: new_pagemap_def pm_inv_def zeros_def unlocked_def new_spinlock_def refs_def)
  moreover have "\<forall>q < 1. refs ?pm q \<noteq> 0"
    by (simp add: refs_def new_pagemap_def word_less_nat_alt)
  ultimately show ?thesis using addRef_overflow_frees [of ?pm 1] by blast
qed

end
