(* ===== verification/UserProc.thy ===== *)
theory UserProc
  imports FileSys Vector PageMap
begin

text \<open>
  User processes: \<^verbatim>\<open>kernel/user_proc.cpp\<close> (stack slots, open files, task list), the descriptor system
  calls of \<^verbatim>\<open>kernel/fs/io_syscalls.cpp\<close> and \<^verbatim>\<open>sys_pipe\<close> of \<^verbatim>\<open>kernel/pipe.cpp\<close>. The locks of a process are
  held for the whole of each operation, so an operation is one step.
\<close>

section \<open>Data\<close>

datatype proc_state = PRunning | PKilled | ToBeDeleted

record user_proc =
  p_state :: proc_state
  p_pid :: size_t
  p_addrSpace :: addr
  p_loader :: addr
  p_term :: addr
  p_taskList :: "klist \<times> addr nodes"
  p_stackList :: "bool vector"
  p_files :: "(size_t, file_desc) kmap"

section \<open>User stacks\<close>

definition USER_BREAK :: size_t where "USER_BREAK = 0x0000800000000000"

definition getStackSize :: size_t where "getStackSize = 8 * 1024 * 1024"

definition getStackBase :: "size_t \<Rightarrow> size_t" where
  "getStackBase m_top = m_top - getStackSize"

definition stack_top :: "size_t \<Rightarrow> size_t" where
  "stack_top i = USER_BREAK - getStackSize * i"

text \<open>\<^verbatim>\<open>isValidStackAddr\<close>, \<^verbatim>\<open>allocStack\<close> and \<^verbatim>\<open>releaseStack\<close> on the vector of allocated slots; \<open>k\<close> counts the
  remaining turns of the search loop.\<close>

definition isValidStackAddr :: "size_t \<Rightarrow> bool vector \<Rightarrow> bool option" where
  "isValidStackAddr a m_stackList = do {
     let i = (USER_BREAK - a) div getStackSize;
     if v_size m_stackList \<le> i then Some False else vec_get m_stackList i
   }"

fun allocStack_loop :: "nat \<Rightarrow> size_t \<Rightarrow> bool vector \<Rightarrow> (size_t \<times> bool vector) option" where
  "allocStack_loop 0 i v = do { v1 \<leftarrow> vec_push_back False True v; Some (stack_top i, v1) }"
| "allocStack_loop (Suc k) i v = do {
     b \<leftarrow> vec_get v i;
     if b then allocStack_loop k (i + 1) v
     else do { v1 \<leftarrow> vec_set v i True; Some (stack_top i, v1) }
   }"

definition allocStack :: "bool vector \<Rightarrow> (size_t \<times> bool vector) option" where
  "allocStack v = allocStack_loop (unat (v_size v)) 0 v"

definition releaseStack :: "size_t \<Rightarrow> bool vector \<Rightarrow> bool vector option" where
  "releaseStack m_top v = do {
     let i = (USER_BREAK - m_top) div getStackSize;
     kassert (v_size v > i);
     b \<leftarrow> vec_get v i;
     kassert b;
     if v_size v = i + 1 then do { (_, v1) \<leftarrow> vec_pop_back v; Some v1 }
     else vec_set v i False
   }"

section \<open>Open files\<close>

partial_function (option) free_fd :: "(size_t, file_desc) kmap \<Rightarrow> size_t \<Rightarrow> size_t option" where
  "free_fd m fdNum = do {
     p \<leftarrow> map_find fdNum m;
     if p \<noteq> 0 then free_fd m (fdNum + 1) else Some fdNum
   }"

text \<open>\<open>new\<close> is the memory for a new map entry; \<open>fdNum\<close> is \<open>None\<close> for the default argument \<^verbatim>\<open>-1\<close>.\<close>

definition insertOpenFile ::
  "addr \<Rightarrow> file_desc \<Rightarrow> size_t option \<Rightarrow> (size_t, file_desc) kmap \<times> files \<Rightarrow> (size_t \<times> (size_t, file_desc) kmap \<times> files) option" where
  "insertOpenFile new fd fdNum st = (case st of (m, h) \<Rightarrow> do {
     n \<leftarrow> (case fdNum of Some n \<Rightarrow> Some n | None \<Rightarrow> free_fd m 0);
     (p, m1) \<leftarrow> map_subscript new fd_null n m;
     e \<leftarrow> deref (snd m1) p;
     (fd1, h1) \<leftarrow> fd_assign (m_value e) fd h;
     es \<leftarrow> modify (snd m1) p (m_value_update (\<lambda>_. fd1));
     Some (n, (fst m1, es), h1)
   })"

definition getOpenFile :: "size_t \<Rightarrow> (size_t, file_desc) kmap \<times> files \<Rightarrow> (file_desc \<times> files) option" where
  "getOpenFile fd st = (case st of (m, h) \<Rightarrow> do {
     it \<leftarrow> map_find fd m;
     if it \<noteq> 0 then do { e \<leftarrow> deref (snd m) it; fd_copy (m_value e) h }
     else Some (fd_null, h)
   })"

text \<open>\<^verbatim>\<open>closeFile\<close>: deleting the map entry destroys the descriptor in it.\<close>

definition closeFile :: "size_t \<Rightarrow> (size_t, file_desc) kmap \<times> files \<Rightarrow> (bool \<times> (size_t, file_desc) kmap \<times> files) option" where
  "closeFile fd st = (case st of (m, h) \<Rightarrow> do {
     it \<leftarrow> map_find fd m;
     v \<leftarrow> (if it \<noteq> 0 then do { e \<leftarrow> deref (snd m) it; Some (m_value e) } else Some fd_null);
     (found, m1) \<leftarrow> map_erase fd m;
     h1 \<leftarrow> (if found then fd_destroy v h else Some h);
     Some (found, m1, h1)
   })"

section \<open>System calls on descriptors\<close>

text \<open>A descriptor number is an \<^verbatim>\<open>int\<close>; as a map key it is sign-extended to 64 bits.\<close>

definition fd_key :: "int \<Rightarrow> size_t" where
  "fd_key fd = word_of_int fd"

definition sys_open :: "addr \<Rightarrow> string \<Rightarrow> (size_t, file_desc) kmap \<times> vfs \<Rightarrow> (int \<times> (size_t, file_desc) kmap \<times> vfs) option" where
  "sys_open new pathname st = (case st of (m, v) \<Rightarrow> do {
     (r, v1) \<leftarrow> vfs_open pathname v;
     case r of
       Inl error \<Rightarrow> Some (- error, m, v1)
     | Inr fd \<Rightarrow> do {
         (n, m1, h1) \<leftarrow> insertOpenFile new fd None (m, v_files v1);
         h2 \<leftarrow> fd_destroy fd h1;
         Some (uint n, m1, v1\<lparr>v_files := h2\<rparr>)
       }
   })"

definition sys_read :: "(nat \<Rightarrow> size_t \<Rightarrow> int \<times> uint8_t list) \<Rightarrow> int \<Rightarrow> size_t \<Rightarrow>
    (size_t, file_desc) kmap \<times> files \<Rightarrow> (int \<times> uint8_t list \<times> files) option" where
  "sys_read dread fd len st = do {
     (fdObj, h1) \<leftarrow> getOpenFile (fd_key fd) st;
     if \<not> m_valid fdObj then do { h2 \<leftarrow> fd_destroy fdObj h1; Some (- EBADF, [], h2) }
     else do {
       (r, cs, h2) \<leftarrow> fd_read dread fdObj len h1;
       h3 \<leftarrow> fd_destroy fdObj h2;
       Some (r, cs, h3)
     }
   }"

definition sys_write :: "(nat \<Rightarrow> uint8_t list \<Rightarrow> int) \<Rightarrow> int \<Rightarrow> uint8_t list \<Rightarrow>
    (size_t, file_desc) kmap \<times> files \<Rightarrow> sched \<Rightarrow> (int \<times> files \<times> sched) option" where
  "sys_write dwrite fd buf st s = do {
     (fdObj, h1) \<leftarrow> getOpenFile (fd_key fd) st;
     if \<not> m_valid fdObj then do { h2 \<leftarrow> fd_destroy fdObj h1; Some (- EBADF, h2, s) }
     else do {
       (r, h2, s1) \<leftarrow> fd_write dwrite fdObj buf (h1, s);
       h3 \<leftarrow> fd_destroy fdObj h2;
       Some (r, h3, s1)
     }
   }"

definition sys_close :: "int \<Rightarrow> (size_t, file_desc) kmap \<times> files \<Rightarrow> (int \<times> (size_t, file_desc) kmap \<times> files) option" where
  "sys_close fd st = do {
     (found, st1) \<leftarrow> closeFile (fd_key fd) st;
     Some (if \<not> found then - EBADF else 0, st1)
   }"

definition sys_dup2 :: "addr \<Rightarrow> int \<Rightarrow> int \<Rightarrow> (size_t, file_desc) kmap \<times> files \<Rightarrow> (int \<times> (size_t, file_desc) kmap \<times> files) option" where
  "sys_dup2 new oldfd newfd st =
     (if oldfd < 0 \<or> newfd < 0 then Some (- EINVAL, st)
      else do {
        (fd, h1) \<leftarrow> getOpenFile (fd_key oldfd) st;
        if \<not> m_valid fd then do { h2 \<leftarrow> fd_destroy fd h1; Some (- EBADF, fst st, h2) }
        else do {
          (_, m2, h2) \<leftarrow> insertOpenFile new fd (Some (fd_key newfd)) (fst st, h1);
          h3 \<leftarrow> fd_destroy fd h2;
          Some (0, m2, h3)
        }
      })"

text \<open>\<^verbatim>\<open>sys_pipe\<close>: \<open>pipe\<close> is the memory of the new object, \<open>g\<close> its uninitialised buffer; the two temporaries
  are destroyed after their insertion.\<close>

definition sys_pipe :: "addr \<Rightarrow> uint8_t list \<Rightarrow> addr \<Rightarrow> addr \<Rightarrow> (size_t, file_desc) kmap \<times> files \<Rightarrow>
    ((size_t \<times> size_t) \<times> (size_t, file_desc) kmap \<times> files) option" where
  "sys_pipe pipe g new1 new2 st = (case st of (m, h) \<Rightarrow> do {
     let h0 = h(pipe \<mapsto> \<lparr>m_refs = 0, f_kind = PipeFile (new_queue g Map.empty)\<rparr>);
     (fd1, h1) \<leftarrow> fd_new pipe True h0;
     (n1, m2, h2) \<leftarrow> insertOpenFile new1 fd1 None (m, h1);
     h3 \<leftarrow> fd_destroy fd1 h2;
     (fd2, h4) \<leftarrow> fd_new pipe True h3;
     (n2, m5, h5) \<leftarrow> insertOpenFile new2 fd2 None (m2, h4);
     h6 \<leftarrow> fd_destroy fd2 h5;
     Some ((n1, n2), m5, h6)
   })"

section \<open>Stack slots\<close>

definition slot :: "bool vector \<Rightarrow> nat \<Rightarrow> bool" where
  "slot v i \<longleftrightarrow> i < length (elems v) \<and> elems v ! i"

text \<open>The lowest slot that is not allocated.\<close>

definition first_free :: "bool list \<Rightarrow> nat" where
  "first_free bs = length (takeWhile id bs)"

lemma first_free_le: "first_free bs \<le> length bs"
  by (simp add: first_free_def length_takeWhile_le)

lemma first_free_below:
  assumes "j < first_free bs"
  shows "bs ! j"
proof -
  have j: "j < length (takeWhile id bs)" using assms by (simp add: first_free_def)
  then have "takeWhile id bs ! j \<in> set (takeWhile id bs)" by (rule nth_mem)
  then have "id (takeWhile id bs ! j)" using set_takeWhileD [of _ id bs] by blast
  with takeWhile_nth [OF j] show ?thesis by simp
qed

lemma first_free_free: "first_free bs < length bs \<Longrightarrow> \<not> bs ! first_free bs"
  using nth_length_takeWhile [of id bs] by (simp add: first_free_def)

lemma allocStack_loop_ok:
  assumes "vec_inv v" and "length (elems v) < 2 ^ 24" and "k + unat i = length (elems v)" and "unat i \<le> first_free (elems v)"
  shows "\<exists>v'. allocStack_loop k i v = Some (stack_top (of_nat (first_free (elems v))), v') \<and> vec_inv v' \<and>
     elems v' = (if first_free (elems v) < length (elems v) then (elems v)[first_free (elems v) := True] else elems v @ [True])"
  using assms(3,4)
proof (induction k arbitrary: i)
  case 0
  then have e: "first_free (elems v) = length (elems v)" "unat i = length (elems v)" using first_free_le [of "elems v"] by auto
  have "of_nat (unat i) = i" by simp
  then have "of_nat (first_free (elems v)) = i" by (simp only: e)
  moreover have "unat (v_size v) < 2 ^ 62" using elems_length [OF assms(1)] assms(2) by simp
  then obtain v' where "vec_push_back False True v = Some v'" "vec_inv v'" "elems v' = elems v @ [True]"
    using vec_push_back_elems [OF assms(1), of False True] by blast
  ultimately show ?case using e(1) by simp
next
  case (Suc k)
  have i: "unat i < length (elems v)" using Suc.prems(1) by simp
  then have g: "vec_get v i = Some (elems v ! unat i)" using vec_get_elems [OF assms(1), of i] by simp
  show ?case
  proof (cases "elems v ! unat i")
    case True
    have "unat (i + 1) = unat i + 1" using i assms(2) by (simp add: unat_word_ariths)
    moreover have "unat i \<noteq> first_free (elems v)" using True first_free_free [of "elems v"] i by auto
    ultimately show ?thesis using Suc.IH [of "i + 1"] Suc.prems g True by simp
  next
    case False
    with first_free_below [of "unat i" "elems v"] Suc.prems(2) have "unat i = first_free (elems v)" by (meson le_neq_implies_less)
    moreover have "of_nat (unat i) = i" by simp
    ultimately have "unat i = first_free (elems v)" "of_nat (first_free (elems v)) = i" by (simp_all only:)
    then show ?thesis using vec_set_elems [OF assms(1) i, of True] g False i by auto
  qed
qed

lemma allocStack_ok:
  assumes "vec_inv v" and "length (elems v) < 2 ^ 24"
  shows "\<exists>v'. allocStack v = Some (stack_top (of_nat (first_free (elems v))), v') \<and> vec_inv v' \<and>
     elems v' = (if first_free (elems v) < length (elems v) then (elems v)[first_free (elems v) := True] else elems v @ [True])"
  using allocStack_loop_ok [OF assms, of "unat (v_size v)" 0] elems_length [OF assms(1)] by (simp add: allocStack_def)

lemma slot_of_addr:
  assumes "unat i < 2 ^ 24" and "unat r < 8388608"
  shows "(USER_BREAK - (stack_top i - r)) div getStackSize = i"
proof -
  have e: "USER_BREAK - (stack_top i - r) = getStackSize * i + r" by (simp add: stack_top_def)
  have "unat (getStackSize * i + r) = 8388608 * unat i + unat r"
  proof -
    have m: "unat (getStackSize * i) = 8388608 * unat i"
      using assms(1) by (simp add: getStackSize_def unat_word_ariths)
    with assms show ?thesis by (simp add: unat_word_ariths)
  qed
  moreover have "unat getStackSize = 8388608" by (simp add: getStackSize_def)
  ultimately have "unat ((USER_BREAK - (stack_top i - r)) div getStackSize) = unat i"
    unfolding e unat_div_distrib using assms(2) by simp
  then show ?thesis by (simp add: word_unat_eq_iff)
qed

lemma releaseStack_ok:
  assumes "vec_inv v" and "slot v i" and "length (elems v) \<le> 2 ^ 24"
  shows "\<exists>v'. releaseStack (stack_top (of_nat i)) v = Some v' \<and> vec_inv v' \<and>
     elems v' = (if Suc i = length (elems v) then butlast (elems v) else (elems v)[i := False])"
proof -
  have i: "i < length (elems v)" "elems v ! i" using assms(2) by (auto simp: slot_def)
  have u: "unat (of_nat i :: size_t) = i" using i(1) assms(3) by (intro unat_of_nat_small) simp
  have s: "(USER_BREAK - stack_top (of_nat i)) div getStackSize = of_nat i"
    using slot_of_addr [of "of_nat i" 0] u i(1) assms(3) by simp
  have sz: "unat (v_size v) = length (elems v)" using elems_length [OF assms(1)] by simp
  have g: "vec_get v (of_nat i) = Some True" using vec_get_elems [OF assms(1), of "of_nat i"] u i by simp
  have lt: "of_nat i < v_size v" using u i sz by (simp add: word_less_nat_alt)
  have last: "v_size v = of_nat i + 1 \<longleftrightarrow> Suc i = length (elems v)"
  proof -
    have "unat (of_nat i + 1 :: size_t) = Suc i" using u i(1) assms(3) by (simp add: unat_word_ariths)
    then show ?thesis using sz by (auto simp: word_unat_eq_iff)
  qed
  show ?thesis
  proof (cases "Suc i = length (elems v)")
    case True
    then have "elems v \<noteq> []" by auto
    from vec_pop_back_elems [OF assms(1) this] True last s lt g show ?thesis by (auto simp: releaseStack_def Let_def)
  next
    case False
    with vec_set_elems [OF assms(1), of "of_nat i" False] u i last s lt g show ?thesis by (auto simp: releaseStack_def Let_def)
  qed
qed

section \<open>Descriptor numbers\<close>

lemma map_find_get:
  assumes "map_inv m"
  shows "\<exists>p. map_find k m = Some p \<and> (p = 0 \<longleftrightarrow> map_get m k = None)"
proof -
  from assms obtain t where t: "map_rep m t" by (auto simp: map_inv_def)
  from map_find_correct [OF t, of k] obtain p where p: "map_find k m = Some p"
    "if lookup_tree (snd m) t k = None then p = 0 else p \<noteq> 0" by (auto split: if_splits)
  with map_get_rep [OF t, of k] show ?thesis by (auto split: if_splits)
qed

lemma free_fd_reaches:
  assumes "map_inv m" and "map_get m (n + of_nat d) = None" and "\<forall>j < d. map_get m (n + of_nat j) \<noteq> None"
  shows "free_fd m n = Some (n + of_nat d)"
  using assms(2,3)
proof (induction d arbitrary: n)
  case 0
  with map_find_get [OF assms(1), of n] show ?case by (subst free_fd.simps) auto
next
  case (Suc d)
  from Suc.prems(2) [rule_format, of 0] have "map_get m n \<noteq> None" by simp
  with map_find_get [OF assms(1), of n] obtain p where "map_find n m = Some p" "p \<noteq> 0" by auto
  moreover have "free_fd m (n + 1) = Some (n + 1 + of_nat d)"
  proof (rule Suc.IH)
    show "map_get m (n + 1 + of_nat d) = None" using Suc.prems(1) by (simp add: add.assoc)
    show "\<forall>j < d. map_get m (n + 1 + of_nat j) \<noteq> None"
    proof (intro allI impI)
      fix j assume "j < d"
      with Suc.prems(2) [rule_format, of "Suc j"] show "map_get m (n + 1 + of_nat j) \<noteq> None" by (simp add: add.assoc)
    qed
  qed
  ultimately show ?case by (subst free_fd.simps) (simp add: add.assoc)
qed

text \<open>A map has fewer than \<open>2\<^sup>6\<^sup>4\<close> entries, so some number is free.\<close>

lemma lookup_key: "lookup_tree h t k \<noteq> None \<Longrightarrow> k \<in> key_at h ` set_tree t"
  by (induction t) (auto split: if_splits)

lemma map_has_free_key:
  fixes m :: "(size_t, 'v) kmap"
  assumes "map_inv m"
  shows "\<exists>k. map_get m k = None"
proof (rule ccontr)
  assume full: "\<not> (\<exists>k. map_get m k = None)"
  from assms obtain t where t: "map_rep m t" by (auto simp: map_inv_def)
  have "k \<in> key_at (snd m) ` set_tree t" for k
  proof (rule lookup_key)
    show "lookup_tree (snd m) t k \<noteq> None" using full map_get_rep [OF t, of k] by metis
  qed
  then have "UNIV \<subseteq> key_at (snd m) ` set_tree t" by blast
  then have "card (UNIV :: size_t set) \<le> card (set_tree t)" by (meson card_image_le card_mono finite_imageI finite_set_tree le_trans)
  moreover have "card (set_tree t) = length (inorder t)" using t by (metis distinct_card map_rep_def set_inorder)
  moreover have "length (inorder t) < 2 ^ 64"
    using t tree_at_nonzero [of "snd m" "fst m" t] distinct_words_length [of "inorder t"] by (auto simp: map_rep_def)
  ultimately show False by (simp add: card_word)
qed

lemma free_fd_least:
  assumes "map_inv m"
  shows "\<exists>n. free_fd m 0 = Some n \<and> map_get m n = None \<and> (\<forall>j < n. map_get m j \<noteq> None)"
proof -
  from map_has_free_key [OF assms] obtain k where "map_get m k = None" ..
  then have ex: "map_get m (of_nat (unat k)) = None" by simp
  define d where "d = (LEAST d. map_get m (of_nat d) = None)"
  have d: "map_get m (of_nat d) = None" unfolding d_def by (rule LeastI [of _ "unat k"]) (rule ex)
  have b: "\<forall>j < d. map_get m (of_nat j) \<noteq> None" unfolding d_def using not_less_Least by blast
  have "d \<le> unat k" unfolding d_def by (rule Least_le) (rule ex)
  then have u: "unat (of_nat d :: size_t) = d" using unat_less_pow [of k] by (intro unat_of_nat_small) simp
  have "map_get m j \<noteq> None" if "j < of_nat d" for j
  proof -
    have "unat j < d" using that u by (simp add: word_less_nat_alt)
    with b have "map_get m (of_nat (unat j)) \<noteq> None" by blast
    then show ?thesis by simp
  qed
  with free_fd_reaches [OF assms, of 0 d] d b show ?thesis by (intro exI [of _ "of_nat d"]) auto
qed

lemma insertOpenFile_at:
  assumes "map_inv m" and "map_fresh new m" and "(case fdNum of Some n' \<Rightarrow> Some n' | None \<Rightarrow> free_fd m 0) = Some n"
    and "fd_assign (case map_get m n of Some w \<Rightarrow> w | None \<Rightarrow> fd_null) fd h = Some (fd, h')"
  shows "\<exists>m'. insertOpenFile new fd fdNum (m, h) = Some (n, m', h') \<and> map_inv m' \<and> map_get m' = (map_get m)(n \<mapsto> fd)"
proof -
  from map_subscript_value [OF assms(1,2), of fd_null n] obtain p m1 e where
    s: "map_subscript new fd_null n m = Some (p, m1)" "p \<noteq> 0" "snd m1 p = Some e"
      "m_value e = (case map_get m n of Some w \<Rightarrow> w | None \<Rightarrow> fd_null)" by blast
  from km.assign_law [OF assms(1,2), of fd_null n fd] obtain m' where
    m': "map_assign new fd_null n fd m = Some m'" "map_inv m'" "map_get m' = (map_get m)(n \<mapsto> fd)" by blast
  from s m'(1) have "m' = (fst m1, (snd m1)(p \<mapsto> e\<lparr>m_value := fd\<rparr>))" by (simp add: map_assign_def)
  with s assms(3,4) have "insertOpenFile new fd fdNum (m, h) = Some (n, m', h')" by (simp add: insertOpenFile_def)
  with m'(2,3) show ?thesis by blast
qed

section \<open>Properties\<close>

text \<open>User stacks (\<^verbatim>\<open>UserProcess::allocStack\<close>, \<^verbatim>\<open>releaseStack\<close>): allocation hands out the lowest slot that is not
  allocated, its stack lies directly below those of the lower slots, and releasing it makes
  exactly the slots allocated that were allocated before.\<close>

theorem allocStack_releaseStack:
  assumes "vec_inv v" and "length (elems v) < 2 ^ 24"
  shows "\<exists>i v1 v2. allocStack v = Some (stack_top (of_nat i), v1) \<and> \<not> slot v i \<and> (\<forall>j < i. slot v j) \<and> slot v1 i \<and>
     (\<forall>j. j \<noteq> i \<longrightarrow> slot v1 j = slot v j) \<and>
     releaseStack (stack_top (of_nat i)) v1 = Some v2 \<and> vec_inv v2 \<and> (\<forall>j. slot v2 j = slot v j)"
proof -
  let ?i = "first_free (elems v)"
  from allocStack_ok [OF assms] obtain v1 where v1: "allocStack v = Some (stack_top (of_nat ?i), v1)" "vec_inv v1"
    "elems v1 = (if ?i < length (elems v) then (elems v)[?i := True] else elems v @ [True])" by blast
  have i: "\<not> slot v ?i" "\<forall>j < ?i. slot v j"
    using first_free_free [of "elems v"] first_free_below [of _ "elems v"] first_free_le [of "elems v"]
    by (auto simp: slot_def intro: less_le_trans)
  have s1: "slot v1 ?i" using v1(3) first_free_le [of "elems v"] by (auto simp: slot_def nth_append)
  have sj: "\<forall>j. j \<noteq> ?i \<longrightarrow> slot v1 j = slot v j"
    using v1(3) first_free_le [of "elems v"] by (auto simp: slot_def nth_append)
  have "length (elems v1) \<le> 2 ^ 24" using v1(3) assms(2) by simp
  from releaseStack_ok [OF v1(2) s1 this] obtain v2 where
    v2: "releaseStack (stack_top (of_nat ?i)) v1 = Some v2" "vec_inv v2"
      "elems v2 = (if Suc ?i = length (elems v1) then butlast (elems v1) else (elems v1)[?i := False])" by blast
  have "slot v2 j = slot v j" for j
  proof (cases "j = ?i")
    case True
    with v2(3) i(1) show ?thesis by (auto simp: slot_def)
  next
    case False
    with sj have "slot v1 j = slot v j" by blast
    with False v2(3) show ?thesis by (auto simp: slot_def nth_butlast)
  qed
  with v1(1) i s1 sj v2(1,2) show ?thesis by blast
qed

theorem allocStack_releaseStack_witness:
  "\<exists>i v1 v2. allocStack (new_vector False) = Some (stack_top (of_nat i), v1) \<and>
     releaseStack (stack_top (of_nat i)) v1 = Some v2 \<and> \<not> slot v2 i"
proof -
  have "length (elems (new_vector False)) < 2 ^ 24" by (simp add: new_vector_ok)
  from allocStack_releaseStack [OF new_vector_ok(1) this] show ?thesis by blast
qed

text \<open>Stack addresses (\<^verbatim>\<open>UserProcess::isValidStackAddr\<close>): the test attributes to slot \<open>i\<close> the addresses above
  the base of its stack up to and including its top; the base address itself, which belongs to
  the stack, is attributed to the next slot.\<close>

theorem isValidStackAddr_slots:
  assumes "vec_inv v" and "unat i < 2 ^ 23" and "unat r < 8388608"
  shows "isValidStackAddr (stack_top i - r) v = Some (slot v (unat i)) \<and>
     isValidStackAddr (getStackBase (stack_top i)) v = Some (slot v (unat i + 1))"
proof -
  have "isValidStackAddr a v = Some (slot v (unat j))" if "(USER_BREAK - a) div getStackSize = j" for a j
    using that vec_get_elems [OF assms(1), of j] elems_length [OF assms(1)]
    by (auto simp: isValidStackAddr_def Let_def slot_def word_le_nat_alt)
  moreover have "(USER_BREAK - (stack_top i - r)) div getStackSize = i"
    using slot_of_addr [of i r] assms(2,3) by simp
  moreover have u: "unat (i + 1) = unat i + 1" using assms(2) by (simp add: unat_word_ariths)
  have "(USER_BREAK - (stack_top (i + 1) - 0)) div getStackSize = i + 1"
    using assms(2) u by (intro slot_of_addr) simp_all
  moreover have "getStackBase (stack_top i) = stack_top (i + 1) - 0"
    by (simp add: getStackBase_def stack_top_def algebra_simps)
  ultimately show ?thesis using u by metis
qed

theorem isValidStackAddr_slots_witness:
  "isValidStackAddr (getStackBase (stack_top 0)) (new_vector False) = Some (slot (new_vector False) 1)"
  using isValidStackAddr_slots [OF new_vector_ok(1), of 0 0 False] by simp

text \<open>C35. Descriptor numbers (\<^verbatim>\<open>UserProcess::insertOpenFile\<close> with the default argument): the search for a number
  ends and finds the lowest one that is not in use.\<close>

theorem insertOpenFile_lowest:
  assumes "map_inv m" and "map_fresh new m" and "counted h fds" and "fd \<in> set fds" and "Suc (length fds) < 2 ^ 63"
  shows "\<exists>n m' h'. insertOpenFile new fd None (m, h) = Some (n, m', h') \<and> map_get m n = None \<and>
     (\<forall>j < n. map_get m j \<noteq> None) \<and> map_inv m' \<and> map_get m' = (map_get m)(n \<mapsto> fd) \<and> counted h' (fd # fds)"
proof -
  from free_fd_least [OF assms(1)] obtain n where
    n: "free_fd m 0 = Some n" "map_get m n = None" "\<forall>j < n. map_get m j \<noteq> None" by blast
  have "counted h (fd_null # fds)" using assms(3,5) by (subst counted_null) (simp_all add: fd_null_def)
  from fd_assign_counted [OF this assms(4)] obtain h' where
    h': "fd_assign fd_null fd h = Some (fd, h')" "counted h' (fd # fds)" by blast
  with insertOpenFile_at [OF assms(1,2), of None n fd h h'] n show ?thesis by auto
qed

definition example_table :: "(size_t, file_desc) kmap" where
  "example_table = (16, [16 \<mapsto> \<lparr>m_key = 0, m_value = example_fd, m_parent = 0, m_left = 0, m_right = 0\<rparr>])"

lemma example_table_ok:
  "map_inv example_table" "map_fresh 32 example_table" "map_get example_table 0 = Some example_fd"
  "map_get example_table 1 = None"
proof -
  have r: "map_rep example_table (Node Leaf 16 Leaf)"
    by (simp add: map_rep_def example_table_def)
  then show "map_inv example_table" by (auto simp: map_inv_def)
  show "map_fresh 32 example_table" by (simp add: map_fresh_def example_table_def)
  show "map_get example_table 0 = Some example_fd" "map_get example_table 1 = None"
    using map_get_rep [OF r] by (simp_all add: example_table_def key_at_def)
qed

theorem insertOpenFile_lowest_witness:
  "\<exists>n m' h'. insertOpenFile 32 example_fd None (example_table, example_files) = Some (n, m', h') \<and>
     map_get example_table n = None \<and> map_get m' n = Some example_fd"
  using insertOpenFile_lowest [OF example_table_ok(1,2) example_files_counted, of example_fd] by auto

text \<open>C14. Duplicating a descriptor (\<^verbatim>\<open>sys_dup2\<close>): a negative number is refused with \<^verbatim>\<open>EINVAL\<close> and an unused old number
  with \<^verbatim>\<open>EBADF\<close>; otherwise the call returns 0, the new number refers to the old one's file, a file
  the new number held before is released, and all reference counts are exact.\<close>

theorem sys_dup2_correct:
  assumes "map_inv m" and "map_fresh new m" and "counted h fds" and "Suc (Suc (length fds)) < 2 ^ 63"
    and "\<forall>k w. map_get m k = Some w \<longrightarrow> w \<in> set fds"
    and "map_get m (fd_key oldfd) = Some fd" and "m_valid fd" and "0 \<le> oldfd" and "0 \<le> newfd"
  shows "\<exists>m' h'. sys_dup2 new oldfd newfd (m, h) = Some (0, m', h') \<and> map_inv m' \<and>
     map_get m' = (map_get m)(fd_key newfd \<mapsto> fd) \<and>
     counted h' (fd # (case map_get m (fd_key newfd) of Some w \<Rightarrow> remove1 w fds | None \<Rightarrow> fds))"
proof -
  let ?w = "case map_get m (fd_key newfd) of Some w \<Rightarrow> w | None \<Rightarrow> fd_null"
  let ?r = "case map_get m (fd_key newfd) of Some w \<Rightarrow> remove1 w fds | None \<Rightarrow> fds"
  have fd: "fd \<in> set fds" using assms(5,6) by blast
  from map_find_get [OF assms(1), of "fd_key oldfd"] assms(6) obtain p where
    p: "map_find (fd_key oldfd) m = Some p" "p \<noteq> 0" by auto
  with assms(6) obtain e where e: "snd m p = Some e" "m_value e = fd" by (auto simp: map_get_def deref_def)
  from fd_copy_counted [OF assms(3) fd] assms(4) obtain h1 where
    h1: "fd_copy fd h = Some (fd, h1)" "counted h1 (fd # fds)" by auto
  have "counted h1 (?w # fd # ?r)"
  proof (cases "map_get m (fd_key newfd)")
    case None
    have "counted h1 (fd_null # fd # fds)" using h1(2) assms(4) by (subst counted_null) (simp_all add: fd_null_def)
    with None show ?thesis by simp
  next
    case (Some w)
    with assms(5) have "w \<in> set fds" by blast
    then have "mset (w # fd # remove1 w fds) = mset (fd # fds)" by simp
    from counted_perm [OF this] h1(2) Some show ?thesis by simp
  qed
  from fd_assign_counted [OF this] obtain h2 where
    h2: "fd_assign ?w fd h1 = Some (fd, h2)" "counted h2 (fd # fd # ?r)" by auto
  from insertOpenFile_at [OF assms(1,2) _ h2(1), of "Some (fd_key newfd)"] obtain m' where
    m': "insertOpenFile new fd (Some (fd_key newfd)) (m, h1) = Some (fd_key newfd, m', h2)" "map_inv m'"
      "map_get m' = (map_get m)(fd_key newfd \<mapsto> fd)" by auto
  from fd_destroy_counted [OF h2(2)] obtain h3 where h3: "fd_destroy fd h2 = Some h3" "counted h3 (fd # ?r)" by blast
  have "getOpenFile (fd_key oldfd) (m, h) = Some (fd, h1)" using p e h1(1) by (simp add: getOpenFile_def)
  with m' h3 assms(7-9) show ?thesis by (simp add: sys_dup2_def)
qed

theorem sys_dup2_correct_witness:
  "\<exists>m' h'. sys_dup2 32 0 1 (example_table, example_files) = Some (0, m', h') \<and> map_get m' 1 = Some example_fd"
proof -
  have "\<forall>k w. map_get example_table k = Some w \<longrightarrow> w \<in> set [example_fd]"
  proof (intro allI impI)
    fix k w assume a: "map_get example_table k = Some w"
    have r: "map_rep example_table (Node Leaf 16 Leaf)" by (simp add: map_rep_def example_table_def)
    from a map_get_rep [OF r, of k] show "w \<in> set [example_fd]"
      by (auto simp: example_table_def key_at_def split: if_splits)
  qed
  moreover have "fd_key 0 = 0" "fd_key 1 = 1" "m_valid example_fd" by (simp_all add: fd_key_def example_fd_def)
  ultimately show ?thesis
    using sys_dup2_correct [OF example_table_ok(1,2) example_files_counted, of 0 example_fd 1] example_table_ok(3,4) by auto
qed

end
