(* ===== verification/Heap.thy ===== *)
theory Heap
  imports PageMap
begin

text \<open>
  The kernel heap, \<^verbatim>\<open>kernel/mm/heap.cpp\<close>, in the DEBUG build: a first-fit allocator over a chain of
  blocks that lie one behind the other from \<^verbatim>\<open>KHEAP_START\<close> to the heap break. Headers are objects at
  their addresses, the payload is a byte function, and the kernel's address space appears as the set
  of its mapped pages: mapping a mapped page fails the assertion of \<^verbatim>\<open>AddrSpace::map\<close>, and a write
  outside the mapped pages faults.
\<close>

section \<open>Data\<close>

definition KHEAP_START :: addr where
  "KHEAP_START = 0xffffff0000000000"

record heap_block =
  b_available :: bool
  b_magic :: uint32_t
  b_prev :: addr
  b_next :: addr
  b_function :: addr
  b_line :: uint32_t
  b_size :: size_t

definition HEAP_MAGIC :: uint32_t where
  "HEAP_MAGIC = 0xabcdefab"

text \<open>The packed size of the header: 1 + 4 + 8 + 8 + 8 + 4 + 8 bytes.\<close>

definition HEADER_SIZE :: size_t where
  "HEADER_SIZE = 41"

record heap =
  kheap_break :: addr
  heap_start :: addr
  heap_last :: addr
  s_heapMutex :: spinlock
  h_blocks :: "heap_block store"
  h_bytes :: "addr \<Rightarrow> uint8_t"
  h_pages :: "size_t \<Rightarrow> bool"

definition initHeap :: "(size_t \<Rightarrow> bool) \<Rightarrow> (addr \<Rightarrow> uint8_t) \<Rightarrow> heap" where
  "initHeap pages bytes = \<lparr>kheap_break = KHEAP_START, heap_start = 0, heap_last = 0,
     s_heapMutex = new_spinlock, h_blocks = (\<lambda>_. None), h_bytes = bytes, h_pages = pages\<rparr>"

section \<open>The heap break\<close>

text \<open>The pages of the loop \<^verbatim>\<open>for (page = first; page <= last; page++)\<close>.\<close>

definition page_loop :: "size_t \<Rightarrow> size_t \<Rightarrow> size_t list" where
  "page_loop fst_page last_page = map of_nat [unat fst_page ..< Suc (unat last_page)]"

fun map_pages :: "size_t list \<Rightarrow> (size_t \<Rightarrow> bool) \<Rightarrow> (size_t \<Rightarrow> bool) option" where
  "map_pages [] pages = Some pages"
| "map_pages (p # ps) pages = do { kassert (\<not> pages p); map_pages ps (pages(p := True)) }"

fun unmap_pages :: "size_t list \<Rightarrow> (size_t \<Rightarrow> bool) \<Rightarrow> (size_t \<Rightarrow> bool)" where
  "unmap_pages [] pages = pages"
| "unmap_pages (p # ps) pages = unmap_pages ps (pages(p := False))"

definition kbrk_unmaps :: "addr \<Rightarrow> addr \<Rightarrow> size_t list" where
  "kbrk_unmaps orig_brk brk =
     page_loop (if brk mod PAGE_SIZE \<noteq> 0 then brk div PAGE_SIZE + 1 else brk div PAGE_SIZE) (orig_brk div PAGE_SIZE)"

definition kbrk_maps :: "addr \<Rightarrow> addr \<Rightarrow> size_t list" where
  "kbrk_maps orig_brk brk =
     page_loop (if orig_brk mod PAGE_SIZE \<noteq> 0 then drop_bit PAGE_SHIFT orig_brk + 1 else drop_bit PAGE_SHIFT orig_brk)
       (drop_bit PAGE_SHIFT (brk - 1))"

definition kbrk :: "size_t \<Rightarrow> heap \<Rightarrow> (addr \<times> heap) option" where
  "kbrk increment h = do {
     let orig_brk = kheap_break h;
     let h1 = h\<lparr>kheap_break := kheap_break h + increment\<rparr>;
     if kheap_break h1 < orig_brk
     then Some (orig_brk, h1\<lparr>h_pages := unmap_pages (kbrk_unmaps orig_brk (kheap_break h1)) (h_pages h1)\<rparr>)
     else do {
       pages \<leftarrow> map_pages (kbrk_maps orig_brk (kheap_break h1)) (h_pages h1);
       Some (orig_brk, h1\<lparr>h_pages := pages\<rparr>)
     }
   }"

section \<open>Headers and payload\<close>

text \<open>Memory may be written when the pages of the range are mapped.\<close>

definition writable :: "heap \<Rightarrow> addr \<Rightarrow> nat \<Rightarrow> bool" where
  "writable h p n \<longleftrightarrow> (\<forall>i < n. h_pages h (drop_bit PAGE_SHIFT (p + of_nat i)))"

definition write_header :: "addr \<Rightarrow> heap_block \<Rightarrow> heap \<Rightarrow> heap option" where
  "write_header p b h = do {
     kassert (p \<noteq> 0 \<and> writable h p (unat HEADER_SIZE));
     Some (h\<lparr>h_blocks := (h_blocks h)(p \<mapsto> b)\<rparr>)
   }"

definition update_header :: "addr \<Rightarrow> (heap_block \<Rightarrow> heap_block) \<Rightarrow> heap \<Rightarrow> heap option" where
  "update_header p f h = do { bs \<leftarrow> modify (h_blocks h) p f; Some (h\<lparr>h_blocks := bs\<rparr>) }"

definition clear_payload :: "addr \<Rightarrow> size_t \<Rightarrow> heap \<Rightarrow> heap option" where
  "clear_payload p n h = do {
     kassert (writable h p (unat n));
     Some (h\<lparr>h_bytes := (\<lambda>a. if a - p < n then 0 else h_bytes h a)\<rparr>)
   }"

section \<open>Allocation\<close>

definition crop :: "addr \<Rightarrow> size_t \<Rightarrow> heap \<Rightarrow> heap option" where
  "crop block new_size h = do {
     b \<leftarrow> deref (h_blocks h) block;
     let excess_size = b_size b - new_size;
     if excess_size \<le> HEADER_SIZE then Some h
     else do {
       let original_next = b_next b;
       let nblk = block + new_size;
       h1 \<leftarrow> update_header block (\<lambda>b. b\<lparr>b_size := new_size, b_next := nblk\<rparr>) h;
       h2 \<leftarrow> write_header nblk \<lparr>b_available = True, b_magic = HEAP_MAGIC, b_prev = block, b_next = original_next,
               b_function = 0, b_line = 0, b_size = excess_size\<rparr> h1;
       if original_next \<noteq> 0 then update_header original_next (\<lambda>b. b\<lparr>b_prev := nblk\<rparr>) h2
       else Some (h2\<lparr>heap_last := nblk\<rparr>)
     }
   }"

text \<open>The first-fit search; the result is null when no block fits. A block without its magic number
  is a panic.\<close>

partial_function (option) kmalloc_search :: "heap_block store \<Rightarrow> addr \<Rightarrow> size_t \<Rightarrow> addr option" where
  "kmalloc_search bs entry required =
     (if entry = 0 then Some 0
      else do {
        b \<leftarrow> deref bs entry;
        kassert (b_magic b = HEAP_MAGIC);
        if b_available b \<and> required \<le> b_size b then Some entry
        else kmalloc_search bs (b_next b) required
      })"

definition heap_lock :: "heap \<Rightarrow> heap option" where
  "heap_lock h = do { l \<leftarrow> spin_lock (s_heapMutex h); Some (h\<lparr>s_heapMutex := l\<rparr>) }"

definition heap_unlock :: "heap \<Rightarrow> heap option" where
  "heap_unlock h = do { l \<leftarrow> spin_unlock (s_heapMutex h); Some (h\<lparr>s_heapMutex := l\<rparr>) }"

text \<open>The branch that takes an existing block.\<close>

definition kmalloc_reuse :: "addr \<Rightarrow> size_t \<Rightarrow> uint32_t \<Rightarrow> addr \<Rightarrow> heap \<Rightarrow> (addr \<times> heap) option" where
  "kmalloc_reuse entry n line function h = do {
     h1 \<leftarrow> update_header entry (\<lambda>b. b\<lparr>b_available := False, b_function := function, b_line := line\<rparr>) h;
     h2 \<leftarrow> crop entry (HEADER_SIZE + n) h1;
     h3 \<leftarrow> heap_unlock h2;
     h4 \<leftarrow> clear_payload (entry + HEADER_SIZE) n h3;
     Some (entry + HEADER_SIZE, h4)
   }"

text \<open>The branch that grows the heap.\<close>

definition kmalloc_grow :: "size_t \<Rightarrow> uint32_t \<Rightarrow> addr \<Rightarrow> heap \<Rightarrow> (addr \<times> heap) option" where
  "kmalloc_grow n line function h = do {
     (blk, h1) \<leftarrow> kbrk (n + HEADER_SIZE) h;
     if blk = - 1 then do { h2 \<leftarrow> heap_unlock h1; Some (0, h2) }
     else do {
       h2 \<leftarrow> write_header blk \<lparr>b_available = False, b_magic = HEAP_MAGIC, b_prev = heap_last h1, b_next = 0,
               b_function = function, b_line = line, b_size = HEADER_SIZE + n\<rparr> h1;
       h3 \<leftarrow> (if heap_last h2 \<noteq> 0 then update_header (heap_last h2) (\<lambda>b. b\<lparr>b_next := blk\<rparr>) h2 else Some h2);
       let h4 = h3\<lparr>heap_last := blk\<rparr>;
       let h5 = (if heap_start h4 = 0 then h4\<lparr>heap_start := blk\<rparr> else h4);
       h6 \<leftarrow> heap_unlock h5;
       h7 \<leftarrow> clear_payload (blk + HEADER_SIZE) n h6;
       Some (blk + HEADER_SIZE, h7)
     }
   }"

definition kmalloc :: "size_t \<Rightarrow> uint32_t \<Rightarrow> addr \<Rightarrow> heap \<Rightarrow> (addr \<times> heap) option" where
  "kmalloc n line function h = do {
     h1 \<leftarrow> heap_lock h;
     entry \<leftarrow> kmalloc_search (h_blocks h1) (heap_start h1) (HEADER_SIZE + n);
     if entry \<noteq> 0 then kmalloc_reuse entry n line function h1 else kmalloc_grow n line function h1
   }"

section \<open>Release\<close>

definition mergeBlocks :: "addr \<Rightarrow> addr \<Rightarrow> heap \<Rightarrow> heap option" where
  "mergeBlocks fst_blk snd_blk h = do {
     f \<leftarrow> deref (h_blocks h) fst_blk;
     s \<leftarrow> deref (h_blocks h) snd_blk;
     kassert (b_magic f = HEAP_MAGIC \<and> b_magic s = HEAP_MAGIC);
     h1 \<leftarrow> update_header fst_blk (\<lambda>b. b\<lparr>b_size := b_size b + b_size s, b_next := b_next s\<rparr>) h;
     h2 \<leftarrow> (if b_next s \<noteq> 0 then update_header (b_next s) (\<lambda>b. b\<lparr>b_prev := fst_blk\<rparr>) h1
            else Some (h1\<lparr>heap_last := fst_blk\<rparr>));
     update_header snd_blk (\<lambda>b. b\<lparr>b_magic := 0\<rparr>) h2
   }"

text \<open>The loop that gives free memory at the end of the heap back.\<close>

partial_function (option) kfree_shrink :: "heap \<Rightarrow> heap option" where
  "kfree_shrink h =
     (if heap_last h = 0 then Some h
      else do {
        l \<leftarrow> deref (h_blocks h) (heap_last h);
        if \<not> b_available l then Some h
        else do {
          h1 \<leftarrow> update_header (heap_last h) (\<lambda>b. b\<lparr>b_magic := 0\<rparr>) h;
          h2 \<leftarrow> (if b_prev l \<noteq> 0
                 then do { h2 \<leftarrow> update_header (b_prev l) (\<lambda>b. b\<lparr>b_next := 0\<rparr>) h1; Some (h2\<lparr>heap_last := b_prev l\<rparr>) }
                 else Some (h1\<lparr>heap_start := 0, heap_last := 0\<rparr>));
          (_, h3) \<leftarrow> kbrk (- b_size l) h2;
          kfree_shrink h3
        }
      })"

definition merge_next :: "addr \<Rightarrow> heap \<Rightarrow> heap option" where
  "merge_next tofree h = do {
     b \<leftarrow> deref (h_blocks h) tofree;
     if b_next b \<noteq> 0 then do {
       nb \<leftarrow> deref (h_blocks h) (b_next b);
       if b_available nb then mergeBlocks tofree (b_next b) h else Some h
     } else Some h
   }"

definition merge_prev :: "addr \<Rightarrow> heap \<Rightarrow> heap option" where
  "merge_prev tofree h = do {
     b \<leftarrow> deref (h_blocks h) tofree;
     if b_prev b \<noteq> 0 then do {
       pb \<leftarrow> deref (h_blocks h) (b_prev b);
       if b_available pb then mergeBlocks (b_prev b) tofree h else Some h
     } else Some h
   }"

definition kfree :: "addr \<Rightarrow> heap \<Rightarrow> heap option" where
  "kfree ptr h =
     (if ptr = 0 then Some h
      else do {
        kassert (\<not> (heap_last h = 0 \<or> heap_start h = 0 \<or> ptr < heap_start h \<or> heap_last h + HEADER_SIZE < ptr));
        h1 \<leftarrow> heap_lock h;
        let tofree = ptr - HEADER_SIZE;
        b \<leftarrow> deref (h_blocks h1) tofree;
        kassert (\<not> (b_magic b \<noteq> HEAP_MAGIC \<or> b_available b));
        h2 \<leftarrow> update_header tofree (\<lambda>b. b\<lparr>b_available := True\<rparr>) h1;
        h3 \<leftarrow> merge_next tofree h2;
        h4 \<leftarrow> merge_prev tofree h3;
        h5 \<leftarrow> kfree_shrink h4;
        heap_unlock h5
      })"

text \<open>\<^verbatim>\<open>_kheap_check_corrupt\<close> walks all blocks and panics at a wrong magic number.\<close>

partial_function (option) check_corrupt_loop :: "heap_block store \<Rightarrow> addr \<Rightarrow> unit option" where
  "check_corrupt_loop bs entry =
     (if entry = 0 then Some ()
      else do {
        b \<leftarrow> deref bs entry;
        kassert (b_magic b = HEAP_MAGIC);
        check_corrupt_loop bs (b_next b)
      })"

definition kheap_check_corrupt :: "heap \<Rightarrow> unit option" where
  "kheap_check_corrupt h = check_corrupt_loop (h_blocks h) KHEAP_START"

definition kheap_print :: "heap \<Rightarrow> heap option" where
  "kheap_print h = do { h1 \<leftarrow> heap_lock h; check_corrupt_loop (h_blocks h1) (heap_start h1); heap_unlock h1 }"

section \<open>The chain of blocks\<close>

text \<open>A heap is described by the list of its blocks, each with its length and whether it is free. The
  block at offset \<open>p\<close> of the heap stands at the address \<open>haddr p\<close>. \<open>HMAX\<close> is the length of the heap
  region, up to \<^verbatim>\<open>KHEAP_END\<close>.\<close>

type_synonym seg = "nat \<times> bool"

definition haddr :: "nat \<Rightarrow> addr" where
  "haddr p = KHEAP_START + of_nat p"

definition HMAX :: nat where
  "HMAX = 0xFF80000000"

abbreviation seglen :: "seg list \<Rightarrow> nat" where
  "seglen xs \<equiv> sum_list (map fst xs)"

definition blk_ok :: "addr \<Rightarrow> addr \<Rightarrow> seg \<Rightarrow> heap_block \<Rightarrow> bool" where
  "blk_ok pv nx s b \<longleftrightarrow> b_magic b = HEAP_MAGIC \<and> b_available b = snd s \<and> b_prev b = pv \<and> b_next b = nx \<and>
     b_size b = of_nat (fst s)"

fun chain :: "heap_block store \<Rightarrow> addr \<Rightarrow> nat \<Rightarrow> seg list \<Rightarrow> addr \<Rightarrow> bool" where
  "chain bs pv p [] e \<longleftrightarrow> True"
| "chain bs pv p (s # xs) e \<longleftrightarrow>
     41 \<le> fst s \<and> (\<exists>b. bs (haddr p) = Some b \<and> blk_ok pv (if xs = [] then e else haddr (p + fst s)) s b) \<and>
     chain bs (haddr p) (p + fst s) xs e"

definition last_blk :: "addr \<Rightarrow> nat \<Rightarrow> seg list \<Rightarrow> addr" where
  "last_blk pv p xs = (if xs = [] then pv else haddr (p + seglen (butlast xs)))"

lemma last_blk_Nil [simp]: "last_blk pv p [] = pv"
  by (simp add: last_blk_def)

lemma last_blk_Cons [simp]: "last_blk pv p (s # xs) = last_blk (haddr p) (p + fst s) xs"
  by (cases xs) (auto simp: last_blk_def add.assoc)

lemma last_blk_append [simp]: "last_blk pv p (xs @ ys) = last_blk (last_blk pv p xs) (p + seglen xs) ys"
  by (induction xs arbitrary: pv p) (simp_all add: add.assoc)

lemma chain_append:
  "chain bs pv p (xs @ ys) e \<longleftrightarrow>
     chain bs pv p xs (if ys = [] then e else haddr (p + seglen xs)) \<and> chain bs (last_blk pv p xs) (p + seglen xs) ys e"
proof (induction xs arbitrary: pv p)
  case (Cons s xs)
  show ?case by (cases "xs = []") (auto simp: Cons.IH add.assoc)
qed simp

lemma unat_KHEAP_START: "unat KHEAP_START = 2 ^ 64 - 2 ^ 40"
  by (simp add: KHEAP_START_def)

lemma unat_haddr: "p < 2 ^ 40 \<Longrightarrow> unat (haddr p) = 2 ^ 64 - 2 ^ 40 + p"
  unfolding haddr_def unat_word_ariths by (simp add: unat_KHEAP_START unat_of_nat take_bit_nat_eq_self)

lemma haddr_inj: "p < 2 ^ 40 \<Longrightarrow> q < 2 ^ 40 \<Longrightarrow> haddr p = haddr q \<longleftrightarrow> p = q"
  by (metis unat_haddr add_left_cancel)

lemma haddr_nz: "p < 2 ^ 40 \<Longrightarrow> haddr p \<noteq> 0"
proof
  assume "p < 2 ^ 40" "haddr p = 0"
  then have "unat (haddr p) = 0" by simp
  with unat_haddr [OF \<open>p < 2 ^ 40\<close>] show False by simp
qed

lemma haddr_add: "haddr p + of_nat n = haddr (p + n)"
  by (simp add: haddr_def)

lemma chain_frame:
  assumes "\<And>q. p \<le> q \<Longrightarrow> q < p + seglen xs \<Longrightarrow> bs' (haddr q) = bs (haddr q)"
  shows "chain bs' pv p xs e = chain bs pv p xs e"
  using assms
proof (induction xs arbitrary: pv p)
  case (Cons s xs)
  have "chain bs' (haddr p) (p + fst s) xs e = chain bs (haddr p) (p + fst s) xs e"
    by (rule Cons.IH) (auto intro!: Cons.prems)
  moreover have "41 \<le> fst s \<Longrightarrow> bs' (haddr p) = bs (haddr p)" by (rule Cons.prems) auto
  ultimately show ?case by (cases "41 \<le> fst s") simp_all
qed simp

lemma chain_upd:
  assumes "q < p \<or> p + seglen xs \<le> q" and "q < 2 ^ 40" and "p + seglen xs \<le> 2 ^ 40"
  shows "chain (bs(haddr q := v)) pv p xs e = chain bs pv p xs e"
proof (rule chain_frame)
  fix r assume "p \<le> r" "r < p + seglen xs"
  with assms have "r \<noteq> q" "r < 2 ^ 40" by auto
  then show "(bs(haddr q := v)) (haddr r) = bs (haddr r)" using assms(2) haddr_inj by auto
qed

lemma chain_header:
  assumes "chain bs pv p (xs @ s # ys) e"
  obtains b where "bs (haddr (p + seglen xs)) = Some b" "41 \<le> fst s"
    "blk_ok (last_blk pv p xs) (if ys = [] then e else haddr (p + seglen xs + fst s)) s b"
  using assms by (auto simp: chain_append)

text \<open>Changing the predecessor of the first block, and the successor of the last one.\<close>

lemma chain_set_prev:
  assumes "chain bs pv q (s # zs) e" and "bs (haddr q) = Some b" and "q + seglen (s # zs) \<le> 2 ^ 40"
  shows "chain (bs(haddr q \<mapsto> b\<lparr>b_prev := pv'\<rparr>)) pv' q (s # zs) e"
proof -
  have "41 \<le> fst s" using assms(1) by simp
  then have "chain (bs(haddr q \<mapsto> b\<lparr>b_prev := pv'\<rparr>)) (haddr q) (q + fst s) zs e = chain bs (haddr q) (q + fst s) zs e"
    using assms(3) by (intro chain_upd) auto
  then show ?thesis using assms by (auto simp: blk_ok_def)
qed

lemma chain_set_next:
  assumes "chain bs pv p (xs @ [s]) e" and "bs (haddr (p + seglen xs)) = Some b" and "p + seglen (xs @ [s]) \<le> 2 ^ 40"
  shows "chain (bs(haddr (p + seglen xs) \<mapsto> b\<lparr>b_next := e'\<rparr>)) pv p (xs @ [s]) e'"
proof -
  have "41 \<le> fst s" using assms(1) by (simp add: chain_append)
  then have "chain (bs(haddr (p + seglen xs) \<mapsto> b\<lparr>b_next := e'\<rparr>)) pv p xs e2 = chain bs pv p xs e2" for e2
    using assms(3) by (intro chain_upd) auto
  then show ?thesis using assms(1,2) by (auto simp: chain_append blk_ok_def)
qed

text \<open>Replacing one block by another of the same place and length.\<close>

lemma chain_set_block:
  assumes "chain bs pv p (xs @ (n, f) # ys) e" and "bs (haddr (p + seglen xs)) = Some b"
    and "p + seglen (xs @ (n, f) # ys) \<le> 2 ^ 40"
    and "blk_ok (b_prev b) (b_next b) (n, g) c"
  shows "chain (bs(haddr (p + seglen xs) \<mapsto> c)) pv p (xs @ (n, g) # ys) e"
proof -
  have n: "41 \<le> n" using assms(1) by (simp add: chain_append)
  have "chain (bs(haddr (p + seglen xs) \<mapsto> c)) pv p xs e2 = chain bs pv p xs e2" for e2
    using assms(3) n by (intro chain_upd) auto
  moreover have "chain (bs(haddr (p + seglen xs) \<mapsto> c)) pv2 (p + seglen xs + n) ys e = chain bs pv2 (p + seglen xs + n) ys e" for pv2
    using assms(3) n by (intro chain_upd) auto
  ultimately show ?thesis using assms(1,2,4) by (auto simp: chain_append blk_ok_def)
qed

text \<open>Splitting a block in two.\<close>

lemma chain_split:
  assumes "chain bs pv p (xs @ (n, f) # ys) e" and "bs (haddr (p + seglen xs)) = Some b"
    and "p + seglen (xs @ (n, f) # ys) \<le> 2 ^ 40" and "41 \<le> r" and "41 + r < n"
    and "bs1 = bs(haddr (p + seglen xs) \<mapsto> b\<lparr>b_size := of_nat r, b_next := haddr (p + seglen xs + r)\<rparr>)"
    and "bs2 = bs1(haddr (p + seglen xs + r) \<mapsto> c)"
    and "blk_ok (haddr (p + seglen xs)) (b_next b) (n - r, True) c"
    and "bs3 = (case ys of [] \<Rightarrow> bs2 | _ \<Rightarrow>
           bs2(haddr (p + seglen xs + n) \<mapsto> the (bs (haddr (p + seglen xs + n)))\<lparr>b_prev := haddr (p + seglen xs + r)\<rparr>))"
  shows "chain bs3 pv p (xs @ (r, f) # (n - r, True) # ys) e"
proof -
  let ?o = "p + seglen xs"
  have ne: "haddr ?o \<noteq> haddr (?o + r)" "haddr ?o \<noteq> haddr (?o + n)" "haddr (?o + r) \<noteq> haddr (?o + n)" if "ys \<noteq> []"
    using assms(1,3,4,5) that by (cases ys; auto simp: haddr_inj chain_append)+
  have ne0: "haddr ?o \<noteq> haddr (?o + r)" using assms(3-5) by (auto simp: haddr_inj)
  have xs: "chain bs3 pv p xs (haddr ?o)"
  proof -
    have "chain bs pv p xs (haddr ?o)" using assms(1) by (simp add: chain_append)
    moreover have "chain bs3 pv p xs (haddr ?o) = chain bs pv p xs (haddr ?o)"
    proof (rule chain_frame)
      fix q assume q: "p \<le> q" "q < p + seglen xs"
      then have "haddr q \<noteq> haddr ?o" "haddr q \<noteq> haddr (?o + r)" using assms(3-5) by (auto simp: haddr_inj)
      moreover have "haddr q \<noteq> haddr (?o + n)" if "ys \<noteq> []"
        using assms(1,3) q that by (cases ys) (auto simp: haddr_inj chain_append)
      ultimately show "bs3 (haddr q) = bs (haddr q)" using assms(6,7,9) by (auto split: list.splits)
    qed
    ultimately show ?thesis by simp
  qed
  have ys: "chain bs3 (haddr (?o + r)) (?o + n) ys e"
  proof (cases ys)
    case (Cons s zs)
    have "chain bs (haddr ?o) (?o + n) (s # zs) e" using assms(1) Cons by (simp add: chain_append)
    then have c2: "chain bs2 (haddr ?o) (?o + n) (s # zs) e"
      using assms(3-7) Cons by (simp add: chain_upd del: chain.simps)
    obtain b' where b': "bs (haddr (?o + n)) = Some b'" using assms(1) Cons by (auto simp: chain_append)
    have b2: "bs2 (haddr (?o + n)) = Some b'" using b' ne Cons assms(6,7) by (auto simp: neq_commute)
    have "?o + n + seglen (s # zs) \<le> 2 ^ 40" using assms(3) Cons by simp
    note chain_set_prev [OF c2 b2 this, of "haddr (?o + r)"]
    moreover have "bs3 = bs2(haddr (?o + n) \<mapsto> b'\<lparr>b_prev := haddr (?o + r)\<rparr>)" using assms(9) Cons b' by simp
    ultimately show ?thesis unfolding Cons by (simp only:)
  qed simp
  have "bs3 (haddr ?o) = Some (b\<lparr>b_size := of_nat r, b_next := haddr (?o + r)\<rparr>)" "bs3 (haddr (?o + r)) = Some c"
    using ne ne0 assms(6,7,9) by (auto split: list.splits)
  moreover have "blk_ok (last_blk pv p xs) (if ys = [] then e else haddr (?o + n)) (n, f) b"
    using assms(1,2) by (auto simp: chain_append)
  ultimately show ?thesis using xs ys assms(4,5,8) by (auto simp: chain_append blk_ok_def add.assoc)
qed

section \<open>The pages below the break\<close>

definition HPAGES :: nat where
  "HPAGES = HMAX div 4096"

definition hpage :: "nat \<Rightarrow> size_t" where
  "hpage j = of_nat (2 ^ 52 - 2 ^ 28 + j)"

definition pages_ok :: "(size_t \<Rightarrow> bool) \<Rightarrow> nat \<Rightarrow> bool" where
  "pages_ok pages n \<longleftrightarrow> (\<forall>j < HPAGES. pages (hpage j) \<longleftrightarrow> j * 4096 < n)"

lemma unat_hpage: "j \<le> 2 ^ 28 \<Longrightarrow> unat (hpage j) = 2 ^ 52 - 2 ^ 28 + j"
  unfolding hpage_def by (rule unat_of_nat_small) simp

lemma hpage_inj: "i \<le> 2 ^ 28 \<Longrightarrow> j \<le> 2 ^ 28 \<Longrightarrow> hpage i = hpage j \<longleftrightarrow> i = j"
  by (metis unat_hpage add_left_cancel)

lemma haddr_page: "p < 2 ^ 40 \<Longrightarrow> haddr p div PAGE_SIZE = hpage (p div 4096)"
proof -
  assume p: "p < 2 ^ 40"
  have "unat (haddr p div PAGE_SIZE) = (2 ^ 64 - 2 ^ 40 + p) div 4096"
    unfolding unat_div_distrib unat_haddr [OF p] by (simp add: PAGE_SIZE_def)
  also have "\<dots> = (p + 4096 * (2 ^ 52 - 2 ^ 28)) div 4096" by (simp add: add.commute)
  also have "\<dots> = 2 ^ 52 - 2 ^ 28 + p div 4096" by (subst div_mult_self2) simp_all
  also have "\<dots> = unat (hpage (p div 4096))" by (rule unat_hpage [symmetric]) (use p in simp)
  finally show ?thesis by (simp only: word_unat_eq_iff)
qed

lemma shift_page: "drop_bit PAGE_SHIFT (w :: size_t) = w div PAGE_SIZE"
  by (simp add: drop_bit_eq_div PAGE_SHIFT_def PAGE_SIZE_def)

lemma haddr_mod: "p < 2 ^ 40 \<Longrightarrow> (haddr p mod PAGE_SIZE = 0) \<longleftrightarrow> p mod 4096 = 0"
proof -
  assume p: "p < 2 ^ 40"
  have "unat (haddr p mod PAGE_SIZE) = (2 ^ 64 - 2 ^ 40 + p) mod 4096"
    unfolding unat_mod_distrib unat_haddr [OF p] by (simp add: PAGE_SIZE_def)
  also have "\<dots> = (p + 4096 * (2 ^ 52 - 2 ^ 28)) mod 4096" by (simp add: add.commute)
  also have "\<dots> = p mod 4096" by (subst mod_mult_self2) simp
  finally show ?thesis by (metis unat_eq_zero)
qed

lemma hpage_Suc: "hpage j + 1 = hpage (Suc j)"
  by (simp add: hpage_def)

lemma upt_shift: "[c + a ..< c + b] = map (\<lambda>j. c + j) [a ..< b]" for c :: nat
  by (induction b) auto

lemma page_loop_hpage:
  assumes "a \<le> 2 ^ 28" "b \<le> 2 ^ 28"
  shows "page_loop (hpage a) (hpage b) = map hpage [a ..< Suc b]"
proof -
  have "[2 ^ 52 - 2 ^ 28 + a ..< Suc (2 ^ 52 - 2 ^ 28 + b)] = map (\<lambda>j. 2 ^ 52 - 2 ^ 28 + j) [a ..< Suc b]"
    using upt_shift [of "2 ^ 52 - 2 ^ 28" a "Suc b"] by (simp only: add_Suc_right)
  then show ?thesis
    unfolding page_loop_def unat_hpage [OF assms(1)] unat_hpage [OF assms(2)] by (simp add: hpage_def)
qed

text \<open>The number of pages that hold the first \<open>n\<close> bytes of the heap.\<close>

definition npages :: "nat \<Rightarrow> nat" where
  "npages n = (if n mod 4096 \<noteq> 0 then Suc (n div 4096) else n div 4096)"

lemma npages_le: "(j < npages n) \<longleftrightarrow> j * 4096 < n"
proof -
  define q r where "q = n div 4096" and "r = n mod 4096"
  then have "n = q * 4096 + r" "r < 4096" by simp_all
  then show ?thesis unfolding npages_def q_def [symmetric] r_def [symmetric] by (cases "r = 0") auto
qed

lemma map_pages_hpage:
  assumes "b \<le> 2 ^ 28" and "\<And>j. a \<le> j \<Longrightarrow> j < b \<Longrightarrow> \<not> pages (hpage j)"
  shows "map_pages (map hpage [a ..< b]) pages = Some (\<lambda>q. pages q \<or> q \<in> hpage ` {a ..< b})"
  using assms
proof (induction "b - a" arbitrary: a pages)
  case 0
  then show ?case by simp
next
  case (Suc k)
  then have ab: "a < b" by simp
  have "map_pages (map hpage [Suc a ..< b]) (pages(hpage a := True)) =
      Some (\<lambda>q. (pages(hpage a := True)) q \<or> q \<in> hpage ` {Suc a ..< b})"
    using Suc.hyps(2) Suc.prems ab by (intro Suc.hyps(1)) (auto simp: hpage_inj)
  moreover have "{a ..< b} = insert a {Suc a ..< b}" using ab by auto
  moreover have "map hpage [a ..< b] = hpage a # map hpage [Suc a ..< b]" using ab by (simp add: upt_conv_Cons)
  ultimately show ?case using Suc.prems(2) [of a] ab by (auto simp: fun_eq_iff)
qed

lemma unmap_pages_eq: "unmap_pages ps pages = (\<lambda>q. pages q \<and> q \<notin> set ps)"
  by (induction ps arbitrary: pages) (auto simp: fun_eq_iff)

lemma HMAX_less: "n \<le> HMAX \<Longrightarrow> n < 2 ^ 40"
  by (simp add: HMAX_def)

lemma npages_bound: "n \<le> HMAX \<Longrightarrow> npages n \<le> HPAGES"
proof (rule ccontr)
  assume "n \<le> HMAX" "\<not> npages n \<le> HPAGES"
  then have "HPAGES < npages n" by simp
  then have "HPAGES * 4096 < n" by (simp only: npages_le)
  with \<open>n \<le> HMAX\<close> show False by (simp add: HPAGES_def HMAX_def)
qed

lemma page_first:
  assumes "n \<le> HMAX"
  shows "(if haddr n mod PAGE_SIZE \<noteq> 0 then haddr n div PAGE_SIZE + 1 else haddr n div PAGE_SIZE) = hpage (npages n)"
  using haddr_mod [OF HMAX_less [OF assms]] haddr_page [OF HMAX_less [OF assms]]
  by (auto simp: npages_def hpage_Suc)

lemma kbrk_grow:
  assumes "kheap_break h = haddr n" and "pages_ok (h_pages h) n" and "0 < k" and "n + k < HMAX"
  shows "\<exists>pages. kbrk (of_nat k) h = Some (haddr n, h\<lparr>kheap_break := haddr (n + k), h_pages := pages\<rparr>) \<and> pages_ok pages (n + k)"
proof -
  have lt: "\<not> haddr (n + k) < haddr n"
    using assms(4) by (simp add: word_less_nat_alt unat_haddr HMAX_def)
  have last: "haddr (n + k) - 1 = haddr (n + k - 1)" using assms(3) by (simp add: haddr_def of_nat_diff)
  have b: "n \<le> HMAX" "n + k - 1 < 2 ^ 40" "npages n \<le> 2 ^ 28" "(n + k - 1) div 4096 < 2 ^ 28" "Suc ((n + k - 1) div 4096) \<le> 2 ^ 28"
    using assms(4) npages_bound [of n] by (auto simp: HMAX_def HPAGES_def)
  have maps: "kbrk_maps (haddr n) (haddr (n + k)) = map hpage [npages n ..< Suc ((n + k - 1) div 4096)]"
    unfolding kbrk_maps_def last shift_page page_first [OF b(1)] haddr_page [OF b(2)]
    using b by (intro page_loop_hpage) auto
  define pages where "pages = (\<lambda>q. h_pages h q \<or> q \<in> hpage ` {npages n ..< Suc ((n + k - 1) div 4096)})"
  have hp: "Suc ((n + k - 1) div 4096) \<le> HPAGES" using assms(4) by (simp add: HPAGES_def HMAX_def)
  have "map_pages (map hpage [npages n ..< Suc ((n + k - 1) div 4096)]) (h_pages h) = Some pages"
    unfolding pages_def
  proof (rule map_pages_hpage [OF b(5)])
    fix j assume j: "npages n \<le> j" "j < Suc ((n + k - 1) div 4096)"
    then have "j < HPAGES" using hp by simp
    then have "h_pages h (hpage j) \<longleftrightarrow> j < npages n" using assms(2) by (simp add: pages_ok_def npages_le)
    with j(1) show "\<not> h_pages h (hpage j)" by simp
  qed
  moreover have "pages_ok pages (n + k)"
    unfolding pages_ok_def
  proof (intro allI impI)
    fix j assume j: "j < HPAGES"
    then have "j \<le> 2 ^ 28" by (simp add: HPAGES_def HMAX_def)
    then have "hpage j \<in> hpage ` {npages n ..< Suc ((n + k - 1) div 4096)} \<longleftrightarrow> npages n \<le> j \<and> j < Suc ((n + k - 1) div 4096)"
      using b(4) by (auto simp: hpage_inj)
    moreover have "h_pages h (hpage j) \<longleftrightarrow> j < npages n" using assms(2) j by (simp add: pages_ok_def npages_le)
    moreover have "j < Suc ((n + k - 1) div 4096) \<longleftrightarrow> j * 4096 < n + k"
      using assms(3) by (auto simp: less_Suc_eq_le less_eq_div_iff_mult_less_eq)
    moreover have "j < npages n \<longrightarrow> j * 4096 < n + k" by (simp add: npages_le)
    ultimately show "pages (hpage j) \<longleftrightarrow> j * 4096 < n + k" unfolding pages_def by auto
  qed
  ultimately show ?thesis using lt assms(1) by (auto simp: kbrk_def haddr_add maps)
qed

lemma kbrk_shrink:
  assumes "kheap_break h = haddr (n + k)" and "pages_ok (h_pages h) (n + k)" and "0 < k" and "n + k < HMAX"
  shows "\<exists>pages. kbrk (- of_nat k) h = Some (haddr (n + k), h\<lparr>kheap_break := haddr n, h_pages := pages\<rparr>) \<and> pages_ok pages n"
proof -
  have brk: "haddr (n + k) - of_nat k = haddr n" by (simp add: haddr_def)
  have lt: "haddr n < haddr (n + k)"
    using assms(3,4) by (simp add: word_less_nat_alt unat_haddr HMAX_def)
  have b: "n \<le> HMAX" "n + k < 2 ^ 40" "npages n \<le> 2 ^ 28" "(n + k) div 4096 \<le> 2 ^ 28"
    using assms(4) npages_bound [of n] by (auto simp: HMAX_def HPAGES_def)
  have unmaps: "kbrk_unmaps (haddr (n + k)) (haddr n) = map hpage [npages n ..< Suc ((n + k) div 4096)]"
    unfolding kbrk_unmaps_def page_first [OF b(1)] haddr_page [OF b(2)]
    using b by (intro page_loop_hpage) auto
  define pages where "pages = (\<lambda>q. h_pages h q \<and> q \<notin> hpage ` {npages n ..< Suc ((n + k) div 4096)})"
  have "pages_ok pages n"
    unfolding pages_ok_def
  proof (intro allI impI)
    fix j assume j: "j < HPAGES"
    then have "j \<le> 2 ^ 28" by (simp add: HPAGES_def HMAX_def)
    then have "hpage j \<in> hpage ` {npages n ..< Suc ((n + k) div 4096)} \<longleftrightarrow> npages n \<le> j \<and> j < Suc ((n + k) div 4096)"
      using b(4) by (auto simp: hpage_inj)
    moreover have "h_pages h (hpage j) \<longleftrightarrow> j * 4096 < n + k" using assms(2) j by (simp add: pages_ok_def)
    moreover have "j < Suc ((n + k) div 4096) \<longleftrightarrow> j * 4096 \<le> n + k"
      by (auto simp: less_Suc_eq_le less_eq_div_iff_mult_less_eq)
    moreover have "j < npages n \<longleftrightarrow> j * 4096 < n" by (rule npages_le)
    ultimately show "pages (hpage j) \<longleftrightarrow> j * 4096 < n" unfolding pages_def by auto
  qed
  then show ?thesis using lt assms(1) by (intro exI [of _ pages]) (simp add: kbrk_def brk unmaps unmap_pages_eq pages_def del: upt_Suc)
qed

lemma writable_below:
  assumes "pages_ok (h_pages h) n" and "p + k \<le> n" and "n < HMAX"
  shows "writable h (haddr p) k"
  unfolding writable_def
proof (intro allI impI)
  fix i assume i: "i < k"
  have "p + i < 2 ^ 40" using i assms(2,3) by (simp add: HMAX_def)
  then have "drop_bit PAGE_SHIFT (haddr p + of_nat i) = hpage ((p + i) div 4096)"
    by (simp add: haddr_add shift_page haddr_page)
  moreover have "(p + i) div 4096 < HPAGES" using i assms(2,3) by (simp add: HPAGES_def HMAX_def)
  moreover have "(p + i) div 4096 * 4096 \<le> p + i" by (rule div_times_less_eq_dividend)
  ultimately show "h_pages h (drop_bit PAGE_SHIFT (haddr p + of_nat i))"
    using assms(1,2) i by (simp add: pages_ok_def)
qed

section \<open>The heap invariant\<close>

text \<open>Free blocks never touch, and the last block is in use.\<close>

definition coalesced :: "seg list \<Rightarrow> bool" where
  "coalesced xs \<longleftrightarrow> successively (\<lambda>s t. \<not> (snd s \<and> snd t)) xs \<and> (xs \<noteq> [] \<longrightarrow> \<not> snd (last xs))"

definition heap_core :: "heap \<Rightarrow> seg list \<Rightarrow> bool" where
  "heap_core h xs \<longleftrightarrow> chain (h_blocks h) 0 0 xs 0 \<and> heap_start h = (if xs = [] then 0 else haddr 0) \<and>
     heap_last h = last_blk 0 0 xs \<and> kheap_break h = haddr (seglen xs) \<and> seglen xs < HMAX \<and>
     pages_ok (h_pages h) (seglen xs)"

definition heap_ok :: "heap \<Rightarrow> seg list \<Rightarrow> bool" where
  "heap_ok h xs \<longleftrightarrow> heap_core h xs \<and> coalesced xs \<and> s_heapMutex h = new_spinlock"

lemma heap_lock_ok: "s_heapMutex h = new_spinlock \<Longrightarrow> heap_lock h = Some (h\<lparr>s_heapMutex := \<lparr>s_magic = MAGIC, s_lock = 1\<rparr>\<rparr>)"
  by (simp add: heap_lock_def spin_lock_eq new_spinlock_def)

lemma heap_unlock_ok: "s_heapMutex h = \<lparr>s_magic = MAGIC, s_lock = 1\<rparr> \<Longrightarrow> heap_unlock h = Some (h\<lparr>s_heapMutex := new_spinlock\<rparr>)"
  by (simp add: heap_unlock_def spin_unlock_eq new_spinlock_def)

section \<open>What allocation and release do to the list of blocks\<close>

text \<open>The abstract allocator: first fit, split when more than a header is left over, grow at the end.\<close>

fun seg_alloc :: "nat \<Rightarrow> nat \<Rightarrow> seg list \<Rightarrow> nat \<times> seg list" where
  "seg_alloc r p [] = (p, [(r, False)])"
| "seg_alloc r p ((n, f) # xs) =
     (if f \<and> r \<le> n then (p, (if n - r \<le> 41 then [(n, False)] else [(r, False), (n - r, True)]) @ xs)
      else let (q, ys) = seg_alloc r (p + n) xs in (q, (n, f) # ys))"

text \<open>Release of the block between \<open>xs\<close> and \<open>ys\<close>: merge with the free neighbours, then drop a free end.\<close>

fun merge_right :: "nat \<Rightarrow> seg list \<Rightarrow> seg list" where
  "merge_right n [] = [(n, True)]"
| "merge_right n ((m, g) # zs) = (if g then (n + m, True) # zs else (n, True) # (m, g) # zs)"

definition merge_left :: "seg list \<Rightarrow> seg list \<Rightarrow> seg list" where
  "merge_left xs ys = (if xs \<noteq> [] \<and> snd (last xs) then butlast xs @ (fst (last xs) + fst (hd ys), True) # tl ys else xs @ ys)"

definition drop_free_end :: "seg list \<Rightarrow> seg list" where
  "drop_free_end xs = (if xs \<noteq> [] \<and> snd (last xs) then butlast xs else xs)"

definition seg_free :: "seg list \<Rightarrow> nat \<Rightarrow> seg list \<Rightarrow> seg list" where
  "seg_free xs n ys = drop_free_end (merge_left xs (merge_right n ys))"

section \<open>Allocation refines first fit\<close>

lemma of_nat_le_size:
  "a < 2 ^ 64 \<Longrightarrow> b < 2 ^ 64 \<Longrightarrow> (of_nat a \<le> (of_nat b :: size_t)) \<longleftrightarrow> a \<le> b"
  by (simp add: word_le_nat_alt unat_of_nat_small del: unat_of_nat)

lemma fst_le_seglen: "s \<in> set xs \<Longrightarrow> fst s \<le> seglen xs"
  by (induction xs) auto

lemma kmalloc_search_chain:
  assumes "chain bs pv p xs 0" and "p + seglen xs < HMAX" and "r < 2 ^ 64"
  shows "(kmalloc_search bs (if xs = [] then 0 else haddr p) (of_nat r) = Some 0 \<and> (\<forall>s \<in> set xs. \<not> (snd s \<and> r \<le> fst s))) \<or>
    (\<exists>ys n zs. xs = ys @ (n, True) # zs \<and> r \<le> n \<and> (\<forall>s \<in> set ys. \<not> (snd s \<and> r \<le> fst s)) \<and>
       kmalloc_search bs (if xs = [] then 0 else haddr p) (of_nat r) = Some (haddr (p + seglen ys)))"
  using assms(1,2)
proof (induction xs arbitrary: pv p)
  case Nil
  then show ?case by (subst kmalloc_search.simps) simp
next
  case (Cons s xs)
  obtain n f where s: "s = (n, f)" by (cases s)
  from Cons.prems(1) obtain b where b: "bs (haddr p) = Some b"
    "blk_ok pv (if xs = [] then 0 else haddr (p + n)) s b" "chain bs (haddr p) (p + n) xs 0" by (auto simp: s cong: if_cong)
  have nz: "haddr p \<noteq> 0" using Cons.prems(2) by (intro haddr_nz) (simp add: HMAX_def)
  have "n < 2 ^ 64" using Cons.prems(2) by (simp add: s HMAX_def)
  then have cmp: "of_nat r \<le> b_size b \<longleftrightarrow> r \<le> n" using b(2) assms(3) by (simp add: blk_ok_def s of_nat_le_size)
  have step: "kmalloc_search bs (haddr p) (of_nat r) =
     (if f \<and> r \<le> n then Some (haddr p) else kmalloc_search bs (if xs = [] then 0 else haddr (p + n)) (of_nat r))"
    using b nz cmp by (subst kmalloc_search.simps) (auto simp: blk_ok_def s)
  show ?case
  proof (cases "f \<and> r \<le> n")
    case True
    then show ?thesis using step s by (intro disjI2 exI [of _ "[]"]) auto
  next
    case False
    from Cons.IH [OF b(3)] Cons.prems(2) have IH: "(kmalloc_search bs (if xs = [] then 0 else haddr (p + n)) (of_nat r) = Some 0 \<and> (\<forall>s \<in> set xs. \<not> (snd s \<and> r \<le> fst s))) \<or>
    (\<exists>ys n' zs. xs = ys @ (n', True) # zs \<and> r \<le> n' \<and> (\<forall>s \<in> set ys. \<not> (snd s \<and> r \<le> fst s)) \<and>
       kmalloc_search bs (if xs = [] then 0 else haddr (p + n)) (of_nat r) = Some (haddr (p + n + seglen ys)))" by (simp add: s add.assoc)
    then show ?thesis
    proof
      assume "kmalloc_search bs (if xs = [] then 0 else haddr (p + n)) (of_nat r) = Some 0 \<and> (\<forall>s \<in> set xs. \<not> (snd s \<and> r \<le> fst s))"
      then show ?thesis using step False s by (intro disjI1) auto
    next
      assume "\<exists>ys n' zs. xs = ys @ (n', True) # zs \<and> r \<le> n' \<and> (\<forall>s \<in> set ys. \<not> (snd s \<and> r \<le> fst s)) \<and>
       kmalloc_search bs (if xs = [] then 0 else haddr (p + n)) (of_nat r) = Some (haddr (p + n + seglen ys))"
      then obtain ys n' zs where "xs = ys @ (n', True) # zs" "r \<le> n'" "\<forall>s \<in> set ys. \<not> (snd s \<and> r \<le> fst s)"
        "kmalloc_search bs (if xs = [] then 0 else haddr (p + n)) (of_nat r) = Some (haddr (p + n + seglen ys))" by blast
      then show ?thesis using step False s by (intro disjI2 exI [of _ "s # ys"] exI [of _ n'] exI [of _ zs]) (auto simp: add.assoc)
    qed
  qed
qed

lemma seg_alloc_none:
  "\<forall>s \<in> set xs. \<not> (snd s \<and> r \<le> fst s) \<Longrightarrow> seg_alloc r p xs = (p + seglen xs, xs @ [(r, False)])"
  by (induction r p xs rule: seg_alloc.induct) (auto simp: add.assoc)

lemma seg_alloc_some:
  "\<forall>s \<in> set ys. \<not> (snd s \<and> r \<le> fst s) \<Longrightarrow> r \<le> n \<Longrightarrow>
   seg_alloc r p (ys @ (n, True) # zs) = (p + seglen ys, ys @ (if n - r \<le> 41 then [(n, False)] else [(r, False), (n - r, True)]) @ zs)"
proof (induction ys arbitrary: p)
  case (Cons s ys)
  then show ?case by (cases s) (auto simp: add.assoc)
qed simp

lemma coalesced_use:
  assumes "coalesced (xs @ (n, True) # ys)"
  shows "coalesced (xs @ (n, False) # ys)" and "coalesced (xs @ (r, False) # (k, True) # ys)"
  using assms by (auto simp: coalesced_def successively_append_iff successively_Cons split: if_splits)

lemma coalesced_grow: "coalesced xs \<Longrightarrow> coalesced (xs @ [(r, False)])"
  by (auto simp: coalesced_def successively_append_iff)

text \<open>The first offset behind the header.\<close>

lemma payload_addr: "haddr p + HEADER_SIZE = haddr (p + 41)"
  using haddr_add [of p 41] by (simp add: HEADER_SIZE_def)

lemma of_nat_size: "HEADER_SIZE + of_nat k = of_nat (41 + k)" "of_nat k + HEADER_SIZE = of_nat (41 + k)"
  by (simp_all add: HEADER_SIZE_def)

lemma unat_HEADER_SIZE: "unat HEADER_SIZE = 41"
  by (simp add: HEADER_SIZE_def)

lemma clear_payload_ok:
  assumes "pages_ok (h_pages h) n" and "p + k \<le> n" and "n < HMAX"
  shows "clear_payload (haddr p) (of_nat k) h = Some (h\<lparr>h_bytes := (\<lambda>a. if a - haddr p < of_nat k then 0 else h_bytes h a)\<rparr>)"
proof -
  have "unat (of_nat k :: size_t) = k" using assms(2,3) by (intro unat_of_nat_small) (simp add: HMAX_def)
  then show ?thesis using writable_below [OF assms] by (simp add: clear_payload_def)
qed

lemma crop_ok:
  assumes core: "heap_core h (xs @ (n, f) # ys)" and r: "41 \<le> r" "r \<le> n" and nl: "41 + r < n \<Longrightarrow> ys \<noteq> []"
  shows "\<exists>bs. crop (haddr (seglen xs)) (of_nat r) h = Some (h\<lparr>h_blocks := bs\<rparr>) \<and>
     heap_core (h\<lparr>h_blocks := bs\<rparr>) (xs @ (if n - r \<le> 41 then [(n, f)] else [(r, f), (n - r, True)]) @ ys)"
proof -
  let ?o = "seglen xs"
  from core have ch: "chain (h_blocks h) 0 0 (xs @ (n, f) # ys) 0" and len: "seglen (xs @ (n, f) # ys) < HMAX"
    and pg: "pages_ok (h_pages h) (seglen (xs @ (n, f) # ys))" by (simp_all add: heap_core_def)
  from ch obtain b where b: "h_blocks h (haddr ?o) = Some b"
    "blk_ok (last_blk 0 0 xs) (if ys = [] then 0 else haddr (?o + n)) (n, f) b"
    by (rule chain_header) (auto cong: if_cong)
  have nz: "haddr q \<noteq> 0" if "q < HMAX" for q using that by (intro haddr_nz) (simp add: HMAX_def)
  define ex :: size_t where "ex = of_nat (n - r)"
  have sz: "b_size b - of_nat r = ex" using b(2) r(2) by (simp add: blk_ok_def ex_def of_nat_diff)
  have "n - r < 2 ^ 64" using len by (simp add: HMAX_def)
  then have cmp: "ex \<le> HEADER_SIZE \<longleftrightarrow> n - r \<le> 41"
    using of_nat_le_size [of "n - r" 41] by (simp add: HEADER_SIZE_def ex_def)
  show ?thesis
  proof (cases "n - r \<le> 41")
    case True
    then have "crop (haddr ?o) (of_nat r) h = Some (h\<lparr>h_blocks := h_blocks h\<rparr>)"
      using b(1) nz len by (simp add: crop_def sz cmp Let_def)
    then show ?thesis using core True by (intro exI [of _ "h_blocks h"]) simp
  next
    case False
    then have "41 + r < n" by linarith
    with nl obtain s zs where ys: "ys = s # zs" by (cases ys) auto
    from ch have ch2: "chain (h_blocks h) 0 0 ((xs @ [(n, f)]) @ s # zs) 0" by (simp add: ys)
    obtain b' where b': "h_blocks h (haddr (?o + n)) = Some b'"
      by (rule chain_header [OF ch2]) auto
    define c where "c = \<lparr>b_available = True, b_magic = HEAP_MAGIC, b_prev = haddr ?o, b_next = haddr (?o + n),
               b_function = 0, b_line = 0, b_size = ex\<rparr>"
    have bn: "b_next b = haddr (?o + n)" using b(2) ys by (simp add: blk_ok_def)
    define bs1 where "bs1 = (h_blocks h)(haddr ?o \<mapsto> b\<lparr>b_size := of_nat r, b_next := haddr (?o + r)\<rparr>)"
    define bs2 where "bs2 = bs1(haddr (?o + r) \<mapsto> c)"
    define bs3 where "bs3 = bs2(haddr (?o + n) \<mapsto> b'\<lparr>b_prev := haddr (?o + r)\<rparr>)"
    have lt: "?o + n < 2 ^ 40" "?o < 2 ^ 40" "?o + r < 2 ^ 40" "?o + n < HMAX" using len ys False by (auto simp: HMAX_def)
    have ne: "haddr (?o + n) \<noteq> haddr (?o + r)" "haddr (?o + n) \<noteq> haddr ?o"
      using lt r False by (simp_all add: haddr_inj)
    have "chain bs3 0 0 (xs @ (r, f) # (n - r, True) # ys) 0"
    proof (rule chain_split [OF ch, where b = b and c = c])
      show "bs1 = (h_blocks h)(haddr (0 + ?o) \<mapsto> b\<lparr>b_size := of_nat r, b_next := haddr (0 + ?o + r)\<rparr>)" by (simp add: bs1_def)
    qed (use b b' bn r False len ys in \<open>auto simp: bs2_def bs3_def c_def blk_ok_def HMAX_def ex_def\<close>)
    moreover have "bs2 (haddr (?o + n)) = Some b'" using b' ne by (simp add: bs2_def bs1_def)
    moreover have "writable h (haddr (?o + r)) (unat HEADER_SIZE)"
      unfolding unat_HEADER_SIZE by (rule writable_below [OF pg _ len]) (use False in auto)
    ultimately have "crop (haddr ?o) (of_nat r) h = Some (h\<lparr>h_blocks := bs3\<rparr>)" "chain bs3 0 0 (xs @ (r, f) # (n - r, True) # ys) 0"
      using b(1) nz [of ?o] nz [of "?o + n"] nz [of "?o + r"] len lt False
      by (simp_all add: crop_def sz cmp bn Let_def update_header_def write_header_def haddr_add bs1_def [symmetric] bs2_def [symmetric]
          c_def [symmetric] bs3_def writable_def)
    then show ?thesis using core False ys r by (intro exI [of _ bs3]) (auto simp: heap_core_def)
  qed
qed

lemma haddr_diff:
  assumes "p < 2 ^ 40" "q < 2 ^ 40" "k < 2 ^ 40"
  shows "haddr p - haddr q < of_nat k \<longleftrightarrow> q \<le> p \<and> p < q + k"
proof -
  have k: "unat (of_nat k :: addr) = k" using assms(3) by (intro unat_of_nat_small) simp
  have "unat (haddr p - haddr q) = (if q \<le> p then p - q else 2 ^ 64 + p - q)"
    unfolding unat_sub_if' unat_haddr [OF assms(1)] unat_haddr [OF assms(2)] by simp
  then show ?thesis unfolding word_less_nat_alt k using assms by auto
qed

text \<open>What a caller of \<^verbatim>\<open>kmalloc\<close> sees of the bytes: the new ones are zero, the others as before.\<close>

definition fresh_bytes :: "heap \<Rightarrow> heap \<Rightarrow> nat \<Rightarrow> nat \<Rightarrow> bool" where
  "fresh_bytes h h' p k \<longleftrightarrow> (\<forall>q < HMAX. h_bytes h' (haddr q) = (if p \<le> q \<and> q < p + k then 0 else h_bytes h (haddr q)))"

lemma kmalloc_reuse_ok:
  assumes core: "heap_core h (xs @ (n, True) # ys)" and co: "coalesced (xs @ (n, True) # ys)"
    and lk: "s_heapMutex h = \<lparr>s_magic = MAGIC, s_lock = 1\<rparr>" and r: "41 + k \<le> n"
  shows "\<exists>h'. kmalloc_reuse (haddr (seglen xs)) (of_nat k) line fn h = Some (haddr (seglen xs + 41), h') \<and>
     heap_ok h' (xs @ (if n - (41 + k) \<le> 41 then [(n, False)] else [(41 + k, False), (n - (41 + k), True)]) @ ys) \<and>
     fresh_bytes h h' (seglen xs + 41) k"
proof -
  let ?o = "seglen xs" and ?ys = "xs @ (if n - (41 + k) \<le> 41 then [(n, False)] else [(41 + k, False), (n - (41 + k), True)]) @ ys"
  from core have ch: "chain (h_blocks h) 0 0 (xs @ (n, True) # ys) 0" and len: "seglen (xs @ (n, True) # ys) < HMAX" by (simp_all add: heap_core_def)
  from ch obtain b where b: "h_blocks h (haddr ?o) = Some b"
    "blk_ok (last_blk 0 0 xs) (if ys = [] then 0 else haddr (?o + n)) (n, True) b"
    by (rule chain_header) (auto cong: if_cong)
  define c where "c = b\<lparr>b_available := False, b_function := fn, b_line := line\<rparr>"
  define h1 where "h1 = h\<lparr>h_blocks := (h_blocks h)(haddr ?o \<mapsto> c)\<rparr>"
  have "haddr ?o \<noteq> 0" using len by (intro haddr_nz) (simp add: HMAX_def)
  then have h1: "update_header (haddr ?o) (\<lambda>b. b\<lparr>b_available := False, b_function := fn, b_line := line\<rparr>) h = Some h1"
    using b(1) by (simp add: update_header_def h1_def c_def)
  have "chain ((h_blocks h)(haddr (0 + ?o) \<mapsto> c)) 0 0 (xs @ (n, False) # ys) 0"
    using len b by (intro chain_set_block [OF ch]) (auto simp: HMAX_def blk_ok_def c_def)
  then have core1: "heap_core h1 (xs @ (n, False) # ys)" using core by (auto simp: heap_core_def h1_def)
  have "ys \<noteq> []" using co by (auto simp: coalesced_def)
  then obtain bs where bs: "crop (haddr ?o) (of_nat (41 + k)) h1 = Some (h1\<lparr>h_blocks := bs\<rparr>)" "heap_core (h1\<lparr>h_blocks := bs\<rparr>) ?ys"
    using crop_ok [OF core1, of "41 + k"] r by auto
  define h3 where "h3 = h1\<lparr>h_blocks := bs, s_heapMutex := new_spinlock\<rparr>"
  have un: "heap_unlock (h1\<lparr>h_blocks := bs\<rparr>) = Some h3" using lk by (simp add: heap_unlock_ok h1_def h3_def)
  have core3: "heap_core h3 ?ys" using bs(2) by (simp add: heap_core_def h3_def)
  have "seglen ?ys = seglen (xs @ (n, True) # ys)" using r by simp
  then have pg: "pages_ok (h_pages h3) (seglen (xs @ (n, True) # ys))" using core3 by (simp add: heap_core_def)
  define h4 where "h4 = h3\<lparr>h_bytes := (\<lambda>a. if a - haddr (?o + 41) < of_nat k then 0 else h_bytes h3 a)\<rparr>"
  have cl: "clear_payload (haddr (?o + 41)) (of_nat k) h3 = Some h4"
    unfolding h4_def using r by (intro clear_payload_ok [OF pg _ len]) simp
  have "coalesced ?ys" using co r by (auto intro: coalesced_use)
  then have ok: "heap_ok h4 ?ys" using core3 by (simp add: heap_ok_def heap_core_def h4_def h3_def)
  have fr: "fresh_bytes h h4 (?o + 41) k"
    unfolding fresh_bytes_def
  proof (intro allI impI)
    fix q assume "q < HMAX"
    then have "haddr q - haddr (?o + 41) < of_nat k \<longleftrightarrow> ?o + 41 \<le> q \<and> q < ?o + 41 + k"
      using len r by (intro haddr_diff) (auto simp: HMAX_def)
    then show "h_bytes h4 (haddr q) = (if ?o + 41 \<le> q \<and> q < ?o + 41 + k then 0 else h_bytes h (haddr q))"
      by (simp add: h4_def h3_def h1_def)
  qed
  have "kmalloc_reuse (haddr ?o) (of_nat k) line fn h = Some (haddr (?o + 41), h4)"
    unfolding kmalloc_reuse_def h1 of_nat_size payload_addr using bs(1) un cl by simp
  with ok fr show ?thesis by blast
qed

text \<open>Linking a new block behind the last one.\<close>

lemma chain_snoc:
  assumes "chain bs 0 0 xs 0" and "seglen xs + r < HMAX" and "41 \<le> r"
    and "blk_ok (last_blk 0 0 xs) 0 (r, f) c" and "bs1 = bs(haddr (seglen xs) \<mapsto> c)"
    and "bs2 = (if xs = [] then bs1 else bs1(last_blk 0 0 xs \<mapsto> the (bs (last_blk 0 0 xs))\<lparr>b_next := haddr (seglen xs)\<rparr>))"
  shows "chain bs2 0 0 (xs @ [(r, f)]) 0" and "xs \<noteq> [] \<Longrightarrow> bs1 (last_blk 0 0 xs) = Some (the (bs (last_blk 0 0 xs)))"
proof -
  have lt: "seglen xs < 2 ^ 40" using assms(2) by (simp add: HMAX_def)
  have c1: "chain bs1 0 0 xs 0" using assms(1,5) lt by (simp add: chain_upd)
  have "chain bs2 0 0 (xs @ [(r, f)]) 0 \<and> (xs \<noteq> [] \<longrightarrow> bs1 (last_blk 0 0 xs) = Some (the (bs (last_blk 0 0 xs))))"
  proof (cases xs rule: rev_cases)
    case Nil
    then show ?thesis using assms(3-6) by auto
  next
    case (snoc ys s)
    have l: "last_blk 0 0 xs = haddr (seglen ys)" by (simp add: snoc)
    from assms(1) have ch: "chain bs 0 0 (ys @ s # []) 0" by (simp add: snoc)
    from ch obtain b where b: "bs (haddr (seglen ys)) = Some b" "41 \<le> fst s"
      by (rule chain_header) (auto cong: if_cong)
    have ne: "haddr (seglen ys) \<noteq> haddr (seglen xs)" using b(2) lt by (simp add: haddr_inj snoc)
    then have b1: "bs1 (haddr (0 + seglen ys)) = Some b" using b(1) assms(5) by simp
    have "chain (bs1(haddr (0 + seglen ys) \<mapsto> b\<lparr>b_next := haddr (seglen xs)\<rparr>)) 0 0 (ys @ [s]) (haddr (seglen xs))"
      by (rule chain_set_next) (use c1 b1 lt snoc in auto)
    moreover have "bs2 = bs1(haddr (0 + seglen ys) \<mapsto> b\<lparr>b_next := haddr (seglen xs)\<rparr>)"
      using assms(6) b(1) l snoc by simp
    ultimately have "chain bs2 0 0 xs (haddr (seglen xs))" by (simp add: snoc)
    moreover have "bs2 (haddr (seglen xs)) = Some c" using assms(5,6) ne l snoc by auto
    ultimately show ?thesis using assms(3,4) b1 b(1) l by (auto simp: chain_append)
  qed
  then show "chain bs2 0 0 (xs @ [(r, f)]) 0" "xs \<noteq> [] \<Longrightarrow> bs1 (last_blk 0 0 xs) = Some (the (bs (last_blk 0 0 xs)))" by auto
qed

lemma last_blk_nz: "xs \<noteq> [] \<Longrightarrow> seglen xs < HMAX \<Longrightarrow> last_blk 0 0 xs \<noteq> 0"
proof -
  assume "xs \<noteq> []" "seglen xs < HMAX"
  moreover have "seglen (butlast xs) \<le> seglen xs" by (cases xs rule: rev_cases) auto
  ultimately show ?thesis by (auto simp: last_blk_def HMAX_def intro!: haddr_nz)
qed

lemma kmalloc_grow_ok:
  assumes core: "heap_core h xs" and co: "coalesced xs"
    and lk: "s_heapMutex h = \<lparr>s_magic = MAGIC, s_lock = 1\<rparr>" and r: "seglen xs + (41 + k) < HMAX"
  shows "\<exists>h'. kmalloc_grow (of_nat k) line fn h = Some (haddr (seglen xs + 41), h') \<and>
     heap_ok h' (xs @ [(41 + k, False)]) \<and> fresh_bytes h h' (seglen xs + 41) k"
proof -
  let ?o = "seglen xs"
  from core have ch: "chain (h_blocks h) 0 0 xs 0" and brk: "kheap_break h = haddr ?o" and pg0: "pages_ok (h_pages h) ?o"
    and hs: "heap_start h = (if xs = [] then 0 else haddr 0)" and hl: "heap_last h = last_blk 0 0 xs" by (simp_all add: heap_core_def)
  from kbrk_grow [OF brk pg0 _ r] obtain pages where
    h1: "kbrk (of_nat (41 + k)) h = Some (haddr ?o, h\<lparr>kheap_break := haddr (?o + (41 + k)), h_pages := pages\<rparr>)" and
    pg: "pages_ok pages (?o + (41 + k))" by auto
  define h1 where "h1 = h\<lparr>kheap_break := haddr (?o + (41 + k)), h_pages := pages\<rparr>"
  have nm1: "haddr ?o \<noteq> - 1"
  proof
    assume "haddr ?o = - 1"
    then have "unat (haddr ?o) = unat (- 1 :: addr)" by simp
    also have "\<dots> = 2 ^ 64 - 1" by (simp add: unsigned_minus_1_eq_mask mask_eq_exp_minus_1)
    finally have "unat (haddr ?o) = 2 ^ 64 - 1" .
    moreover have "?o < 2 ^ 40 - 1" using r by (simp add: HMAX_def)
    moreover have "unat (haddr ?o) = 2 ^ 64 - 2 ^ 40 + ?o" using r by (intro unat_haddr) (simp add: HMAX_def)
    ultimately show False by simp
  qed
  have nz: "haddr ?o \<noteq> 0" using r by (intro haddr_nz) (simp add: HMAX_def)
  define c where "c = \<lparr>b_available = False, b_magic = HEAP_MAGIC, b_prev = last_blk 0 0 xs, b_next = 0,
               b_function = fn, b_line = line, b_size = of_nat (41 + k)\<rparr>"
  define bs1 where "bs1 = (h_blocks h)(haddr ?o \<mapsto> c)"
  define bs2 where "bs2 = (if xs = [] then bs1 else bs1(last_blk 0 0 xs \<mapsto> the (h_blocks h (last_blk 0 0 xs))\<lparr>b_next := haddr ?o\<rparr>))"
  have c: "blk_ok (last_blk 0 0 xs) 0 (41 + k, False) c" by (simp add: c_def blk_ok_def)
  note cs = chain_snoc [OF ch r _ c bs1_def bs2_def]
  have wr: "writable h1 (haddr ?o) (unat HEADER_SIZE)"
    unfolding unat_HEADER_SIZE using r pg by (intro writable_below [where n = "?o + (41 + k)"]) (auto simp: h1_def)
  define h2 where "h2 = h1\<lparr>h_blocks := bs1\<rparr>"
  have h2: "write_header (haddr ?o) c h1 = Some h2" using wr nz by (simp add: write_header_def h2_def bs1_def h1_def)
  define h3 where "h3 = h1\<lparr>h_blocks := bs2\<rparr>"
  have h3: "(if heap_last h2 \<noteq> 0 then update_header (heap_last h2) (\<lambda>b. b\<lparr>b_next := haddr ?o\<rparr>) h2 else Some h2) = Some h3"
  proof (cases "xs = []")
    case True
    then show ?thesis by (simp add: h2_def h3_def h1_def bs2_def hl)
  next
    case False
    then show ?thesis using cs(2) last_blk_nz [OF False] r
      by (simp add: h2_def h3_def h1_def bs2_def hl update_header_def)
  qed
  define h5 where "h5 = h3\<lparr>heap_last := haddr ?o, heap_start := haddr 0\<rparr>"
  have h5: "(if heap_start (h3\<lparr>heap_last := haddr ?o\<rparr>) = 0 then h3\<lparr>heap_last := haddr ?o, heap_start := haddr ?o\<rparr> else h3\<lparr>heap_last := haddr ?o\<rparr>) = h5"
    using hs haddr_nz [of 0] by (cases "xs = []") (simp_all add: h5_def h3_def h1_def)
  define h6 where "h6 = h5\<lparr>s_heapMutex := new_spinlock\<rparr>"
  have h6: "heap_unlock h5 = Some h6" unfolding h6_def by (rule heap_unlock_ok) (simp add: h5_def h3_def h1_def lk)
  define h7 where "h7 = h6\<lparr>h_bytes := (\<lambda>a. if a - haddr (?o + 41) < of_nat k then 0 else h_bytes h6 a)\<rparr>"
  have h7: "clear_payload (haddr (?o + 41)) (of_nat k) h6 = Some h7"
    unfolding h7_def using r pg by (intro clear_payload_ok [where n = "?o + (41 + k)"]) (auto simp: h6_def h5_def h3_def h1_def)
  have "kmalloc_grow (of_nat k) line fn h = Some (haddr (?o + 41), h7)"
    unfolding kmalloc_grow_def of_nat_size h1 h1_def [symmetric]
    using nm1 h2 h3 h5 h6 h7 hl by (simp add: c_def h1_def payload_addr Let_def)
  moreover have "heap_ok h7 (xs @ [(41 + k, False)])"
    using cs(1) co r pg by (simp add: heap_ok_def heap_core_def coalesced_grow h7_def h6_def h5_def h3_def h1_def last_blk_def)
  moreover have "fresh_bytes h h7 (?o + 41) k"
    unfolding fresh_bytes_def
  proof (intro allI impI)
    fix q assume "q < HMAX"
    then have "haddr q - haddr (?o + 41) < of_nat k \<longleftrightarrow> ?o + 41 \<le> q \<and> q < ?o + 41 + k"
      using r by (intro haddr_diff) (auto simp: HMAX_def)
    then show "h_bytes h7 (haddr q) = (if ?o + 41 \<le> q \<and> q < ?o + 41 + k then 0 else h_bytes h (haddr q))"
      by (simp add: h7_def h6_def h5_def h3_def h1_def)
  qed
  ultimately show ?thesis by blast
qed

lemma kmalloc_ok:
  assumes ok: "heap_ok h xs" and r: "seglen xs + (41 + k) < HMAX"
  shows "\<exists>h'. kmalloc (of_nat k) line fn h = Some (haddr (fst (seg_alloc (41 + k) 0 xs) + 41), h') \<and>
     heap_ok h' (snd (seg_alloc (41 + k) 0 xs)) \<and> fresh_bytes h h' (fst (seg_alloc (41 + k) 0 xs) + 41) k"
proof -
  define h1 where "h1 = h\<lparr>s_heapMutex := \<lparr>s_magic = MAGIC, s_lock = 1\<rparr>\<rparr>"
  have lk: "heap_lock h = Some h1" and lk1: "s_heapMutex h1 = \<lparr>s_magic = MAGIC, s_lock = 1\<rparr>"
    using ok by (simp_all add: heap_ok_def heap_lock_ok h1_def)
  have core: "heap_core h1 xs" and co: "coalesced xs" using ok by (simp_all add: heap_ok_def heap_core_def h1_def)
  from core have ch: "chain (h_blocks h1) 0 0 xs 0" and hs: "heap_start h1 = (if xs = [] then 0 else haddr 0)" by (simp_all add: heap_core_def)
  have fb: "fresh_bytes h1 h' p k = fresh_bytes h h' p k" for h' p by (simp add: fresh_bytes_def h1_def)
  have sr: "0 + seglen xs < HMAX" "41 + k < 2 ^ 64" using r by (auto simp: HMAX_def)
  have km: "kmalloc (of_nat k) line fn h = (kmalloc_search (h_blocks h1) (if xs = [] then 0 else haddr 0) (of_nat (41 + k)) \<bind>
      (\<lambda>entry. if entry \<noteq> 0 then kmalloc_reuse entry (of_nat k) line fn h1 else kmalloc_grow (of_nat k) line fn h1))"
    by (simp only: kmalloc_def lk of_nat_size hs bind.bind_lunit)
  from kmalloc_search_chain [OF ch sr] show ?thesis
  proof
    assume a: "kmalloc_search (h_blocks h1) (if xs = [] then 0 else haddr 0) (of_nat (41 + k)) = Some 0 \<and>
        (\<forall>s \<in> set xs. \<not> (snd s \<and> 41 + k \<le> fst s))"
    then have sa: "seg_alloc (41 + k) 0 xs = (seglen xs, xs @ [(41 + k, False)])" by (simp add: seg_alloc_none)
    from kmalloc_grow_ok [OF core co lk1 r, of line fn] show ?thesis
      unfolding km sa fst_conv snd_conv fb using conjunct1 [OF a] by (simp only: bind.bind_lunit simp_thms if_False)
  next
    assume "\<exists>ys n zs. xs = ys @ (n, True) # zs \<and> 41 + k \<le> n \<and> (\<forall>s \<in> set ys. \<not> (snd s \<and> 41 + k \<le> fst s)) \<and>
       kmalloc_search (h_blocks h1) (if xs = [] then 0 else haddr 0) (of_nat (41 + k)) = Some (haddr (0 + seglen ys))"
    then obtain ys n zs where a: "xs = ys @ (n, True) # zs" "41 + k \<le> n" "\<forall>s \<in> set ys. \<not> (snd s \<and> 41 + k \<le> fst s)"
      "kmalloc_search (h_blocks h1) (if xs = [] then 0 else haddr 0) (of_nat (41 + k)) = Some (haddr (seglen ys))" by auto
    have nz: "haddr (seglen ys) \<noteq> 0" using sr a(1) by (intro haddr_nz) (simp add: HMAX_def)
    have sa: "seg_alloc (41 + k) 0 xs = (seglen ys, ys @ (if n - (41 + k) \<le> 41 then [(n, False)] else [(41 + k, False), (n - (41 + k), True)]) @ zs)"
      unfolding a(1) using seg_alloc_some [OF a(3,2), of 0 zs] by (simp only: add_0)
    from kmalloc_reuse_ok [OF core [unfolded a(1)] co [unfolded a(1)] lk1 a(2), of line fn] show ?thesis
      unfolding km sa fst_conv snd_conv fb using a(4) nz by (simp only: bind.bind_lunit simp_thms if_True)
  qed
qed

section \<open>Release refines the abstract release\<close>

lemma chain_merge:
  assumes ch: "chain bs 0 0 (xs @ (n, f) # (m, g) # ys) 0" and len: "seglen (xs @ (n, f) # (m, g) # ys) < HMAX"
    and b: "bs (haddr (seglen xs)) = Some b" and s: "bs (haddr (seglen xs + n)) = Some s"
    and bs1: "bs1 = bs(haddr (seglen xs) \<mapsto> b\<lparr>b_size := b_size b + b_size s, b_next := b_next s\<rparr>)"
    and bs2: "bs2 = (case ys of [] \<Rightarrow> bs1 | _ \<Rightarrow>
          bs1(haddr (seglen xs + n + m) \<mapsto> the (bs (haddr (seglen xs + n + m)))\<lparr>b_prev := haddr (seglen xs)\<rparr>))"
    and bs3: "bs3 = bs2(haddr (seglen xs + n) \<mapsto> c)"
  shows "chain bs3 0 0 (xs @ (n + m, f) # ys) 0"
proof -
  let ?o = "seglen xs"
  have nm: "41 \<le> n" "41 \<le> m" and lt: "?o + n + m < 2 ^ 40" using ch len by (auto simp: chain_append HMAX_def)
  have ne: "haddr ?o \<noteq> haddr (?o + n)" "haddr (?o + n + m) \<noteq> haddr ?o" "haddr (?o + n + m) \<noteq> haddr (?o + n)"
    using nm lt by (simp_all add: haddr_inj)
  have xs: "chain bs3 0 0 xs (haddr ?o)"
  proof -
    have "chain bs 0 0 xs (haddr ?o)" using ch by (simp add: chain_append)
    moreover have "chain bs3 0 0 xs (haddr ?o) = chain bs 0 0 xs (haddr ?o)"
    proof (rule chain_frame)
      fix q assume q: "0 \<le> q" "q < 0 + seglen xs"
      then have "haddr q \<noteq> haddr ?o" "haddr q \<noteq> haddr (?o + n)" "haddr q \<noteq> haddr (?o + n + m)"
        using nm lt by (simp_all add: haddr_inj)
      then show "bs3 (haddr q) = bs (haddr q)" using bs1 bs2 bs3 by (auto split: list.splits)
    qed
    ultimately show ?thesis by simp
  qed
  have ys: "chain bs3 (haddr ?o) (?o + n + m) ys 0"
  proof (cases ys)
    case (Cons t zs)
    have c0: "chain bs (haddr (?o + n)) (?o + n + m) (t # zs) 0" using ch Cons by (simp add: chain_append add.assoc)
    have bnd: "?o + n + m + seglen (t # zs) \<le> 2 ^ 40" using len Cons by (simp add: HMAX_def)
    have c1: "chain bs1 (haddr (?o + n)) (?o + n + m) (t # zs) 0"
      unfolding bs1 using c0 bnd nm by (subst chain_upd) auto
    obtain b3 where b3: "bs (haddr (?o + n + m)) = Some b3" using c0 by auto
    have "bs1 (haddr (?o + n + m)) = Some b3" using b3 ne bs1 by simp
    from chain_set_prev [OF c1 this bnd, of "haddr ?o"] have "chain bs2 (haddr ?o) (?o + n + m) (t # zs) 0"
      unfolding bs2 Cons list.case b3 option.sel .
    then show ?thesis unfolding bs3 Cons using bnd nm by (subst chain_upd) auto
  qed simp
  have "bs3 (haddr ?o) = Some (b\<lparr>b_size := b_size b + b_size s, b_next := b_next s\<rparr>)"
    using ne bs1 bs2 bs3 by (auto split: list.splits)
  moreover have "blk_ok (last_blk 0 0 xs) (haddr (?o + n)) (n, f) b" "blk_ok (haddr ?o) (if ys = [] then 0 else haddr (?o + n + m)) (m, g) s"
    using ch b s by (auto simp: chain_append add.assoc)
  ultimately show ?thesis using xs ys nm by (auto simp: chain_append blk_ok_def add.assoc)
qed

lemma mergeBlocks_ok:
  assumes core: "heap_core h (xs @ (n, f) # (m, g) # ys)"
  shows "\<exists>bs. mergeBlocks (haddr (seglen xs)) (haddr (seglen xs + n)) h =
       Some (h\<lparr>h_blocks := bs, heap_last := last_blk 0 0 (xs @ (n + m, f) # ys)\<rparr>) \<and>
     heap_core (h\<lparr>h_blocks := bs, heap_last := last_blk 0 0 (xs @ (n + m, f) # ys)\<rparr>) (xs @ (n + m, f) # ys)"
proof -
  let ?o = "seglen xs"
  from core have ch: "chain (h_blocks h) 0 0 (xs @ (n, f) # (m, g) # ys) 0" and len: "seglen (xs @ (n, f) # (m, g) # ys) < HMAX"
    and hl: "heap_last h = last_blk 0 0 (xs @ (n, f) # (m, g) # ys)" by (simp_all add: heap_core_def)
  from ch obtain b where b: "h_blocks h (haddr ?o) = Some b" "b_magic b = HEAP_MAGIC" by (auto simp: chain_append blk_ok_def)
  from ch obtain s where s: "h_blocks h (haddr (?o + n)) = Some s" "b_magic s = HEAP_MAGIC"
    "b_next s = (if ys = [] then 0 else haddr (?o + n + m))" by (auto simp: chain_append blk_ok_def add.assoc split: if_splits)
  have nm: "41 \<le> n" "41 \<le> m" and lt: "?o + n + m < 2 ^ 40" using ch len by (auto simp: chain_append HMAX_def)
  have ne: "haddr ?o \<noteq> haddr (?o + n)" "haddr (?o + n + m) \<noteq> haddr ?o" "haddr (?o + n + m) \<noteq> haddr (?o + n)"
    using nm lt by (simp_all add: haddr_inj)
  have nz: "haddr ?o \<noteq> 0" "haddr (?o + n) \<noteq> 0" "haddr (?o + n + m) \<noteq> 0" using lt by (auto intro!: haddr_nz)
  define bs1 where "bs1 = (h_blocks h)(haddr ?o \<mapsto> b\<lparr>b_size := b_size b + b_size s, b_next := b_next s\<rparr>)"
  define bs2 where "bs2 = (case ys of [] \<Rightarrow> bs1 | _ \<Rightarrow>
          bs1(haddr (?o + n + m) \<mapsto> the (h_blocks h (haddr (?o + n + m)))\<lparr>b_prev := haddr ?o\<rparr>))"
  define bs3 where "bs3 = bs2(haddr (?o + n) \<mapsto> s\<lparr>b_magic := 0\<rparr>)"
  define h' where "h' = h\<lparr>h_blocks := bs3, heap_last := last_blk 0 0 (xs @ (n + m, f) # ys)\<rparr>"
  have c3: "chain bs3 0 0 (xs @ (n + m, f) # ys) 0"
    by (rule chain_merge [OF ch len b(1) s(1) bs1_def bs2_def bs3_def])
  have s1: "bs1 (haddr (?o + n)) = Some s" "bs2 (haddr (?o + n)) = Some s"
    using s(1) ne by (auto simp: bs1_def bs2_def split: list.splits)
  have h1: "update_header (haddr ?o) (\<lambda>b. b\<lparr>b_size := b_size b + b_size s, b_next := b_next s\<rparr>) h = Some (h\<lparr>h_blocks := bs1\<rparr>)"
    using b(1) nz by (simp add: update_header_def bs1_def)
  have h2: "(if b_next s \<noteq> 0 then update_header (b_next s) (\<lambda>b. b\<lparr>b_prev := haddr ?o\<rparr>) (h\<lparr>h_blocks := bs1\<rparr>)
            else Some (h\<lparr>h_blocks := bs1, heap_last := haddr ?o\<rparr>)) = Some (h\<lparr>h_blocks := bs2, heap_last := last_blk 0 0 (xs @ (n + m, f) # ys)\<rparr>)"
  proof (cases ys)
    case Nil
    then show ?thesis using s(3) by (simp add: bs2_def)
  next
    case (Cons t zs)
    then obtain b3 where b3: "h_blocks h (haddr (?o + n + m)) = Some b3" using ch by (auto simp: chain_append add.assoc)
    have "bs1 (haddr (?o + n + m)) = Some b3" using b3 ne by (simp add: bs1_def)
    then show ?thesis using s(3) nz Cons b3 hl by (simp add: bs2_def update_header_def add.assoc)
  qed
  have h3: "update_header (haddr (?o + n)) (\<lambda>b. b\<lparr>b_magic := 0\<rparr>) (h\<lparr>h_blocks := bs2, heap_last := last_blk 0 0 (xs @ (n + m, f) # ys)\<rparr>) = Some h'"
    using s1(2) nz by (simp add: update_header_def h'_def bs3_def)
  have d: "deref (h_blocks h) (haddr ?o) = Some b" "deref (h_blocks h) (haddr (?o + n)) = Some s" using b s nz by simp_all
  have "mergeBlocks (haddr ?o) (haddr (?o + n)) h = Some h'"
    by (simp only: mergeBlocks_def d b(2) s(2) bind.bind_lunit kassert_True simp_thms h1 h2 h3)
  moreover have "heap_core h' (xs @ (n + m, f) # ys)"
    using c3 core by (auto simp: heap_core_def h'_def add.assoc)
  ultimately show ?thesis unfolding h'_def by blast
qed

text \<open>Nothing but headers and the heap's end pointers changes while blocks are merged.\<close>

definition same_rest :: "heap \<Rightarrow> heap \<Rightarrow> bool" where
  "same_rest h h' \<longleftrightarrow> s_heapMutex h' = s_heapMutex h \<and> h_bytes h' = h_bytes h"

lemma merge_next_ok:
  assumes core: "heap_core h (xs @ (n, True) # ys)"
  shows "\<exists>h'. merge_next (haddr (seglen xs)) h = Some h' \<and> heap_core h' (xs @ merge_right n ys) \<and> same_rest h h'"
proof -
  let ?o = "seglen xs"
  from core have ch: "chain (h_blocks h) 0 0 (xs @ (n, True) # ys) 0" and len: "seglen (xs @ (n, True) # ys) < HMAX" by (simp_all add: heap_core_def)
  from ch obtain b where b: "h_blocks h (haddr ?o) = Some b" "b_next b = (if ys = [] then 0 else haddr (?o + n))"
    by (auto simp: chain_append blk_ok_def split: if_splits)
  have nz: "haddr ?o \<noteq> 0" using len by (intro haddr_nz) (simp add: HMAX_def)
  show ?thesis
  proof (cases ys)
    case Nil
    then show ?thesis using core b nz by (simp add: merge_next_def same_rest_def)
  next
    case (Cons s zs)
    obtain m g where s: "s = (m, g)" by (cases s)
    obtain nb where nb: "h_blocks h (haddr (?o + n)) = Some nb" "b_available nb = g" and m: "41 \<le> m"
      using ch Cons s by (auto simp: chain_append blk_ok_def)
    have nz2: "haddr (?o + n) \<noteq> 0" using len Cons s m by (intro haddr_nz) (simp add: HMAX_def)
    have step: "merge_next (haddr ?o) h = (if g then mergeBlocks (haddr ?o) (haddr (?o + n)) h else Some h)"
      using b nb nz nz2 Cons by (simp add: merge_next_def)
    show ?thesis
    proof (cases g)
      case True
      from mergeBlocks_ok [of h xs n True m g zs] core obtain bs where
        "mergeBlocks (haddr ?o) (haddr (?o + n)) h = Some (h\<lparr>h_blocks := bs, heap_last := last_blk 0 0 (xs @ (n + m, True) # zs)\<rparr>)"
        "heap_core (h\<lparr>h_blocks := bs, heap_last := last_blk 0 0 (xs @ (n + m, True) # zs)\<rparr>) (xs @ (n + m, True) # zs)"
        unfolding Cons s by blast
      then show ?thesis using step True Cons s by (auto simp: same_rest_def)
    next
      case False
      then show ?thesis using step core Cons s by (simp add: same_rest_def)
    qed
  qed
qed

lemma merge_prev_ok:
  assumes core: "heap_core h (xs @ (n, True) # ys)"
  shows "\<exists>h'. merge_prev (haddr (seglen xs)) h = Some h' \<and> heap_core h' (merge_left xs ((n, True) # ys)) \<and> same_rest h h'"
proof -
  let ?o = "seglen xs"
  from core have ch: "chain (h_blocks h) 0 0 (xs @ (n, True) # ys) 0" and len: "seglen (xs @ (n, True) # ys) < HMAX" by (simp_all add: heap_core_def)
  from ch obtain b where b: "h_blocks h (haddr ?o) = Some b" "b_prev b = last_blk 0 0 xs"
    by (auto simp: chain_append blk_ok_def split: if_splits)
  have nz: "haddr ?o \<noteq> 0" using len by (intro haddr_nz) (simp add: HMAX_def)
  show ?thesis
  proof (cases xs rule: rev_cases)
    case Nil
    then show ?thesis using core b nz by (simp add: merge_prev_def merge_left_def same_rest_def)
  next
    case (snoc zs s)
    obtain m g where s: "s = (m, g)" by (cases s)
    obtain pb where pb: "h_blocks h (haddr (seglen zs)) = Some pb" "b_available pb = g"
      using ch snoc s by (auto simp: chain_append blk_ok_def)
    have nz2: "haddr (seglen zs) \<noteq> 0" using len snoc by (intro haddr_nz) (simp add: HMAX_def)
    have step: "merge_prev (haddr ?o) h = (if g then mergeBlocks (haddr (seglen zs)) (haddr ?o) h else Some h)"
      using b pb nz nz2 snoc s by (simp add: merge_prev_def)
    have o: "?o = seglen zs + m" using snoc s by simp
    show ?thesis
    proof (cases g)
      case True
      from mergeBlocks_ok [of h zs m g n True ys] core obtain bs where
        "mergeBlocks (haddr (seglen zs)) (haddr (seglen zs + m)) h = Some (h\<lparr>h_blocks := bs, heap_last := last_blk 0 0 (zs @ (m + n, g) # ys)\<rparr>)"
        "heap_core (h\<lparr>h_blocks := bs, heap_last := last_blk 0 0 (zs @ (m + n, g) # ys)\<rparr>) (zs @ (m + n, g) # ys)"
        unfolding snoc s by auto
      then show ?thesis using step True snoc s o by (auto simp: merge_left_def same_rest_def)
    next
      case False
      then show ?thesis using step core snoc s by (simp add: merge_left_def same_rest_def)
    qed
  qed
qed

lemma kfree_shrink_stop:
  assumes core: "heap_core h xs" and "xs = [] \<or> \<not> snd (last xs)"
  shows "kfree_shrink h = Some h"
proof (cases xs rule: rev_cases)
  case Nil
  then show ?thesis using core by (subst kfree_shrink.simps) (simp add: heap_core_def)
next
  case (snoc ys s)
  from core have ch: "chain (h_blocks h) 0 0 (ys @ s # []) 0" and len: "seglen xs < HMAX" and hl: "heap_last h = haddr (seglen ys)"
    by (simp_all add: heap_core_def snoc)
  from ch obtain b where "h_blocks h (haddr (seglen ys)) = Some b" "b_available b = snd s" by (auto simp: chain_append blk_ok_def)
  moreover have "haddr (seglen ys) \<noteq> 0" using len snoc by (intro haddr_nz) (simp add: HMAX_def)
  ultimately show ?thesis using assms(2) snoc hl by (subst kfree_shrink.simps) simp
qed

lemma kfree_shrink_ok:
  assumes core: "heap_core h xs" and su: "successively (\<lambda>s t. \<not> (snd s \<and> snd t)) xs"
  shows "\<exists>h'. kfree_shrink h = Some h' \<and> heap_core h' (drop_free_end xs) \<and> same_rest h h'"
proof (cases "xs = [] \<or> \<not> snd (last xs)")
  case True
  then show ?thesis using kfree_shrink_stop [OF core True] core by (auto simp: drop_free_end_def same_rest_def)
next
  case False
  then obtain ys n where xs: "xs = ys @ [(n, True)]" by (cases xs rule: rev_cases) auto
  let ?o = "seglen ys"
  from core have ch: "chain (h_blocks h) 0 0 (ys @ (n, True) # []) 0" and len: "?o + n < HMAX" and hl: "heap_last h = haddr ?o"
    and brk: "kheap_break h = haddr (?o + n)" and pg: "pages_ok (h_pages h) (?o + n)" by (simp_all add: heap_core_def xs)
  from ch obtain b where b: "h_blocks h (haddr ?o) = Some b" "b_available b" "b_prev b = last_blk 0 0 ys" "b_size b = of_nat n" and n: "41 \<le> n"
    by (auto simp: chain_append blk_ok_def)
  have nz: "haddr ?o \<noteq> 0" using len by (intro haddr_nz) (simp add: HMAX_def)
  have lt: "?o < 2 ^ 40" "seglen ys < HMAX" using len by (simp_all add: HMAX_def)
  define bs1 where "bs1 = (h_blocks h)(haddr ?o \<mapsto> b\<lparr>b_magic := 0\<rparr>)"
  have c1: "chain bs1 0 0 ys (haddr ?o)"
    unfolding bs1_def using ch lt by (subst chain_upd) (auto simp: chain_append)
  define bs2 where "bs2 = (if ys = [] then bs1 else bs1(last_blk 0 0 ys \<mapsto> the (bs1 (last_blk 0 0 ys))\<lparr>b_next := 0\<rparr>))"
  have c2: "chain bs2 0 0 ys 0 \<and> (ys \<noteq> [] \<longrightarrow> bs1 (last_blk 0 0 ys) \<noteq> None)"
  proof (cases ys rule: rev_cases)
    case (snoc zs s)
    then obtain c where c: "bs1 (haddr (0 + seglen zs)) = Some c" using c1 by (auto simp: chain_append)
    have "chain (bs1(haddr (0 + seglen zs) \<mapsto> c\<lparr>b_next := 0\<rparr>)) 0 0 (zs @ [s]) 0"
      by (rule chain_set_next) (use c1 c lt snoc in auto)
    then show ?thesis using c snoc by (auto simp: bs2_def)
  qed (simp add: bs2_def)
  define h2 where "h2 = h\<lparr>h_blocks := bs2, heap_last := last_blk 0 0 ys, heap_start := (if ys = [] then 0 else heap_start h)\<rparr>"
  have "\<exists>pages. kbrk (- of_nat n) h2 = Some (haddr (?o + n), h2\<lparr>kheap_break := haddr ?o, h_pages := pages\<rparr>) \<and> pages_ok pages ?o"
    by (rule kbrk_shrink) (use brk pg len n in \<open>auto simp: h2_def\<close>)
  then obtain pages where kb: "kbrk (- of_nat n) h2 = Some (haddr (?o + n), h2\<lparr>kheap_break := haddr ?o, h_pages := pages\<rparr>)"
    and pg': "pages_ok pages ?o" by blast
  define h3 where "h3 = h2\<lparr>kheap_break := haddr ?o, h_pages := pages\<rparr>"
  have core3: "heap_core h3 ys" using c2 pg' lt core by (auto simp: heap_core_def h3_def h2_def xs)
  have "ys = [] \<or> \<not> snd (last ys)" using su by (auto simp: xs successively_append_iff)
  note stop = kfree_shrink_stop [OF core3 this]
  have h1: "update_header (haddr ?o) (\<lambda>b. b\<lparr>b_magic := 0\<rparr>) h = Some (h\<lparr>h_blocks := bs1\<rparr>)"
    using b(1) nz by (simp add: update_header_def bs1_def)
  have h2: "(if b_prev b \<noteq> 0 then do { h2 \<leftarrow> update_header (b_prev b) (\<lambda>b. b\<lparr>b_next := 0\<rparr>) (h\<lparr>h_blocks := bs1\<rparr>); Some (h2\<lparr>heap_last := b_prev b\<rparr>) }
             else Some (h\<lparr>h_blocks := bs1, heap_start := 0, heap_last := 0\<rparr>)) = Some h2"
    using c2 last_blk_nz [of ys] lt b(3) by (cases "ys = []") (auto simp: update_header_def bs2_def h2_def)
  have "kfree_shrink h = Some h3"
    using b nz hl h1 h2 kb stop by (subst kfree_shrink.simps) (simp add: h3_def)
  moreover have "drop_free_end xs = ys" by (simp add: xs drop_free_end_def)
  ultimately show ?thesis using core3 by (auto simp: same_rest_def h3_def h2_def)
qed

lemma merge_right_head: "\<exists>m zs. merge_right n ys = (m, True) # zs"
  by (induction n ys rule: merge_right.induct) simp_all

abbreviation no_free_pair :: "seg list \<Rightarrow> bool" where
  "no_free_pair \<equiv> successively (\<lambda>s t. \<not> (snd s \<and> snd t))"

lemma coalesced_no_pair: "coalesced xs \<Longrightarrow> no_free_pair xs"
  by (simp add: coalesced_def)

lemma merged_no_pair:
  assumes "coalesced (xs @ (n, False) # ys)"
  shows "no_free_pair (merge_left xs (merge_right n ys))"
proof -
  from assms have x: "no_free_pair xs" and y: "no_free_pair ys"
    by (auto simp: coalesced_def successively_append_iff successively_Cons)
  obtain m zs where r: "merge_right n ys = (m, True) # zs" and z: "no_free_pair zs" "zs = [] \<or> \<not> snd (hd zs)"
  proof (cases ys)
    case (Cons s ws)
    then show thesis using y that by (cases s; cases "snd s") (auto simp: successively_Cons)
  qed (use that in simp)
  show ?thesis
  proof (cases xs rule: rev_cases)
    case Nil
    then show ?thesis using r z by (auto simp: merge_left_def successively_Cons)
  next
    case (snoc ws s)
    then show ?thesis using r z x by (auto simp: merge_left_def successively_Cons successively_append_iff)
  qed
qed

lemma drop_free_end_coalesced: "no_free_pair xs \<Longrightarrow> coalesced (drop_free_end xs)"
  by (cases xs rule: rev_cases) (auto simp: drop_free_end_def coalesced_def successively_append_iff)


lemma last_blk_ge:
  assumes "chain bs 0 0 (xs @ s # ys) 0" and "seglen (xs @ s # ys) < HMAX"
  shows "\<exists>p. seglen xs \<le> p \<and> p < HMAX \<and> last_blk 0 0 (xs @ s # ys) = haddr p"
proof (cases ys rule: rev_cases)
  case Nil
  then show ?thesis using assms(2) by (intro exI [of _ "seglen xs"]) simp
next
  case (snoc zs t)
  then show ?thesis using assms(2) by (intro exI [of _ "seglen (xs @ s # zs)"]) (simp add: add.assoc)
qed

lemma kfree_ok:
  assumes ok: "heap_ok h (xs @ (n, False) # ys)"
  shows "\<exists>h'. kfree (haddr (seglen xs + 41)) h = Some h' \<and> heap_ok h' (seg_free xs n ys) \<and> h_bytes h' = h_bytes h"
proof -
  let ?o = "seglen xs"
  define h1 where "h1 = h\<lparr>s_heapMutex := \<lparr>s_magic = MAGIC, s_lock = 1\<rparr>\<rparr>"
  have lk: "heap_lock h = Some h1" using ok by (simp add: heap_ok_def heap_lock_ok h1_def)
  have core: "heap_core h (xs @ (n, False) # ys)" and co: "coalesced (xs @ (n, False) # ys)" using ok by (simp_all add: heap_ok_def)
  then have ch: "chain (h_blocks h) 0 0 (xs @ (n, False) # ys) 0" and len: "seglen (xs @ (n, False) # ys) < HMAX"
    and hs: "heap_start h = haddr 0" and hl: "heap_last h = last_blk 0 0 (xs @ (n, False) # ys)" by (simp_all add: heap_core_def split: if_splits)
  from ch obtain b where b: "h_blocks h (haddr ?o) = Some b" "b_magic b = HEAP_MAGIC" "\<not> b_available b" "41 \<le> n"
    "blk_ok (b_prev b) (b_next b) (n, True) (b\<lparr>b_available := True\<rparr>)"
    by (auto simp: chain_append blk_ok_def)
  have lt: "?o + 41 < HMAX" "?o + 41 < 2 ^ 40" "?o < 2 ^ 40" using len b(4) by (auto simp: HMAX_def)
  have nz: "haddr ?o \<noteq> 0" "haddr (?o + 41) \<noteq> 0" "haddr 0 \<noteq> 0" using lt by (auto intro!: haddr_nz)
  obtain p where p: "?o \<le> p" "p < HMAX" "heap_last h = haddr p" using last_blk_ge [OF ch len] hl by auto
  have guard: "\<not> (heap_last h = 0 \<or> heap_start h = 0 \<or> haddr (?o + 41) < heap_start h \<or> heap_last h + HEADER_SIZE < haddr (?o + 41))"
  proof -
    have "haddr p \<noteq> 0" "p + 41 < 2 ^ 40" using p(2) by (auto intro!: haddr_nz simp: HMAX_def)
    then show ?thesis using p hs nz lt by (simp add: payload_addr word_less_nat_alt unat_haddr)
  qed
  have tofree: "haddr (?o + 41) - HEADER_SIZE = haddr ?o" using payload_addr [of ?o] by (simp add: algebra_simps)
  define h2 where "h2 = h1\<lparr>h_blocks := (h_blocks h)(haddr ?o \<mapsto> b\<lparr>b_available := True\<rparr>)\<rparr>"
  have h2: "update_header (haddr ?o) (\<lambda>b. b\<lparr>b_available := True\<rparr>) h1 = Some h2"
    using b(1) nz by (simp add: update_header_def h2_def h1_def)
  have "chain ((h_blocks h)(haddr (0 + ?o) \<mapsto> b\<lparr>b_available := True\<rparr>)) 0 0 (xs @ (n, True) # ys) 0"
    using len b by (intro chain_set_block [OF ch]) (auto simp: HMAX_def)
  then have core2: "heap_core h2 (xs @ (n, True) # ys)" using core by (auto simp: heap_core_def h2_def h1_def)
  obtain h3 where h3: "merge_next (haddr ?o) h2 = Some h3" "heap_core h3 (xs @ merge_right n ys)" "same_rest h2 h3"
    using merge_next_ok [OF core2] by blast
  obtain m zs where r: "merge_right n ys = (m, True) # zs" using merge_right_head by blast
  obtain h4 where h4: "merge_prev (haddr ?o) h3 = Some h4" "heap_core h4 (merge_left xs (merge_right n ys))" "same_rest h3 h4"
    using merge_prev_ok [of h3 xs m zs] h3(2) unfolding r by blast
  obtain h5 where h5: "kfree_shrink h4 = Some h5" "heap_core h5 (seg_free xs n ys)" "same_rest h4 h5"
    using kfree_shrink_ok [OF h4(2) merged_no_pair [OF co]] unfolding seg_free_def by blast
  have m5: "s_heapMutex h5 = \<lparr>s_magic = MAGIC, s_lock = 1\<rparr>" and by5: "h_bytes h5 = h_bytes h"
    using h3(3) h4(3) h5(3) by (simp_all add: same_rest_def h2_def h1_def)
  define h6 where "h6 = h5\<lparr>s_heapMutex := new_spinlock\<rparr>"
  have h6: "heap_unlock h5 = Some h6" unfolding h6_def by (rule heap_unlock_ok [OF m5])
  have d: "deref (h_blocks h1) (haddr ?o) = Some b" using b(1) nz by (simp add: h1_def)
  have "kfree (haddr (?o + 41)) h = Some h6"
    unfolding kfree_def Let_def tofree using guard lk d b(2,3) h2 h3(1) h4(1) h5(1) h6 nz(2) by simp
  moreover have "heap_ok h6 (seg_free xs n ys)"
    using h5(2) drop_free_end_coalesced [OF merged_no_pair [OF co]] by (simp add: heap_ok_def heap_core_def h6_def seg_free_def)
  ultimately show ?thesis using by5 by (auto simp: h6_def)
qed

section \<open>An allocator as its clients see it\<close>

text \<open>The live regions of a heap: offset and length of the payload of every block in use.\<close>

fun live :: "nat \<Rightarrow> seg list \<Rightarrow> (nat \<times> nat) set" where
  "live p [] = {}"
| "live p ((n, f) # xs) = (if f then {} else {(p + 41, n - 41)}) \<union> live (p + n) xs"

lemma live_append: "live p (xs @ ys) = live p xs \<union> live (p + seglen xs) ys"
proof (induction xs arbitrary: p)
  case (Cons s xs)
  then show ?case by (cases s) (auto simp: add.assoc)
qed simp

lemma live_alloc:
  "snd (seg_alloc r p xs) = zs \<Longrightarrow> fst (seg_alloc r p xs) = q \<Longrightarrow> \<exists>n. r \<le> n \<and> live p zs = insert (q + 41, n - 41) (live p xs)"
proof (induction r p xs arbitrary: zs rule: seg_alloc.induct)
  case (2 r p n f xs)
  show ?case
  proof (cases "f \<and> r \<le> n")
    case True
    then show ?thesis using "2.prems" by (cases "n - r \<le> 41") auto
  next
    case False
    obtain q' ys where a: "seg_alloc r (p + n) xs = (q', ys)" by (cases "seg_alloc r (p + n) xs")
    with 2 False obtain k where "r \<le> k" "live (p + n) ys = insert (q + 41, k - 41) (live (p + n) xs)" by (auto split: if_splits)
    then show ?thesis using a False "2.prems" by auto
  qed
qed auto

lemma live_merge_right: "live p (merge_right n ys) = live (p + n) ys"
  by (induction n ys rule: merge_right.induct) (auto simp: add.assoc)

lemma live_drop_free_end: "live p (drop_free_end xs) = live p xs"
  by (cases xs rule: rev_cases) (auto simp: drop_free_end_def live_append)

lemma live_free: "live 0 (seg_free xs n ys) = live 0 xs \<union> live (seglen xs + n) ys"
proof -
  obtain m zs where r: "merge_right n ys = (m, True) # zs" using merge_right_head by blast
  have "live 0 (merge_left xs (merge_right n ys)) = live 0 xs \<union> live (seglen xs) (merge_right n ys)"
  proof (cases xs rule: rev_cases)
    case (snoc ws s)
    then show ?thesis unfolding r by (cases s) (auto simp: merge_left_def live_append add.assoc)
  qed (simp add: merge_left_def)
  then show ?thesis by (simp add: seg_free_def live_drop_free_end live_merge_right)
qed

text \<open>Every block of a well-formed chain is longer than its header.\<close>

abbreviation long_blocks :: "seg list \<Rightarrow> bool" where
  "long_blocks xs \<equiv> \<forall>s \<in> set xs. 41 \<le> fst s"

lemma chain_long: "chain bs pv p xs e \<Longrightarrow> long_blocks xs"
  by (induction xs arbitrary: pv p) auto

lemma live_bounds: "long_blocks xs \<Longrightarrow> (q, m) \<in> live p xs \<Longrightarrow> p + 41 \<le> q \<and> q + m \<le> p + seglen xs"
proof (induction p xs rule: live.induct)
  case (2 p n f xs)
  then show ?case by (fastforce split: if_splits)
qed simp

lemma live_split:
  "(q, m) \<in> live p xs \<Longrightarrow> long_blocks xs \<Longrightarrow>
   \<exists>ys n zs. xs = ys @ (n, False) # zs \<and> q = p + seglen ys + 41 \<and> n = m + 41"
proof (induction p xs rule: live.induct)
  case (2 p n f xs)
  show ?case
  proof (cases "\<not> f \<and> q = p + 41 \<and> m = n - 41")
    case True
    then show ?thesis using 2 by (intro exI [of _ "[]"]) auto
  next
    case False
    with 2 obtain ys k zs where "xs = ys @ (k, False) # zs" "q = p + n + seglen ys + 41" "k = m + 41" by (auto split: if_splits)
    then show ?thesis by (intro exI [of _ "(n, f) # ys"]) (auto simp: add.assoc)
  qed
qed simp

lemma live_disjoint:
  assumes "(q, m) \<in> live p xs" and "(q', m') \<in> live p xs" and "long_blocks xs" and "q \<noteq> q'"
  shows "q + m \<le> q' \<or> q' + m' \<le> q"
  using assms
proof (induction p xs rule: live.induct)
  case (2 p n f xs)
  have b: "\<And>r k. (r, k) \<in> live (p + n) xs \<Longrightarrow> p + n + 41 \<le> r" using live_bounds 2(4) by fastforce
  show ?case using 2 b by (fastforce split: if_splits)
qed simp

locale allocator =
  fixes good :: "'h \<Rightarrow> (nat \<times> nat) set \<Rightarrow> bool"
    and fits :: "nat \<Rightarrow> 'h \<Rightarrow> bool"
    and alloc_op :: "nat \<Rightarrow> 'h \<Rightarrow> (nat \<times> 'h) option"
    and free_op :: "nat \<Rightarrow> 'h \<Rightarrow> 'h option"
  assumes disjoint_law: "good h L \<Longrightarrow> (q, m) \<in> L \<Longrightarrow> (q', m') \<in> L \<Longrightarrow> q \<noteq> q' \<Longrightarrow> q + m \<le> q' \<or> q' + m' \<le> q"
    and alloc_law: "good h L \<Longrightarrow> fits k h \<Longrightarrow>
      \<exists>p n h'. alloc_op k h = Some (p, h') \<and> k \<le> n \<and> good h' (insert (p, n) L) \<and> p \<notin> fst ` L"
    and free_law: "good h L \<Longrightarrow> (p, n) \<in> L \<Longrightarrow> \<exists>h'. free_op p h = Some h' \<and> good h' (L - {(p, n)})"
begin

text \<open>A region handed out overlaps no region that is live, and releasing it leaves the others.\<close>

lemma alloc_separate:
  assumes "good h L" and "fits k h"
  shows "\<exists>p h'. alloc_op k h = Some (p, h') \<and> (\<forall>(q, m) \<in> L. p + k \<le> q \<or> q + m \<le> p) \<and>
     (\<exists>h''. free_op p h' = Some h'' \<and> good h'' L)"
proof -
  from alloc_law [OF assms] obtain p n h' where a: "alloc_op k h = Some (p, h')" "k \<le> n" "good h' (insert (p, n) L)" "p \<notin> fst ` L" by blast
  have "p + k \<le> q \<or> q + m \<le> p" if "(q, m) \<in> L" for q m
  proof -
    have "q \<noteq> p" using that a(4) by force
    then show ?thesis using disjoint_law [OF a(3), of q m p n] that a(2) by auto
  qed
  moreover have "insert (p, n) L - {(p, n)} = L" using a(4) by force
  with free_law [OF a(3), of p n] have "\<exists>h''. free_op p h' = Some h'' \<and> good h'' L" by auto
  ultimately show ?thesis using a(1) by blast
qed

end

lemma seg_alloc_fresh: "long_blocks xs \<Longrightarrow> fst (seg_alloc r p xs) + 41 \<notin> fst ` live p xs"
proof (induction r p xs rule: seg_alloc.induct)
  case (2 r p n f xs)
  have lb: "\<And>q m. (q, m) \<in> live (p + n) xs \<Longrightarrow> p + n + 41 \<le> q" using live_bounds 2(2) by fastforce
  have ge: "p \<le> fst (seg_alloc r p xs)" for p xs
    by (induction r p xs rule: seg_alloc.induct) (auto simp: split_def Let_def)
  show ?case
  proof (cases "f \<and> r \<le> n")
    case True
    then show ?thesis using lb 2(2) by force
  next
    case False
    then have "fst (seg_alloc r (p + n) xs) + 41 \<notin> fst ` live (p + n) xs" using 2 by auto
    moreover have "fst (seg_alloc r p ((n, f) # xs)) = fst (seg_alloc r (p + n) xs)" using False by (auto simp: split_def Let_def)
    moreover have "p + n \<le> fst (seg_alloc r (p + n) xs)" by (rule ge)
    moreover have "41 \<le> n" using 2(2) by simp
    ultimately show ?thesis by auto
  qed
qed simp

definition heap_live :: "heap \<Rightarrow> (nat \<times> nat) set \<Rightarrow> bool" where
  "heap_live h L \<longleftrightarrow> (\<exists>xs. heap_ok h xs \<and> L = live 0 xs)"

definition heap_fits :: "nat \<Rightarrow> heap \<Rightarrow> bool" where
  "heap_fits k h \<longleftrightarrow> unat (kheap_break h - KHEAP_START) + (41 + k) < HMAX"

definition kmalloc_off :: "nat \<Rightarrow> heap \<Rightarrow> (nat \<times> heap) option" where
  "kmalloc_off k h = do { (p, h') \<leftarrow> kmalloc (of_nat k) 0 0 h; Some (unat (p - KHEAP_START), h') }"

lemma haddr_off: "p < 2 ^ 40 \<Longrightarrow> unat (haddr p - KHEAP_START) = p"
  by (simp add: haddr_def unat_of_nat take_bit_nat_eq_self)

lemma heap_ok_long: "heap_ok h xs \<Longrightarrow> long_blocks xs"
  by (auto simp: heap_ok_def heap_core_def dest: chain_long)

interpretation kheap: allocator heap_live heap_fits kmalloc_off "\<lambda>p. kfree (haddr p)"
proof
  fix h L q m q' m' assume "heap_live h L" "(q, m) \<in> L" "(q', m') \<in> L" "q \<noteq> q'"
  then show "q + m \<le> q' \<or> q' + m' \<le> q" by (metis heap_live_def live_disjoint heap_ok_long)
next
  fix h L k assume "heap_live h L" "heap_fits k h"
  then obtain xs where ok: "heap_ok h xs" and L: "L = live 0 xs" by (auto simp: heap_live_def)
  then have "kheap_break h = haddr (seglen xs)" "seglen xs < HMAX" by (simp_all add: heap_ok_def heap_core_def)
  then have fit: "seglen xs + (41 + k) < HMAX" using \<open>heap_fits k h\<close> haddr_off [of "seglen xs"] by (simp add: heap_fits_def HMAX_def)
  define q zs where "q = fst (seg_alloc (41 + k) 0 xs)" and "zs = snd (seg_alloc (41 + k) 0 xs)"
  obtain h' where h': "kmalloc (of_nat k) 0 0 h = Some (haddr (q + 41), h')" "heap_ok h' zs"
    using kmalloc_ok [OF ok fit, of 0 0] by (auto simp: q_def zs_def)
  obtain n where n: "41 + k \<le> n" "live 0 zs = insert (q + 41, n - 41) (live 0 xs)"
    using live_alloc [of "41 + k" 0 xs zs q] by (auto simp: q_def zs_def)
  have "(q + 41, n - 41) \<in> live 0 zs" using n(2) by simp
  then have "q + 41 \<le> seglen zs" using live_bounds heap_ok_long [OF h'(2)] by fastforce
  moreover have "seglen zs < HMAX" using h'(2) by (simp add: heap_ok_def heap_core_def)
  ultimately have "unat (haddr (q + 41) - KHEAP_START) = q + 41" by (intro haddr_off) (simp add: HMAX_def)
  then have "kmalloc_off k h = Some (q + 41, h')" using h'(1) by (simp add: kmalloc_off_def)
  moreover have "q + 41 \<notin> fst ` L" using seg_alloc_fresh [OF heap_ok_long [OF ok]] by (simp add: q_def L)
  moreover have "heap_live h' (insert (q + 41, n - 41) L)" using h'(2) n(2) L by (auto simp: heap_live_def)
  ultimately show "\<exists>p n h'. kmalloc_off k h = Some (p, h') \<and> k \<le> n \<and> heap_live h' (insert (p, n) L) \<and> p \<notin> fst ` L"
    using n(1) by (intro exI [of _ "q + 41"] exI [of _ "n - 41"] exI [of _ h']) auto
next
  fix h L p n assume "heap_live h L" "(p, n) \<in> L"
  then obtain xs where ok: "heap_ok h xs" and L: "L = live 0 xs" by (auto simp: heap_live_def)
  have lb: "long_blocks xs" by (rule heap_ok_long [OF ok])
  obtain ys k zs where xs: "xs = ys @ (k, False) # zs" "p = 0 + seglen ys + 41" "k = n + 41"
    using live_split [of p n 0 xs] \<open>(p, n) \<in> L\<close> L lb by auto
  obtain h' where h': "kfree (haddr p) h = Some h'" "heap_ok h' (seg_free ys k zs)"
    using kfree_ok [of h ys k zs] ok xs by auto
  have b: "\<And>q m. (q, m) \<in> live 0 ys \<Longrightarrow> q \<le> seglen ys" "\<And>q m. (q, m) \<in> live (seglen ys + k) zs \<Longrightarrow> seglen ys + k + 41 \<le> q"
    using lb live_bounds [of ys _ _ 0] live_bounds [of zs _ _ "seglen ys + k"] by (fastforce simp: xs)+
  have nb: "(p, n) \<notin> live 0 ys" "(p, n) \<notin> live (seglen ys + k) zs"
    using b(1) [of p n] b(2) [of p n] xs(2,3) by auto
  have "L = insert (p, n) (live 0 ys \<union> live (seglen ys + k) zs)"
    unfolding L xs(1) live_append using xs(2,3) by auto
  then have "live 0 (seg_free ys k zs) = L - {(p, n)}" unfolding live_free using nb by auto
  then show "\<exists>h'. kfree (haddr p) h = Some h' \<and> heap_live h' (L - {(p, n)})"
    using h' by (auto simp: heap_live_def)
qed

section \<open>Correctness of the heap\<close>

lemma initHeap_ok: "pages_ok pages 0 \<Longrightarrow> heap_ok (initHeap pages bytes) []"
  by (simp add: heap_ok_def heap_core_def coalesced_def initHeap_def haddr_def HMAX_def)

lemma pages_ok_none: "pages_ok (\<lambda>_. False) 0"
  by (simp add: pages_ok_def)





text \<open>A block that \<^verbatim>\<open>kmalloc\<close> hands out overlaps no block that is in use (and is as long as asked for),
  and after \<^verbatim>\<open>kfree\<close> exactly the earlier blocks are in use again.\<close>

theorem kmalloc_separate:
  assumes "heap_live h L" and "heap_fits k h"
  shows "\<exists>p h'. kmalloc_off k h = Some (p, h') \<and> (\<forall>(q, m) \<in> L. p + k \<le> q \<or> q + m \<le> p) \<and>
     (\<exists>h''. kfree (haddr p) h' = Some h'' \<and> heap_live h'' L)"
  by (rule kheap.alloc_separate [OF assms])

theorem kmalloc_separate_witness:
  "\<exists>p h'. kmalloc_off 100 (initHeap (\<lambda>_. False) (\<lambda>_. 255)) = Some (p, h')"
proof -
  have "heap_live (initHeap (\<lambda>_. False) (\<lambda>_. 255)) {}"
    unfolding heap_live_def by (intro exI [of _ "[]"]) (simp add: initHeap_ok [OF pages_ok_none])
  moreover have "heap_fits 100 (initHeap (\<lambda>_. False) (\<lambda>_. 255))" by (simp add: heap_fits_def initHeap_def HMAX_def)
  ultimately show ?thesis using kmalloc_separate by blast
qed

section \<open>A second release panics\<close>

definition dead :: "heap \<Rightarrow> addr \<Rightarrow> bool" where
  "dead h a \<longleftrightarrow> (\<exists>b. h_blocks h a = Some b \<and> (b_magic b \<noteq> HEAP_MAGIC \<or> b_available b))"

lemma update_header_dead:
  assumes "update_header p f h = Some h'" and "dead h a"
    and "\<And>b. b_magic b \<noteq> HEAP_MAGIC \<or> b_available b \<Longrightarrow> b_magic (f b) \<noteq> HEAP_MAGIC \<or> b_available (f b)"
  shows "dead h' a"
  using assms by (auto simp: update_header_def dead_def bind_eq_Some_conv modify_def deref_def split: option.splits if_splits)

lemma HEAP_MAGIC_nz: "HEAP_MAGIC \<noteq> 0"
  by (simp add: HEAP_MAGIC_def)

lemma mergeBlocks_dead: "mergeBlocks p q h = Some h' \<Longrightarrow> dead h a \<Longrightarrow> dead h' a"
proof -
  assume m: "mergeBlocks p q h = Some h'" and d: "dead h a"
  obtain s where q: "deref (h_blocks h) q = Some s" using m unfolding mergeBlocks_def bind_eq_Some_conv by blast
  obtain h1 h2 where s: "update_header p (\<lambda>b. b\<lparr>b_size := b_size b + b_size s, b_next := b_next s\<rparr>) h = Some h1"
    "(if b_next s \<noteq> 0 then update_header (b_next s) (\<lambda>b. b\<lparr>b_prev := p\<rparr>) h1 else Some (h1\<lparr>heap_last := p\<rparr>)) = Some h2"
    "update_header q (\<lambda>b. b\<lparr>b_magic := 0\<rparr>) h2 = Some h'"
    using m unfolding mergeBlocks_def q bind.bind_lunit bind_eq_Some_conv by (elim exE conjE) (rule that)
  have "dead h1 a" using s(1) d by (rule update_header_dead) auto
  then have "dead h2 a" using s(2) by (auto simp: dead_def split: if_splits dest: update_header_dead [unfolded dead_def])
  with s(3) show ?thesis by (rule update_header_dead) (auto simp: HEAP_MAGIC_nz [symmetric])
qed

lemma merge_dead:
  shows "merge_next t h = Some h' \<Longrightarrow> dead h a \<Longrightarrow> dead h' a"
    and "merge_prev t h = Some h' \<Longrightarrow> dead h a \<Longrightarrow> dead h' a"
  by (auto simp: merge_next_def merge_prev_def bind_eq_Some_conv split: if_splits intro: mergeBlocks_dead)

lemma kbrk_blocks: "kbrk n h = Some (p, h') \<Longrightarrow> h_blocks h' = h_blocks h"
  by (auto simp: kbrk_def Let_def bind_eq_Some_conv split: if_splits)

lemma kfree_shrink_dead:
  assumes "kfree_shrink h = Some h'" and "dead h a"
  shows "dead h' a"
proof -
  have "dead h a \<longrightarrow> dead h' a"
  proof (rule kfree_shrink.raw_induct [where P = "\<lambda>h h'. dead h a \<longrightarrow> dead h' a", OF _ assms(1)])
    fix f h h'
    assume IH: "\<And>h h'. f h = Some h' \<Longrightarrow> dead h a \<longrightarrow> dead h' a"
      and eq: "(if heap_last h = 0 then Some h
      else do {
        l \<leftarrow> deref (h_blocks h) (heap_last h);
        if \<not> b_available l then Some h
        else do {
          h1 \<leftarrow> update_header (heap_last h) (\<lambda>b. b\<lparr>b_magic := 0\<rparr>) h;
          h2 \<leftarrow> (if b_prev l \<noteq> 0
                 then do { h2 \<leftarrow> update_header (b_prev l) (\<lambda>b. b\<lparr>b_next := 0\<rparr>) h1; Some (h2\<lparr>heap_last := b_prev l\<rparr>) }
                 else Some (h1\<lparr>heap_start := 0, heap_last := 0\<rparr>));
          (_, h3) \<leftarrow> kbrk (- b_size l) h2;
          f h3
        }
      }) = Some h'"
    show "dead h a \<longrightarrow> dead h' a"
    proof
      assume d: "dead h a"
      show "dead h' a"
      proof (cases "heap_last h = 0 \<or> (\<exists>l. deref (h_blocks h) (heap_last h) = Some l \<and> \<not> b_available l)")
        case True
        then have "Some h = Some h'" using eq by (elim disjE exE conjE) (simp_all split: if_splits)
        then show ?thesis using d by simp
      next
        case False
        then have hl: "heap_last h \<noteq> 0" by blast
        from eq hl obtain l where l: "deref (h_blocks h) (heap_last h) = Some l" by (auto simp: bind_eq_Some_conv)
        with False have av: "\<not> \<not> b_available l" by blast
        obtain h1 h2 ph where 2: "update_header (heap_last h) (\<lambda>b. b\<lparr>b_magic := 0\<rparr>) h = Some h1"
          "(if b_prev l \<noteq> 0
                 then do { h2 \<leftarrow> update_header (b_prev l) (\<lambda>b. b\<lparr>b_next := 0\<rparr>) h1; Some (h2\<lparr>heap_last := b_prev l\<rparr>) }
                 else Some (h1\<lparr>heap_start := 0, heap_last := 0\<rparr>)) = Some h2" "kbrk (- b_size l) h2 = Some ph" "(case ph of (_, h3) \<Rightarrow> f h3) = Some h'"
          using eq unfolding if_not_P [OF hl] l bind.bind_lunit if_not_P [OF av] bind_eq_Some_conv by (elim exE conjE) (rule that)
        obtain p h3 where ph: "ph = (p, h3)" by (cases ph)
        have "dead h1 a" by (rule update_header_dead [OF 2(1) d]) (auto simp: HEAP_MAGIC_nz [symmetric])
        then have "dead h2 a" using 2(2)
          by (auto simp: dead_def bind_eq_Some_conv split: if_splits dest!: update_header_dead [unfolded dead_def])
        then have "dead h3 a" using kbrk_blocks [OF 2(3) [unfolded ph]] by (simp add: dead_def)
        with IH [of h3 h'] 2(4) show ?thesis by (simp add: ph)
      qed
    qed
  qed
  with assms(2) show ?thesis by blast
qed

text \<open>Releasing a block twice is always detected: in any heap whatsoever, when \<^verbatim>\<open>kfree\<close> of a pointer has
  returned, a second \<^verbatim>\<open>kfree\<close> of it panics, whether the block is still a block of its own (it is marked
  available), was merged into its predecessor or was given back with the end of the heap (its magic
  number is gone, or it lies beyond the last block).\<close>

theorem kfree_twice_panics:
  assumes "p \<noteq> 0" and "kfree p h = Some h'"
  shows "kfree p h' = None"
proof -
  from assms obtain h1 h2 h3 h4 h5 where h: "update_header (p - HEADER_SIZE) (\<lambda>b. b\<lparr>b_available := True\<rparr>) h1 = Some h2"
    "merge_next (p - HEADER_SIZE) h2 = Some h3" "merge_prev (p - HEADER_SIZE) h3 = Some h4"
    "kfree_shrink h4 = Some h5" "heap_unlock h5 = Some h'"
    unfolding kfree_def Let_def if_not_P [OF assms(1)] bind_eq_Some_conv by (elim exE conjE) (rule that)
  have "dead h2 (p - HEADER_SIZE)"
    using h(1) by (auto simp: update_header_def dead_def bind_eq_Some_conv modify_def deref_def split: option.splits if_splits)
  then have "dead h5 (p - HEADER_SIZE)" using h(2-4) merge_dead kfree_shrink_dead by blast
  then have "dead h' (p - HEADER_SIZE)" using h(5) by (auto simp: heap_unlock_def dead_def bind_eq_Some_conv)
  then have "dead (h'\<lparr>s_heapMutex := l\<rparr>) (p - HEADER_SIZE)" for l by (simp add: dead_def)
  then have "(do { b \<leftarrow> deref (h_blocks (h'\<lparr>s_heapMutex := l\<rparr>)) (p - HEADER_SIZE);
     kassert (\<not> (b_magic b \<noteq> HEAP_MAGIC \<or> b_available b)) }) = None" for l
    by (auto simp: dead_def deref_def)
  then show ?thesis
    using assms(1) unfolding kfree_def heap_lock_def Let_def
    by (auto simp: bind_eq_None_conv dead_def deref_def kassert_def split: bind_splits if_splits)
qed

theorem kfree_twice_panics_witness:
  "\<exists>h1 h2. kmalloc (of_nat 100) 7 0 (initHeap (\<lambda>_. False) (\<lambda>_. 255)) = Some (haddr 41, h1) \<and>
     kfree (haddr 41) h1 = Some h2 \<and> kfree (haddr 41) h2 = None"
proof -
  have "heap_ok (initHeap (\<lambda>_. False) (\<lambda>_. 255)) []" by (rule initHeap_ok [OF pages_ok_none])
  from kmalloc_ok [OF this, of 100 7 0] obtain h1 where h1: "kmalloc (of_nat 100) 7 0 (initHeap (\<lambda>_. False) (\<lambda>_. 255)) = Some (haddr 41, h1)"
    "heap_ok h1 ([] @ (141, False) # [])" by (auto simp: HMAX_def)
  from kfree_ok [OF h1(2)] obtain h2 where h2: "kfree (haddr 41) h1 = Some h2" by auto
  have "haddr 41 \<noteq> 0" by (rule haddr_nz) simp
  from kfree_twice_panics [OF this h2] h1(1) h2 show ?thesis by blast
qed

section \<open>Lowering a page-aligned break\<close>

text \<open>When the break is page aligned, lowering it also unmaps the page behind the heap, which is not
  mapped: the loop of \<^verbatim>\<open>kbrk\<close> runs up to the page of the old break instead of the page of its last byte.\<close>

lemma kbrk_unmaps_unmapped_page:
  assumes "n < HMAX" and "n mod 4096 = 0" and "m < n" and "pages_ok pages n"
  shows "hpage (n div 4096) \<in> set (kbrk_unmaps (haddr n) (haddr m)) \<and> \<not> pages (hpage (n div 4096))"
proof -
  have b: "m \<le> HMAX" "n < 2 ^ 40" "npages m \<le> 2 ^ 28" "n div 4096 \<le> 2 ^ 28"
    using assms(1,3) npages_bound [of m] by (auto simp: HMAX_def HPAGES_def)
  have "kbrk_unmaps (haddr n) (haddr m) = map hpage [npages m ..< Suc (n div 4096)]"
    unfolding kbrk_unmaps_def page_first [OF b(1)] haddr_page [OF b(2)] using b by (intro page_loop_hpage) auto
  moreover have "npages m \<le> n div 4096"
  proof (rule ccontr)
    assume "\<not> npages m \<le> n div 4096"
    then have "n div 4096 < npages m" by simp
    then have "n div 4096 * 4096 < m" by (simp only: npages_le)
    with assms(2,3) show False by (simp add: dvd_div_mult_self mod_eq_0_iff_dvd)
  qed
  moreover have "n div 4096 < HPAGES" using assms(1) by (simp add: HPAGES_def HMAX_def)
  ultimately show ?thesis using assms(2,4) by (auto simp: pages_ok_def mod_eq_0_iff_dvd)
qed

end
