(* ===== verification/AddrSpace.thy ===== *)
theory AddrSpace
  imports PageMap
begin

text \<open>
  The x86-64 address spaces of \<^verbatim>\<open>arch/x86_64/addr_space.cpp\<close>. Physical memory is a function from frame
  numbers to the 512 eight-byte cells of the frame. The packed bit-field struct of the source covers
  all 64 bits of a cell, so a cell is a value of that struct, whether it is a table entry or a piece
  of a data page. Frames come from the page map of the theory \<open>PageMap\<close>. The mutex around
  each operation and the invalidation of the processor's translation cache have no effect on this
  state and are left out.
\<close>

section \<open>Table entries\<close>

record pte =
  e_present :: bool
  e_write :: bool
  e_user :: bool
  e_write_through :: bool
  e_cache_disable :: bool
  e_accessed :: bool
  e_dirty :: bool
  e_zero1 :: "2 word"
  e_cow_was_writable :: bool
  e_shared :: bool
  e_available1 :: bool
  e_ppn :: "28 word"
  e_zero2 :: "12 word"
  e_available2 :: "7 word"
  e_protection_key :: "4 word"
  e_no_exec :: bool

definition pte_zero :: pte where
  "pte_zero = \<lparr>e_present = False, e_write = False, e_user = False, e_write_through = False, e_cache_disable = False,
     e_accessed = False, e_dirty = False, e_zero1 = 0, e_cow_was_writable = False, e_shared = False, e_available1 = False,
     e_ppn = 0, e_zero2 = 0, e_available2 = 0, e_protection_key = 0, e_no_exec = False\<rparr>"

definition ppn_of :: "pte \<Rightarrow> size_t" where
  "ppn_of e = ucast (e_ppn e)"

text \<open>The flags of \<^verbatim>\<open>MapFlags\<close>.\<close>

definition MAP_USER :: uint32_t where "MAP_USER = 1"
definition MAP_WRITE :: uint32_t where "MAP_WRITE = 2"
definition MAP_NOEXEC :: uint32_t where "MAP_NOEXEC = 4"
definition MAP_SHARED :: uint32_t where "MAP_SHARED = 8"
definition MAP_NOCACHE :: uint32_t where "MAP_NOCACHE = 16"

section \<open>State\<close>

type_synonym pmem = "size_t \<Rightarrow> nat \<Rightarrow> pte"

record vmem =
  v_pages :: pagemap
  v_mem :: pmem

definition set_entry :: "size_t \<Rightarrow> nat \<Rightarrow> pte \<Rightarrow> pmem \<Rightarrow> pmem" where
  "set_entry t i e m = m(t := (m t)(i := e))"

text \<open>\<^verbatim>\<open>memset(PPN_TO_VIRT(ppn), 0, PAGE_SIZE)\<close>.\<close>

definition clear_frame :: "size_t \<Rightarrow> pmem \<Rightarrow> pmem" where
  "clear_frame t m = m(t := (\<lambda>_. pte_zero))"

text \<open>The index into the table of a level: 3 is the PML4, 0 the page table.\<close>

definition table_index :: "nat \<Rightarrow> size_t \<Rightarrow> nat" where
  "table_index level virt = unat (drop_bit (9 * level) virt AND 0x1ff)"

section \<open>Construction\<close>

definition updateKernelMappings :: "bool \<Rightarrow> size_t \<Rightarrow> size_t \<Rightarrow> vmem \<Rightarrow> vmem" where
  "updateKernelMappings initialized kernel_pml4 pml4 vm =
     (if \<not> initialized then vm
      else vm\<lparr>v_mem := (v_mem vm)(pml4 := (\<lambda>i. if 256 \<le> i \<and> i < 512 then v_mem vm kernel_pml4 i else v_mem vm pml4 i))\<rparr>)"

definition new_addr_space :: "bool \<Rightarrow> size_t \<Rightarrow> vmem \<Rightarrow> (size_t \<times> vmem) option" where
  "new_addr_space initialized kernel_pml4 vm = do {
     (pml4, pm) \<leftarrow> alloc False (v_pages vm);
     Some (pml4, updateKernelMappings initialized kernel_pml4 pml4 \<lparr>v_pages = pm, v_mem = clear_frame pml4 (v_mem vm)\<rparr>)
   }"

text \<open>One step of the loop of \<^verbatim>\<open>clone\<close> over the lower half of the PML4.\<close>

definition clone_entry :: "size_t \<Rightarrow> size_t \<Rightarrow> nat \<Rightarrow> vmem \<Rightarrow> vmem" where
  "clone_entry pml4_old pml4_new i vm =
     (let e = v_mem vm pml4_old i in
      if \<not> e_present e then vm
      else let e1 = (if \<not> e_cow_was_writable e then e\<lparr>e_cow_was_writable := e_write e\<rparr> else e);
               e2 = e1\<lparr>e_write := False\<rparr>
           in \<lparr>v_pages = addRef (ppn_of e2) (v_pages vm),
               v_mem = set_entry pml4_new i e2 (set_entry pml4_old i e2 (v_mem vm))\<rparr>)"

definition clone_space :: "bool \<Rightarrow> size_t \<Rightarrow> size_t \<Rightarrow> vmem \<Rightarrow> (size_t \<times> vmem) option" where
  "clone_space initialized kernel_pml4 pml4 vm = do {
     (forked, vm1) \<leftarrow> new_addr_space initialized kernel_pml4 vm;
     Some (forked, fold (clone_entry pml4 forked) [0..<256] vm1)
   }"

section \<open>Mapping a page\<close>

definition leaf_entry :: "size_t \<Rightarrow> uint32_t \<Rightarrow> pte" where
  "leaf_entry phys flags = pte_zero\<lparr>e_present := True, e_ppn := ucast phys, e_write := flags AND MAP_WRITE \<noteq> 0,
     e_user := flags AND MAP_USER \<noteq> 0, e_shared := flags AND MAP_SHARED \<noteq> 0,
     e_no_exec := flags AND MAP_NOEXEC \<noteq> 0, e_cache_disable := flags AND MAP_NOCACHE \<noteq> 0\<rparr>"

definition table_entry :: "size_t \<Rightarrow> pte" where
  "table_entry ppn = pte_zero\<lparr>e_present := True, e_ppn := ucast ppn, e_write := True, e_user := True\<rparr>"

text \<open>The loop over the levels of \<^verbatim>\<open>map\<close>.\<close>

fun map_levels :: "nat \<Rightarrow> size_t \<Rightarrow> size_t \<Rightarrow> size_t \<Rightarrow> uint32_t \<Rightarrow> vmem \<Rightarrow> vmem option" where
  "map_levels 0 currentTablePPN virt phys flags vm = do {
     kassert (\<not> e_present (v_mem vm currentTablePPN (table_index 0 virt)));
     Some (vm\<lparr>v_mem := set_entry currentTablePPN (table_index 0 virt) (leaf_entry phys flags) (v_mem vm)\<rparr>)
   }"
| "map_levels (Suc level) currentTablePPN virt phys flags vm =
     (let i = table_index (Suc level) virt in do {
        vm1 \<leftarrow> (if \<not> e_present (v_mem vm currentTablePPN i) then do {
                  (newTablePPN, pm) \<leftarrow> alloc False (v_pages vm);
                  Some \<lparr>v_pages = pm, v_mem = set_entry currentTablePPN i (table_entry newTablePPN) (clear_frame newTablePPN (v_mem vm))\<rparr>
                } else Some vm);
        map_levels level (ppn_of (v_mem vm1 currentTablePPN i)) virt phys flags vm1
      })"

definition map_page_at :: "size_t \<Rightarrow> size_t \<Rightarrow> size_t \<Rightarrow> uint32_t \<Rightarrow> vmem \<Rightarrow> vmem option" where
  "map_page_at pml4 virt phys flags vm = map_levels 3 pml4 virt phys flags vm"

section \<open>Unmapping a page\<close>

text \<open>\<^verbatim>\<open>resolve\<close> does not look at the present bits. The mapping holds the frames of the four tables (level
  3 first in the record) and the frame of the page.\<close>

record mapping =
  mp_ppn :: "size_t list"
  mp_indices :: "nat list"
  mp_tables :: "size_t list"

definition resolve :: "size_t \<Rightarrow> size_t \<Rightarrow> pmem \<Rightarrow> mapping" where
  "resolve pml4 virt m =
     (let idx = map (\<lambda>l. table_index l virt) [0, 1, 2, 3];
          pdpt = ppn_of (m pml4 (idx ! 3));
          pdir = ppn_of (m pdpt (idx ! 2));
          ptbl = ppn_of (m pdir (idx ! 1));
          page = ppn_of (m ptbl (idx ! 0))
      in \<lparr>mp_ppn = [page, ptbl, pdir, pdpt], mp_indices = idx, mp_tables = [ptbl, pdir, pdpt, pml4]\<rparr>)"

definition checkForPresentEntries :: "(nat \<Rightarrow> pte) \<Rightarrow> bool" where
  "checkForPresentEntries table = list_ex (\<lambda>i. e_present (table i)) [0..<512]"

text \<open>The loop over the levels; \<open>k\<close> is the number of levels still to do. The test for a null table
  never holds, since the tables are addressed through the identity mapping.\<close>

fun unmap_levels :: "nat \<Rightarrow> nat \<Rightarrow> mapping \<Rightarrow> vmem \<Rightarrow> vmem option" where
  "unmap_levels 0 level mp vm = Some vm"
| "unmap_levels (Suc k) level mp vm =
     (let table = mp_tables mp ! level;
          vm1 = vm\<lparr>v_mem := set_entry table (mp_indices mp ! level) pte_zero (v_mem vm)\<rparr>
      in if level = 3 then Some vm1
         else if checkForPresentEntries (v_mem vm1 table) then Some vm1
         else do {
           pm \<leftarrow> free_page (mp_ppn mp ! (level + 1)) (v_pages vm1);
           unmap_levels k (Suc level) mp (vm1\<lparr>v_pages := pm\<rparr>)
         })"

definition unmap_page_at :: "size_t \<Rightarrow> size_t \<Rightarrow> vmem \<Rightarrow> vmem option" where
  "unmap_page_at pml4 virt vm =
     (let mp = resolve pml4 virt (v_mem vm) in do {
        pm \<leftarrow> free_page (mp_ppn mp ! 0) (v_pages vm);
        unmap_levels 4 0 mp (vm\<lparr>v_pages := pm\<rparr>)
      })"

section \<open>Copy on write\<close>

text \<open>The loop body that copies one entry of a shared table.\<close>

definition cow_copy_entry :: "size_t \<Rightarrow> size_t \<Rightarrow> nat \<Rightarrow> vmem \<Rightarrow> vmem" where
  "cow_copy_entry old_table new_table i vm =
     (let e = v_mem vm old_table i in
      if \<not> e_present e
      then vm\<lparr>v_mem := set_entry new_table i ((v_mem vm new_table i)\<lparr>e_present := False\<rparr>) (v_mem vm)\<rparr>
      else if \<not> e_shared e
      then let e1 = (if \<not> e_cow_was_writable e then e\<lparr>e_cow_was_writable := e_write e\<rparr> else e);
               e2 = e1\<lparr>e_write := False\<rparr>
           in \<lparr>v_pages = addRef (ppn_of e2) (v_pages vm),
               v_mem = set_entry new_table i e2 (set_entry old_table i e2 (v_mem vm))\<rparr>
      else vm\<lparr>v_mem := set_entry new_table i e (v_mem vm)\<rparr>)"

definition cow_copy_page :: "size_t \<Rightarrow> size_t \<Rightarrow> vmem \<Rightarrow> vmem" where
  "cow_copy_page old_page new_page vm =
     vm\<lparr>v_mem := (v_mem vm)(new_page := (\<lambda>i. if i < 512 then v_mem vm old_page i else v_mem vm new_page i))\<rparr>"

text \<open>One level of \<^verbatim>\<open>triggerCow\<close> for a present entry that passed the permission test.\<close>

definition cow_level :: "nat \<Rightarrow> size_t \<Rightarrow> nat \<Rightarrow> vmem \<Rightarrow> vmem option" where
  "cow_level level table i vm = do {
     let e = v_mem vm table i;
     pm0 \<leftarrow> pm_lock (v_pages vm);
     if 1 < getRefs pm0 (ppn_of e) then do {
       (new_table, pm1) \<leftarrow> alloc True pm0;
       let vm1 = vm\<lparr>v_pages := pm1\<rparr>;
       let vm2 = (if level = 0 then cow_copy_page (ppn_of e) new_table vm1
                  else fold (cow_copy_entry (ppn_of e) new_table) [0..<512] vm1);
       pm2 \<leftarrow> free_page (ppn_of (v_mem vm2 table i)) (v_pages vm2);
       pm3 \<leftarrow> pm_unlock pm2;
       Some \<lparr>v_pages = pm3, v_mem = set_entry table i ((v_mem vm2 table i)\<lparr>e_ppn := ucast new_table, e_write := True\<rparr>) (v_mem vm2)\<rparr>
     } else do {
       pm1 \<leftarrow> pm_unlock pm0;
       let vm1 = vm\<lparr>v_pages := pm1\<rparr>;
       if \<not> e_write e \<and> e_cow_was_writable e
       then Some (vm1\<lparr>v_mem := set_entry table i (e\<lparr>e_write := True\<rparr>) (v_mem vm1)\<rparr>)
       else Some vm1
     }
   }"

fun cow_levels :: "nat \<Rightarrow> nat \<Rightarrow> size_t \<Rightarrow> size_t \<Rightarrow> vmem \<Rightarrow> (bool \<times> vmem) option" where
  "cow_levels 0 level table virt vm = Some (True, vm)"
| "cow_levels (Suc k) level table virt vm =
     (let i = table_index level virt; e = v_mem vm table i in
      if \<not> e_present e then Some (False, vm)
      else if level = 0 \<and> \<not> e_write e \<and> \<not> e_cow_was_writable e then Some (False, vm)
      else do {
        vm1 \<leftarrow> cow_level level table i vm;
        cow_levels k (level - 1) (ppn_of (v_mem vm1 table i)) virt vm1
      })"

definition triggerCow :: "size_t \<Rightarrow> size_t \<Rightarrow> vmem \<Rightarrow> (bool \<times> vmem) option" where
  "triggerCow pml4 virt vm = cow_levels 4 3 pml4 virt vm"

section \<open>Destruction\<close>

text \<open>The nested loops of the destructor: every present entry below is released, then the table's own
  frame. Level 0 releases the pages of a page table.\<close>

fun release_tables :: "nat \<Rightarrow> nat \<Rightarrow> size_t \<Rightarrow> pmem \<Rightarrow> pagemap \<Rightarrow> pagemap option"
  and release_entries :: "nat \<Rightarrow> nat list \<Rightarrow> size_t \<Rightarrow> pmem \<Rightarrow> pagemap \<Rightarrow> pagemap option" where
  "release_tables level n table m pm = release_entries level [0..<n] table m pm"
| "release_entries level [] table m pm = Some pm"
| "release_entries 0 (i # is) table m pm =
     (if \<not> e_present (m table i) then release_entries 0 is table m pm
      else do { pm1 \<leftarrow> free_page (ppn_of (m table i)) pm; release_entries 0 is table m pm1 })"
| "release_entries (Suc level) (i # is) table m pm =
     (if \<not> e_present (m table i) then release_entries (Suc level) is table m pm
      else do {
        pm1 \<leftarrow> release_tables level 512 (ppn_of (m table i)) m pm;
        pm2 \<leftarrow> free_page (ppn_of (m table i)) pm1;
        release_entries (Suc level) is table m pm2
      })"

definition destroy_space :: "size_t \<Rightarrow> vmem \<Rightarrow> vmem option" where
  "destroy_space pml4 vm = do {
     pm1 \<leftarrow> release_tables 3 256 pml4 (v_mem vm) (v_pages vm);
     pm2 \<leftarrow> free_page pml4 pm1;
     Some (vm\<lparr>v_pages := pm2\<rparr>)
   }"

section \<open>The kernel's own address space\<close>

fun map_run :: "nat \<Rightarrow> size_t \<Rightarrow> size_t \<Rightarrow> uint32_t \<Rightarrow> size_t \<Rightarrow> vmem \<Rightarrow> vmem option" where
  "map_run 0 virt phys flags pml4 vm = Some vm"
| "map_run (Suc k) virt phys flags pml4 vm = do {
     vm1 \<leftarrow> map_page_at pml4 virt phys flags vm;
     map_run k (virt + 1) (phys + 1) flags pml4 vm1
   }"

definition IDENT_OFFSET :: addr where "IDENT_OFFSET = 0xffff800000000000"
definition CODE_OFFSET :: addr where "CODE_OFFSET = 0xffffffff80000000"
definition KERNEL_CODE :: addr where "KERNEL_CODE = 0xffffffff80100000"

definition space_setup :: "size_t \<Rightarrow> vmem \<Rightarrow> (size_t \<times> vmem) option" where
  "space_setup kernelBinSize vm = do {
     (pml4, vm1) \<leftarrow> new_addr_space False 0 vm;
     vm2 \<leftarrow> map_run (unat (m_totalPages (v_pages vm1))) (drop_bit PAGE_SHIFT IDENT_OFFSET) 0 (MAP_WRITE OR MAP_NOEXEC) pml4 vm1;
     let kernel_code_offset = drop_bit PAGE_SHIFT (KERNEL_CODE - CODE_OFFSET);
     vm3 \<leftarrow> map_run (unat (drop_bit PAGE_SHIFT kernelBinSize))
             (drop_bit PAGE_SHIFT CODE_OFFSET + kernel_code_offset) kernel_code_offset 0 pml4 vm2;
     Some (pml4, vm3)
   }"

section \<open>Walks through the tables\<close>

text \<open>\<open>node m t p\<close> is the frame reached from the table \<open>t\<close> along the indices \<open>p\<close>.\<close>

fun node :: "pmem \<Rightarrow> size_t \<Rightarrow> nat list \<Rightarrow> size_t option" where
  "node m t [] = Some t"
| "node m t (i # p) = (if e_present (m t i) then node m (ppn_of (m t i)) p else None)"

lemma node_append: "node m t (p @ q) = node m t p \<bind> (\<lambda>a. node m a q)"
  by (induction p arbitrary: t) auto

definition path :: "size_t \<Rightarrow> nat list" where
  "path virt = [table_index 3 virt, table_index 2 virt, table_index 1 virt, table_index 0 virt]"

text \<open>The entry of the page table that a virtual page resolves to.\<close>

definition leaf :: "pmem \<Rightarrow> size_t \<Rightarrow> nat list \<Rightarrow> pte option" where
  "leaf m t p = do { a \<leftarrow> node m t (butlast p); if e_present (m a (last p)) then Some (m a (last p)) else None }"

lemma leaf_snoc: "leaf m t (p @ [i]) = do { a \<leftarrow> node m t p; if e_present (m a i) then Some (m a i) else None }"
  by (simp only: leaf_def butlast_snoc last_snoc)

definition good_path :: "nat list \<Rightarrow> bool" where
  "good_path p \<longleftrightarrow> (\<forall>i \<in> set p. i < 512)"

lemma table_index_less: "table_index l v < 512"
proof -
  have "drop_bit (9 * l) v AND 0x1ff \<le> 0x1ff" by (rule word_and_le1)
  then show ?thesis by (simp add: table_index_def word_le_nat_alt)
qed

lemma good_path_path [simp]: "good_path (path v)"
  by (simp add: good_path_def path_def table_index_less)

lemma length_path [simp]: "length (path v) = 4"
  by (simp add: path_def)

text \<open>An address space is well formed when its tables are frames in use and no table is reached on two
  ways. The page map's frame numbers fit the bit field.\<close>

definition space_ok :: "vmem \<Rightarrow> size_t \<Rightarrow> bool" where
  "space_ok vm t \<longleftrightarrow> pm_inv (v_pages vm) \<and> unlocked (v_pages vm) \<and> unat (m_totalPages (v_pages vm)) \<le> 2 ^ 28 \<and>
     (\<forall>p a. length p \<le> 3 \<longrightarrow> good_path p \<longrightarrow> node (v_mem vm) t p = Some a \<longrightarrow>
        unat a < unat (m_totalPages (v_pages vm)) \<and> refs (v_pages vm) a \<noteq> 0) \<and>
     (\<forall>p q a. length p \<le> 3 \<longrightarrow> good_path p \<longrightarrow> length q \<le> 3 \<longrightarrow> good_path q \<longrightarrow>
        node (v_mem vm) t p = Some a \<longrightarrow> node (v_mem vm) t q = Some a \<longrightarrow> p = q)"

lemma space_okD:
  assumes "space_ok vm t"
  shows "pm_inv (v_pages vm)" "unlocked (v_pages vm)" "unat (m_totalPages (v_pages vm)) \<le> 2 ^ 28"
    and "\<And>p a. length p \<le> 3 \<Longrightarrow> good_path p \<Longrightarrow> node (v_mem vm) t p = Some a \<Longrightarrow>
        unat a < unat (m_totalPages (v_pages vm)) \<and> refs (v_pages vm) a \<noteq> 0"
    and "\<And>p q a. length p \<le> 3 \<Longrightarrow> good_path p \<Longrightarrow> length q \<le> 3 \<Longrightarrow> good_path q \<Longrightarrow>
        node (v_mem vm) t p = Some a \<Longrightarrow> node (v_mem vm) t q = Some a \<Longrightarrow> p = q"
  using assms unfolding space_ok_def by blast+

lemma node_cong:
  assumes "\<And>q i r a. p = q @ i # r \<Longrightarrow> node m t q = Some a \<Longrightarrow> m' a i = m a i"
  shows "node m' t p = node m t p"
  using assms
proof (induction p arbitrary: t)
  case (Cons i p)
  have e: "m' t i = m t i" using Cons.prems [of "[]" i p t] by simp
  show ?case
  proof (cases "e_present (m t i)")
    case True
    have "node m' (ppn_of (m t i)) p = node m (ppn_of (m t i)) p"
    proof (rule Cons.IH)
      fix q j r a assume "p = q @ j # r" "node m (ppn_of (m t i)) q = Some a"
      then show "m' a j = m a j" using Cons.prems [of "i # q" j r a] True by simp
    qed
    then show ?thesis by (simp add: e)
  qed (simp add: e)
qed simp

text \<open>Writing the entry \<open>i\<close> of the table at \<open>p\<close> changes only the walks that go through it.\<close>

lemma node_set_entry:
  assumes ok: "space_ok vm t" and p: "node (v_mem vm) t p = Some a" "length p \<le> 3" "good_path p"
    and q: "length q \<le> 4" "good_path q" "\<not> (\<exists>r. q = p @ i # r)"
  shows "node (set_entry a i e (v_mem vm)) t q = node (v_mem vm) t q"
proof (rule node_cong)
  fix q' j r b assume s: "q = q' @ j # r" "node (v_mem vm) t q' = Some b"
  show "set_entry a i e (v_mem vm) b j = v_mem vm b j"
  proof (cases "b = a \<and> j = i")
    case True
    have "length q' \<le> 3" "good_path q'" using q s(1) by (auto simp: good_path_def)
    then have "q' = p" using space_okD(5) [OF ok] p s(2) True by blast
    with q(3) s(1) True show ?thesis by blast
  qed (auto simp: set_entry_def)
qed

lemma node_through:
  assumes p: "node m t p = Some a" and ne: "\<And>q b. length q < length p \<Longrightarrow> node m t q = Some b \<Longrightarrow> \<exists>r. p = q @ r \<Longrightarrow> b \<noteq> a"
  shows "node (set_entry a i e m) t p = Some a"
proof -
  have "node (set_entry a i e m) t p = node m t p"
  proof (rule node_cong)
    fix q j r b assume "p = q @ j # r" "node m t q = Some b"
    then have "b \<noteq> a" using ne [of q b] by auto
    then show "set_entry a i e m b j = m b j" by (simp add: set_entry_def)
  qed
  with p show ?thesis by simp
qed

lemma node_prefix: "node m t (p @ q) = Some b \<Longrightarrow> \<exists>a. node m t p = Some a"
  by (auto simp: node_append bind_eq_Some_conv)

lemma ucast_ppn: "unat (n :: size_t) < 2 ^ 28 \<Longrightarrow> ucast (ucast n :: 28 word) = n"
  by (rule word_unat_eq_iff [THEN iffD2]) (simp add: unsigned_ucast_eq unsigned_take_bit_eq take_bit_nat_eq_self)

lemma ppn_table_entry: "unat n < 2 ^ 28 \<Longrightarrow> ppn_of (table_entry n) = n"
  by (simp add: ppn_of_def table_entry_def ucast_ppn)

lemma ppn_leaf_entry: "unat n < 2 ^ 28 \<Longrightarrow> ppn_of (leaf_entry n flags) = n"
  by (simp add: ppn_of_def leaf_entry_def ucast_ppn)

lemma present_entries [simp]:
  "e_present (table_entry n)" "e_present (leaf_entry n flags)" "\<not> e_present pte_zero"
  by (simp_all add: table_entry_def leaf_entry_def pte_zero_def)

lemma good_path_append [simp]: "good_path (p @ q) \<longleftrightarrow> good_path p \<and> good_path q"
  by (auto simp: good_path_def)

lemma good_path_Cons [simp]: "good_path (i # q) \<longleftrightarrow> i < 512 \<and> good_path q"
  by (auto simp: good_path_def)

lemma good_path_Nil [simp]: "good_path []"
  by (simp add: good_path_def)

lemma refs_set_refs:
  "unat q < unat (m_totalPages pm) \<Longrightarrow> pm_inv pm \<Longrightarrow>
   refs (set_refs i v pm) q = (if unat q = i then unat v else refs pm q)"
  by (auto simp: refs_def pm_inv_def nth_list_update)

text \<open>Allocating a table for a missing entry.\<close>

lemma table_step:
  assumes ok: "space_ok vm t" and p: "node (v_mem vm) t p = Some a" "length p \<le> 2" "good_path p"
    and i: "i < 512" "\<not> e_present (v_mem vm a i)"
    and al: "alloc False (v_pages vm) = Some (n, pm)"
    and vm': "vm' = \<lparr>v_pages = pm, v_mem = set_entry a i (table_entry n) (clear_frame n (v_mem vm))\<rparr>"
  shows "space_ok vm' t" and "node (v_mem vm') t (p @ [i]) = Some n" and "\<And>j. \<not> e_present (v_mem vm' n j)"
    and "ppn_of (v_mem vm' a i) = n"
    and "\<And>q. length q = 4 \<Longrightarrow> good_path q \<Longrightarrow> leaf (v_mem vm') t q = leaf (v_mem vm) t q"
proof -
  note okd = space_okD [OF ok]
  from alloc_correct [OF okd(1) disjI1 [OF okd(2)] al]
  have n: "unat n < unat (m_totalPages (v_pages vm))" "refs (v_pages vm) n = 0" and pm: "pm = set_refs (unat n) 1 (v_pages vm)" "pm_inv pm" "unlocked pm"
    using okd(2) by auto
  have n28: "unat n < 2 ^ 28" using n(1) okd(3) by simp
  have fresh: "b \<noteq> n" if "node (v_mem vm) t q = Some b" "length q \<le> 3" "good_path q" for q b
    using okd(4) [OF that(2,3,1)] n(2) by auto
  have an: "a \<noteq> n" using fresh [OF p(1)] p by simp
  let ?m = "v_mem vm" and ?m' = "v_mem vm'"
  have m': "?m' b j = (if b = a \<and> j = i then table_entry n else if b = n then pte_zero else ?m b j)" for b j
    using an by (auto simp: vm' set_entry_def clear_frame_def)
  have same: "node ?m' t q = node ?m t q" if "length q \<le> 4" "good_path q" "\<not> (\<exists>r. q = p @ i # r)" for q
  proof (rule node_cong)
    fix q' j r b assume s: "q = q' @ j # r" "node ?m t q' = Some b"
    have q': "length q' \<le> 3" "good_path q'" using that s(1) by auto
    have "\<not> (b = a \<and> j = i)"
      using okd(5) [OF _ p(3) q'(1,2) p(1)] s p(2) that(3) by auto
    then show "?m' b j = ?m b j" using fresh [OF s(2) q'] by (auto simp: m')
  qed
  have p': "node ?m' t p = Some a" using same [of p] p by auto
  show n1: "node ?m' t (p @ [i]) = Some n" using p' by (simp add: node_append m' ppn_table_entry [OF n28])
  show empty: "\<not> e_present (?m' n j)" for j using an by (simp add: m')
  show "ppn_of (?m' a i) = n" by (simp add: m' ppn_table_entry [OF n28])
  have thr: "node ?m' t (p @ i # r) = (if r = [] then Some n else None)" for r
  proof (cases r)
    case (Cons j r')
    then show ?thesis using n1 empty node_append [of ?m' t "p @ [i]" r] by simp
  qed (use n1 in simp)
  have thr0: "node ?m t (p @ i # r) = None" for r using p i by (simp add: node_append)
  have refs': "refs pm b = (if b = n then 1 else refs (v_pages vm) b)" if "unat b < unat (m_totalPages (v_pages vm))" for b
    using refs_set_refs [OF that okd(1), of "unat n" 1] by (simp add: pm word_unat_eq_iff)
  show "space_ok vm' t"
    unfolding space_ok_def
  proof (intro conjI allI impI)
    fix q b assume q: "length q \<le> 3" "good_path q" "node ?m' t q = Some b"
    have "unat b < unat (m_totalPages (v_pages vm)) \<and> (b = n \<or> refs (v_pages vm) b \<noteq> 0)"
    proof (cases "\<exists>r. q = p @ i # r")
      case True
      then show ?thesis using thr q(3) n(1) by (auto split: if_splits)
    next
      case False
      then show ?thesis using same [of q] q okd(4) [of q b] by auto
    qed
    then show "unat b < unat (m_totalPages (v_pages vm'))" "refs (v_pages vm') b \<noteq> 0"
      using refs' [of b] by (auto simp: vm' pm(1))
  next
    fix q r b assume q: "length q \<le> 3" "good_path q" "length r \<le> 3" "good_path r" "node ?m' t q = Some b" "node ?m' t r = Some b"
    have old: "b \<noteq> n \<and> node ?m t s = Some b" if "length s \<le> 3" "good_path s" "node ?m' t s = Some b" "\<not> (\<exists>r. s = p @ i # r)" for s
      using same [of s] that fresh [of s b] by auto
    have new: "b = n \<and> s = p @ [i]" if "node ?m' t s = Some b" "\<exists>r. s = p @ i # r" for s
      using that thr by (auto split: if_splits)
    show "q = r"
    proof (cases "\<exists>s. q = p @ i # s")
      case True
      then show ?thesis using new [OF q(5)] new [OF q(6)] old [OF q(3,4,6)] by blast
    next
      case False
      note o = old [OF q(1,2,5) False]
      then have "\<not> (\<exists>s. r = p @ i # s)" using new [OF q(6)] by blast
      from old [OF q(3,4,6) this] o show ?thesis using okd(5) [OF q(1-4)] by blast
    qed
  qed (use pm okd in \<open>auto simp: vm'\<close>)
  show "leaf ?m' t q = leaf ?m t q" if q: "length q = 4" "good_path q" for q
  proof -
    obtain s j where s: "q = s @ [j]" using q(1) by (cases q rule: rev_cases) auto
    have ls: "length s = 3" "good_path s" using q s by auto
    show ?thesis
    proof (cases "\<exists>r. s = p @ i # r")
      case True
      then obtain r where r: "s = p @ i # r" by blast
      show ?thesis unfolding s leaf_snoc using thr [of r] thr0 [of r] empty by (auto simp: r split: if_splits)
    next
      case False
      then have "node ?m' t s = node ?m t s" using ls same [of s] by auto
      moreover have "?m' b j = ?m b j" if b: "node ?m t s = Some b" for b
      proof -
        have "b \<noteq> n" using fresh [OF b] ls by simp
        moreover have "b \<noteq> a" using okd(5) [OF _ _ _ p(3) b] p ls by force
        ultimately show ?thesis by (simp add: m')
      qed
      ultimately show ?thesis unfolding s leaf_snoc by (auto split: bind_splits)
    qed
  qed
qed

text \<open>Writing a page-table entry leaves the tables as they are and changes one leaf.\<close>

lemma leaf_step:
  assumes ok: "space_ok vm t" and p: "node (v_mem vm) t p = Some a" "length p = 3" "good_path p"
    and vm': "vm' = vm\<lparr>v_mem := set_entry a i e (v_mem vm)\<rparr>"
  shows "space_ok vm' t" and "\<And>q. length q \<le> 3 \<Longrightarrow> good_path q \<Longrightarrow> node (v_mem vm') t q = node (v_mem vm) t q"
    and "leaf (v_mem vm') t (p @ [i]) = (if e_present e then Some e else None)"
    and "\<And>q. length q = 4 \<Longrightarrow> good_path q \<Longrightarrow> q \<noteq> p @ [i] \<Longrightarrow> leaf (v_mem vm') t q = leaf (v_mem vm) t q"
proof -
  show same: "node (v_mem vm') t q = node (v_mem vm) t q" if "length q \<le> 3" "good_path q" for q
  proof -
    have "\<not> (\<exists>r. q = p @ i # r)" using that(1) p(2) by auto
    then show ?thesis unfolding vm' using node_set_entry [OF ok p(1) _ p(3), of q i e] that p(2) by simp
  qed
  show "space_ok vm' t"
    unfolding space_ok_def
  proof (intro conjI allI impI)
    fix q b assume "length q \<le> 3" "good_path q" "node (v_mem vm') t q = Some b"
    then show "unat b < unat (m_totalPages (v_pages vm'))" "refs (v_pages vm') b \<noteq> 0"
      using same space_okD(4) [OF ok, of q b] by (auto simp: vm')
  next
    fix q r b assume "length q \<le> 3" "good_path q" "length r \<le> 3" "good_path r" "node (v_mem vm') t q = Some b" "node (v_mem vm') t r = Some b"
    then show "q = r" using same space_okD(5) [OF ok, of q r b] by auto
  qed (use space_okD(1-3) [OF ok] in \<open>auto simp: vm'\<close>)
  show "leaf (v_mem vm') t (p @ [i]) = (if e_present e then Some e else None)"
    unfolding leaf_snoc using same [of p] p by (simp add: vm' set_entry_def)
  show "leaf (v_mem vm') t q = leaf (v_mem vm) t q" if q: "length q = 4" "good_path q" "q \<noteq> p @ [i]" for q
  proof -
    obtain s j where s: "q = s @ [j]" using q(1) by (cases q rule: rev_cases) auto
    have ls: "length s = 3" "good_path s" using q s by auto
    have "v_mem vm' b j = v_mem vm b j" if b: "node (v_mem vm) t s = Some b" for b
    proof -
      have "\<not> (b = a \<and> j = i)" using space_okD(5) [OF ok, of s p a] p ls q(3) s b by auto
      then show ?thesis by (auto simp: vm' set_entry_def)
    qed
    then show ?thesis unfolding s leaf_snoc using same [of s] ls by (auto split: bind_splits)
  qed
qed

lemma alloc_zeros:
  assumes "pm_inv pm" and "unlocked pm" and "0 < zeros (m_pagemap pm)"
  shows "\<exists>n pm'. alloc False pm = Some (n, pm') \<and> zeros (m_pagemap pm') = zeros (m_pagemap pm) - 1"
proof -
  from assms(3) obtain x where "x \<in> set (m_pagemap pm)" "x = 0"
    unfolding zeros_def by (auto simp: length_greater_0_conv filter_empty_conv)
  then obtain j where j: "j < length (m_pagemap pm)" "m_pagemap pm ! j = 0" by (auto simp: in_set_conv_nth)
  have len: "length (m_pagemap pm) = unat (m_totalPages pm)" using assms(1) by (simp add: pm_inv_def)
  have "unat (of_nat j :: size_t) = j"
    using j(1) len unat_less_pow [of "m_totalPages pm"] by (intro unat_of_nat_small) simp
  then have "\<exists>n pm'. alloc False pm = Some (n, pm')"
    using alloc_returns [OF assms(1) disjI1 [OF assms(2)], of "of_nat j" False] j len by (simp add: refs_def del: unat_of_nat)
  then obtain n pm' where a: "alloc False pm = Some (n, pm')" by blast
  from alloc_correct [OF assms(1) disjI1 [OF assms(2)] a]
  have "unat n < length (m_pagemap pm)" "m_pagemap pm ! unat n = 0" "pm' = set_refs (unat n) 1 pm"
    using len by (auto simp: refs_def unsigned_eq_0_iff)
  then show ?thesis using a zeros_update [of "unat n" "m_pagemap pm" 1] by auto
qed

abbreviation rest_path :: "nat \<Rightarrow> size_t \<Rightarrow> nat list" where
  "rest_path level virt \<equiv> map (\<lambda>l. table_index l virt) (rev [0..<Suc level])"

lemma rest_path_Suc: "rest_path (Suc l) v = table_index (Suc l) v # rest_path l v"
  by simp

lemma path_rest: "path v = rest_path 3 v"
  by (simp add: path_def numeral_eq_Suc)

lemma map_levels_ok:
  assumes "space_ok vm t" and "node (v_mem vm) t p = Some a" and "good_path p" and "length p + level = 3"
    and "level \<le> zeros (m_pagemap (v_pages vm))" and "leaf (v_mem vm) t (p @ rest_path level virt) = None"
  shows "\<exists>vm'. map_levels level a virt phys flags vm = Some vm' \<and> space_ok vm' t \<and>
     leaf (v_mem vm') t (p @ rest_path level virt) = Some (leaf_entry phys flags) \<and>
     (\<forall>q. length q = 4 \<longrightarrow> good_path q \<longrightarrow> q \<noteq> p @ rest_path level virt \<longrightarrow> leaf (v_mem vm') t q = leaf (v_mem vm) t q)"
  using assms
proof (induction level arbitrary: vm p a)
  case 0
  let ?i = "table_index 0 virt"
  have np: "\<not> e_present (v_mem vm a ?i)" using 0 leaf_snoc [of "v_mem vm" t p ?i] by (auto split: if_splits)
  define vm' where "vm' = vm\<lparr>v_mem := set_entry a ?i (leaf_entry phys flags) (v_mem vm)\<rparr>"
  have p3: "length p = 3" using "0.prems" by simp
  note st = leaf_step [OF "0.prems"(1,2) p3 "0.prems"(3) vm'_def]
  have "map_levels 0 a virt phys flags vm = Some vm'" using np by (simp add: vm'_def)
  then show ?case using st(1,3,4) by auto
next
  case (Suc level)
  let ?i = "table_index (Suc level) virt"
  have i: "?i < 512" by (rule table_index_less)
  have lp: "length p \<le> 2" using Suc.prems(4) by simp
  have p1: "good_path (p @ [?i])" "length (p @ [?i]) + level = 3" using Suc.prems(3,4) i by auto
  have pe: "p @ rest_path (Suc level) virt = (p @ [?i]) @ rest_path level virt" unfolding rest_path_Suc by simp
  have lf: "leaf (v_mem vm) t ((p @ [?i]) @ rest_path level virt) = None" using Suc.prems(6) unfolding pe .
  have good: "good_path (p @ rest_path (Suc level) virt)" "length (p @ rest_path (Suc level) virt) = 4"
    using Suc.prems(3,4) by (auto simp: good_path_def table_index_less)
  show ?case
  proof (cases "e_present (v_mem vm a ?i)")
    case True
    have n: "node (v_mem vm) t (p @ [?i]) = Some (ppn_of (v_mem vm a ?i))" using Suc.prems(2) True by (simp add: node_append)
    have "level \<le> zeros (m_pagemap (v_pages vm))" using Suc.prems(5) by simp
    from Suc.IH [OF Suc.prems(1) n p1 this lf] show ?thesis unfolding pe using True by (simp add: Let_def)
  next
    case False
    obtain n pm where al: "alloc False (v_pages vm) = Some (n, pm)" "zeros (m_pagemap pm) = zeros (m_pagemap (v_pages vm)) - 1"
      using alloc_zeros [of "v_pages vm"] space_okD(1,2) [OF Suc.prems(1)] Suc.prems(5) by auto
    define vm1 where "vm1 = \<lparr>v_pages = pm, v_mem = set_entry a ?i (table_entry n) (clear_frame n (v_mem vm))\<rparr>"
    note st = table_step [OF Suc.prems(1,2) lp Suc.prems(3) i False al(1) vm1_def]
    have z: "level \<le> zeros (m_pagemap (v_pages vm1))" using al(2) Suc.prems(5) by (simp add: vm1_def)
    have lf1: "leaf (v_mem vm1) t ((p @ [?i]) @ rest_path level virt) = None"
      using st(5) [OF good(2,1)] lf unfolding pe by simp
    from Suc.IH [OF st(1,2) p1 z lf1] obtain vm' where v: "map_levels level n virt phys flags vm1 = Some vm'" "space_ok vm' t"
      "leaf (v_mem vm') t ((p @ [?i]) @ rest_path level virt) = Some (leaf_entry phys flags)"
      "\<forall>q. length q = 4 \<longrightarrow> good_path q \<longrightarrow> q \<noteq> (p @ [?i]) @ rest_path level virt \<longrightarrow> leaf (v_mem vm') t q = leaf (v_mem vm1) t q" by blast
    have "map_levels (Suc level) a virt phys flags vm = Some vm'"
      using False al(1) v(1) st(4) by (simp add: Let_def vm1_def [symmetric])
    then show ?thesis unfolding pe using v(2-4) st(5) by auto
  qed
qed


text \<open>Clearing an entry after its frame was released.\<close>

lemma free_page_frame:
  assumes "pm_inv pm" and "unlocked pm" and "free_page c pm = Some pm'"
  shows "pm_inv pm' \<and> unlocked pm' \<and> m_totalPages pm' = m_totalPages pm \<and>
     (\<forall>b. b \<noteq> c \<longrightarrow> unat b < unat (m_totalPages pm) \<longrightarrow> refs pm' b = refs pm b)"
proof (cases "m_totalPages pm \<le> c")
  case True
  then show ?thesis using assms by (simp add: free_page_def)
next
  case False
  then have c: "unat c < unat (m_totalPages pm)" by (simp add: unat_lt_total [symmetric])
  have nz: "refs pm c \<noteq> 0" using free_page_double [OF c] assms(3) by auto
  from free_page_total [OF assms(3)] assms(2) have "unlocked pm'" "m_totalPages pm' = m_totalPages pm" by (simp_all add: unlocked_def)
  with free_page_correct [OF assms(1) c] nz assms(3) show ?thesis by auto
qed

lemma remove_step:
  assumes ok: "space_ok vm t" and p: "node (v_mem vm) t p = Some a" "length p \<le> 3" "good_path p"
    and i: "i < 512" "e_present (v_mem vm a i)"
    and free: "free_page (ppn_of (v_mem vm a i)) (v_pages vm) = Some pm"
    and c: "if length p = 3 then \<forall>q. length q \<le> 3 \<longrightarrow> good_path q \<longrightarrow> node (v_mem vm) t q \<noteq> Some (ppn_of (v_mem vm a i))
            else \<forall>j < 512. \<not> e_present (v_mem vm (ppn_of (v_mem vm a i)) j)"
    and vm': "vm' = \<lparr>v_pages = pm, v_mem = set_entry a i pte_zero (v_mem vm)\<rparr>"
  shows "space_ok vm' t" and "\<And>q. length q \<le> 3 \<Longrightarrow> good_path q \<Longrightarrow> \<not> (\<exists>r. q = p @ i # r) \<Longrightarrow> node (v_mem vm') t q = node (v_mem vm) t q"
    and "\<And>q. length q = 4 \<Longrightarrow> good_path q \<Longrightarrow>
       leaf (v_mem vm') t q = (if q = p @ [i] then None else leaf (v_mem vm) t q)"
proof -
  let ?m = "v_mem vm" and ?m' = "v_mem vm'" and ?c = "ppn_of (v_mem vm a i)"
  note okd = space_okD [OF ok]
  have m': "?m' b j = (if b = a \<and> j = i then pte_zero else ?m b j)" for b j by (auto simp: vm' set_entry_def)
  note fr = free_page_frame [OF okd(1,2) free]
  show same: "node ?m' t q = node ?m t q" if "length q \<le> 3" "good_path q" "\<not> (\<exists>r. q = p @ i # r)" for q
    unfolding vm' using node_set_entry [OF ok p, of q i pte_zero] that by simp
  have p': "node ?m' t p = Some a" using same [of p] p by auto
  have gone: "node ?m' t (p @ i # r) = None" for r using p' by (simp add: node_append m')
  have child: "node ?m t (p @ [i]) = Some ?c" using p(1) i by (simp add: node_append)
  have notc: "b \<noteq> ?c" if b: "node ?m t q = Some b" and q: "length q \<le> 3" "good_path q" "\<not> (\<exists>r. q = p @ i # r)" for q b
  proof (cases "length p = 3")
    case True
    then show ?thesis using c b q by auto
  next
    case False
    then have "length (p @ [i]) \<le> 3" "good_path (p @ [i])" using p i by auto
    then show ?thesis using okd(5) [OF q(1,2) _ _ b] child q(3) by blast
  qed
  have nodes: "node ?m t q = Some b \<and> \<not> (\<exists>r. q = p @ i # r)" if "length q \<le> 3" "good_path q" "node ?m' t q = Some b" for q b
    using that gone same [of q] by (cases "\<exists>r. q = p @ i # r") auto
  show "space_ok vm' t"
    unfolding space_ok_def
  proof (intro conjI allI impI)
    fix q b assume q: "length q \<le> 3" "good_path q" "node ?m' t q = Some b"
    have n: "node ?m t q = Some b" "b \<noteq> ?c" using nodes [OF q] notc [of q b] q by auto
    from okd(4) [OF q(1,2) n(1)] show "unat b < unat (m_totalPages (v_pages vm'))" "refs (v_pages vm') b \<noteq> 0"
      using fr n(2) by (auto simp: vm')
  next
    fix q r b assume q: "length q \<le> 3" "good_path q" "length r \<le> 3" "good_path r" "node ?m' t q = Some b" "node ?m' t r = Some b"
    then show "q = r" using okd(5) [OF q(1-4)] nodes by blast
  qed (use fr okd(3) in \<open>auto simp: vm'\<close>)
  show "leaf ?m' t q = (if q = p @ [i] then None else leaf ?m t q)" if q: "length q = 4" "good_path q" for q
  proof -
    obtain s j where s: "q = s @ [j]" using q(1) by (cases q rule: rev_cases) auto
    have ls: "length s = 3" "good_path s" "j < 512" using q s by auto
    show ?thesis
    proof (cases "\<exists>r. s = p @ i # r")
      case True
      then obtain r where r: "s = p @ i # r" by blast
      have em: "\<forall>j < 512. \<not> e_present (?m ?c j)" using c r ls(1) by auto
      have "leaf ?m t q = None"
      proof (cases r)
        case Nil
        then show ?thesis unfolding s leaf_snoc using child em ls(3) by (simp add: r)
      next
        case (Cons k r')
        then have "node ?m t s = None" using child em ls(2) node_append [of ?m t "p @ [i]" r] by (simp add: r)
        then show ?thesis unfolding s leaf_snoc by simp
      qed
      moreover have "leaf ?m' t q = None" unfolding s leaf_snoc using gone [of r] by (simp add: r)
      ultimately show ?thesis by simp
    next
      case False
      have n: "node ?m' t s = node ?m t s" using same [of s] ls False by simp
      show ?thesis
      proof (cases "node ?m t s")
        case None
        then show ?thesis unfolding s leaf_snoc using n by simp
      next
        case (Some b)
        have "b = a \<and> j = i \<longleftrightarrow> s = p \<and> j = i" using Some p okd(5) [of s p a] ls by auto
        then show ?thesis unfolding s leaf_snoc using n Some by (auto simp: m')
      qed
    qed
  qed
qed

lemma free_page_returns: "pm_inv pm \<Longrightarrow> \<not> unat c < unat (m_totalPages pm) \<or> refs pm c \<noteq> 0 \<Longrightarrow> \<exists>pm'. free_page c pm = Some pm'"
  using free_page_correct [of pm c] outside_ignored(2) [of c pm] by (cases "unat c < unat (m_totalPages pm)") auto

lemma present_entries_iff: "checkForPresentEntries tbl \<longleftrightarrow> (\<exists>j < 512. e_present (tbl j))"
  by (auto simp: checkForPresentEntries_def list_ex_iff)

lemma path_nth: "l < 4 \<Longrightarrow> path v ! (3 - l) = table_index l v"
  by (auto simp: path_def less_Suc_eq numeral_eq_Suc)

lemma take_path_Suc: "l < 3 \<Longrightarrow> take (3 - l) (path v) = take (3 - Suc l) (path v) @ [table_index (Suc l) v]"
  by (auto simp: path_def less_Suc_eq numeral_eq_Suc)

lemma take_path_good [simp]: "good_path (take k (path v))"
  by (auto simp: good_path_def path_def table_index_less dest!: in_set_takeD)

text \<open>The tables and frames that \<^verbatim>\<open>resolve\<close> records, from a level on upwards: the part of the walk
  that the steps below that level do not touch.\<close>

definition resolved_from :: "nat \<Rightarrow> mapping \<Rightarrow> pmem \<Rightarrow> size_t \<Rightarrow> size_t \<Rightarrow> bool" where
  "resolved_from k mp m t virt \<longleftrightarrow> (\<forall>l < 4. mp_indices mp ! l = table_index l virt \<and> (0 < l \<longrightarrow> mp_ppn mp ! l = mp_tables mp ! (l - 1))) \<and>
     (\<forall>l < 4. k \<le> l \<longrightarrow> node m t (take (3 - l) (path virt)) = Some (mp_tables mp ! l)) \<and>
     (\<forall>l < 3. k \<le> l \<longrightarrow> e_present (m (mp_tables mp ! Suc l) (table_index (Suc l) virt)) \<and>
        ppn_of (m (mp_tables mp ! Suc l) (table_index (Suc l) virt)) = mp_tables mp ! l)"

lemma unmap_levels_ok:
  assumes "space_ok vm t" and "resolved_from level mp (v_mem vm) t virt" and "level < 4"
    and "e_present (v_mem vm (mp_tables mp ! level) (table_index level virt))"
    and "free_page (ppn_of (v_mem vm (mp_tables mp ! level) (table_index level virt))) (v_pages vm) = Some pm"
    and "if level = 0 then \<forall>q. length q \<le> 3 \<longrightarrow> good_path q \<longrightarrow>
             node (v_mem vm) t q \<noteq> Some (ppn_of (v_mem vm (mp_tables mp ! level) (table_index level virt)))
         else \<forall>j < 512. \<not> e_present (v_mem vm (ppn_of (v_mem vm (mp_tables mp ! level) (table_index level virt))) j)"
    and "leaf (v_mem vm) t (path virt) = None \<or> level = 0"
  shows "\<exists>vm'. unmap_levels (4 - level) level mp (vm\<lparr>v_pages := pm\<rparr>) = Some vm' \<and> space_ok vm' t \<and>
     (\<forall>q. length q = 4 \<longrightarrow> good_path q \<longrightarrow> leaf (v_mem vm') t q = (if q = path virt then None else leaf (v_mem vm) t q))"
  using assms
proof (induction "3 - level" arbitrary: level vm pm)
  case (0 level vm pm)
  then have l3: "level = 3" by simp
  let ?a = "mp_tables mp ! 3" and ?i = "table_index 3 virt"
  have p: "node (v_mem vm) t [] = Some ?a" and ix: "mp_indices mp ! 3 = ?i" using "0.prems"(2) l3 by (auto simp: resolved_from_def)
  define vm' where "vm' = \<lparr>v_pages = pm, v_mem = set_entry ?a ?i pte_zero (v_mem vm)\<rparr>"
  have "0 < level" using l3 by simp
  note st = remove_step [OF "0.prems"(1) p _ _ table_index_less "0.prems"(4,5) [unfolded l3] _ vm'_def]
  have s: "space_ok vm' t" "\<And>q. length q = 4 \<Longrightarrow> good_path q \<Longrightarrow> leaf (v_mem vm') t q = (if q = [] @ [?i] then None else leaf (v_mem vm) t q)"
    using st(1,3) "0.prems"(6) l3 by auto
  have "unmap_levels (4 - level) level mp (vm\<lparr>v_pages := pm\<rparr>) = Some vm'"
    by (simp add: l3 ix vm'_def Let_def)
  moreover have "leaf (v_mem vm') t q = (if q = path virt then None else leaf (v_mem vm) t q)" if "length q = 4" "good_path q" for q
    using s(2) [OF that] "0.prems"(7) l3 that by auto
  ultimately show ?case using s(1) by blast
next
  case (Suc k level vm pm)
  then have l: "level < 3" by simp
  let ?a = "mp_tables mp ! level" and ?i = "table_index level virt" and ?p = "take (3 - level) (path virt)"
  have p: "node (v_mem vm) t ?p = Some ?a" and ix: "mp_indices mp ! level = ?i" and pp: "mp_ppn mp ! Suc level = ?a"
    using Suc.prems(2) l by (auto simp: resolved_from_def)
  have lp: "length ?p = 3 - level" "length ?p \<le> 3" by auto
  define vm1 where "vm1 = \<lparr>v_pages = pm, v_mem = set_entry ?a ?i pte_zero (v_mem vm)\<rparr>"
  have lc: "(length ?p = 3) = (level = 0)" using l by auto
  note st = remove_step [OF Suc.prems(1) p lp(2) take_path_good table_index_less Suc.prems(4,5) _ vm1_def, unfolded lc, OF Suc.prems(6)]
  have pe: "?p @ [?i] = path virt \<longleftrightarrow> level = 0" using l by (auto simp: path_def numeral_eq_Suc less_Suc_eq)
  have lf: "leaf (v_mem vm1) t q = (if q = path virt then None else leaf (v_mem vm) t q)" if "length q = 4" "good_path q" for q
    using st(3) [OF that] Suc.prems(7) pe that l lp by (cases "level = 0") auto
  have step: "unmap_levels (4 - level) level mp (vm\<lparr>v_pages := pm\<rparr>) =
     (if checkForPresentEntries (v_mem vm1 ?a) then Some vm1
      else do { pm1 \<leftarrow> free_page ?a pm; unmap_levels (4 - Suc level) (Suc level) mp (vm1\<lparr>v_pages := pm1\<rparr>) })"
  proof -
    have "4 - level = Suc (4 - Suc level)" using l by simp
    then show ?thesis using l by (cases vm) (simp add: ix pp vm1_def Let_def)
  qed
  show ?case
  proof (cases "checkForPresentEntries (v_mem vm1 ?a)")
    case True
    then show ?thesis using step st(1) lf by auto
  next
    case False
    have up: "node (v_mem vm1) t (take (3 - j) (path virt)) = Some (mp_tables mp ! j)" if "Suc level \<le> j" "j < 4" for j
    proof -
      have "\<not> (\<exists>r. take (3 - j) (path virt) = ?p @ ?i # r)"
      proof
        assume "\<exists>r. take (3 - j) (path virt) = ?p @ ?i # r"
        then obtain r where "take (3 - j) (path virt) = ?p @ ?i # r" by blast
        from arg_cong [OF this, of length] show False using that l by simp
      qed
      then have "node (v_mem vm1) t (take (3 - j) (path virt)) = node (v_mem vm) t (take (3 - j) (path virt))"
        by (intro st(2)) auto
      then show ?thesis using Suc.prems(2) that by (simp add: resolved_from_def)
    qed
    have a_ok: "unat ?a < unat (m_totalPages (v_pages vm))" using space_okD(4) [OF Suc.prems(1) lp(2) take_path_good p] by simp
    have pa: "node (v_mem vm1) t ?p = Some ?a"
    proof -
      have "\<not> (\<exists>r. ?p = ?p @ ?i # r)" by simp
      then show ?thesis using st(2) [OF lp(2) take_path_good] p by simp
    qed
    have "refs (v_pages vm1) ?a \<noteq> 0" using space_okD(4) [OF st(1) lp(2) take_path_good pa] by simp
    then obtain pm1 where pm1: "free_page ?a (v_pages vm1) = Some pm1"
      using free_page_returns space_okD(1) [OF st(1)] by blast
    have above: "e_present (v_mem vm1 (mp_tables mp ! Suc j) (table_index (Suc j) virt)) \<and>
        ppn_of (v_mem vm1 (mp_tables mp ! Suc j) (table_index (Suc j) virt)) = mp_tables mp ! j" if "level \<le> j" "j < 3" for j
    proof -
      have n1: "node (v_mem vm1) t (take (3 - Suc j) (path virt)) = Some (mp_tables mp ! Suc j)" by (rule up) (use that in simp_all)
      have n2: "node (v_mem vm1) t (take (3 - j) (path virt)) = Some (mp_tables mp ! j)" using up [of j] pa that by (cases "j = level") auto
      have "node (v_mem vm1) (mp_tables mp ! Suc j) [table_index (Suc j) virt] = Some (mp_tables mp ! j)"
        using n1 n2 unfolding take_path_Suc [OF that(2)] by (simp add: node_append)
      then show ?thesis by (auto split: if_splits)
    qed
    have rf: "resolved_from (Suc level) mp (v_mem vm1) t virt"
      using Suc.prems(2) up above unfolding resolved_from_def by simp
    have e: "e_present (v_mem vm1 (mp_tables mp ! Suc level) (table_index (Suc level) virt))"
      "ppn_of (v_mem vm1 (mp_tables mp ! Suc level) (table_index (Suc level) virt)) = ?a" using above [of level] l by auto
    have nl: "leaf (v_mem vm1) t (path virt) = None" using lf by simp
    have k: "k = 3 - Suc level" using Suc.hyps(2) by simp
    have "\<exists>vm'. unmap_levels (4 - Suc level) (Suc level) mp (vm1\<lparr>v_pages := pm1\<rparr>) = Some vm' \<and> space_ok vm' t \<and>
      (\<forall>q. length q = 4 \<longrightarrow> good_path q \<longrightarrow> leaf (v_mem vm') t q = (if q = path virt then None else leaf (v_mem vm1) t q))"
      by (rule Suc.hyps(1) [OF k st(1) rf]) (use e pm1 False l nl in \<open>auto simp: present_entries_iff\<close>)
    then obtain vm' where "unmap_levels (4 - Suc level) (Suc level) mp (vm1\<lparr>v_pages := pm1\<rparr>) = Some vm'" "space_ok vm' t"
      "\<forall>q. length q = 4 \<longrightarrow> good_path q \<longrightarrow> leaf (v_mem vm') t q = (if q = path virt then None else leaf (v_mem vm1) t q)" by blast
    moreover have "free_page ?a pm = Some pm1" using pm1 by (simp add: vm1_def)
    ultimately show ?thesis using step False lf by auto
  qed
qed

lemma less_4_cases: "(l :: nat) < 4 \<Longrightarrow> l = 0 \<or> l = 1 \<or> l = 2 \<or> l = 3"
  by arith

lemma resolve_mapped:
  assumes "leaf m t (path virt) = Some e"
  shows "resolved_from 0 (resolve t virt m) m t virt" and "m (mp_tables (resolve t virt m) ! 0) (table_index 0 virt) = e"
    and "e_present e" and "mp_ppn (resolve t virt m) ! 0 = ppn_of e"
proof -
  have pt: "path virt = [table_index 3 virt, table_index 2 virt, table_index 1 virt] @ [table_index 0 virt]" by (simp add: path_def)
  from assms have pr: "e_present (m t (table_index 3 virt))" "e_present (m (ppn_of (m t (table_index 3 virt))) (table_index 2 virt))"
    "e_present (m (ppn_of (m (ppn_of (m t (table_index 3 virt))) (table_index 2 virt))) (table_index 1 virt))"
    and e: "e_present e" "m (ppn_of (m (ppn_of (m (ppn_of (m t (table_index 3 virt))) (table_index 2 virt))) (table_index 1 virt))) (table_index 0 virt) = e"
    unfolding pt leaf_snoc by (auto simp: bind_eq_Some_conv split: if_splits)
  show "e_present e" by (rule e(1))
  show "m (mp_tables (resolve t virt m) ! 0) (table_index 0 virt) = e" "mp_ppn (resolve t virt m) ! 0 = ppn_of e"
    using e(2) by (simp_all add: resolve_def Let_def)
  show "resolved_from 0 (resolve t virt m) m t virt"
    unfolding resolved_from_def
  proof (intro conjI allI impI)
    fix l :: nat assume "l < 4"
    then have l: "l = 0 \<or> l = 1 \<or> l = 2 \<or> l = 3" by (rule less_4_cases)
    then show "mp_indices (resolve t virt m) ! l = table_index l virt"
      "0 < l \<Longrightarrow> mp_ppn (resolve t virt m) ! l = mp_tables (resolve t virt m) ! (l - 1)"
      "node m t (take (3 - l) (path virt)) = Some (mp_tables (resolve t virt m) ! l)"
      using pr l by (elim disjE; simp add: resolve_def Let_def path_def numeral_eq_Suc)+
  next
    fix l :: nat assume "l < 3"
    then have "l = 0 \<or> l = 1 \<or> l = 2" by arith
    then show "e_present (m (mp_tables (resolve t virt m) ! Suc l) (table_index (Suc l) virt))"
      "ppn_of (m (mp_tables (resolve t virt m) ! Suc l) (table_index (Suc l) virt)) = mp_tables (resolve t virt m) ! l"
      using pr by (auto simp: resolve_def Let_def numeral_eq_Suc)
  qed
qed


section \<open>Examples\<close>

text \<open>Two address spaces with the roots 0 and 5 share the tables 1, 2 and 3 and the page 4, which is mapped
  at virtual page 0.\<close>

definition demo_mem :: pmem where
  "demo_mem a i =
     (if i \<noteq> 0 then pte_zero else if a = 0 \<or> a = 5 then table_entry 1 else if a = 1 then table_entry 2
      else if a = 2 then table_entry 3 else if a = 3 then leaf_entry 4 3 else pte_zero)"

definition demo_vm :: vmem where
  "demo_vm = \<lparr>v_pages = new_pagemap 12 6 12 [1, 2, 1, 1, 1, 1, 0, 0, 0, 0, 0, 0], v_mem = demo_mem\<rparr>"

lemma demo_present: "e_present (demo_mem a i) \<longleftrightarrow> i = 0 \<and> a \<in> {0, 1, 2, 3, 5}"
  by (auto simp: demo_mem_def pte_zero_def)

lemma demo_ppn: "e_present (demo_mem a 0) \<Longrightarrow> ppn_of (demo_mem a 0) = (if a = 5 then 1 else a + 1)"
  by (auto simp: demo_present) (auto simp: demo_mem_def ppn_table_entry ppn_leaf_entry)

lemma demo_node:
  assumes "node demo_mem r p = Some a" and "r = 0 \<or> r = 5" and "length p \<le> 4"
  shows "p = replicate (length p) 0 \<and> a = (if p = [] then r else of_nat (length p))"
proof -
  consider "p = []" | i1 where "p = [i1]" | i1 i2 where "p = [i1, i2]" | i1 i2 i3 where "p = [i1, i2, i3]"
    | i1 i2 i3 i4 where "p = [i1, i2, i3, i4]"
    using assms(3) by (cases p; cases "tl p"; cases "tl (tl p)"; cases "tl (tl (tl p))"; cases "tl (tl (tl (tl p)))") auto
  then show ?thesis
    using assms(1,2) by cases (auto simp: demo_ppn demo_present split: if_splits)
qed

lemma demo_pages: "pm_inv (v_pages demo_vm)" "unlocked (v_pages demo_vm)" "m_totalPages (v_pages demo_vm) = 12" "zeros (m_pagemap (v_pages demo_vm)) = 6"
  "v_mem demo_vm = demo_mem"
  by (simp_all add: demo_vm_def new_pagemap_def pm_inv_def zeros_def unlocked_def new_spinlock_def)

lemma demo_refs: "a \<in> {0, 1, 2, 3, 4, 5} \<Longrightarrow> refs (v_pages demo_vm) a = (if a = 1 then 2 else 1)"
  by (auto simp: refs_def demo_vm_def new_pagemap_def)

lemma demo_small:
  assumes "(k :: nat) \<le> 4" shows "(of_nat k :: size_t) \<in> {0, 1, 2, 3, 4}" "unat (of_nat k :: size_t) = k"
proof -
  have "k = 0 \<or> k = 1 \<or> k = 2 \<or> k = 3 \<or> k = 4" using assms by arith
  then show "(of_nat k :: size_t) \<in> {0, 1, 2, 3, 4}" "unat (of_nat k :: size_t) = k" by auto
qed

lemma demo_frame:
  assumes "node demo_mem r p = Some a" and "r = 0 \<or> r = 5" and "length p \<le> 4"
  shows "a \<in> {0, 1, 2, 3, 4, 5} \<and> unat a < 12"
  using demo_node [OF assms] demo_small [OF assms(3)] assms(2) by (cases "p = []") auto

lemma demo_depth:
  assumes "node demo_mem 0 p = Some a" and "length p \<le> 4"
  shows "p = replicate (unat a) 0"
proof -
  have p: "p = replicate (length p) 0" "a = of_nat (length p)" using demo_node [OF assms(1) _ assms(2)] by (auto split: if_splits)
  have "unat a = length p" unfolding p(2) by (rule demo_small(2) [OF assms(2)])
  with p(1) show ?thesis by simp
qed

lemma demo_ok: "space_ok demo_vm 0"
  unfolding space_ok_def demo_pages
proof (intro conjI allI impI)
  fix p a assume "length p \<le> 3" "node demo_mem 0 p = Some a"
  then have "a \<in> {0, 1, 2, 3, 4, 5}" "unat a < 12" using demo_frame [of 0 p a] by auto
  then show "unat a < unat (12 :: size_t)" "refs (v_pages demo_vm) a \<noteq> 0" using demo_refs [of a] by auto
next
  fix p q a assume "length p \<le> 3" "length q \<le> 3" "node demo_mem 0 p = Some a" "node demo_mem 0 q = Some a"
  then show "p = q" using demo_depth [of p a] demo_depth [of q a] by simp
qed (use demo_pages in \<open>auto simp: demo_vm_def\<close>)

lemma demo_paths: "path 0 = [0, 0, 0, 0]" "path 1 = [0, 0, 0, 1]"
  by (simp_all add: path_def table_index_def)

lemma demo_leaf: "leaf demo_mem 0 (path 0) = Some (leaf_entry 4 3)" "leaf demo_mem 0 (path 1) = None"
  by (simp_all add: demo_paths leaf_def demo_present demo_ppn) (simp add: demo_mem_def)



end
