(* ===== verification/CopyOnWrite.thy ===== *)
theory CopyOnWrite
  imports AddrSpace
begin

text \<open>
  Copy-on-write faults: what \<^verbatim>\<open>AddrSpace::triggerCow\<close> does to the address spaces that share tables after
  \<^verbatim>\<open>AddrSpace::clone\<close>. The user half of an address space is seen as a function from paths of table
  indices to the contents of data pages, and handling a fault is shown to change no such view while
  the faulting page becomes writable and unshared.
\<close>

text \<open>The loops over the 512 entries of a table are reasoned about as a whole, never unrolled.\<close>

declare upt_rec_numeral [simp del]

section \<open>Views of address spaces\<close>

definition upath :: "nat list \<Rightarrow> bool" where
  "upath p \<longleftrightarrow> good_path p \<and> (p \<noteq> [] \<longrightarrow> hd p < 256)"

lemma upath_append: "upath (p @ q) \<Longrightarrow> upath p"
  by (cases p) (auto simp: upath_def)

lemma upath_Nil [simp]: "upath []"
  by (simp add: upath_def)

definition view :: "pmem \<Rightarrow> size_t \<Rightarrow> nat list \<Rightarrow> pte list option" where
  "view m r p = map_option (\<lambda>a. map (m a) [0..<512]) (node m r p)"

text \<open>The address spaces with the roots \<open>R\<close> are well formed: a frame is used at one level only (level 0
  is data), and every frame in use that the page map covers has a positive count. Frames outside the
  page map (device memory) occur as data only.\<close>

definition spaces_ok :: "vmem \<Rightarrow> size_t set \<Rightarrow> (size_t \<Rightarrow> nat) \<Rightarrow> bool" where
  "spaces_ok vm R lev \<longleftrightarrow> pm_inv (v_pages vm) \<and> unlocked (v_pages vm) \<and> unat (m_totalPages (v_pages vm)) \<le> 2 ^ 28 \<and>
     (\<forall>r p a. r \<in> R \<longrightarrow> length p \<le> 4 \<longrightarrow> upath p \<longrightarrow> node (v_mem vm) r p = Some a \<longrightarrow>
        lev a = 4 - length p \<and> (if unat a < unat (m_totalPages (v_pages vm)) then refs (v_pages vm) a \<noteq> 0 else length p = 4))"

lemma spaces_okD:
  assumes "spaces_ok vm R lev"
  shows "pm_inv (v_pages vm)" "unlocked (v_pages vm)" "unat (m_totalPages (v_pages vm)) \<le> 2 ^ 28"
    and "\<And>r p a. r \<in> R \<Longrightarrow> length p \<le> 4 \<Longrightarrow> upath p \<Longrightarrow> node (v_mem vm) r p = Some a \<Longrightarrow>
        lev a = 4 - length p \<and> (if unat a < unat (m_totalPages (v_pages vm)) then refs (v_pages vm) a \<noteq> 0 else length p = 4)"
  using assms unfolding spaces_ok_def by blast+

section \<open>Copying a shared table\<close>

definition cowed :: "pte \<Rightarrow> pte" where
  "cowed e = (if e_present e \<and> \<not> e_shared e
     then (if \<not> e_cow_was_writable e then e\<lparr>e_cow_was_writable := e_write e\<rparr> else e)\<lparr>e_write := False\<rparr> else e)"

lemma cowed_same [simp]: "e_present (cowed e) = e_present e" "ppn_of (cowed e) = ppn_of e" "e_shared (cowed e) = e_shared e"
  by (simp_all add: cowed_def ppn_of_def)

definition copied :: "pte \<Rightarrow> pte \<Rightarrow> pte" where
  "copied e old = (if e_present e then cowed e else old\<lparr>e_present := False\<rparr>)"

definition child_refs :: "(nat \<Rightarrow> pte) \<Rightarrow> nat list \<Rightarrow> size_t \<Rightarrow> nat" where
  "child_refs tbl js q = length (filter (\<lambda>j. e_present (tbl j) \<and> \<not> e_shared (tbl j) \<and> ppn_of (tbl j) = q) js)"

lemma cow_copy_entry_mem:
  assumes "c \<noteq> n"
  shows "v_mem (cow_copy_entry c n j vm) a i =
     (if a = c \<and> i = j then cowed (v_mem vm c j) else if a = n \<and> i = j then copied (v_mem vm c j) (v_mem vm n j) else v_mem vm a i)"
  using assms by (auto simp: cow_copy_entry_def set_entry_def cowed_def copied_def Let_def)

lemma cow_copy_entry_pages:
  "v_pages (cow_copy_entry c n j vm) =
     (if e_present (v_mem vm c j) \<and> \<not> e_shared (v_mem vm c j) then addRef (ppn_of (v_mem vm c j)) (v_pages vm) else v_pages vm)"
  by (simp add: cow_copy_entry_def Let_def ppn_of_def)

lemma addRef_range:
  assumes "pm_inv pm" and "\<And>q. unat q < unat (m_totalPages pm) \<Longrightarrow> q = c \<Longrightarrow> refs pm q < 255"
  shows "pm_inv (addRef c pm)"
    and "\<And>q. unat q < unat (m_totalPages pm) \<Longrightarrow> refs (addRef c pm) q = refs pm q + (if q = c then 1 else 0)"
proof -
  show "pm_inv (addRef c pm)"
    using addRef_correct [OF assms(1), of c] assms outside_ignored(1) [of c pm] by (cases "unat c < unat (m_totalPages pm)") auto
  show "refs (addRef c pm) q = refs pm q + (if q = c then 1 else 0)" if "unat q < unat (m_totalPages pm)" for q
    using addRef_correct [OF assms(1), of c] assms(2) [of c] that outside_ignored(1) [of c pm] by (cases "unat c < unat (m_totalPages pm)") auto
qed

text \<open>\<open>triggerCow\<close> and \<open>clone\<close> both run over the entries of an old table \<open>c\<close>, change the entry, write an entry of
  the new table \<open>n\<close> and add a reference for the entries that satisfy \<open>K\<close>. This is the effect of such a loop.\<close>

lemma table_fold:
  fixes f :: "nat \<Rightarrow> vmem \<Rightarrow> vmem" and K :: "pte \<Rightarrow> bool"
  assumes mem: "\<And>vm j a i. v_mem (f j vm) a i = (if a = c \<and> i = j then old (v_mem vm c j)
        else if a = n \<and> i = j then new (v_mem vm c j) (v_mem vm n j) else v_mem vm a i)"
    and pages: "\<And>vm j. v_pages (f j vm) = (if K (v_mem vm c j) then addRef (ppn_of (v_mem vm c j)) (v_pages vm) else v_pages vm)"
    and cn: "c \<noteq> n" and "distinct js" and "pm_inv (v_pages vm)"
    and "\<And>q. unat q < unat (m_totalPages (v_pages vm)) \<Longrightarrow>
        refs (v_pages vm) q + length (filter (\<lambda>j. K (v_mem vm c j) \<and> ppn_of (v_mem vm c j) = q) js) \<le> 255"
  shows "(\<forall>a i. v_mem (fold f js vm) a i = (if i \<in> set js then if a = c then old (v_mem vm c i) else if a = n then new (v_mem vm c i) (v_mem vm n i) else v_mem vm a i
        else v_mem vm a i)) \<and> pm_inv (v_pages (fold f js vm)) \<and> p_lock (v_pages (fold f js vm)) = p_lock (v_pages vm) \<and>
     m_totalPages (v_pages (fold f js vm)) = m_totalPages (v_pages vm) \<and>
     (\<forall>q. unat q < unat (m_totalPages (v_pages vm)) \<longrightarrow>
        refs (v_pages (fold f js vm)) q = refs (v_pages vm) q + length (filter (\<lambda>j. K (v_mem vm c j) \<and> ppn_of (v_mem vm c j) = q) js))"
  using assms(4-6)
proof (induction js arbitrary: vm)
  case (Cons j js)
  let ?cr = "\<lambda>vm js q. length (filter (\<lambda>j. K (v_mem vm c j) \<and> ppn_of (v_mem vm c j) = q) js)"
  let ?e = "v_mem vm c j" and ?vm1 = "f j vm"
  have d: "distinct js" "j \<notin> set js" using Cons.prems(1) by auto
  have cr: "?cr ?vm1 js q = ?cr vm js q" for q
    using d(2) by (intro arg_cong [where f = length] filter_cong) (auto simp: mem)
  have cr1: "?cr vm (j # js) q = (if K ?e \<and> ppn_of ?e = q then 1 else 0) + ?cr vm js q" for q by simp
  have lt: "refs (v_pages vm) q < 255" if "unat q < unat (m_totalPages (v_pages vm))" "q = ppn_of ?e" "K ?e" for q
    using Cons.prems(3) [OF that(1)] cr1 [of q] that by simp
  have pg: "pm_inv (v_pages ?vm1)" "p_lock (v_pages ?vm1) = p_lock (v_pages vm)" "m_totalPages (v_pages ?vm1) = m_totalPages (v_pages vm)"
    using Cons.prems(2) addRef_range(1) [of "v_pages vm" "ppn_of ?e"] lt by (auto simp: pages)
  have rf: "refs (v_pages ?vm1) q = refs (v_pages vm) q + (if K ?e \<and> ppn_of ?e = q then 1 else 0)"
    if "unat q < unat (m_totalPages (v_pages vm))" for q
    using addRef_range(2) [OF Cons.prems(2), of "ppn_of ?e" q] lt that by (auto simp: pages)
  have "refs (v_pages ?vm1) q + ?cr ?vm1 js q \<le> 255" if "unat q < unat (m_totalPages (v_pages ?vm1))" for q
    using Cons.prems(3) [of q] rf [of q] cr cr1 [of q] that pg(3) by simp
  note IH = Cons.IH [of ?vm1, OF d(1) pg(1) this]
  have f: "fold f (j # js) vm = fold f js ?vm1" by simp
  show ?case
    unfolding f
  proof (intro conjI allI impI)
    fix a i
    show "v_mem (fold f js ?vm1) a i = (if i \<in> set (j # js) then if a = c then old (v_mem vm c i)
        else if a = n then new (v_mem vm c i) (v_mem vm n i) else v_mem vm a i else v_mem vm a i)"
      using IH d(2) cn by (cases "i = j") (auto simp: mem)
  next
    fix q :: size_t assume "unat q < unat (m_totalPages (v_pages vm))"
    then show "refs (v_pages (fold f js ?vm1)) q = refs (v_pages vm) q + ?cr vm (j # js) q"
      using IH rf [of q] cr cr1 [of q] pg(3) by simp
  qed (use IH pg in auto)
qed simp

lemma cow_fold:
  assumes "c \<noteq> n" and "distinct js" and "pm_inv (v_pages vm)"
    and "\<And>q. unat q < unat (m_totalPages (v_pages vm)) \<Longrightarrow> refs (v_pages vm) q + child_refs (v_mem vm c) js q \<le> 255"
  defines "vm' \<equiv> fold (cow_copy_entry c n) js vm"
  shows "\<And>a i. v_mem vm' a i = (if i \<in> set js then if a = c then cowed (v_mem vm c i) else if a = n then copied (v_mem vm c i) (v_mem vm n i) else v_mem vm a i
        else v_mem vm a i)"
    and "pm_inv (v_pages vm')" and "p_lock (v_pages vm') = p_lock (v_pages vm)" and "m_totalPages (v_pages vm') = m_totalPages (v_pages vm)"
    and "\<And>q. unat q < unat (m_totalPages (v_pages vm)) \<Longrightarrow> refs (v_pages vm') q = refs (v_pages vm) q + child_refs (v_mem vm c) js q"
  using table_fold [where f = "cow_copy_entry c n" and K = "\<lambda>e. e_present e \<and> \<not> e_shared e" and c = c and n = n and old = cowed and new = copied and js = js and vm = vm]
    cow_copy_entry_mem [OF assms(1)] cow_copy_entry_pages [of c n] assms(1-4)
  unfolding vm'_def child_refs_def by (simp_all only: conj_assoc simp_thms)

section \<open>Redirecting one entry\<close>

definition hop :: "pmem \<Rightarrow> size_t \<Rightarrow> nat \<Rightarrow> size_t option" where
  "hop m a j = (if e_present (m a j) then Some (ppn_of (m a j)) else None)"

lemma node_snoc: "node m r (q @ [j]) = node m r q \<bind> (\<lambda>a. hop m a j)"
  by (simp add: node_append hop_def cong: if_cong)

lemma node_redirect:
  assumes ct: "c \<noteq> t"
    and E1: "\<And>a j. a \<noteq> n \<Longrightarrow> j < 512 \<Longrightarrow> \<not> (a = t \<and> j = i) \<Longrightarrow> hop m' a j = hop m a j"
    and E2: "hop m t i = Some c" "hop m' t i = Some n"
    and E3: "\<And>j. d < 3 \<Longrightarrow> j < 512 \<Longrightarrow> hop m' n j = hop m c j"
    and fresh: "\<And>q a. node m r q = Some a \<Longrightarrow> length q \<le> 4 \<Longrightarrow> upath q \<Longrightarrow> a \<noteq> n"
    and depth: "\<And>q. node m r q = Some t \<Longrightarrow> length q \<le> 4 \<Longrightarrow> upath q \<Longrightarrow> length q = d"
  shows "length q \<le> 4 \<Longrightarrow> upath q \<Longrightarrow>
    node m' r q = (if q \<noteq> [] \<and> last q = i \<and> node m r (butlast q) = Some t then Some n else node m r q)"
proof (induction q rule: rev_induct)
  case (snoc j q)
  have q: "length q \<le> 4" "upath q" "j < 512" "length q \<le> 3" using snoc.prems by (auto simp: upath_append upath_def split: if_splits) 
  note IH = snoc.IH [OF q(1,2)]
  show ?case
  proof (cases "q \<noteq> [] \<and> last q = i \<and> node m r (butlast q) = Some t")
    case True
    have qi: "q = butlast q @ [i]" using True by (metis append_butlast_last_id)
    have lb: "length (butlast q) \<le> 4" "upath (butlast q)" using q upath_append [of "butlast q" "[i]"] qi by auto
    have "length (butlast q) = d" using depth [OF _ lb] True by blast
    then have "d < 3" using q(4) qi by (metis Suc_le_lessD length_append_singleton)
    have nq: "node m r q = Some c" using True E2(1) by (subst qi) (simp add: node_snoc)
    have "node m' r (q @ [j]) = hop m' n j" using IH True by (simp add: node_snoc)
    also have "\<dots> = hop m c j" by (rule E3) (use \<open>d < 3\<close> q in auto)
    also have "\<dots> = node m r (q @ [j])" using nq by (simp add: node_snoc)
    finally show ?thesis using nq ct by simp
  next
    case False
    then have n': "node m' r q = node m r q" using IH by (simp only: if_False)
    show ?thesis
    proof (cases "node m r q")
      case (Some a)
      have "a \<noteq> n" using fresh [OF Some q(1,2)] .
      then show ?thesis using Some n' E1 [of a j] E2(2) q(3) by (auto simp: node_snoc)
    qed (use n' in \<open>simp add: node_snoc\<close>)
  qed
qed simp

text \<open>The step when the frame below the entry is shared: a frame is allocated, the table or page is
  copied into it and the entry is redirected. \<open>room\<close> says that no count of a child of the copied table
  overflows.\<close>

definition room :: "vmem \<Rightarrow> (size_t \<Rightarrow> nat) \<Rightarrow> nat \<Rightarrow> bool" where
  "room vm lev l \<longleftrightarrow> (\<forall>a q. 1 \<le> lev a \<longrightarrow> lev a \<le> l \<longrightarrow> unat q < unat (m_totalPages (v_pages vm)) \<longrightarrow> lev q = lev a - 1 \<longrightarrow>
      refs (v_pages vm) q + child_refs (v_mem vm a) [0..<512] q \<le> 255)"

lemma hop_set_entry: "hop (set_entry t i e m) a j = (if a = t \<and> j = i then (if e_present e then Some (ppn_of e) else None) else hop m a j)"
  by (auto simp: hop_def set_entry_def)

lemma spaces_child:
  assumes "spaces_ok vm R lev" and "r \<in> R" and "node (v_mem vm) r p = Some t" and "upath (p @ [i])" and "length p \<le> 3"
    and "e_present (v_mem vm t i)"
  shows "node (v_mem vm) r (p @ [i]) = Some (ppn_of (v_mem vm t i))" and "lev t = 4 - length p" and "lev (ppn_of (v_mem vm t i)) = 3 - length p"
proof -
  show n: "node (v_mem vm) r (p @ [i]) = Some (ppn_of (v_mem vm t i))" using assms(3,6) by (simp add: node_append)
  show "lev t = 4 - length p" using spaces_okD(4) [OF assms(1,2) _ upath_append [OF assms(4)] assms(3)] assms(5) by simp
  show "lev (ppn_of (v_mem vm t i)) = 3 - length p" using spaces_okD(4) [OF assms(1,2) _ assms(4) n] assms(5) by simp
qed

lemma pm_locked:
  assumes "pm_inv pm" and "unlocked pm"
  obtains pm0 where "pm_lock pm = Some pm0" "pm_inv pm0" "m_totalPages pm0 = m_totalPages pm" "m_pagemap pm0 = m_pagemap pm"
    "p_lock pm0 = \<lparr>s_magic = MAGIC, s_lock = 1\<rparr>"
  using assms by (auto simp: pm_lock_eq pm_inv_def unlocked_def)

lemma pm_unlocks:
  assumes "pm_inv pm" and "p_lock pm = \<lparr>s_magic = MAGIC, s_lock = 1\<rparr>"
  obtains pm1 where "pm_unlock pm = Some pm1" "pm_inv pm1" "unlocked pm1" "m_totalPages pm1 = m_totalPages pm" "m_pagemap pm1 = m_pagemap pm"
  using assms by (auto simp: pm_unlock_def spin_unlock_eq pm_inv_def unlocked_def)

lemma refs_same_map: "m_pagemap pm = m_pagemap pm' \<Longrightarrow> refs pm q = refs pm' q"
  by (simp add: refs_def)

lemma alloc_locked:
  assumes "pm_inv pm" and "0 < zeros (m_pagemap pm)"
  shows "\<exists>n pm'. alloc True pm = Some (n, pm') \<and> zeros (m_pagemap pm') = zeros (m_pagemap pm) - 1 \<and> pm_inv pm' \<and>
     p_lock pm' = p_lock pm \<and> m_totalPages pm' = m_totalPages pm \<and> unat n < unat (m_totalPages pm) \<and> refs pm n = 0 \<and>
     (\<forall>q. unat q < unat (m_totalPages pm) \<longrightarrow> refs pm' q = (if q = n then 1 else refs pm q))"
proof -
  from assms(2) obtain x where "x \<in> set (m_pagemap pm)" "x = 0"
    unfolding zeros_def by (auto simp: length_greater_0_conv filter_empty_conv)
  then obtain j where j: "j < length (m_pagemap pm)" "m_pagemap pm ! j = 0" by (auto simp: in_set_conv_nth)
  have len: "length (m_pagemap pm) = unat (m_totalPages pm)" using assms(1) by (simp add: pm_inv_def)
  have "unat (of_nat j :: size_t) = j"
    using j(1) len unat_less_pow [of "m_totalPages pm"] by (intro unat_of_nat_small) simp
  then have "\<exists>n pm'. alloc True pm = Some (n, pm')"
    using alloc_returns [OF assms(1), of True "of_nat j"] j len by (simp add: refs_def del: unat_of_nat)
  then obtain n pm' where a: "alloc True pm = Some (n, pm')" by blast
  from alloc_correct [OF assms(1) _ a]
  have n: "unat n < length (m_pagemap pm)" "m_pagemap pm ! unat n = 0" "pm' = set_refs (unat n) 1 pm" "pm_inv pm'" "refs pm n = 0"
    using len by (auto simp: refs_def unsigned_eq_0_iff)
  then show ?thesis using a zeros_update [of "unat n" "m_pagemap pm" 1] refs_set_refs [OF _ assms(1), of _ "unat n" 1] len
    by (auto simp: word_unat_eq_iff)
qed

definition same_views :: "size_t set \<Rightarrow> pmem \<Rightarrow> pmem \<Rightarrow> bool" where
  "same_views R m m' \<longleftrightarrow> (\<forall>s \<in> R. \<forall>q. length q = 4 \<longrightarrow> upath q \<longrightarrow> view m' s q = view m s q)"

lemma same_views_trans: "same_views R m m' \<Longrightarrow> same_views R m' m'' \<Longrightarrow> same_views R m m''"
  by (simp add: same_views_def)

lemma same_views_refl [simp]: "same_views R m m"
  by (simp add: same_views_def)

lemma cow_redirect:
  assumes ok: "spaces_ok vm R lev" and r: "r \<in> R" and p: "node (v_mem vm) r p = Some t" "upath (p @ [i])" "length p + level = 3"
    and e: "e_present (v_mem vm t i)" and c: "c = ppn_of (v_mem vm t i)"
    and n: "unat n < unat (m_totalPages (v_pages vm))" "refs (v_pages vm) n = 0"
    and M1: "\<And>a j. a \<noteq> n \<Longrightarrow> a \<noteq> c \<Longrightarrow> \<not> (a = t \<and> j = i) \<Longrightarrow> m' a j = v_mem vm a j"
    and M2: "\<And>j. j < 512 \<Longrightarrow> hop m' c j = hop (v_mem vm) c j"
    and M3: "\<And>j. 0 < level \<Longrightarrow> j < 512 \<Longrightarrow> hop m' n j = hop (v_mem vm) c j"
    and M4: "level = 0 \<Longrightarrow> (\<forall>j < 512. m' n j = v_mem vm c j \<and> m' c j = v_mem vm c j)"
    and M5: "hop m' t i = Some n"
    and pm': "pm_inv pm'" "unlocked pm'" "m_totalPages pm' = m_totalPages (v_pages vm)"
      "\<And>q. unat q < unat (m_totalPages (v_pages vm)) \<Longrightarrow> q = n \<or> refs (v_pages vm) q \<noteq> 0 \<Longrightarrow> refs pm' q \<noteq> 0"
  shows "spaces_ok \<lparr>v_pages = pm', v_mem = m'\<rparr> R (lev(n := level))" and "same_views R (v_mem vm) m'" and "node m' r p = Some t"
proof -
  let ?m = "v_mem vm"
  have lp: "length p \<le> 3" using p(3) by simp
  note ch = spaces_child [OF ok r p(1,2) lp e, folded c]
  have levs: "lev t = Suc level" "lev c = level" using ch(2,3) p(3) by auto
  then have ct: "c \<noteq> t" by auto
  have fresh: "a \<noteq> n" if "s \<in> R" "node ?m s q = Some a" "length q \<le> 4" "upath q" for s q a
    using spaces_okD(4) [OF ok that(1,3,4,2)] n by (auto split: if_splits)
  have tn: "t \<noteq> n" using fresh [OF r p(1) _ upath_append [OF p(2)]] lp by simp
  have E2: "hop ?m t i = Some c" using e by (simp add: hop_def c)
  have depth: "length q = length p" if "s \<in> R" "node ?m s q = Some t" "length q \<le> 4" "upath q" for s q
  proof -
    have "lev t = 4 - length q" using spaces_okD(4) [OF ok that(1,3,4,2)] by blast
    then show ?thesis using levs(1) p(3) that(3) by arith
  qed
  have E1: "hop m' a j = hop ?m a j" if "a \<noteq> n" "j < 512" "\<not> (a = t \<and> j = i)" for a j
    using M1 [of a j] M2 [of j] that by (cases "a = c") (auto simp: hop_def)
  have E3: "hop m' n j = hop ?m c j" if "length p < 3" "j < 512" for j using M3 that p(3) by simp
  have nd: "node m' s q = (if q \<noteq> [] \<and> last q = i \<and> node ?m s (butlast q) = Some t then Some n else node ?m s q)"
    if "s \<in> R" "length q \<le> 4" "upath q" for s q
    by (rule node_redirect [OF ct E1 E2 M5 E3 fresh [OF that(1)] depth [OF that(1)] that(2,3)])
  have via: "length q = Suc (length p) \<and> node ?m s q = Some c"
    if "s \<in> R" "length q \<le> 4" "upath q" "q \<noteq> []" "last q = i" "node ?m s (butlast q) = Some t" for s q
  proof -
    have qi: "q = butlast q @ [i]" using that(4,5) by (metis append_butlast_last_id)
    have "upath (butlast q)" using that(3) qi upath_append by metis
    then have "length (butlast q) = length p" using depth [OF that(1,6)] that(2) by simp
    then have "length q = Suc (length p)" using qi by (metis length_append_singleton)
    moreover have "node ?m s q = Some c" using that(6) E2 by (subst qi) (simp add: node_snoc)
    ultimately show ?thesis ..
  qed
  show "spaces_ok \<lparr>v_pages = pm', v_mem = m'\<rparr> R (lev(n := level))"
    unfolding spaces_ok_def
  proof (intro conjI allI impI)
    fix s q a assume s: "s \<in> R" "length q \<le> 4" "upath q" "node (v_mem \<lparr>v_pages = pm', v_mem = m'\<rparr>) s q = Some a"
    have "(lev(n := level)) a = 4 - length q \<and> (if unat a < unat (m_totalPages pm') then refs pm' a \<noteq> 0 else length q = 4)"
    proof (cases "q \<noteq> [] \<and> last q = i \<and> node ?m s (butlast q) = Some t")
      case True
      then have "a = n" using nd [OF s(1-3)] s(4) by simp
      moreover have "length q = Suc (length p)" using via [OF s(1-3)] True by blast
      ultimately show ?thesis using pm'(3,4) n(1) p(3) by auto
    next
      case False
      then have o: "node ?m s q = Some a" using nd [OF s(1-3)] s(4) by (simp only: if_False vmem.select_convs)
      have "a \<noteq> n" using fresh [OF s(1) o s(2,3)] .
      then show ?thesis using spaces_okD(4) [OF ok s(1-3) o] pm'(3,4) by (auto split: if_splits)
    qed
    then show "(lev(n := level)) a = 4 - length q"
      "if unat a < unat (m_totalPages (v_pages \<lparr>v_pages = pm', v_mem = m'\<rparr>)) then refs (v_pages \<lparr>v_pages = pm', v_mem = m'\<rparr>) a \<noteq> 0 else length q = 4" by simp_all
  qed (use pm' spaces_okD(3) [OF ok] in auto)
  show "same_views R ?m m'"
    unfolding same_views_def
  proof (intro ballI allI impI)
    fix s q assume s: "s \<in> R" "length q = 4" "upath q"
    then have l4: "length q \<le> 4" by simp
    show "view m' s q = view ?m s q"
    proof (cases "q \<noteq> [] \<and> last q = i \<and> node ?m s (butlast q) = Some t")
      case True
      then have v: "length q = Suc (length p)" "node ?m s q = Some c" using via [OF s(1) l4 s(3)] by blast+
      then have "level = 0" using s(2) p(3) by simp
      then show ?thesis using nd [OF s(1) l4 s(3)] True v(2) M4 by (simp add: view_def)
    next
      case False
      then have o: "node m' s q = node ?m s q" using nd [OF s(1) l4 s(3)] by (simp only: if_False)
      have "m' a j = ?m a j" if a: "node ?m s q = Some a" and j: "j < 512" for a j
      proof -
        have "lev a = 0" using spaces_okD(4) [OF ok s(1) l4 s(3) a] s(2) by simp
        then have "a \<noteq> t" "a = c \<longrightarrow> level = 0" using levs by auto
        moreover have "a \<noteq> n" using fresh [OF s(1) a l4 s(3)] .
        ultimately show ?thesis using M1 [of a j] M4 j by (cases "a = c") auto
      qed
      then show ?thesis using o by (cases "node ?m s q") (auto simp: view_def)
    qed
  qed
  have up: "upath p" using p(2) by (rule upath_append)
  have "\<not> (p \<noteq> [] \<and> last p = i \<and> node ?m r (butlast p) = Some t)"
  proof
    assume "p \<noteq> [] \<and> last p = i \<and> node ?m r (butlast p) = Some t"
    then show False using via [OF r _ up] lp by auto
  qed
  then show "node m' r p = Some t" using nd [OF r _ up] lp p(1) by (simp only: if_False)
qed

lemma zeros_refs: "pm_inv pm \<Longrightarrow> zeros (m_pagemap pm) = card {j. j < unat (m_totalPages pm) \<and> refs pm (of_nat j) = 0}"
proof -
  assume inv: "pm_inv pm"
  then have len: "length (m_pagemap pm) = unat (m_totalPages pm)" by (simp add: pm_inv_def)
  have "zeros (m_pagemap pm) = card {j. j < length (m_pagemap pm) \<and> m_pagemap pm ! j = 0}"
    by (simp add: zeros_def length_filter_conv_card)
  also have "{j. j < length (m_pagemap pm) \<and> m_pagemap pm ! j = 0} = {j. j < unat (m_totalPages pm) \<and> refs pm (of_nat j) = 0}"
  proof -
    have "unat (of_nat j :: size_t) = j" if "j < unat (m_totalPages pm)" for j
      using that unat_less_pow [of "m_totalPages pm"] by (intro unat_of_nat_small) simp
    then show ?thesis using len by (auto simp: refs_def unsigned_eq_0_iff simp del: unat_of_nat)
  qed
  finally show ?thesis .
qed

lemma zeros_mono:
  assumes "pm_inv pm" and "pm_inv pm'" and "m_totalPages pm' = m_totalPages pm"
    and "\<And>q. unat q < unat (m_totalPages pm) \<Longrightarrow> refs pm q = 0 \<Longrightarrow> q \<noteq> n \<Longrightarrow> refs pm' q = 0"
  shows "zeros (m_pagemap pm) \<le> Suc (zeros (m_pagemap pm'))"
proof -
  let ?Z = "\<lambda>pm. {j. j < unat (m_totalPages pm) \<and> refs pm (of_nat j) = 0}"
  have "?Z pm \<subseteq> insert (unat n) (?Z pm')"
  proof
    fix j assume j: "j \<in> ?Z pm"
    then have u: "unat (of_nat j :: size_t) = j"
      using unat_less_pow [of "m_totalPages pm"] by (intro unat_of_nat_small) simp
    show "j \<in> insert (unat n) (?Z pm')"
    proof (cases "of_nat j = n")
      case True
      then have "j = unat n" using u by (simp only:)
      then show ?thesis by simp
    next
      case False
      then show ?thesis using j assms(3) assms(4) [of "of_nat j"] u by (simp del: unat_of_nat)
    qed
  qed
  then have "card (?Z pm) \<le> card (insert (unat n) (?Z pm'))" by (intro card_mono) auto
  also have "\<dots> \<le> Suc (card (?Z pm'))" by (simp add: card_insert_if)
  finally show ?thesis using zeros_refs [OF assms(1)] zeros_refs [OF assms(2)] by simp
qed

lemma child_refs_unused:
  assumes ok: "spaces_ok vm R lev" and r: "r \<in> R" and c: "node (v_mem vm) r p = Some c" "upath p" "length p \<le> 3" "p \<noteq> []"
    and q: "unat q < unat (m_totalPages (v_pages vm))" "refs (v_pages vm) q = 0"
  shows "child_refs (v_mem vm c) [0..<512] q = 0"
proof (rule ccontr)
  assume "child_refs (v_mem vm c) [0..<512] q \<noteq> 0"
  then obtain j where j: "j < 512" "e_present (v_mem vm c j)" "ppn_of (v_mem vm c j) = q"
    by (auto simp: child_refs_def filter_empty_conv)
  then have "node (v_mem vm) r (p @ [j]) = Some q" using c(1) by (simp add: node_append)
  moreover have "upath (p @ [j])" using c(2,4) j(1) by (auto simp: upath_def)
  ultimately show False using spaces_okD(4) [OF ok r, of "p @ [j]" q] c(3) q by (auto split: if_splits)
qed

lemma child_level:
  assumes ok: "spaces_ok vm R lev" and r: "r \<in> R" and c: "node (v_mem vm) r p = Some c" "upath p" "length p \<le> 3" "p \<noteq> []"
    and q: "child_refs (v_mem vm c) [0..<512] q \<noteq> 0"
  shows "lev q = 3 - length p"
proof -
  from q obtain j where j: "j < 512" "e_present (v_mem vm c j)" "ppn_of (v_mem vm c j) = q"
    by (auto simp: child_refs_def filter_empty_conv)
  then have "node (v_mem vm) r (p @ [j]) = Some q" using c(1) by (simp add: node_append)
  moreover have "upath (p @ [j])" using c(2,4) j(1) by (auto simp: upath_def)
  ultimately show ?thesis using spaces_okD(4) [OF ok r, of "p @ [j]" q] c(3) by auto
qed

section \<open>One level of a fault\<close>

text \<open>What a level leaves behind for the next one.\<close>

definition cow_step_ok :: "size_t set \<Rightarrow> nat \<Rightarrow> size_t \<Rightarrow> nat list \<Rightarrow> size_t \<Rightarrow> nat \<Rightarrow> vmem \<Rightarrow> vmem \<Rightarrow> (size_t \<Rightarrow> nat) \<Rightarrow> bool" where
  "cow_step_ok R level r p t i vm vm' lev' \<longleftrightarrow> spaces_ok vm' R lev' \<and> same_views R (v_mem vm) (v_mem vm') \<and>
     room vm' lev' (level - 1) \<and> zeros (m_pagemap (v_pages vm)) \<le> Suc (zeros (m_pagemap (v_pages vm'))) \<and>
     node (v_mem vm') r p = Some t \<and> e_present (v_mem vm' t i) \<and>
     (unat (ppn_of (v_mem vm' t i)) < unat (m_totalPages (v_pages vm')) \<longrightarrow> refs (v_pages vm') (ppn_of (v_mem vm' t i)) = 1) \<and>
     (e_write (v_mem vm t i) \<or> e_cow_was_writable (v_mem vm t i) \<longrightarrow> e_write (v_mem vm' t i))"

lemma getRefs_refs: "getRefs pm q = (if unat q < unat (m_totalPages pm) then of_nat (refs pm q) else 1)"
  by (simp add: getRefs_def refs_def word_le_nat_alt)

lemma refs_byte: "refs pm q < 256"
  unfolding refs_def using unat_less_pow [of "m_pagemap pm ! unat q"] by simp

lemma getRefs_shared: "1 < getRefs pm q \<longleftrightarrow> unat q < unat (m_totalPages pm) \<and> 1 < refs pm q"
proof -
  have "unat (of_nat (refs pm q) :: size_t) = refs pm q" using refs_byte [of pm q] by (intro unat_of_nat_small) simp
  then show ?thesis by (simp add: getRefs_refs word_less_nat_alt del: unat_of_nat)
qed

lemma cow_level_private:
  assumes ok: "spaces_ok vm R lev" and r: "r \<in> R" and p: "node (v_mem vm) r p = Some t" "upath (p @ [i])" "length p + level = 3"
    and e: "e_present (v_mem vm t i)" and rm: "room vm lev level"
    and priv: "\<not> (unat (ppn_of (v_mem vm t i)) < unat (m_totalPages (v_pages vm)) \<and> 1 < refs (v_pages vm) (ppn_of (v_mem vm t i)))"
  shows "\<exists>vm'. cow_level level t i vm = Some vm' \<and> cow_step_ok R level r p t i vm vm' lev"
proof -
  let ?m = "v_mem vm" and ?e = "v_mem vm t i"
  obtain pm0 where pm0: "pm_lock (v_pages vm) = Some pm0" "pm_inv pm0" "m_totalPages pm0 = m_totalPages (v_pages vm)" "m_pagemap pm0 = m_pagemap (v_pages vm)"
    "p_lock pm0 = \<lparr>s_magic = MAGIC, s_lock = 1\<rparr>" using pm_locked [OF spaces_okD(1,2) [OF ok]] by blast
  obtain pm1 where pm1: "pm_unlock pm0 = Some pm1" "pm_inv pm1" "unlocked pm1" "m_totalPages pm1 = m_totalPages pm0" "m_pagemap pm1 = m_pagemap pm0"
    using pm_unlocks [OF pm0(2,5)] by blast
  have rf: "refs pm0 q = refs (v_pages vm) q" "refs pm1 q = refs (v_pages vm) q" for q using pm0(4) pm1(5) by (simp_all add: refs_def)
  have np: "\<not> 1 < getRefs pm0 (ppn_of ?e)" using priv pm0(3) by (simp add: getRefs_shared rf)
  define e' where "e' = (if \<not> e_write ?e \<and> e_cow_was_writable ?e then ?e\<lparr>e_write := True\<rparr> else ?e)"
  define m' where "m' = (if \<not> e_write ?e \<and> e_cow_was_writable ?e then set_entry t i e' ?m else ?m)"
  have m': "m' a j = (if a = t \<and> j = i then e' else ?m a j)" for a j by (auto simp: m'_def e'_def set_entry_def)
  have e': "e_present e' = e_present ?e" "ppn_of e' = ppn_of ?e" by (simp_all add: e'_def ppn_of_def)
  define vm' where "vm' = \<lparr>v_pages = pm1, v_mem = m'\<rparr>"
  have cl: "cow_level level t i vm = Some vm'"
    using pm0(1) pm1(1) np by (auto simp: cow_level_def Let_def vm'_def m'_def e'_def)
  have nd: "node m' s q = node ?m s q" for s q
  proof (induction q arbitrary: s)
    case (Cons j q)
    then show ?case using e' by (auto simp: m')
  qed simp
  have lp: "length p \<le> 3" using p(3) by simp
  have lt: "lev t = Suc level" using spaces_child(2) [OF ok r p(1,2) lp e] p(3) by simp
  have data: "m' a = ?m a" if "a \<noteq> t" for a using that by (auto simp: m' fun_eq_iff)
  have ok': "spaces_ok vm' R lev"
    unfolding spaces_ok_def
  proof (intro conjI allI impI)
    fix s q a assume s: "s \<in> R" "length q \<le> 4" "upath q" "node (v_mem vm') s q = Some a"
    then show "lev a = 4 - length q" "if unat a < unat (m_totalPages (v_pages vm')) then refs (v_pages vm') a \<noteq> 0 else length q = 4"
      using spaces_okD(4) [OF ok s(1-3), of a] pm0(3) pm1(4) by (auto simp: vm'_def nd rf)
  qed (use pm1 pm0(3) spaces_okD(3) [OF ok] in \<open>auto simp: vm'_def\<close>)
  have vw: "same_views R ?m m'"
    unfolding same_views_def view_def
  proof (intro ballI allI impI)
    fix s q assume s: "s \<in> R" "length q = 4" "upath q"
    have "m' a = ?m a" if a: "node ?m s q = Some a" for a
      using spaces_okD(4) [OF ok s(1) _ s(3) a] s(2) lt by (intro data) auto
    then show "map_option (\<lambda>a. map (m' a) [0..<512]) (node m' s q) = map_option (\<lambda>a. map (?m a) [0..<512]) (node ?m s q)"
      unfolding nd by (cases "node ?m s q") auto
  qed
  have rm': "room vm' lev (level - 1)"
    unfolding room_def
  proof (intro allI impI)
    fix a q assume a: "1 \<le> lev a" "lev a \<le> level - 1" "unat q < unat (m_totalPages (v_pages vm'))" "lev q = lev a - 1"
    then have "a \<noteq> t" using lt by auto
    then show "refs (v_pages vm') q + child_refs (v_mem vm' a) [0..<512] q \<le> 255"
      using rm a pm0(3) pm1(4) unfolding room_def by (auto simp: vm'_def rf data)
  qed
  have own: "refs pm1 (ppn_of ?e) = 1" if "unat (ppn_of ?e) < unat (m_totalPages (v_pages vm))"
  proof -
    have "node ?m r (p @ [i]) = Some (ppn_of ?e)" "length (p @ [i]) \<le> 4" using p(1) e lp by (simp_all add: node_append)
    then have "refs (v_pages vm) (ppn_of ?e) \<noteq> 0" using spaces_okD(4) [OF ok r _ p(2)] that by (auto split: if_splits)
    then show ?thesis using priv that rf by (metis less_one linorder_neqE_nat)
  qed
  have z: "zeros (m_pagemap (v_pages vm)) \<le> Suc (zeros (m_pagemap (v_pages vm')))" using pm0(4) pm1(5) by (simp add: vm'_def)
  have "cow_step_ok R level r p t i vm vm' lev"
    unfolding cow_step_ok_def using ok' vw rm' z p(1) nd e e' own pm0(3) pm1(4) by (auto simp: vm'_def m' e'_def)
  with cl show ?thesis by blast
qed

text \<open>Filling the new frame from the shared one.\<close>

lemma cow_copy_ok:
  fixes level :: nat
  assumes cn: "c \<noteq> n" and inv: "pm_inv (v_pages vm)"
    and bound: "0 < level \<longrightarrow> (\<forall>q. unat q < unat (m_totalPages (v_pages vm)) \<longrightarrow> refs (v_pages vm) q + child_refs (v_mem vm c) [0..<512] q \<le> 255)"
    and vm2: "vm2 = (if level = 0 then cow_copy_page c n vm else fold (cow_copy_entry c n) [0..<512] vm)"
  shows "\<And>a j. a \<noteq> n \<Longrightarrow> a \<noteq> c \<Longrightarrow> v_mem vm2 a j = v_mem vm a j"
    and "\<And>j. j < 512 \<Longrightarrow> hop (v_mem vm2) c j = hop (v_mem vm) c j"
    and "\<And>j. j < 512 \<Longrightarrow> hop (v_mem vm2) n j = hop (v_mem vm) c j"
    and "level = 0 \<Longrightarrow> \<forall>j < 512. v_mem vm2 n j = v_mem vm c j \<and> v_mem vm2 c j = v_mem vm c j"
    and "pm_inv (v_pages vm2)" "p_lock (v_pages vm2) = p_lock (v_pages vm)" "m_totalPages (v_pages vm2) = m_totalPages (v_pages vm)"
    and "\<And>q. unat q < unat (m_totalPages (v_pages vm)) \<Longrightarrow>
       refs (v_pages vm2) q = refs (v_pages vm) q + (if level = 0 then 0 else child_refs (v_mem vm c) [0..<512] q)"
proof -
  have *: "(\<forall>a j. a \<noteq> n \<longrightarrow> a \<noteq> c \<longrightarrow> v_mem vm2 a j = v_mem vm a j) \<and>
     (\<forall>j < 512. hop (v_mem vm2) c j = hop (v_mem vm) c j \<and> hop (v_mem vm2) n j = hop (v_mem vm) c j) \<and>
     (level = 0 \<longrightarrow> (\<forall>j < 512. v_mem vm2 n j = v_mem vm c j \<and> v_mem vm2 c j = v_mem vm c j)) \<and>
     pm_inv (v_pages vm2) \<and> p_lock (v_pages vm2) = p_lock (v_pages vm) \<and> m_totalPages (v_pages vm2) = m_totalPages (v_pages vm) \<and>
     (\<forall>q. unat q < unat (m_totalPages (v_pages vm)) \<longrightarrow>
       refs (v_pages vm2) q = refs (v_pages vm) q + (if level = 0 then 0 else child_refs (v_mem vm c) [0..<512] q))"
  proof (cases "level = 0")
    case True
    then show ?thesis using cn inv by (simp add: vm2 cow_copy_page_def hop_def)
  next
    case False
    then have vm2': "vm2 = fold (cow_copy_entry c n) [0..<512] vm" and b: "0 < level" using vm2 by auto
    note cf = cow_fold [OF cn distinct_upt inv bound [rule_format, OF b], folded vm2']
    have "hop (v_mem vm2) c j = hop (v_mem vm) c j" "hop (v_mem vm2) n j = hop (v_mem vm) c j" if "j < 512" for j
      using cn that by (simp_all add: hop_def cf(1) copied_def)
    then show ?thesis using False cf by simp
  qed
  from * show "\<And>a j. a \<noteq> n \<Longrightarrow> a \<noteq> c \<Longrightarrow> v_mem vm2 a j = v_mem vm a j"
    and "\<And>j. j < 512 \<Longrightarrow> hop (v_mem vm2) c j = hop (v_mem vm) c j"
    and "\<And>j. j < 512 \<Longrightarrow> hop (v_mem vm2) n j = hop (v_mem vm) c j"
    and "level = 0 \<Longrightarrow> \<forall>j < 512. v_mem vm2 n j = v_mem vm c j \<and> v_mem vm2 c j = v_mem vm c j"
    and "pm_inv (v_pages vm2)" "p_lock (v_pages vm2) = p_lock (v_pages vm)" "m_totalPages (v_pages vm2) = m_totalPages (v_pages vm)"
    and "\<And>q. unat q < unat (m_totalPages (v_pages vm)) \<Longrightarrow>
       refs (v_pages vm2) q = refs (v_pages vm) q + (if level = 0 then 0 else child_refs (v_mem vm c) [0..<512] q)" by blast+
qed

lemma roomD:
  assumes "room vm lev L" "1 \<le> lev a" "lev a \<le> L" "unat q < unat (m_totalPages (v_pages vm))" "lev q = lev a - 1"
  shows "refs (v_pages vm) q + child_refs (v_mem vm a) [0..<512] q \<le> 255"
  using assms unfolding room_def by blast

lemma cow_level_shared:
  assumes ok: "spaces_ok vm R lev" and r: "r \<in> R" and p: "node (v_mem vm) r p = Some t" "upath (p @ [i])" "length p + level = 3"
    and e: "e_present (v_mem vm t i)" and rm: "room vm lev level" and z: "0 < zeros (m_pagemap (v_pages vm))"
    and sh: "unat (ppn_of (v_mem vm t i)) < unat (m_totalPages (v_pages vm))" "1 < refs (v_pages vm) (ppn_of (v_mem vm t i))"
  shows "\<exists>vm' lev'. cow_level level t i vm = Some vm' \<and> cow_step_ok R level r p t i vm vm' lev'"
proof -
  define c where "c = ppn_of (v_mem vm t i)"
  let ?m = "v_mem vm" and ?e = "v_mem vm t i" and ?T = "unat (m_totalPages (v_pages vm))"
  define cr where "cr q = (if level = 0 then 0 else child_refs (?m c) [0..<512] q)" for q
  obtain pm0 where pm0: "pm_lock (v_pages vm) = Some pm0" "pm_inv pm0" "m_totalPages pm0 = m_totalPages (v_pages vm)" "m_pagemap pm0 = m_pagemap (v_pages vm)"
    "p_lock pm0 = \<lparr>s_magic = MAGIC, s_lock = 1\<rparr>" using pm_locked [OF spaces_okD(1,2) [OF ok]] by blast
  have rf0: "refs pm0 q = refs (v_pages vm) q" for q using pm0(4) by (simp add: refs_def)
  obtain n pm1 where pm1: "alloc True pm0 = Some (n, pm1)" "pm_inv pm1" "p_lock pm1 = p_lock pm0" "m_totalPages pm1 = m_totalPages pm0"
    "unat n < unat (m_totalPages pm0)" "refs pm0 n = 0"
    "\<And>q. unat q < unat (m_totalPages pm0) \<Longrightarrow> refs pm1 q = (if q = n then 1 else refs pm0 q)"
    using alloc_locked [OF pm0(2)] z pm0(4) by auto
  have n: "unat n < ?T" "refs (v_pages vm) n = 0" using pm1(5,6) pm0(3) rf0 by auto
  have cn: "c \<noteq> n" using sh(2) n(2) by (auto simp: c_def)
  have lp: "length p \<le> 3" using p(3) by simp
  note ch = spaces_child [OF ok r p(1,2) lp e, folded c_def]
  have levs: "lev t = Suc level" "lev c = level" using ch(2,3) p(3) by auto
  have tc: "t \<noteq> c" using levs by auto
  have tn: "t \<noteq> n"
    using spaces_okD(4) [OF ok r _ upath_append [OF p(2)] p(1)] lp n by (auto split: if_splits)
  have cr0: "cr q = 0" if "unat q < ?T" "refs (v_pages vm) q = 0" for q
    using child_refs_unused [OF ok r ch(1) p(2) _ _ that] p(3) by (auto simp: cr_def)
  have crl: "lev q = level - 1" if "cr q \<noteq> 0" for q
    using child_level [OF ok r ch(1) p(2), of q] that p(3) by (auto simp: cr_def split: if_splits)
  define vm1 where "vm1 = vm\<lparr>v_pages := pm1\<rparr>"
  have inv1: "pm_inv (v_pages vm1)" using pm1(2) by (simp add: vm1_def)
  have bound: "\<forall>q. unat q < unat (m_totalPages (v_pages vm1)) \<longrightarrow> refs (v_pages vm1) q + child_refs (v_mem vm1 c) [0..<512] q \<le> 255" if "0 < level"
  proof (intro allI impI)
    fix q :: size_t assume q: "unat q < unat (m_totalPages (v_pages vm1))"
    then have qT: "unat q < ?T" using pm1(4) pm0(3) by (simp add: vm1_def)
    have cq: "child_refs (?m c) [0..<512] q = cr q" and vq: "v_mem vm1 c = ?m c" using that by (simp_all add: vm1_def cr_def)
    show "refs (v_pages vm1) q + child_refs (v_mem vm1 c) [0..<512] q \<le> 255"
    proof (cases "cr q = 0")
      case True
      then show ?thesis unfolding vq cq using refs_byte [of "v_pages vm1" q] by simp
    next
      case False
      then have "q \<noteq> n" using cr0 [OF n] by auto
      moreover have "refs (v_pages vm) q + cr q \<le> 255"
        using roomD [OF rm, of c q] that levs(2) crl [OF False] qT unfolding cq by simp
      moreover have "refs (v_pages vm1) q = refs (v_pages vm) q" if "q \<noteq> n"
        using pm1(7) [of q] qT pm0(3) rf0 that by (simp add: vm1_def)
      ultimately show ?thesis unfolding vq cq by simp
    qed
  qed
  define vm2 where "vm2 = (if level = 0 then cow_copy_page c n vm1 else fold (cow_copy_entry c n) [0..<512] vm1)"
  have "0 < level \<longrightarrow> (\<forall>q. unat q < unat (m_totalPages (v_pages vm1)) \<longrightarrow> refs (v_pages vm1) q + child_refs (v_mem vm1 c) [0..<512] q \<le> 255)"
    using bound by blast
  note cp = cow_copy_ok [OF cn inv1 this vm2_def]
  have T: "m_totalPages (v_pages vm2) = m_totalPages (v_pages vm)" "m_totalPages (v_pages vm1) = m_totalPages (v_pages vm)"
    using cp(7) pm1(4) pm0(3) by (simp_all add: vm1_def)
  have r2: "refs (v_pages vm2) q = (if q = n then 1 else refs (v_pages vm) q) + cr q" if "unat q < ?T" for q
    using cp(8) [of q] pm1(7) [of q] that pm0(3) rf0 T(2) by (simp add: vm1_def cr_def)
  have ti: "v_mem vm2 t i = ?e" using cp(1) [of t i] tc tn by (simp add: vm1_def)
  have cT: "unat c < ?T" using sh(1) by (simp add: c_def)
  have c2: "0 < refs (v_pages vm2) c" "1 < refs (v_pages vm2) c" using r2 [OF cT] cn sh(2) by (auto simp: c_def)
  obtain pm2 where pm2: "free_page c (v_pages vm2) = Some pm2" "pm_inv pm2" "refs pm2 c = refs (v_pages vm2) c - 1"
    "\<And>q. q \<noteq> c \<Longrightarrow> refs pm2 q = refs (v_pages vm2) q"
    using free_page_correct [OF cp(5) _ c2(1)] cT T(1) by auto
  have l2: "p_lock pm2 = \<lparr>s_magic = MAGIC, s_lock = 1\<rparr>" "m_totalPages pm2 = m_totalPages (v_pages vm)"
    using free_page_total [OF pm2(1)] cp(6) pm1(3) pm0(5) T(1) by (simp_all add: vm1_def)
  obtain pm3 where pm3: "pm_unlock pm2 = Some pm3" "pm_inv pm3" "unlocked pm3" "m_totalPages pm3 = m_totalPages pm2" "m_pagemap pm3 = m_pagemap pm2"
    using pm_unlocks [OF pm2(2) l2(1)] by blast
  have r3: "refs pm3 q = (if q = n then 1 else refs (v_pages vm) q) + cr q - (if q = c then 1 else 0)" if "unat q < ?T" for q
    using r2 [OF that] pm2(3) pm2(4) [of q] refs_same_map [OF pm3(5), of q] by auto
  define e' where "e' = ?e\<lparr>e_ppn := ucast n, e_write := True\<rparr>"
  define m' where "m' = set_entry t i e' (v_mem vm2)"
  define vm' where "vm' = \<lparr>v_pages = pm3, v_mem = m'\<rparr>"
  have n28: "unat n < 2 ^ 28" using n(1) spaces_okD(3) [OF ok] by simp
  have pe: "ppn_of e' = n" "e_present e'" "e_write e'" using ucast_ppn [OF n28] e by (simp_all add: ppn_of_def e'_def)
  have sh0: "1 < getRefs pm0 (ppn_of ?e)" using sh pm0(3) by (simp add: getRefs_shared rf0)
  have cl: "cow_level level t i vm = Some vm'"
    using pm0(1) sh0 pm1(1) pm2(1) pm3(1) ti
    by (cases "level = 0") (simp_all add: cow_level_def Let_def c_def [symmetric] vm1_def [symmetric] vm2_def vm'_def m'_def e'_def del: fold_simps)
  have m'_hop: "hop m' a j = (if a = t \<and> j = i then Some n else hop (v_mem vm2) a j)" for a j
    using pe by (simp add: m'_def hop_set_entry)
  have nz3: "refs pm3 q \<noteq> 0" if "unat q < ?T" "q = n \<or> refs (v_pages vm) q \<noteq> 0" for q
    using r3 [OF that(1)] that(2) cn sh(2) by (auto simp: c_def)
  have M1: "m' a j = ?m a j" if "a \<noteq> n" "a \<noteq> c" "\<not> (a = t \<and> j = i)" for a j
    using cp(1) [OF that(1,2), of j] that(3) by (auto simp: m'_def set_entry_def vm1_def)
  have M2: "hop m' c j = hop ?m c j" if "j < 512" for j using cp(2) [OF that] tc by (auto simp: m'_hop vm1_def)
  have M3: "hop m' n j = hop ?m c j" if "0 < level" "j < 512" for j using cp(3) [OF that(2)] tn by (auto simp: m'_hop vm1_def)
  have M4: "\<forall>j < 512. m' n j = ?m c j \<and> m' c j = ?m c j" if "level = 0"
    using cp(4) [OF that] tn tc by (auto simp: m'_def set_entry_def vm1_def)
  have M5: "hop m' t i = Some n" by (simp add: m'_hop)
  have T3: "m_totalPages pm3 = m_totalPages (v_pages vm)" using pm3(4) l2(2) by simp
  have red1: "spaces_ok \<lparr>v_pages = pm3, v_mem = m'\<rparr> R (lev(n := level))"
    by (rule cow_redirect(1) [OF ok r p e c_def n M1 M2 M3 M4 M5 pm3(2,3) T3 nz3])
  have red2: "same_views R ?m m'"
    by (rule cow_redirect(2) [OF ok r p e c_def n M1 M2 M3 M4 M5 pm3(2,3) T3 nz3])
  have red3: "node m' r p = Some t"
    by (rule cow_redirect(3) [OF ok r p e c_def n M1 M2 M3 M4 M5 pm3(2,3) T3 nz3])
  have same: "m' a = ?m a" if "a \<noteq> n" "a \<noteq> c" "a \<noteq> t" for a
    using cp(1) [OF that(1,2)] that(3) by (auto simp: m'_def set_entry_def vm1_def fun_eq_iff)
  have rm': "room vm' (lev(n := level)) (level - 1)"
    unfolding room_def
  proof (intro allI impI)
    fix a q assume a: "1 \<le> (lev(n := level)) a" "(lev(n := level)) a \<le> level - 1" "unat q < unat (m_totalPages (v_pages vm'))"
      "(lev(n := level)) q = (lev(n := level)) a - 1"
    have "a \<noteq> n" using a(1,2) by auto
    then have la: "1 \<le> lev a" "lev a \<le> level - 1" using a(1,2) by auto
    have "q \<noteq> n" using a(2,4) la by auto
    then have lq: "lev q = lev a - 1" using a(4) \<open>a \<noteq> n\<close> by simp
    have "lev q \<noteq> level - 1" using la lq by arith
    then have "cr q = 0" using crl [of q] by blast
    moreover have "a \<noteq> c" "a \<noteq> t" "q \<noteq> c" using la lq levs by auto
    moreover have "unat q < ?T" using a(3) pm3(4) l2(2) by (simp add: vm'_def)
    moreover have "refs (v_pages vm) q + child_refs (?m a) [0..<512] q \<le> 255"
      by (rule roomD [OF rm]) (use la lq \<open>unat q < ?T\<close> in simp_all)
    ultimately show "refs (v_pages vm') q + child_refs (v_mem vm' a) [0..<512] q \<le> 255"
      using r3 [of q] \<open>q \<noteq> n\<close> same [OF \<open>a \<noteq> n\<close>] by (simp add: vm'_def)
  qed
  have zz: "zeros (m_pagemap (v_pages vm)) \<le> Suc (zeros (m_pagemap pm3))"
  proof (rule zeros_mono [where n = n])
    show "refs pm3 q = 0" if "unat q < ?T" "refs (v_pages vm) q = 0" "q \<noteq> n" for q
      using r3 [OF that(1)] cr0 [OF that(1,2)] that sh(2) by (auto simp: c_def)
  qed (use spaces_okD(1) [OF ok] pm3 l2 in auto)
  have "refs pm3 n = 1" using r3 [OF n(1)] cr0 [OF n] cn by simp
  then have "cow_step_ok R level r p t i vm vm' (lev(n := level))"
    unfolding cow_step_ok_def using red1 red2 red3 rm' zz pe by (simp add: vm'_def m'_def set_entry_def)
  with cl show ?thesis by blast
qed

lemma cow_level_ok:
  assumes "spaces_ok vm R lev" and "r \<in> R" and "node (v_mem vm) r p = Some t" "upath (p @ [i])" "length p + level = 3"
    and "e_present (v_mem vm t i)" and "room vm lev level" and "0 < zeros (m_pagemap (v_pages vm))"
  shows "\<exists>vm' lev'. cow_level level t i vm = Some vm' \<and> cow_step_ok R level r p t i vm vm' lev'"
  using cow_level_shared [OF assms] cow_level_private [OF assms(1-7)] by blast

section \<open>The whole walk\<close>

text \<open>What the walk from a table at \<open>level\<close> on gives: the answer tells whether the page can be written now,
  and if so its frame belongs to this address space alone.\<close>

definition cow_result :: "size_t set \<Rightarrow> size_t \<Rightarrow> nat list \<Rightarrow> vmem \<Rightarrow> bool \<Rightarrow> vmem \<Rightarrow> bool" where
  "cow_result R r q vm b vm' \<longleftrightarrow> (\<exists>lev'. spaces_ok vm' R lev') \<and> same_views R (v_mem vm) (v_mem vm') \<and>
     (b \<longleftrightarrow> (\<exists>e. leaf (v_mem vm') r q = Some e \<and> e_write e)) \<and>
     (\<forall>e. b \<longrightarrow> leaf (v_mem vm') r q = Some e \<longrightarrow> unat (ppn_of e) < unat (m_totalPages (v_pages vm')) \<longrightarrow> refs (v_pages vm') (ppn_of e) = 1)"

lemma cow_result_trans: "same_views R (v_mem vm) (v_mem vm1) \<Longrightarrow> cow_result R r q vm1 b vm' \<Longrightarrow> cow_result R r q vm b vm'"
  unfolding cow_result_def using same_views_trans by blast

lemma leaf_Cons_None: "node m r p = Some t \<Longrightarrow> \<not> e_present (m t i) \<Longrightarrow> leaf m r (p @ i # q) = None"
  by (cases q rule: rev_cases) (simp_all add: leaf_def butlast_append node_append)

lemma cow_levels_ok:
  assumes "spaces_ok vm R lev" and "r \<in> R" and "node (v_mem vm) r p = Some t" and "upath (p @ rest_path level virt)"
    and "length p + level = 3" and "room vm lev level" and "level < zeros (m_pagemap (v_pages vm))"
  shows "\<exists>b vm'. cow_levels (Suc level) level t virt vm = Some (b, vm') \<and> cow_result R r (p @ rest_path level virt) vm b vm'"
  using assms
proof (induction level arbitrary: vm lev p t)
  case 0
  let ?i = "table_index 0 virt" and ?e = "v_mem vm t (table_index 0 virt)"
  have r0: "rest_path 0 virt = [?i]" by simp
  have up: "upath (p @ [?i])" using "0.prems"(4) by simp
  have lf: "leaf (v_mem vm) r (p @ [?i]) = (if e_present ?e then Some ?e else None)"
    using "0.prems"(3) by (simp add: leaf_snoc)
  show ?case
  proof (cases "e_present ?e \<and> (e_write ?e \<or> e_cow_was_writable ?e)")
    case False
    then have "cow_levels (Suc 0) 0 t virt vm = Some (False, vm)" by (auto simp: Let_def)
    moreover have "cow_result R r (p @ [?i]) vm False vm"
      using "0.prems"(1) False lf unfolding cow_result_def by (auto split: if_splits)
    ultimately show ?thesis unfolding r0 by blast
  next
    case True
    then obtain vm' lev' where c: "cow_level 0 t ?i vm = Some vm'" and st: "cow_step_ok R 0 r p t ?i vm vm' lev'"
      using cow_level_ok [OF "0.prems"(1-3) up "0.prems"(5)] "0.prems"(6,7) by auto
    have "cow_levels (Suc 0) 0 t virt vm = Some (True, vm')" using True c by (auto simp: Let_def)
    moreover have "leaf (v_mem vm') r (p @ [?i]) = Some (v_mem vm' t ?i)" using st by (simp add: leaf_snoc cow_step_ok_def)
    then have "cow_result R r (p @ [?i]) vm True vm'"
      using st True unfolding cow_result_def cow_step_ok_def by auto
    ultimately show ?thesis unfolding r0 by blast
  qed
next
  case (Suc level)
  let ?i = "table_index (Suc level) virt"
  have pe: "p @ rest_path (Suc level) virt = (p @ [?i]) @ rest_path level virt" unfolding rest_path_Suc by simp
  have up: "upath (p @ [?i])" using Suc.prems(4) upath_append unfolding pe by blast
  show ?case
  proof (cases "e_present (v_mem vm t ?i)")
    case False
    then have "cow_levels (Suc (Suc level)) (Suc level) t virt vm = Some (False, vm)" by (simp add: Let_def)
    moreover have "cow_result R r (p @ ?i # rest_path level virt) vm False vm"
      using Suc.prems(1) leaf_Cons_None [OF Suc.prems(3) False] unfolding cow_result_def by auto
    ultimately show ?thesis unfolding rest_path_Suc by blast
  next
    case True
    have "0 < zeros (m_pagemap (v_pages vm))" using Suc.prems(7) by simp
    then obtain vm1 lev1 where c: "cow_level (Suc level) t ?i vm = Some vm1" and st: "cow_step_ok R (Suc level) r p t ?i vm vm1 lev1"
      using cow_level_ok [OF Suc.prems(1-3) up Suc.prems(5) True Suc.prems(6)] by auto
    let ?c = "ppn_of (v_mem vm1 t ?i)"
    have n: "node (v_mem vm1) r (p @ [?i]) = Some ?c" using st by (simp add: cow_step_ok_def node_append)
    have s1: "spaces_ok vm1 R lev1" "room vm1 lev1 level" "same_views R (v_mem vm) (v_mem vm1)" "level < zeros (m_pagemap (v_pages vm1))"
      using st Suc.prems(7) by (auto simp: cow_step_ok_def)
    have l1: "length (p @ [?i]) + level = 3" using Suc.prems(5) by simp
    from Suc.IH [OF s1(1) Suc.prems(2) n Suc.prems(4) [unfolded pe] l1 s1(2,4)] obtain b vm' where
      "cow_levels (Suc level) level ?c virt vm1 = Some (b, vm')" "cow_result R r ((p @ [?i]) @ rest_path level virt) vm1 b vm'" by blast
    then show ?thesis unfolding pe using True c cow_result_trans [OF s1(3)] by (auto simp: Let_def)
  qed
qed

lemma triggerCow_ok:
  assumes "spaces_ok vm R lev" and "pml4 \<in> R" and "table_index 3 virt < 256" and "room vm lev 3"
    and "3 < zeros (m_pagemap (v_pages vm))"
  shows "\<exists>b vm'. triggerCow pml4 virt vm = Some (b, vm') \<and> (\<exists>lev'. spaces_ok vm' R lev') \<and>
     same_views R (v_mem vm) (v_mem vm') \<and>
     (b \<longleftrightarrow> (\<exists>e. leaf (v_mem vm') pml4 (path virt) = Some e \<and> e_write e)) \<and>
     (\<forall>e. b \<longrightarrow> leaf (v_mem vm') pml4 (path virt) = Some e \<longrightarrow> unat (ppn_of e) < unat (m_totalPages (v_pages vm')) \<longrightarrow>
        refs (v_pages vm') (ppn_of e) = 1)"
proof -
  have "upath (path virt)" using assms(3) by (simp add: upath_def path_def good_path_def table_index_less)
  then have "\<exists>b vm'. cow_levels (Suc 3) 3 pml4 virt vm = Some (b, vm') \<and> cow_result R pml4 (path virt) vm b vm'"
    using cow_levels_ok [OF assms(1,2), where p = "[]" and t = pml4 and level = 3 and virt = virt] assms(4,5) unfolding path_rest by simp
  then show ?thesis unfolding triggerCow_def cow_result_def by simp
qed


section \<open>Cloning an address space\<close>

definition frozen :: "pte \<Rightarrow> pte" where
  "frozen e = (if e_present e
     then (if \<not> e_cow_was_writable e then e\<lparr>e_cow_was_writable := e_write e\<rparr> else e)\<lparr>e_write := False\<rparr> else e)"

lemma frozen_same [simp]: "e_present (frozen e) = e_present e" "ppn_of (frozen e) = ppn_of e" "e_present e \<Longrightarrow> \<not> e_write (frozen e)"
  by (simp_all add: frozen_def ppn_of_def)

lemma clone_entry_mem:
  assumes "c \<noteq> n"
  shows "v_mem (clone_entry c n j vm) a i = (if a = c \<and> i = j then frozen (v_mem vm c j)
     else if a = n \<and> i = j then (if e_present (v_mem vm c j) then frozen (v_mem vm c j) else v_mem vm n j) else v_mem vm a i)"
  using assms by (auto simp: clone_entry_def set_entry_def frozen_def Let_def)

lemma clone_entry_pages:
  "v_pages (clone_entry c n j vm) = (if e_present (v_mem vm c j) then addRef (ppn_of (v_mem vm c j)) (v_pages vm) else v_pages vm)"
  by (simp add: clone_entry_def Let_def ppn_of_def)

text \<open>The tables are equal in what they lead to, hence so are the nodes below.\<close>

lemma node_hop_cong:
  assumes "\<And>q' j a. \<exists>s. q = q' @ j # s \<Longrightarrow> node m r q' = Some a \<Longrightarrow> hop m' a j = hop m a j"
  shows "node m' r q = node m r q"
  using assms
proof (induction q rule: rev_induct)
  case (snoc j q)
  have "node m' r q = node m r q"
  proof (rule snoc.IH)
    fix q' i a assume "\<exists>s. q = q' @ i # s" "node m r q' = Some a"
    then show "hop m' a i = hop m a i" using snoc.prems [of q' i a] by auto
  qed
  then show ?case using snoc.prems [of q j] by (cases "node m r q") (auto simp: node_snoc)
qed simp

lemma hop_Cons: "node m r (i # q) = hop m r i \<bind> (\<lambda>a. node m a q)"
  by (simp add: hop_def)

lemma upath_mid: "upath (p @ j # s) \<Longrightarrow> j < 512 \<and> (p = [] \<longrightarrow> j < 256)"
  by (cases p) (auto simp: upath_def)

lemma new_space_mem:
  assumes "vm1 = updateKernelMappings init kp n \<lparr>v_pages = pm, v_mem = clear_frame n m\<rparr>"
  shows "v_pages vm1 = pm" and "a \<noteq> n \<Longrightarrow> v_mem vm1 a j = m a j" and "j < 256 \<Longrightarrow> v_mem vm1 n j = pte_zero"
  using assms by (auto simp: updateKernelMappings_def clear_frame_def)

lemma clone_memory:
  assumes n: "c \<noteq> n" and inv: "pm_inv pm" and rm: "\<forall>q. unat q < unat (m_totalPages pm) \<longrightarrow>
      refs pm q + length (filter (\<lambda>j. e_present (m c j) \<and> ppn_of (m c j) = q) [0..<256]) \<le> 255"
    and vm1: "vm1 = updateKernelMappings init kp n \<lparr>v_pages = pm, v_mem = clear_frame n m\<rparr>"
    and vm': "vm' = fold (clone_entry c n) [0..<256] vm1"
  shows "\<And>a j. a \<noteq> n \<Longrightarrow> a \<noteq> c \<Longrightarrow> v_mem vm' a j = m a j"
    and "\<And>j. hop (v_mem vm') c j = hop m c j" and "\<And>j. j < 256 \<Longrightarrow> hop (v_mem vm') n j = hop m c j"
    and "\<And>j a. j < 256 \<Longrightarrow> a = c \<or> a = n \<Longrightarrow> e_present (v_mem vm' a j) \<Longrightarrow> \<not> e_write (v_mem vm' a j)"
    and "pm_inv (v_pages vm')" and "p_lock (v_pages vm') = p_lock pm" and "m_totalPages (v_pages vm') = m_totalPages pm"
    and "\<And>q. unat q < unat (m_totalPages pm) \<Longrightarrow> refs pm q \<le> refs (v_pages vm') q"
proof -
  note v1 = new_space_mem [OF vm1]
  have c1: "v_mem vm1 c = m c" using v1(2) n by auto
  have pre: "refs (v_pages vm1) q + length (filter (\<lambda>j. e_present (v_mem vm1 c j) \<and> ppn_of (v_mem vm1 c j) = q) [0..<256]) \<le> 255"
    if "unat q < unat (m_totalPages (v_pages vm1))" for q
    using rm that unfolding v1(1) c1 by blast
  have i1: "pm_inv (v_pages vm1)" using inv v1(1) by simp
  note tf = table_fold [where f = "clone_entry c n" and K = e_present and c = c and n = n and old = frozen
      and new = "\<lambda>e e'. if e_present e then frozen e else e'", OF clone_entry_mem [OF n] clone_entry_pages n distinct_upt i1 pre, folded vm', unfolded v1(1) c1]
  have mem: "v_mem vm' a j = (if j < 256 then if a = c then frozen (m c j) else if a = n then if e_present (m c j) then frozen (m c j) else pte_zero
      else v_mem vm1 a j else v_mem vm1 a j)" for a j
    using tf v1(3) [of j] by simp
  show "v_mem vm' a j = m a j" if "a \<noteq> n" "a \<noteq> c" for a j using that v1(2) by (simp add: mem)
  show "hop (v_mem vm') c j = hop m c j" for j using c1 by (simp add: hop_def mem)
  show "hop (v_mem vm') n j = hop m c j" if "j < 256" for j using that n by (simp add: hop_def mem pte_zero_def)
  show "\<not> e_write (v_mem vm' a j)" if "j < 256" "a = c \<or> a = n" "e_present (v_mem vm' a j)" for j a
    using that n by (auto simp: mem pte_zero_def split: if_splits)
  show "pm_inv (v_pages vm')" "p_lock (v_pages vm') = p_lock pm" "m_totalPages (v_pages vm') = m_totalPages pm" using tf by simp_all
  show "refs pm q \<le> refs (v_pages vm') q" if "unat q < unat (m_totalPages pm)" for q using tf that by simp
qed

lemma clone_ok:
  assumes ok: "spaces_ok vm R lev" and c: "pml4 \<in> R" and z: "0 < zeros (m_pagemap (v_pages vm))"
    and rm: "\<And>q. unat q < unat (m_totalPages (v_pages vm)) \<Longrightarrow>
      refs (v_pages vm) q + length (filter (\<lambda>j. e_present (v_mem vm pml4 j) \<and> ppn_of (v_mem vm pml4 j) = q) [0..<256]) \<le> 255"
  shows "\<exists>forked vm'. clone_space init kernel_pml4 pml4 vm = Some (forked, vm') \<and> forked \<notin> R \<and>
     (\<exists>lev'. spaces_ok vm' (insert forked R) lev') \<and> same_views R (v_mem vm) (v_mem vm') \<and>
     (\<forall>q. length q = 4 \<longrightarrow> upath q \<longrightarrow> view (v_mem vm') forked q = view (v_mem vm) pml4 q) \<and>
     (\<forall>j < 256. \<forall>a \<in> {pml4, forked}. e_present (v_mem vm' a j) \<longrightarrow> \<not> e_write (v_mem vm' a j))"
proof -
  let ?T = "unat (m_totalPages (v_pages vm))" and ?m = "v_mem vm"
  note okd = spaces_okD [OF ok]
  obtain n pm where al: "alloc False (v_pages vm) = Some (n, pm)" using alloc_zeros [OF okd(1,2) z] by blast
  have a1: "unat n < ?T" "refs (v_pages vm) n = 0" "pm_inv pm" "unlocked pm" "pm = set_refs (unat n) 1 (v_pages vm)"
    using alloc_correct [OF okd(1) _ al] okd(2) by auto
  have T: "m_totalPages pm = m_totalPages (v_pages vm)" by (simp add: a1(5) set_refs_def)
  have r1: "refs pm n = 1" "\<And>q. q \<noteq> n \<Longrightarrow> refs pm q = refs (v_pages vm) q" using alloc_frame [OF okd(1) _ al] okd(2) by auto
  have fresh: "a \<noteq> n" if "s \<in> R" "upath q" "length q \<le> 4" "node ?m s q = Some a" for s q a
    using okd(4) [OF that(1,3,2,4)] a1(1,2) by (auto split: if_splits)
  have cn: "pml4 \<noteq> n" and nR: "n \<notin> R" using fresh [of _ "[]"] c by auto
  define vm1 where "vm1 = updateKernelMappings init kernel_pml4 n \<lparr>v_pages = pm, v_mem = clear_frame n ?m\<rparr>"
  define vm' where "vm' = fold (clone_entry pml4 n) [0..<256] vm1"
  have cl: "clone_space init kernel_pml4 pml4 vm = Some (n, vm')"
    using al by (simp add: clone_space_def new_addr_space_def vm'_def vm1_def)
  have none: "filter (\<lambda>j. e_present (?m pml4 j) \<and> ppn_of (?m pml4 j) = n) [0..<256] = []"
  proof -
    have "ppn_of (?m pml4 j) \<noteq> n" if "j < 256" "e_present (?m pml4 j)" for j
      using fresh [OF c, of "[j]"] that by (simp add: upath_def)
    then show ?thesis by (auto simp: filter_empty_conv)
  qed
  have pre: "refs pm q + length (filter (\<lambda>j. e_present (?m pml4 j) \<and> ppn_of (?m pml4 j) = q) [0..<256]) \<le> 255"
    if "unat q < unat (m_totalPages pm)" for q
    using rm [of q] that r1 none T by (cases "q = n") simp_all
  then have "\<forall>q. unat q < unat (m_totalPages pm) \<longrightarrow>
      refs pm q + length (filter (\<lambda>j. e_present (?m pml4 j) \<and> ppn_of (?m pml4 j) = q) [0..<256]) \<le> 255" by blast
  note cm = clone_memory [OF cn a1(3) this vm1_def vm'_def]
  have hops: "hop (v_mem vm') a j = hop ?m a j" if "a \<noteq> n" for a j
    using cm(1) [OF that, of j] cm(2) [of j] by (cases "a = pml4") (auto simp: hop_def)
  have N1: "node (v_mem vm') s q = node ?m s q" if "s \<in> R" "upath q" "length q \<le> 4" for s q
  proof (rule node_hop_cong)
    fix q' j a assume q: "\<exists>s. q = q' @ j # s" "node ?m s q' = Some a"
    then have "upath q'" "length q' \<le> 4" using that(2,3) upath_append by auto
    then show "hop (v_mem vm') a j = hop ?m a j" using hops fresh [OF that(1) _ _ q(2)] by blast
  qed
  have N2: "node (v_mem vm') n q = node ?m pml4 q" if h: "q \<noteq> []" "upath q" "length q \<le> 4" for q
  proof -
    obtain i q' where q: "q = i # q'" "i < 256" using h(1,2) by (cases q) (auto simp: upath_def)
    have "hop (v_mem vm') n i = hop (v_mem vm') pml4 i" using cm(2,3) q(2) by simp
    then show ?thesis using N1 [OF c h(2,3)] unfolding q(1) hop_Cons by simp
  qed
  have data: "v_mem vm' a = ?m a" if "node ?m s q = Some a" "s \<in> R" "upath q" "length q = 4" for s q a
  proof -
    have "lev a = 0" "lev pml4 = 4" using okd(4) [OF that(2) _ that(3,1)] okd(4) [OF c, of "[]"] that(4) by auto
    then have "a \<noteq> pml4" "a \<noteq> n" using fresh [OF that(2,3) _ that(1)] that(4) by auto
    then show ?thesis using cm(1) [of a] by auto
  qed
  have sv: "same_views R ?m (v_mem vm')"
    unfolding same_views_def view_def
  proof (intro ballI allI impI)
    fix s q assume s: "s \<in> R" "length q = 4" "upath q"
    show "map_option (\<lambda>a. map (v_mem vm' a) [0..<512]) (node (v_mem vm') s q) = map_option (\<lambda>a. map (?m a) [0..<512]) (node ?m s q)"
      using N1 [OF s(1,3)] data [OF _ s(1,3,2)] s(2) by (cases "node ?m s q") simp_all
  qed
  have fv: "view (v_mem vm') n q = view ?m pml4 q" if "length q = 4" "upath q" for q
    using N2 [OF _ that(2)] that(1) data [OF _ c that(2,1)] by (cases "q = []"; cases "node ?m pml4 q") (simp_all add: view_def)
  have un: "unlocked (v_pages vm')" using cm(6) a1(4) by (simp add: unlocked_def)
  have pos: "refs (v_pages vm') a \<noteq> 0" if "unat a < ?T" "a = n \<or> refs (v_pages vm) a \<noteq> 0" for a
    using cm(8) [of a] that r1 T by (cases "a = n") auto
  have "spaces_ok vm' (insert n R) (lev(n := 4))"
    unfolding spaces_ok_def
  proof (intro conjI allI impI)
    fix s p a assume s: "s \<in> insert n R" "length p \<le> 4" "upath p" "node (v_mem vm') s p = Some a"
    have "(s = n \<and> p = [] \<and> a = n) \<or> (\<exists>s' \<in> R. node ?m s' p = Some a)"
      using s N1 N2 c by (cases "s \<in> R"; cases "p = []") auto
    then have "(lev(n := 4)) a = 4 - length p \<and> (if unat a < unat (m_totalPages (v_pages vm')) then refs (v_pages vm') a \<noteq> 0 else length p = 4)"
    proof (elim disjE conjE bexE)
      fix s' assume h: "s' \<in> R" "node ?m s' p = Some a"
      show ?thesis using okd(4) [OF h(1) s(2,3) h(2)] fresh [OF h(1) s(3,2) h(2)] pos [of a] cm(7) T by (auto split: if_splits)
    qed (use a1(1) pos [of n] cm(7) T in simp)
    then show "(lev(n := 4)) a = 4 - length p" "if unat a < unat (m_totalPages (v_pages vm')) then refs (v_pages vm') a \<noteq> 0 else length p = 4"
      by blast+
  qed (use cm(5,7) T okd(3) un in auto)
  then show ?thesis using cl nR sv fv cm(4) by blast
qed

text \<open>C4. Cloning an address space (\<^verbatim>\<open>AddrSpace::clone\<close>, the memory part of \<^verbatim>\<open>fork\<close>): with a free frame and
  room in the counts of the shared tables the call returns a new root, the address spaces with the
  new one among them are well formed, none of the old ones sees another contents of any page of its
  lower half, the new one sees exactly what the cloned one sees, and no page of either can be written
  without a fault.\<close>

theorem clone_correct:
  assumes ok: "spaces_ok vm R lev" and c: "pml4 \<in> R" and z: "0 < zeros (m_pagemap (v_pages vm))"
    and rm: "\<And>q. unat q < unat (m_totalPages (v_pages vm)) \<Longrightarrow>
      refs (v_pages vm) q + length (filter (\<lambda>j. e_present (v_mem vm pml4 j) \<and> ppn_of (v_mem vm pml4 j) = q) [0..<256]) \<le> 255"
  shows "\<exists>forked vm'. clone_space init kernel_pml4 pml4 vm = Some (forked, vm') \<and> forked \<notin> R \<and>
     (\<exists>lev'. spaces_ok vm' (insert forked R) lev') \<and> same_views R (v_mem vm) (v_mem vm') \<and>
     (\<forall>q. length q = 4 \<longrightarrow> upath q \<longrightarrow> view (v_mem vm') forked q = view (v_mem vm) pml4 q) \<and>
     (\<forall>j < 256. \<forall>a \<in> {pml4, forked}. e_present (v_mem vm' a j) \<longrightarrow> \<not> e_write (v_mem vm' a j))"
  by (rule clone_ok [OF ok c z rm])

section \<open>Examples\<close>

lemma one_entry:
  assumes "\<And>j. P j \<Longrightarrow> j = 0" shows "length (filter P [0..<n]) \<le> 1"
proof -
  have "card (set (filter P [0..<n])) \<le> card {0 :: nat}" by (rule card_mono) (use assms in auto)
  then show ?thesis by (simp only: distinct_card distinct_filter distinct_upt card_0_eq) simp
qed

definition demo_level :: "size_t \<Rightarrow> nat" where
  "demo_level a = (if a = 0 \<or> a = 5 then 4 else 4 - unat a)"

lemma demo_spaces: "spaces_ok demo_vm {0, 5} demo_level"
  unfolding spaces_ok_def demo_pages
proof (intro conjI allI impI)
  fix r p a assume a: "r \<in> {0, 5}" "length p \<le> 4" "node demo_mem r p = Some a"
  then have f: "a \<in> {0, 1, 2, 3, 4, 5}" "unat a < 12" and n: "a = (if p = [] then r else of_nat (length p))"
    using demo_frame [of r p a] demo_node [of r p a] by auto
  show "demo_level a = 4 - length p"
  proof (cases "p = []")
    case False
    then have "a \<noteq> 0" "a \<noteq> 5" "unat a = length p" using n demo_small [OF a(2)] by (auto simp: word_unat_eq_iff)
    then show ?thesis by (simp add: demo_level_def)
  qed (use n a(1) in \<open>auto simp: demo_level_def\<close>)
  show "if unat a < unat (12 :: size_t) then refs (v_pages demo_vm) a \<noteq> 0 else length p = 4"
    using demo_refs [OF f(1)] f(2) by simp
qed (use demo_pages in \<open>auto simp: demo_vm_def\<close>)

lemma demo_count: "refs (v_pages demo_vm) q \<le> 2" if "unat q < 12"
proof -
  have "\<forall>k < 12. unat ([1, 2, 1, 1, 1, 1, 0, 0, 0, 0, 0, 0] ! k :: uint8_t) \<le> 2" by (simp add: All_less_Suc2 numeral_eq_Suc)
  then show ?thesis using that by (simp add: refs_def demo_vm_def new_pagemap_def)
qed

lemma demo_room: "room demo_vm demo_level 3"
  unfolding room_def
proof (intro allI impI)
  fix a q :: size_t assume "unat q < unat (m_totalPages (v_pages demo_vm))"
  then have "refs (v_pages demo_vm) q \<le> 2" using demo_count by (simp add: demo_pages)
  moreover have "child_refs (v_mem demo_vm a) [0..<512] q \<le> 1"
    unfolding child_refs_def by (rule one_entry) (simp add: demo_pages demo_present)
  ultimately show "refs (v_pages demo_vm) q + child_refs (v_mem demo_vm a) [0..<512] q \<le> 255" by simp
qed


lemma demo_shared:
  assumes "unat q < unat (m_totalPages (v_pages demo_vm))"
  shows "refs (v_pages demo_vm) q + length (filter (\<lambda>j. e_present (v_mem demo_vm 0 j) \<and> ppn_of (v_mem demo_vm 0 j) = q) [0..<256]) \<le> 255"
proof -
  have "length (filter (\<lambda>j. e_present (v_mem demo_vm 0 j) \<and> ppn_of (v_mem demo_vm 0 j) = q) [0..<256]) \<le> 1"
    by (rule one_entry) (simp add: demo_pages demo_present)
  moreover have "refs (v_pages demo_vm) q \<le> 2" using demo_count assms by (simp add: demo_pages)
  ultimately show ?thesis by simp
qed

theorem clone_witness:
  "\<exists>forked vm'. clone_space True 5 0 demo_vm = Some (forked, vm') \<and> same_views {0, 5} (v_mem demo_vm) (v_mem vm') \<and>
     (\<forall>q. length q = 4 \<longrightarrow> upath q \<longrightarrow> view (v_mem vm') forked q = view (v_mem demo_vm) 0 q)"
  using clone_correct [OF demo_spaces _ _ demo_shared, of True 5] demo_pages(4) by auto

end
