(* ===== verification/Stdio.thy ===== *)
theory Stdio
  imports Prelude
begin

text \<open>
  The buffered streams of the C library (\<^verbatim>\<open>libc/generic/stdio\<close>). A stream is the struct \<^verbatim>\<open>_IO_FILE\<close>; a
  pointer into its buffer is an index into the array behind the buffer, a null pointer is \<open>None\<close>, and
  the function pointers are the values of two datatypes. The fields that no modelled function uses
  and the lock, which is -1 (no locking) in every stream the library creates, are left out.

  A device is what a descriptor refers to: the bytes written so far, the bytes to be read, and the
  answers the system will give to the next calls. An answer is an error (negative) or a bound on the
  number of bytes the call transfers, so that every sequence of errors and short transfers can be
  described; when no answer is left, a call transfers everything.
\<close>

type_synonym bytes = "uint8_t list"

record device =
  d_out :: bytes
  d_answers :: "int list"
  d_in :: bytes
  d_reads :: "int list"
  d_ioctl :: int

definition dev_write :: "bytes \<Rightarrow> device \<Rightarrow> int \<times> device" where
  "dev_write bs d = (case d_answers d of
       [] \<Rightarrow> (int (length bs), d\<lparr>d_out := d_out d @ bs\<rparr>)
     | a # as \<Rightarrow> (if a < 0 then (a, d\<lparr>d_answers := as\<rparr>)
                 else let k = min (nat a) (length bs) in (int k, d\<lparr>d_out := d_out d @ take k bs, d_answers := as\<rparr>)))"

definition dev_read :: "nat \<Rightarrow> device \<Rightarrow> (int \<times> bytes) \<times> device" where
  "dev_read n d = (case d_reads d of
       [] \<Rightarrow> ((int (min n (length (d_in d))), take n (d_in d)), d\<lparr>d_in := drop n (d_in d)\<rparr>)
     | a # as \<Rightarrow> (if a < 0 then ((a, []), d\<lparr>d_reads := as\<rparr>)
                 else let k = min (nat a) n in
                   ((int (min k (length (d_in d))), take k (d_in d)), d\<lparr>d_in := drop k (d_in d), d_reads := as\<rparr>)))"

section \<open>Vectors of buffers\<close>

fun writev_from :: "int \<Rightarrow> bytes list \<Rightarrow> device \<Rightarrow> int \<times> device" where
  "writev_from len [] d = (len, d)"
| "writev_from len (v # vs) d =
     (let (ret, d1) = dev_write v d in if ret < 0 then (ret, d1) else writev_from (len + ret) vs d1)"

definition writev :: "bytes list \<Rightarrow> device \<Rightarrow> int \<times> device" where
  "writev iov d = writev_from 0 iov d"

text \<open>The destination of a read is a list of old bytes whose first ones are replaced.\<close>

definition overwrite :: "bytes \<Rightarrow> bytes \<Rightarrow> bytes" where
  "overwrite new old = new @ drop (length new) old"

fun readv_from :: "int \<Rightarrow> bytes list \<Rightarrow> bytes list \<Rightarrow> device \<Rightarrow> (int \<times> bytes list) \<times> device" where
  "readv_from len done [] d = ((len, done), d)"
| "readv_from len done (v # vs) d =
     (let ((ret, bs), d1) = dev_read (length v) d in
      if ret < 0 then ((ret, done @ v # vs), d1) else readv_from (len + ret) (done @ [overwrite bs v]) vs d1)"

definition readv :: "bytes list \<Rightarrow> device \<Rightarrow> (int \<times> bytes list) \<times> device" where
  "readv iov d = readv_from 0 [] iov d"

section \<open>Streams\<close>

definition F_PERM :: uint32_t where "F_PERM = 1"
definition F_NORD :: uint32_t where "F_NORD = 4"
definition F_NOWR :: uint32_t where "F_NOWR = 8"
definition F_EOF :: uint32_t where "F_EOF = 16"
definition F_ERR :: uint32_t where "F_ERR = 32"
definition F_SVB :: uint32_t where "F_SVB = 64"

definition EOF :: int where "EOF = - 1"
definition UNGET :: nat where "UNGET = 8"
definition BUFSIZ :: nat where "BUFSIZ = 1024"

datatype write_fun = No_write | Stdio_write | Stdout_write | Sn_write
datatype read_fun = No_read | Stdio_read

text \<open>The cookie of \<^verbatim>\<open>vsnprintf\<close>: the caller's array, the position in it and the room left.\<close>

record cookie =
  c_array :: bytes
  c_s :: nat
  c_n :: nat

record FILE =
  f_flags :: uint32_t
  f_rpos :: "nat option"
  f_rend :: "nat option"
  f_wend :: "nat option"
  f_wpos :: "nat option"
  f_wbase :: "nat option"
  f_read :: read_fun
  f_write :: write_fun
  f_mem :: bytes
  f_buf :: nat
  f_buf_size :: nat
  f_mode :: int
  f_lbf :: int
  f_cookie :: cookie

text \<open>The bytes between two pointers into the buffer; the difference of two null pointers is 0.\<close>

definition span :: "nat option \<Rightarrow> nat option \<Rightarrow> bytes \<Rightarrow> bytes" where
  "span b e m = (case b of None \<Rightarrow> [] | Some i \<Rightarrow> (case e of None \<Rightarrow> [] | Some j \<Rightarrow> take (j - i) (drop i m)))"

definition pending :: "FILE \<Rightarrow> bytes" where
  "pending f = span (f_wbase f) (f_wpos f) (f_mem f)"

text \<open>\<^verbatim>\<open>memcpy\<close> into the buffer; outside the array it faults.\<close>

definition splice :: "nat \<Rightarrow> bytes \<Rightarrow> bytes \<Rightarrow> bytes option" where
  "splice p s m = (if p + length s \<le> length m then Some (take p m @ s @ drop (p + length s) m) else None)"

section \<open>Writing\<close>

text \<open>The loop of \<^verbatim>\<open>__stdio_write\<close>. The result says whether everything was written, and the value to
  return after an error.\<close>

partial_function (option) stdio_write_loop :: "bytes list \<Rightarrow> int \<Rightarrow> nat \<Rightarrow> device \<Rightarrow> ((bool \<times> nat) \<times> device) option" where
  "stdio_write_loop iov rem len d =
     (let (cnt, d1) = writev iov d in
      if cnt = rem then Some ((True, len), d1)
      else if cnt < 0 then Some ((False, if length iov = 2 then 0 else len - length (hd iov)), d1)
      else let (iov1, cnt1) = (if int (length (hd iov)) < cnt then (tl iov, cnt - int (length (hd iov))) else (iov, cnt))
           in stdio_write_loop (drop (nat cnt1) (hd iov1) # tl iov1) (rem - cnt) len d1)"

declare stdio_write_loop.simps [code]

definition stdio_write :: "bytes \<Rightarrow> FILE \<Rightarrow> device \<Rightarrow> (nat \<times> FILE \<times> device) option" where
  "stdio_write buf f d = do {
     ((ok, n), d1) \<leftarrow> stdio_write_loop [pending f, buf] (int (length (pending f) + length buf)) (length buf) d;
     Some (if ok then (n, f\<lparr>f_wend := Some (f_buf f + f_buf_size f), f_wpos := Some (f_buf f), f_wbase := Some (f_buf f)\<rparr>, d1)
           else (n, f\<lparr>f_wpos := None, f_wbase := None, f_wend := None, f_flags := f_flags f OR F_ERR\<rparr>, d1))
   }"

definition stdout_write :: "bytes \<Rightarrow> FILE \<Rightarrow> device \<Rightarrow> (nat \<times> FILE \<times> device) option" where
  "stdout_write buf f d =
     (let f1 = f\<lparr>f_write := Stdio_write\<rparr>;
          f2 = (if f_flags f1 AND F_SVB = 0 \<and> d_ioctl d \<noteq> 0 then f1\<lparr>f_lbf := - 1\<rparr> else f1)
      in stdio_write buf f2 d)"

definition cookie_copy :: "bytes \<Rightarrow> cookie \<Rightarrow> cookie option" where
  "cookie_copy s c =
     (let k = min (c_n c) (length s) in
      if k = 0 then Some c
      else do { a \<leftarrow> splice (c_s c) (take k s) (c_array c); Some \<lparr>c_array = a, c_s = c_s c + k, c_n = c_n c - k\<rparr> })"

definition sn_write :: "bytes \<Rightarrow> FILE \<Rightarrow> device \<Rightarrow> (nat \<times> FILE \<times> device) option" where
  "sn_write s f d = do {
     c1 \<leftarrow> cookie_copy (pending f) (f_cookie f);
     c2 \<leftarrow> cookie_copy s c1;
     a \<leftarrow> splice (c_s c2) [0] (c_array c2);
     Some (length s, f\<lparr>f_wpos := Some (f_buf f), f_wbase := Some (f_buf f), f_cookie := c2\<lparr>c_array := a\<rparr>\<rparr>, d)
   }"

text \<open>A call through the function pointer.\<close>

definition call_write :: "bytes \<Rightarrow> FILE \<Rightarrow> device \<Rightarrow> (nat \<times> FILE \<times> device) option" where
  "call_write s f d = (case f_write f of No_write \<Rightarrow> None | Stdio_write \<Rightarrow> stdio_write s f d
     | Stdout_write \<Rightarrow> stdout_write s f d | Sn_write \<Rightarrow> sn_write s f d)"

definition towrite :: "FILE \<Rightarrow> int \<times> FILE" where
  "towrite f =
     (let f1 = f\<lparr>f_mode := f_mode f OR (f_mode f - 1)\<rparr> in
      if f_flags f1 AND F_NOWR \<noteq> 0 then (EOF, f1\<lparr>f_flags := f_flags f1 OR F_ERR\<rparr>)
      else (0, f1\<lparr>f_rpos := None, f_rend := None, f_wpos := Some (f_buf f), f_wbase := Some (f_buf f),
                 f_wend := Some (f_buf f + f_buf_size f)\<rparr>))"

text \<open>The loop that looks for the last line feed: the number of bytes up to it, or 0.\<close>

fun line_end :: "bytes \<Rightarrow> nat \<Rightarrow> nat" where
  "line_end s 0 = 0"
| "line_end s (Suc i) = (if s ! i = 10 then Suc i else line_end s i)"

definition copy_pending :: "bytes \<Rightarrow> nat \<Rightarrow> FILE \<Rightarrow> device \<Rightarrow> (nat \<times> FILE \<times> device) option" where
  "copy_pending s i f d = do {
     p \<leftarrow> f_wpos f;
     m \<leftarrow> splice p s (f_mem f);
     Some (length s + i, f\<lparr>f_mem := m, f_wpos := Some (p + length s)\<rparr>, d)
   }"

definition fwritex_active :: "bytes \<Rightarrow> FILE \<Rightarrow> device \<Rightarrow> (nat \<times> FILE \<times> device) option" where
  "fwritex_active s f d = do {
     e \<leftarrow> f_wend f;
     p \<leftarrow> f_wpos f;
     if e - p < length s then call_write s f d
     else if 0 \<le> f_lbf f then
       let i = line_end s (length s) in
       if i \<noteq> 0 then do {
         (n, f1, d1) \<leftarrow> call_write (take i s) f d;
         if n < i then Some (n, f1, d1) else copy_pending (drop i s) i f1 d1
       } else copy_pending s 0 f d
     else copy_pending s 0 f d
   }"

definition fwritex :: "bytes \<Rightarrow> FILE \<Rightarrow> device \<Rightarrow> (nat \<times> FILE \<times> device) option" where
  "fwritex s f d =
     (if f_wend f = None then let (r, f1) = towrite f in if r \<noteq> 0 then Some (0, f1, d) else fwritex_active s f1 d
      else fwritex_active s f d)"

definition fwrite :: "bytes \<Rightarrow> size_t \<Rightarrow> size_t \<Rightarrow> FILE \<Rightarrow> device \<Rightarrow> (size_t \<times> FILE \<times> device) option" where
  "fwrite src sz nmemb f d =
     (let l = sz * nmemb; nmemb' = (if sz = 0 then 0 else nmemb) in do {
        (k, f1, d1) \<leftarrow> fwritex (take (unat l) src) f d;
        Some (if of_nat k = l then nmemb' else of_nat k div sz, f1, d1)
      })"

text \<open>\<^verbatim>\<open>*f->wpos++ = c\<close>.\<close>

definition store_char :: "uint8_t \<Rightarrow> FILE \<Rightarrow> device \<Rightarrow> (int \<times> FILE \<times> device) option" where
  "store_char c f d = do { p \<leftarrow> f_wpos f; m \<leftarrow> splice p [c] (f_mem f); Some (uint c, f\<lparr>f_mem := m, f_wpos := Some (p + 1)\<rparr>, d) }"

definition overflow :: "uint8_t \<Rightarrow> FILE \<Rightarrow> device \<Rightarrow> (int \<times> FILE \<times> device) option" where
  "overflow c f d =
     (let (r, f1) = (if f_wend f = None then towrite f else (0, f)) in
      if r \<noteq> 0 then Some (EOF, f1, d)
      else if f_wpos f1 \<noteq> f_wend f1 \<and> uint c \<noteq> f_lbf f1 then store_char c f1 d
      else do {
        (n, f2, d2) \<leftarrow> call_write [c] f1 d;
        Some (if n \<noteq> 1 then EOF else uint c, f2, d2)
      })"

definition putc :: "uint8_t \<Rightarrow> FILE \<Rightarrow> device \<Rightarrow> (int \<times> FILE \<times> device) option" where
  "putc c f d =
     (if uint c \<noteq> f_lbf f \<and> f_wpos f \<noteq> f_wend f then store_char c f d else overflow c f d)"

section \<open>Reading\<close>

text \<open>\<^verbatim>\<open>f->write(f, 0, 0)\<close> when there is something to write.\<close>

definition write_out :: "FILE \<Rightarrow> device \<Rightarrow> (FILE \<times> device) option" where
  "write_out f d = (if f_wpos f \<noteq> f_wbase f then do { (_, f1, d1) \<leftarrow> call_write [] f d; Some (f1, d1) } else Some (f, d))"

definition toread :: "FILE \<Rightarrow> device \<Rightarrow> (int \<times> FILE \<times> device) option" where
  "toread f d = do {
     (f1, d1) \<leftarrow> write_out (f\<lparr>f_mode := f_mode f OR (f_mode f - 1)\<rparr>) d;
     let f2 = f1\<lparr>f_wpos := None, f_wbase := None, f_wend := None\<rparr>;
     if f_flags f2 AND F_NORD \<noteq> 0 then Some (EOF, f2\<lparr>f_flags := f_flags f2 OR F_ERR\<rparr>, d1)
     else let f3 = f2\<lparr>f_rpos := Some (f_buf f2 + f_buf_size f2), f_rend := Some (f_buf f2 + f_buf_size f2)\<rparr>
          in Some (if f_flags f3 AND F_EOF \<noteq> 0 then EOF else 0, f3, d1)
   }"

text \<open>\<^verbatim>\<open>__stdio_read\<close> asks for the destination less its last byte and for the buffer, or for the buffer alone.
  The result has the new contents of the destination.\<close>

definition fill :: "bytes \<Rightarrow> bytes \<Rightarrow> device \<Rightarrow> (int \<times> bytes \<times> bytes) \<times> device" where
  "fill part b d =
     (if part \<noteq> [] then (let ((c, vs), d1) = readv [part, b] d in ((c, vs ! 0, vs ! 1), d1))
      else (let ((c, bs), d1) = dev_read (length b) d in ((c, [], overwrite bs b), d1)))"

definition stdio_read :: "bytes \<Rightarrow> FILE \<Rightarrow> device \<Rightarrow> (nat \<times> bytes \<times> FILE \<times> device) option" where
  "stdio_read dest f d =
     (let len = length dest;
          l0 = len - (if f_buf_size f = 0 then 0 else 1);
          ((cnt, part, b), d1) = fill (take l0 dest) (take (f_buf_size f) (drop (f_buf f) (f_mem f))) d;
          dest1 = overwrite part dest in do {
        m \<leftarrow> splice (f_buf f) b (f_mem f);
        let f1 = f\<lparr>f_mem := m\<rparr>;
        if cnt \<le> 0 then Some (0, dest1, f1\<lparr>f_flags := f_flags f1 OR (if cnt \<noteq> 0 then F_ERR else F_EOF)\<rparr>, d1)
        else if cnt \<le> int l0 then Some (nat cnt, dest1, f1, d1)
        else if f_buf_size f1 \<noteq> 0 then
          Some (len, dest1[len - 1 := m ! f_buf f1],
                f1\<lparr>f_rpos := Some (f_buf f1 + 1), f_rend := Some (f_buf f1 + nat (cnt - int l0))\<rparr>, d1)
        else Some (len, dest1, f1\<lparr>f_rpos := Some (f_buf f1), f_rend := Some (f_buf f1 + nat (cnt - int l0))\<rparr>, d1)
      })"

definition call_read :: "bytes \<Rightarrow> FILE \<Rightarrow> device \<Rightarrow> (nat \<times> bytes \<times> FILE \<times> device) option" where
  "call_read dest f d = (case f_read f of No_read \<Rightarrow> None | Stdio_read \<Rightarrow> stdio_read dest f d)"

definition uflow :: "FILE \<Rightarrow> device \<Rightarrow> (int \<times> FILE \<times> device) option" where
  "uflow f d = do {
     (r, f1, d1) \<leftarrow> toread f d;
     if r \<noteq> 0 then Some (EOF, f1, d1)
     else do {
       (k, c, f2, d2) \<leftarrow> call_read [0] f1 d1;
       Some (if k = 1 then uint (hd c) else EOF, f2, d2)
     }
   }"

definition getc :: "FILE \<Rightarrow> device \<Rightarrow> (int \<times> FILE \<times> device) option" where
  "getc f d =
     (if f_rpos f \<noteq> f_rend f then do {
        p \<leftarrow> f_rpos f;
        if p < length (f_mem f) then Some (uint (f_mem f ! p), f\<lparr>f_rpos := Some (p + 1)\<rparr>, d) else None
      } else uflow f d)"

text \<open>The loop of \<^verbatim>\<open>fread\<close> that reads the remainder directly: \<open>got\<close> has arrived, \<open>rest\<close> is the part of the
  destination still to be filled.\<close>

partial_function (option) fread_loop :: "bytes \<Rightarrow> bytes \<Rightarrow> FILE \<Rightarrow> device \<Rightarrow> ((bytes \<times> bytes) \<times> FILE \<times> device) option" where
  "fread_loop got rest f d =
     (if rest = [] then Some ((got, []), f, d)
      else do {
        (r, f1, d1) \<leftarrow> toread f d;
        if r \<noteq> 0 then Some ((got, rest), f1, d1)
        else do {
          (k, rest1, f2, d2) \<leftarrow> call_read rest f1 d1;
          if k = 0 then Some ((got, rest1), f2, d2)
          else fread_loop (got @ take k rest1) (drop k rest1) f2 d2
        }
      })"

declare fread_loop.simps [code]

definition fread :: "bytes \<Rightarrow> size_t \<Rightarrow> size_t \<Rightarrow> FILE \<Rightarrow> device \<Rightarrow> (size_t \<times> bytes \<times> FILE \<times> device) option" where
  "fread dest sz nmemb f d =
     (let len = sz * nmemb; nmemb' = (if sz = 0 then 0 else nmemb);
          av = span (f_rpos f) (f_rend f) (f_mem f);
          k = (if f_rpos f \<noteq> f_rend f then min (length av) (unat len) else 0);
          f1 = f\<lparr>f_mode := f_mode f OR (f_mode f - 1), f_rpos := map_option (\<lambda>p. p + k) (f_rpos f)\<rparr> in do {
        ((got, rest), f2, d1) \<leftarrow> fread_loop (take k av) (take (unat len - k) (drop k dest)) f1 d;
        Some (if rest = [] then nmemb' else of_nat (unat len - length rest) div sz, got @ rest @ drop (unat len) dest, f2, d1)
      })"

section \<open>Flushing\<close>

text \<open>Seeking does not change the modelled part of a device.\<close>

definition fflush :: "FILE \<Rightarrow> device \<Rightarrow> (int \<times> FILE \<times> device) option" where
  "fflush f d = do {
     (f1, d1) \<leftarrow> write_out f d;
     if f_wpos f \<noteq> f_wbase f \<and> f_wpos f1 = None then Some (EOF, f1, d1)
     else Some (0, f1\<lparr>f_wpos := None, f_wbase := None, f_wend := None, f_rpos := None, f_rend := None\<rparr>, d1)
   }"

text \<open>\<^verbatim>\<open>fflush(0)\<close>: standard output, then standard error; the list of open files is always empty, since the
  library has no function that adds to it.\<close>

definition fflush_all :: "FILE \<times> device \<Rightarrow> FILE \<times> device \<Rightarrow> (int \<times> (FILE \<times> device) \<times> FILE \<times> device) option" where
  "fflush_all fo fe = do {
     (r1, fo1) \<leftarrow> fflush (fst fo) (snd fo);
     (r2, fe1) \<leftarrow> fflush (fst fe) (snd fe);
     Some (r1 OR r2, fo1, fe1)
   }"

definition close_file :: "FILE \<Rightarrow> device \<Rightarrow> (FILE \<times> device) option" where
  "close_file f d = write_out f d"

definition stdio_exit :: "(FILE \<times> device) list \<Rightarrow> (FILE \<times> device) list option" where
  "stdio_exit fs = those (map (\<lambda>(f, d). close_file f d) fs)"

section \<open>The standard streams\<close>

definition no_cookie :: cookie where
  "no_cookie = \<lparr>c_array = [], c_s = 0, c_n = 0\<rparr>"

definition stdin_FILE :: FILE where
  "stdin_FILE = \<lparr>f_flags = F_PERM OR F_NOWR, f_rpos = None, f_rend = None, f_wend = None, f_wpos = None, f_wbase = None,
     f_read = Stdio_read, f_write = No_write, f_mem = replicate (BUFSIZ + UNGET) 0, f_buf = UNGET, f_buf_size = BUFSIZ,
     f_mode = 0, f_lbf = 0, f_cookie = no_cookie\<rparr>"

definition stdout_FILE :: FILE where
  "stdout_FILE = \<lparr>f_flags = F_PERM OR F_NORD, f_rpos = None, f_rend = None, f_wend = None, f_wpos = None, f_wbase = None,
     f_read = No_read, f_write = Stdout_write, f_mem = replicate (BUFSIZ + UNGET) 0, f_buf = UNGET, f_buf_size = BUFSIZ,
     f_mode = 0, f_lbf = 10, f_cookie = no_cookie\<rparr>"

definition stderr_FILE :: FILE where
  "stderr_FILE = \<lparr>f_flags = F_PERM OR F_NORD, f_rpos = None, f_rend = None, f_wend = None, f_wpos = None, f_wbase = None,
     f_read = No_read, f_write = Stdio_write, f_mem = replicate UNGET 0, f_buf = UNGET, f_buf_size = 0,
     f_mode = 0, f_lbf = - 1, f_cookie = no_cookie\<rparr>"

section \<open>Calls to the device\<close>

lemma dev_write_all: "d_answers d = [] \<Longrightarrow> dev_write bs d = (int (length bs), d\<lparr>d_out := d_out d @ bs\<rparr>)"
  by (simp add: dev_write_def)

lemma writev_from_all:
  "d_answers d = [] \<Longrightarrow> writev_from len iov d = (len + int (length (concat iov)), d\<lparr>d_out := d_out d @ concat iov\<rparr>)"
  by (induction iov arbitrary: len d) (simp_all add: dev_write_all)

lemma stdio_write_all:
  assumes "d_answers d = []"
  shows "stdio_write buf f d = Some (length buf,
     f\<lparr>f_wend := Some (f_buf f + f_buf_size f), f_wpos := Some (f_buf f), f_wbase := Some (f_buf f)\<rparr>,
     d\<lparr>d_out := d_out d @ pending f @ buf\<rparr>)"
  using assms by (simp add: stdio_write_def stdio_write_loop.simps [of "[pending f, buf]"] writev_def dev_write_all)

text \<open>A device that may transfer less than asked for: the loop comes back to the rest of the last buffer.\<close>

definition no_errors :: "device \<Rightarrow> bool" where
  "no_errors d \<longleftrightarrow> (\<forall>a \<in> set (d_answers d). 0 \<le> a)"

lemma dev_write_short:
  assumes "no_errors d"
  shows "\<exists>k d1. dev_write v d = (int k, d1) \<and> k \<le> length v \<and> d_out d1 = d_out d @ take k v \<and> no_errors d1 \<and>
     d_answers d1 = tl (d_answers d) \<and> (d_answers d = [] \<longrightarrow> k = length v)"
proof (cases "d_answers d")
  case (Cons a as)
  then have "0 \<le> a" using assms by (simp add: no_errors_def)
  then show ?thesis using Cons assms
    by (intro exI [of _ "min (nat a) (length v)"] exI [of _ "d\<lparr>d_out := d_out d @ take (min (nat a) (length v)) v, d_answers := as\<rparr>"])
       (simp add: dev_write_def no_errors_def Let_def)
qed (use assms in \<open>simp add: dev_write_def no_errors_def\<close>)

lemma stdio_write_loop_one:
  assumes "no_errors d"
  shows "\<exists>d'. stdio_write_loop [v] (int (length v)) len d = Some ((True, len), d') \<and> d_out d' = d_out d @ v"
  using assms
proof (induction "length (d_answers d)" arbitrary: d v rule: less_induct)
  case less
  obtain k d1 where k: "dev_write v d = (int k, d1)" "k \<le> length v" "d_out d1 = d_out d @ take k v" "no_errors d1"
    "d_answers d1 = tl (d_answers d)" "d_answers d = [] \<longrightarrow> k = length v" using dev_write_short [OF less.prems] by blast
  show ?case
  proof (cases "k = length v")
    case False
    then have "length (d_answers d1) < length (d_answers d)" using k(5,6) by (cases "d_answers d") auto
    from less.hyps [OF this k(4), of "drop k v"] obtain d' where
      "stdio_write_loop [drop k v] (int (length (drop k v))) len d1 = Some ((True, len), d')" "d_out d' = d_out d1 @ drop k v" by blast
    then show ?thesis using k(1-3) False by (subst stdio_write_loop.simps) (simp add: writev_def of_nat_diff)
  qed (use k in \<open>simp add: stdio_write_loop.simps [of "[v]"] writev_def\<close>)
qed

lemma stdio_write_loop_two:
  assumes "no_errors d"
  shows "\<exists>d'. stdio_write_loop [[], v] (int (length v)) len d = Some ((True, len), d') \<and> d_out d' = d_out d @ v"
  using assms
proof (induction "length (d_answers d)" arbitrary: d rule: less_induct)
  case less
  obtain d0 where d0: "dev_write [] d = (0, d0)" "d_out d0 = d_out d" "no_errors d0" "d_answers d0 = tl (d_answers d)"
    using dev_write_short [OF less.prems, of "[]"] by auto
  obtain k d1 where k: "dev_write v d0 = (int k, d1)" "k \<le> length v" "d_out d1 = d_out d0 @ take k v" "no_errors d1"
    "d_answers d1 = tl (d_answers d0)" "d_answers d0 = [] \<longrightarrow> k = length v" using dev_write_short [OF d0(3)] by blast
  have w: "writev [[], v] d = (int k, d1)" using d0(1) k(1) by (simp add: writev_def)
  consider "k = length v" | "k = 0" "k \<noteq> length v" | "0 < k" "k \<noteq> length v" by blast
  then show ?case
  proof cases
    case 1
    then show ?thesis using w k(3) d0(2) by (simp add: stdio_write_loop.simps [of "[[], v]"])
  next
    case 2
    then have "length (d_answers d1) < length (d_answers d)" using k(5,6) d0(4) by (cases "d_answers d") auto
    from less.hyps [OF this k(4)] show ?thesis using w 2 k(3) d0(2) by (subst stdio_write_loop.simps) simp
  next
    case 3
    have r: "int (length v) - int k = int (length (drop k v))" using k(2) by (simp add: of_nat_diff)
    from stdio_write_loop_one [OF k(4), of "drop k v" len] obtain d' where
      "stdio_write_loop [drop k v] (int (length v) - int k) len d1 = Some ((True, len), d')" "d_out d' = d_out d1 @ drop k v" unfolding r by blast
    then show ?thesis using w 3 k(3) d0(2) by (subst stdio_write_loop.simps) simp
  qed
qed

section \<open>What a stream has been given\<close>

text \<open>The stream is in one of two states: inactive, with null pointers, or writing through its buffer.\<close>

definition wstream :: "FILE \<Rightarrow> bool" where
  "wstream f \<longleftrightarrow> f_flags f AND F_NOWR = 0 \<and> (f_write f = Stdio_write \<or> f_write f = Stdout_write) \<and>
     f_buf f + f_buf_size f \<le> length (f_mem f) \<and> (f_lbf f = 10 \<or> f_lbf f = - 1) \<and>
     (f_wbase f = None \<and> f_wpos f = None \<and> f_wend f = None \<or>
      (\<exists>p. f_wbase f = Some (f_buf f) \<and> f_wpos f = Some p \<and> f_wend f = Some (f_buf f + f_buf_size f) \<and>
           f_buf f \<le> p \<and> p \<le> f_buf f + f_buf_size f))"

text \<open>The abstract contents: what reached the device, followed by what is still in the buffer.\<close>

definition sent :: "FILE \<Rightarrow> device \<Rightarrow> bytes" where
  "sent f d = d_out d @ pending f"

lemma pending_simps [simp]:
  "f_wbase f = None \<Longrightarrow> pending f = []" "f_wbase f = Some b \<Longrightarrow> f_wpos f = Some b \<Longrightarrow> pending f = []"
  by (simp_all add: pending_def span_def)

lemma call_write_all:
  assumes "wstream f" and "d_answers d = []" and "f_wend f \<noteq> None"
  shows "\<exists>f'. call_write s f d = Some (length s, f', d\<lparr>d_out := sent f d @ s\<rparr>) \<and> wstream f' \<and> pending f' = [] \<and>
     f_wend f' = f_wend f \<and> f_wpos f' = Some (f_buf f) \<and> f_wbase f' = Some (f_buf f) \<and> f_buf f' = f_buf f \<and> f_buf_size f' = f_buf_size f \<and>
     f_mem f' = f_mem f \<and> f_flags f' = f_flags f \<and> (f_lbf f' = f_lbf f \<or> f_lbf f' = - 1) \<and> f_cookie f' = f_cookie f"
  using assms by (auto simp: call_write_def wstream_def stdout_write_def stdio_write_all Let_def sent_def pending_def span_def)

lemma splice_pending:
  assumes "f_wbase f = Some b" and "f_wpos f = Some p" and "b \<le> p" and "p + length s \<le> length (f_mem f)"
  shows "\<exists>m. splice p s (f_mem f) = Some m \<and> length m = length (f_mem f) \<and>
     pending (f\<lparr>f_mem := m, f_wpos := Some (p + length s)\<rparr>) = pending f @ s"
proof -
  have "take (p + length s - b) (drop b (take p (f_mem f) @ s @ drop (p + length s) (f_mem f))) = take (p - b) (drop b (f_mem f)) @ s"
    using assms(3,4) by (simp add: drop_take)
  then show ?thesis using assms by (simp add: splice_def pending_def span_def)
qed

lemma copy_pending_ok:
  assumes "wstream f" and "f_wpos f = Some p" and "f_wend f = Some e" and "length s \<le> e - p"
  shows "\<exists>f'. copy_pending s i f d = Some (length s + i, f', d) \<and> wstream f' \<and> pending f' = pending f @ s \<and>
     f_wend f' = f_wend f \<and> f_lbf f' = f_lbf f \<and> f_flags f' = f_flags f"
proof -
  have w: "f_wbase f = Some (f_buf f)" "f_buf f \<le> p" "e = f_buf f + f_buf_size f" "p \<le> e" "e \<le> length (f_mem f)"
    using assms(1-3) by (auto simp: wstream_def)
  have len: "p + length s \<le> length (f_mem f)" using w assms(4) by simp
  obtain m where m: "splice p s (f_mem f) = Some m" "length m = length (f_mem f)"
    "pending (f\<lparr>f_mem := m, f_wpos := Some (p + length s)\<rparr>) = pending f @ s"
    using splice_pending [OF w(1) assms(2) w(2) len] by blast
  have "wstream (f\<lparr>f_mem := m, f_wpos := Some (p + length s)\<rparr>)"
    using assms w m(2) by (auto simp: wstream_def)
  then show ?thesis using m(1,3) assms(2) by (simp add: copy_pending_def)
qed

lemma line_end_spec:
  "i \<le> length s \<Longrightarrow> line_end s i \<le> i \<and> (\<forall>j. line_end s i \<le> j \<longrightarrow> j < i \<longrightarrow> s ! j \<noteq> 10)"
proof (induction i)
  case (Suc i)
  then have IH: "line_end s i \<le> i" "\<And>j. line_end s i \<le> j \<Longrightarrow> j < i \<Longrightarrow> s ! j \<noteq> 10" by auto
  show ?case
    by (cases "s ! i = 10") (use IH in \<open>auto simp: less_Suc_eq\<close>)
qed simp

lemma line_end_rest: "10 \<notin> set (drop (line_end s (length s)) s)"
  using line_end_spec [of "length s" s] by (auto simp: in_set_conv_nth)

text \<open>In a line-buffered stream the buffer never holds a complete line.\<close>

definition line_inv :: "FILE \<Rightarrow> bool" where
  "line_inv f \<longleftrightarrow> (0 \<le> f_lbf f \<longrightarrow> 10 \<notin> set (pending f))"

lemma fwritex_active_ok:
  assumes w: "wstream f" "d_answers d = []" "f_wend f \<noteq> None" and li: "line_inv f"
  shows "\<exists>f' d'. fwritex_active s f d = Some (length s, f', d') \<and> wstream f' \<and> d_answers d' = [] \<and>
     sent f' d' = sent f d @ s \<and> line_inv f' \<and> f_flags f' = f_flags f \<and> f_wend f' \<noteq> None"
proof -
  obtain p e where pe: "f_wpos f = Some p" "f_wend f = Some e" using w by (auto simp: wstream_def)
  obtain f1 where f1: "call_write s f d = Some (length s, f1, d\<lparr>d_out := sent f d @ s\<rparr>)" "wstream f1" "pending f1 = []" "f_flags f1 = f_flags f" "f_wend f1 = f_wend f"
    using call_write_all [OF w, of s] by blast
  let ?i = "line_end s (length s)"
  consider "e - p < length s" | "length s \<le> e - p" "0 \<le> f_lbf f" "?i \<noteq> 0" | "length s \<le> e - p" "f_lbf f < 0 \<or> ?i = 0" by linarith
  then show ?thesis
  proof cases
    case 1
    then show ?thesis using f1 pe w(2) by (simp add: fwritex_active_def sent_def line_inv_def)
  next
    case 2
    have il: "?i \<le> length s" using line_end_spec [of "length s" s] by simp
    obtain f2 where f2: "call_write (take ?i s) f d = Some (?i, f2, d\<lparr>d_out := sent f d @ take ?i s\<rparr>)" "wstream f2" "pending f2 = []"
      "f_wend f2 = Some e" "f_wpos f2 = Some (f_buf f)" "f_lbf f2 = f_lbf f \<or> f_lbf f2 = - 1" "f_flags f2 = f_flags f"
      using call_write_all [OF w, of "take ?i s"] il pe by (auto simp: min_absorb2)
    have "length (drop ?i s) \<le> e - f_buf f" using 2(1) w(1) pe by (auto simp: wstream_def)
    from copy_pending_ok [OF f2(2,5,4) this] obtain f' where f': "copy_pending (drop ?i s) ?i f2 (d\<lparr>d_out := sent f d @ take ?i s\<rparr>)
        = Some (length (drop ?i s) + ?i, f', d\<lparr>d_out := sent f d @ take ?i s\<rparr>)"
      "wstream f'" "pending f' = pending f2 @ drop ?i s" "f_lbf f' = f_lbf f2" "f_flags f' = f_flags f2" "f_wend f' = f_wend f2" by blast
    have "fwritex_active s f d = Some (length s, f', d\<lparr>d_out := sent f d @ take ?i s\<rparr>)"
      using 2 pe f2(1) f'(1) il by (simp add: fwritex_active_def Let_def)
    moreover have "sent f' (d\<lparr>d_out := sent f d @ take ?i s\<rparr>) = sent f d @ s" using f'(3) f2(3) by (simp add: sent_def)
    moreover have "line_inv f'" using line_end_rest [of s] f'(3) f2(3) by (simp add: line_inv_def)
    ultimately show ?thesis using f'(2,5,6) f2(4,7) w(2) by simp
  next
    case 3
    from copy_pending_ok [OF w(1) pe 3(1), of 0 d] obtain f' where f': "copy_pending s 0 f d = Some (length s, f', d)"
      "wstream f'" "pending f' = pending f @ s" "f_lbf f' = f_lbf f" "f_flags f' = f_flags f" "f_wend f' = f_wend f" by auto
    have "fwritex_active s f d = Some (length s, f', d)" using 3 pe f'(1) by (auto simp: fwritex_active_def Let_def)
    moreover have "line_inv f'" using 3(2) li line_end_rest [of s] f'(3,4) by (auto simp: line_inv_def)
    ultimately show ?thesis using f' w(2,3) by (simp add: sent_def)
  qed
qed

lemma towrite_ok:
  assumes "wstream f" and "f_wend f = None"
  shows "\<exists>f1. towrite f = (0, f1) \<and> wstream f1 \<and> f_wend f1 \<noteq> None \<and> pending f1 = [] \<and> f_flags f1 = f_flags f \<and> f_lbf f1 = f_lbf f"
  using assms by (auto simp: towrite_def wstream_def pending_def span_def Let_def)

lemma fwritex_ok:
  assumes w: "wstream f" "d_answers d = []" and li: "line_inv f"
  shows "\<exists>f' d'. fwritex s f d = Some (length s, f', d') \<and> wstream f' \<and> d_answers d' = [] \<and>
     sent f' d' = sent f d @ s \<and> line_inv f' \<and> f_flags f' = f_flags f \<and> f_wend f' \<noteq> None"
proof (cases "f_wend f = None")
  case True
  have p: "pending f = []" using True w(1) by (auto simp: wstream_def)
  obtain f1 where f1: "towrite f = (0, f1)" "wstream f1" "f_wend f1 \<noteq> None" "pending f1 = []" "f_flags f1 = f_flags f"
    using towrite_ok [OF w(1) True] by blast
  have "line_inv f1" using f1(4) by (simp add: line_inv_def)
  from fwritex_active_ok [OF f1(2) w(2) f1(3) this, of s] show ?thesis using f1 True p by (simp add: fwritex_def sent_def)
qed (use fwritex_active_ok [OF w _ li] in \<open>auto simp: fwritex_def\<close>)

lemma store_char_ok:
  assumes g: "wstream g" "line_inv g" "uint c \<noteq> f_lbf g" "f_wpos g \<noteq> f_wend g"
  shows "\<exists>f'. store_char c g d = Some (uint c, f', d) \<and> wstream f' \<and> pending f' = pending g @ [c] \<and> line_inv f'"
proof -
  obtain p e where pe: "f_wpos g = Some p" "f_wend g = Some e" "p < e" using g(1,4) by (auto simp: wstream_def)
  then have "length [c] \<le> e - p" by simp
  from copy_pending_ok [OF g(1) pe(1,2) this, of 0 d] obtain f' where f': "copy_pending [c] 0 g d = Some (1, f', d)" "wstream f'"
    "pending f' = pending g @ [c]" "f_lbf f' = f_lbf g" by auto
  obtain m where m: "splice p [c] (f_mem g) = Some m" "f' = g\<lparr>f_mem := m, f_wpos := Some (p + 1)\<rparr>"
    using f'(1) pe(1) by (auto simp: copy_pending_def split: Option.bind_splits)
  have "line_inv f'" using f'(3,4) g(1-3) unfolding line_inv_def wstream_def by auto
  then show ?thesis using m pe(1) f' by (simp add: store_char_def)
qed

lemma overflow_ok:
  assumes w: "wstream f" "d_answers d = []" and li: "line_inv f"
  shows "\<exists>f' d'. overflow c f d = Some (uint c, f', d') \<and> wstream f' \<and> d_answers d' = [] \<and> sent f' d' = sent f d @ [c] \<and> line_inv f'"
proof -
  obtain f1 where f1: "(if f_wend f = None then towrite f else (0, f)) = (0, f1)" "wstream f1" "f_wend f1 \<noteq> None" "pending f1 = pending f" "line_inv f1"
    using towrite_ok [OF w(1)] w li by (cases "f_wend f = None") (auto simp: wstream_def line_inv_def)
  show ?thesis
  proof (cases "f_wpos f1 \<noteq> f_wend f1 \<and> uint c \<noteq> f_lbf f1")
    case True
    obtain f' where "store_char c f1 d = Some (uint c, f', d)" "wstream f'" "pending f' = pending f1 @ [c]" "line_inv f'"
      using store_char_ok [OF f1(2,5)] True by blast
    then show ?thesis using True f1 w(2) by (simp add: overflow_def sent_def)
  next
    case False
    obtain f2 where f2: "call_write [c] f1 d = Some (length [c], f2, d\<lparr>d_out := sent f1 d @ [c]\<rparr>)" "wstream f2" "pending f2 = []"
      using call_write_all [OF f1(2) w(2) f1(3), of "[c]"] by blast
    have "overflow c f d = Some (uint c, f2, d\<lparr>d_out := sent f1 d @ [c]\<rparr>)"
      unfolding overflow_def f1(1) using False f2(1) by auto
    then show ?thesis using f2 f1(4) w(2) by (simp add: sent_def line_inv_def)
  qed
qed

lemma putc_ok:
  assumes w: "wstream f" "d_answers d = []" and li: "line_inv f"
  shows "\<exists>f' d'. putc c f d = Some (uint c, f', d') \<and> wstream f' \<and> d_answers d' = [] \<and> sent f' d' = sent f d @ [c] \<and> line_inv f'"
proof (cases "uint c \<noteq> f_lbf f \<and> f_wpos f \<noteq> f_wend f")
  case True
  obtain f' where "store_char c f d = Some (uint c, f', d)" "wstream f'" "pending f' = pending f @ [c]" "line_inv f'"
    using store_char_ok [OF w(1) li] True by blast
  then show ?thesis using True w(2) by (simp add: putc_def sent_def)
qed (use overflow_ok [OF assms] in \<open>auto simp: putc_def\<close>)

lemma fflush_ok:
  assumes w: "wstream f" "d_answers d = []"
  shows "\<exists>f'. fflush f d = Some (0, f', d\<lparr>d_out := sent f d\<rparr>) \<and> wstream f' \<and> pending f' = []"
proof (cases "f_wpos f = f_wbase f")
  case True
  then have "pending f = []" by (auto simp: pending_def span_def split: option.splits)
  then show ?thesis using True w by (auto simp: fflush_def write_out_def sent_def wstream_def)
next
  case False
  then have "f_wend f \<noteq> None" using w(1) by (auto simp: wstream_def)
  from call_write_all [OF w this, of "[]"] obtain f1 where f1: "call_write [] f d = Some (0, f1, d\<lparr>d_out := sent f d\<rparr>)" "wstream f1"
    "f_wpos f1 = Some (f_buf f)" by auto
  then show ?thesis using False by (auto simp: fflush_def write_out_def wstream_def)
qed

text \<open>C31. Buffered output (\<^verbatim>\<open>fwrite\<close>, \<^verbatim>\<open>__fwritex\<close>, \<^verbatim>\<open>__stdio_write\<close>, \<^verbatim>\<open>__stdout_write\<close>, \<^verbatim>\<open>fflush\<close>) implements an
  append-only sequence of bytes: on a device that takes every write, fwrite returns the number of
  items, what the device got followed by what is buffered grows by exactly the given bytes, a
  line-buffered stream keeps no complete line back, and a following fflush brings everything to the
  device.\<close>

theorem fwrite_correct:
  assumes "wstream f" and "line_inv f" and "d_answers d = []" and "length src = unat (sz * nmemb)" and "sz \<noteq> 0"
  shows "\<exists>f' d' f'' d''. fwrite src sz nmemb f d = Some (nmemb, f', d') \<and> wstream f' \<and> line_inv f' \<and> sent f' d' = sent f d @ src \<and>
     fflush f' d' = Some (0, f'', d'') \<and> d_out d'' = sent f d @ src \<and> pending f'' = []"
proof -
  obtain f' d' where f': "fwritex src f d = Some (length src, f', d')" "wstream f'" "d_answers d' = []" "sent f' d' = sent f d @ src" "line_inv f'"
    using fwritex_ok [OF assms(1,3,2)] by blast
  obtain f'' where f'': "fflush f' d' = Some (0, f'', d'\<lparr>d_out := sent f' d'\<rparr>)" "pending f'' = []" using fflush_ok [OF f'(2,3)] by blast
  have "fwrite src sz nmemb f d = Some (nmemb, f', d')" using f'(1) assms(4,5) by (simp add: fwrite_def Let_def)
  then show ?thesis using f' f'' by simp
qed

text \<open>Unbuffered output survives short writes: whatever part of each request the device takes, as long
  as it reports no error, the loop of \<^verbatim>\<open>__stdio_write\<close> with an empty buffer ends, and the device has got
  exactly the given bytes, once and in order.\<close>

theorem stdio_write_short:
  assumes "pending f = []" and "no_errors d"
  shows "\<exists>f' d'. stdio_write buf f d = Some (length buf, f', d') \<and> d_out d' = d_out d @ buf \<and> f_flags f' = f_flags f"
  using stdio_write_loop_two [OF assms(2), of buf "length buf"] assms(1) by (auto simp: stdio_write_def)

lemma writev_error: "d_answers d = a # as \<Longrightarrow> a < 0 \<Longrightarrow> writev (v # vs) d = (a, d\<lparr>d_answers := as\<rparr>)"
  by (simp add: writev_def dev_write_def)

text \<open>When the device reports an error, \<^verbatim>\<open>__stdio_write\<close> returns 0, marks the stream with the error flag
  and gives up the buffered bytes: nothing reached the device and the stream is inactive.\<close>

theorem stdio_write_error:
  assumes "d_answers d = a # as" and "a < 0"
  shows "\<exists>f' d'. stdio_write buf f d = Some (0, f', d') \<and> d_out d' = d_out d \<and> f_flags f' AND F_ERR = F_ERR \<and>
     pending f' = [] \<and> f_wend f' = None"
proof -
  have "a \<noteq> int (length (pending f) + length buf)" using assms(2) by linarith
  then have "stdio_write_loop [pending f, buf] (int (length (pending f) + length buf)) (length buf) d = Some ((False, 0), d\<lparr>d_answers := as\<rparr>)"
    using assms by (subst stdio_write_loop.simps) (simp add: writev_error)
  moreover have "(w OR F_ERR) AND F_ERR = F_ERR" for w :: uint32_t by (rule bit_word_eqI) (auto simp: bit_simps)
  ultimately show ?thesis by (simp add: stdio_write_def)
qed

text \<open>\<^verbatim>\<open>writev\<close> goes on with the second buffer after a short write of the first one. When a device takes
  only \<open>k\<close> of the buffered bytes and at least as many of the new bytes as it left out, the new bytes
  reach the device before the buffered ones that were left out, and the loop of \<^verbatim>\<open>__stdio_write\<close>, which
  counts the bytes as if they had been taken in order, reports success although those were lost.\<close>

theorem stdio_write_loses:
  assumes "d_answers d = [int k, int (length buf)]" and "k < length (pending f)" and "length (pending f) - k \<le> length buf"
  shows "\<exists>f' d'. stdio_write buf f d = Some (length buf, f', d') \<and> f_flags f' = f_flags f \<and>
     d_out d' = d_out d @ take k (pending f) @ buf @ drop (length buf - (length (pending f) - k)) buf"
proof -
  let ?p = "pending f" and ?d1 = "d\<lparr>d_out := d_out d @ take k (pending f) @ buf, d_answers := []\<rparr>"
  let ?c = "int k + int (length buf)" and ?r = "int (length ?p + length buf)"
  let ?j = "length buf - (length ?p - k)"
  have w: "writev [?p, buf] d = (?c, ?d1)"
    using assms(1,2) by (simp add: writev_def dev_write_def Let_def)
  have ne: "?c \<noteq> ?r" "\<not> ?c < 0" using assms(2) by auto
  have loop1: "stdio_write_loop [drop ?j buf] (?r - ?c) (length buf) ?d1 = Some ((True, length buf), ?d1\<lparr>d_out := d_out ?d1 @ drop ?j buf\<rparr>)"
    using assms(2,3) by (subst stdio_write_loop.simps) (simp add: writev_def dev_write_all of_nat_diff)
  have "stdio_write_loop [?p, buf] ?r (length buf) d = Some ((True, length buf), ?d1\<lparr>d_out := d_out ?d1 @ drop ?j buf\<rparr>)"
  proof (cases "int (length ?p) < ?c")
    case True
    have "nat (?c - int (length ?p)) = ?j" using assms(2,3) by (simp add: nat_diff_distrib')
    then show ?thesis using w ne True loop1 by (subst stdio_write_loop.simps) simp
  next
    case False
    then have j0: "?j = 0" "?c = int (length ?p)" using assms(3) by auto
    have "stdio_write_loop [[], buf] (?r - ?c) (length buf) ?d1 = Some ((True, length buf), ?d1\<lparr>d_out := d_out ?d1 @ buf\<rparr>)"
      using j0(2) by (subst stdio_write_loop.simps) (simp add: writev_def dev_write_all)
    moreover have "drop (nat ?c) ?p = []" using j0(2) by simp
    ultimately show ?thesis using w ne False j0(1) by (subst stdio_write_loop.simps) simp
  qed
  then show ?thesis by (simp add: stdio_write_def)
qed

section \<open>What a stream will deliver\<close>

definition rstream :: "FILE \<Rightarrow> bool" where
  "rstream f \<longleftrightarrow> f_flags f AND F_NORD = 0 \<and> f_read f = Stdio_read \<and> f_wpos f = f_wbase f \<and> 0 < f_buf_size f \<and>
     f_buf f + f_buf_size f \<le> length (f_mem f) \<and>
     (f_rpos f = None \<and> f_rend f = None \<or> (\<exists>p e. f_rpos f = Some p \<and> f_rend f = Some e \<and> p \<le> e \<and> e \<le> length (f_mem f)))"

definition ahead :: "FILE \<Rightarrow> device \<Rightarrow> bytes" where
  "ahead f d = span (f_rpos f) (f_rend f) (f_mem f) @ d_in d"

lemma toread_ok:
  assumes "rstream f" and "f_flags f AND F_EOF = 0"
  shows "\<exists>f1. toread f d = Some (0, f1, d) \<and> rstream f1 \<and> f_flags f1 = f_flags f \<and> f_rpos f1 = f_rend f1 \<and> span (f_rpos f1) (f_rend f1) (f_mem f1) = []"
  using assms by (auto simp: toread_def write_out_def rstream_def Let_def span_def)

lemma dev_read_all: "d_reads d = [] \<Longrightarrow> dev_read n d = ((int (min n (length (d_in d))), take n (d_in d)), d\<lparr>d_in := drop n (d_in d)\<rparr>)"
  by (simp add: dev_read_def)

lemma fill_all:
  assumes "d_reads d = []"
  shows "fill part b d = ((int (min (length part + length b) (length (d_in d))), overwrite (take (length part) (d_in d)) part,
     overwrite (take (length b) (drop (length part) (d_in d))) b), d\<lparr>d_in := drop (length part + length b) (d_in d)\<rparr>)"
  using assms by (cases "part = []") (auto simp: fill_def readv_def dev_read_all overwrite_def min_def add.commute)

lemma overwrite_length: "length new \<le> length old \<Longrightarrow> length (overwrite new old) = length old"
  by (simp add: overwrite_def)

text \<open>Reading when the input has enough bytes: the destination is filled and the following bytes are in the
  buffer.\<close>

lemma stdio_read_enough:
  assumes b: "0 < f_buf_size f" "f_buf f + f_buf_size f \<le> length (f_mem f)" and d: "d_reads d = []"
    and n: "length dest = Suc l" "l < length (d_in d)"
  shows "\<exists>f' d'. stdio_read dest f d = Some (length dest, take (length dest) (d_in d), f', d') \<and> d_reads d' = [] \<and>
     ahead f' d' = drop (length dest) (d_in d) \<and> (rstream f \<longrightarrow> rstream f') \<and> f_flags f' = f_flags f"
proof -
  define B where "B = f_buf_size f"
  define bb where "bb = take B (drop (f_buf f) (f_mem f))"
  define nb where "nb = take B (drop l (d_in d))"
  define m where "m = take (f_buf f) (f_mem f) @ overwrite nb bb @ drop (f_buf f + B) (f_mem f)"
  define d' where "d' = d\<lparr>d_in := drop (l + B) (d_in d)\<rparr>"
  define f' where "f' = f\<lparr>f_mem := m, f_rpos := Some (f_buf f + 1), f_rend := Some (f_buf f + length nb)\<rparr>"
  have lb: "length bb = B" "length nb \<le> B" "0 < length nb" using b n by (auto simp: bb_def nb_def B_def)
  have lo: "length (overwrite nb bb) = B" using lb by (simp add: overwrite_length)
  have sp: "splice (f_buf f) (overwrite nb bb) (f_mem f) = Some m" using b(2) lo by (simp add: splice_def m_def B_def)
  have c: "min (l + B) (length (d_in d)) = l + length nb" using n(2) by (simp add: nb_def)
  have fl: "fill (take l dest) bb d = ((int (l + length nb), take l (d_in d), overwrite nb bb), d')"
    using fill_all [OF d, of "take l dest" bb] n lb(1) c by (simp add: nb_def d'_def overwrite_def)
  have mb: "m ! f_buf f = d_in d ! l"
    using b lb n(2) by (simp add: m_def nth_append overwrite_def) (simp add: nb_def)
  have "(overwrite (take l (d_in d)) dest)[l := d_in d ! l] = take (Suc l) (d_in d)"
    using n by (simp add: overwrite_def list_update_append take_Suc_conv_app_nth) (metis Cons_nth_drop_Suc drop_all le_refl lessI list_update_code(2))
  then have "stdio_read dest f d = Some (length dest, take (length dest) (d_in d), f', d')"
    unfolding stdio_read_def using fl sp mb lb(3) n b(1) by (simp add: Let_def bb_def [symmetric] B_def [symmetric] f'_def) (use lb(3) in linarith)
  moreover have "ahead f' d' = drop (length dest) (d_in d)"
  proof -
    have "take (length nb - 1) (drop (f_buf f + 1) m) = tl nb"
      using b lb by (simp add: m_def overwrite_def B_def drop_Suc tl_take)
    moreover have "tl nb @ drop (l + B) (d_in d) = drop (Suc l) (d_in d)"
    proof -
      obtain B' where B': "B = Suc B'" using b(1) by (cases B) (auto simp: B_def)
      have "tl nb = take B' (drop (Suc l) (d_in d))" by (simp add: nb_def B' tl_take tl_drop drop_Suc)
      moreover have "drop (l + B) (d_in d) = drop B' (drop (Suc l) (d_in d))" by (simp add: B' add.commute)
      ultimately show ?thesis by (simp only: append_take_drop_id)
    qed
    ultimately show ?thesis by (simp add: ahead_def span_def f'_def d'_def n(1))
  qed
  moreover have "length m = length (f_mem f)" using b(2) lo by (simp add: m_def B_def)
  then have "rstream f \<longrightarrow> rstream f'" using lb b by (auto simp: rstream_def f'_def B_def Suc_le_eq)
  ultimately show ?thesis using d by (simp add: d'_def f'_def)
qed

text \<open>Reading when the input ends before the destination is full.\<close>

lemma stdio_read_end:
  assumes b: "0 < f_buf_size f" "f_buf f + f_buf_size f \<le> length (f_mem f)" and d: "d_reads d = []"
    and n: "length dest = Suc l" "length (d_in d) \<le> l"
  shows "stdio_read dest f d = Some (length (d_in d), overwrite (d_in d) dest,
     (if d_in d = [] then f\<lparr>f_flags := f_flags f OR F_EOF\<rparr> else f), d\<lparr>d_in := []\<rparr>)"
proof -
  let ?bb = "take (f_buf_size f) (drop (f_buf f) (f_mem f))"
  have fl: "fill (take l dest) ?bb d = ((int (length (d_in d)), overwrite (d_in d) (take l dest), ?bb), d\<lparr>d_in := []\<rparr>)"
    using fill_all [OF d, of "take l dest" ?bb] n b(2) by (simp add: overwrite_def min_def)
  have sp: "splice (f_buf f) ?bb (f_mem f) = Some (f_mem f)"
    using b(2) by (simp add: splice_def) (metis append_take_drop_id drop_drop add.commute)
  have ov: "overwrite (overwrite (d_in d) (take l dest)) dest = overwrite (d_in d) dest"
    using n by (simp add: overwrite_def drop_take) (metis append_take_drop_id drop_drop le_add_diff_inverse2)
  show ?thesis
    unfolding stdio_read_def using fl sp ov n b(1) by (auto simp: Let_def)
qed

lemma fread_loop_ok:
  assumes f: "rstream f" "f_flags f AND F_EOF = 0" and d: "d_reads d = []" and e: "rest = [] \<or> span (f_rpos f) (f_rend f) (f_mem f) = []"
  shows "\<exists>f' d'. fread_loop got rest f d = Some ((got @ take (length rest) (d_in d), drop (length (d_in d)) rest), f', d') \<and>
     (length rest \<le> length (d_in d) \<longrightarrow> f_flags f' = f_flags f \<and> rstream f' \<and> ahead f' d' = (if rest = [] then ahead f d else drop (length rest) (d_in d)))"
proof (cases "rest = []")
  case True
  then show ?thesis using f(1) by (simp add: fread_loop.simps)
next
  case False
  then obtain l where l: "length rest = Suc l" by (cases rest) auto
  obtain f1 where f1: "toread f d = Some (0, f1, d)" "rstream f1" "f_flags f1 = f_flags f" "f_rpos f1 = f_rend f1" using toread_ok [OF f] by blast
  have b: "0 < f_buf_size f1" "f_buf f1 + f_buf_size f1 \<le> length (f_mem f1)" "f_read f1 = Stdio_read" using f1(2) by (auto simp: rstream_def)
  show ?thesis
  proof (cases "l < length (d_in d)")
    case True
    obtain f' d' where r: "stdio_read rest f1 d = Some (length rest, take (length rest) (d_in d), f', d')" "d_reads d' = []"
      "ahead f' d' = drop (length rest) (d_in d)" "rstream f'" "f_flags f' = f_flags f1"
      using stdio_read_enough [OF b(1,2) d l True] f1(2) by blast
    have "fread_loop got rest f d = fread_loop (got @ take (length rest) (d_in d)) [] f' d'"
      using False f1(1) r(1) b(3) l True by (subst fread_loop.simps) (simp add: call_read_def)
    also have "\<dots> = Some ((got @ take (length rest) (d_in d), []), f', d')" by (simp add: fread_loop.simps)
    finally show ?thesis using True False l r f1(3) by simp
  next
    case nt: False
    then have le: "length (d_in d) \<le> l" by simp
    let ?d1 = "d\<lparr>d_in := []\<rparr>" and ?r1 = "drop (length (d_in d)) rest"
    have ended: "\<exists>f' d'. fread_loop g r h ?d1 = Some ((g, r), f', d')" if h: "rstream h" "f_flags h AND F_EOF = 0" "r \<noteq> []" for g r h
    proof -
      obtain h1 where h1: "toread h ?d1 = Some (0, h1, ?d1)" "rstream h1" using toread_ok [OF h(1,2)] by blast
      obtain l' where l': "length r = Suc l'" using h(3) by (cases r) auto
      have b': "0 < f_buf_size h1" "f_buf h1 + f_buf_size h1 \<le> length (f_mem h1)" "f_read h1 = Stdio_read" using h1(2) by (auto simp: rstream_def)
      have "stdio_read r h1 ?d1 = Some (0, r, h1\<lparr>f_flags := f_flags h1 OR F_EOF\<rparr>, ?d1)"
        using stdio_read_end [OF b'(1,2) _ l', of ?d1] d by (simp add: overwrite_def)
      then show ?thesis using h(3) h1(1) b'(3) by (subst fread_loop.simps) (simp add: call_read_def)
    qed
    show ?thesis
    proof (cases "d_in d = []")
      case True
      then have same: "?d1 = d" by simp
      show ?thesis using ended [OF f False, of got, unfolded same] True l by simp
    next
      case ne: False
      have r: "stdio_read rest f1 d = Some (length (d_in d), overwrite (d_in d) rest, f1, ?d1)"
        using stdio_read_end [OF b(1,2) d l le] ne by simp
      have "fread_loop got rest f d = fread_loop (got @ d_in d) ?r1 f1 ?d1"
        using False f1(1) r b(3) ne by (subst fread_loop.simps) (simp add: call_read_def overwrite_def)
      moreover have "?r1 \<noteq> []" using le l by simp
      ultimately show ?thesis using ended [OF f1(2), of ?r1 "got @ d_in d"] f1(3) f(2) le l by simp
    qed
  qed
qed

lemma span_advance:
  assumes "rstream f" and "k \<le> length (span (f_rpos f) (f_rend f) (f_mem f))"
  shows "rstream (f\<lparr>f_mode := x, f_rpos := map_option (\<lambda>p. p + k) (f_rpos f)\<rparr>)"
    and "span (map_option (\<lambda>p. p + k) (f_rpos f)) (f_rend f) (f_mem f) = drop k (span (f_rpos f) (f_rend f) (f_mem f))"
  using assms by (auto simp: rstream_def span_def drop_take add.commute)

lemma span_equal: "f_rpos f = f_rend f \<Longrightarrow> span (f_rpos f) (f_rend f) (f_mem f) = []"
  by (simp add: span_def split: option.splits)

text \<open>Buffered input (\<^verbatim>\<open>fread\<close>, \<^verbatim>\<open>__toread\<close>, \<^verbatim>\<open>__stdio_read\<close>): on a device that answers every read in full,
  fread fills the destination with the next bytes of the stream, buffered ones first, and the stream
  goes on behind them. When the input ends before, the destination has all bytes that were left and
  the result counts the complete items among them.\<close>

theorem fread_correct:
  assumes f: "rstream f" "f_flags f AND F_EOF = 0" and d: "d_reads d = []" and dest: "length dest = unat (sz * nmemb)" and sz: "sz \<noteq> 0"
  shows "\<exists>n f' d'. fread dest sz nmemb f d = Some (n, overwrite (take (length dest) (ahead f d)) dest, f', d') \<and>
     (if length dest \<le> length (ahead f d) then n = nmemb \<and> rstream f' \<and> ahead f' d' = drop (length dest) (ahead f d)
      else n = of_nat (length (ahead f d)) div sz)"
proof -
  let ?av = "span (f_rpos f) (f_rend f) (f_mem f)" and ?n = "length dest"
  define k where "k = min (length ?av) ?n"
  define f2 where "f2 = f\<lparr>f_mode := f_mode f OR (f_mode f - 1), f_rpos := map_option (\<lambda>p. p + k) (f_rpos f)\<rparr>"
  have kav: "k \<le> length ?av" "k \<le> ?n" by (simp_all add: k_def)
  have k': "(if f_rpos f \<noteq> f_rend f then min (length ?av) ?n else 0) = k" using span_equal [of f] by (simp add: k_def)
  have s2: "rstream f2" "f_flags f2 AND F_EOF = 0" "span (f_rpos f2) (f_rend f2) (f_mem f2) = drop k ?av"
    using span_advance [OF f(1) kav(1)] f(2) by (simp_all add: f2_def)
  let ?rest = "drop k dest"
  have "?rest = [] \<or> span (f_rpos f2) (f_rend f2) (f_mem f2) = []" using s2(3) by (auto simp: k_def min_def)
  from fread_loop_ok [OF s2(1,2) d this, of "take k ?av"] obtain f' d' where
    l: "fread_loop (take k ?av) ?rest f2 d = Some ((take k ?av @ take (?n - k) (d_in d), drop (length (d_in d)) ?rest), f', d')"
    and a: "?n - k \<le> length (d_in d) \<longrightarrow> rstream f' \<and> ahead f' d' = (if ?rest = [] then ahead f2 d else drop (?n - k) (d_in d))" by auto
  have got: "take k ?av @ take (?n - k) (d_in d) = take ?n (ahead f d)"
    by (cases "length ?av \<le> ?n") (auto simp: k_def ahead_def min_def)
  have rst: "drop (length (d_in d)) ?rest = drop (length (take ?n (ahead f d))) dest"
    by (cases "length ?av \<le> ?n") (auto simp: k_def ahead_def min_def add.commute)
  let ?r = "drop (length (take ?n (ahead f d))) dest"
  let ?c = "if ?r = [] then nmemb else of_nat (?n - length ?r) div sz"
  have "fread dest sz nmemb f d = Some (?c, take ?n (ahead f d) @ ?r, f', d')"
  proof -
    have u: "unat (sz * nmemb) = ?n" using dest by simp
    have t: "take (?n - k) ?rest = ?rest" by simp
    have "fread dest sz nmemb f d = do { ((got, rest), f3, d1) \<leftarrow> fread_loop (take k ?av) (take (?n - k) ?rest) f2 d;
        Some (if rest = [] then nmemb else of_nat (?n - length rest) div sz, got @ rest @ drop ?n dest, f3, d1) }"
      using sz by (simp only: fread_def Let_def u k' f2_def if_False)
    then show ?thesis unfolding t l got rst by simp
  qed
  moreover have "if ?n \<le> length (ahead f d) then ?c = nmemb \<and> rstream f' \<and> ahead f' d' = drop ?n (ahead f d) else ?c = of_nat (length (ahead f d)) div sz"
  proof (cases "?n \<le> length (ahead f d)")
    case True
    then have "?n - k \<le> length (d_in d)" by (auto simp: ahead_def k_def)
    with a have "rstream f'" "ahead f' d' = (if ?rest = [] then ahead f2 d else drop (?n - k) (d_in d))" by auto
    moreover have "(if ?rest = [] then ahead f2 d else drop (?n - k) (d_in d)) = drop ?n (ahead f d)"
      using s2(3) by (auto simp: ahead_def k_def f2_def min_def)
    ultimately show ?thesis using True by simp
  qed simp
  ultimately show ?thesis unfolding overwrite_def by (intro exI conjI)
qed

section \<open>Examples\<close>

definition demo_dev :: "int list \<Rightarrow> bytes \<Rightarrow> device" where
  "demo_dev as inp = \<lparr>d_out = [], d_answers = as, d_in = inp, d_reads = [], d_ioctl = 0\<rparr>"

lemma demo_dev_sel [simp]:
  "d_out (demo_dev as inp) = []" "d_answers (demo_dev as inp) = as" "d_in (demo_dev as inp) = inp" "d_reads (demo_dev as inp) = []"
  by (simp_all add: demo_dev_def)

lemma demo_stdout: "wstream stdout_FILE" "line_inv stdout_FILE" "sent stdout_FILE (demo_dev as inp) = []"
  by (simp_all add: wstream_def line_inv_def stdout_FILE_def F_PERM_def F_NORD_def F_NOWR_def BUFSIZ_def UNGET_def sent_def pending_def span_def demo_dev_def)

lemma demo_stdin: "rstream stdin_FILE" "f_flags stdin_FILE AND F_EOF = 0" "ahead stdin_FILE (demo_dev as inp) = inp"
  by (simp_all add: rstream_def stdin_FILE_def F_PERM_def F_NORD_def F_NOWR_def F_EOF_def BUFSIZ_def UNGET_def ahead_def span_def demo_dev_def)

theorem fwrite_correct_witness:
  "\<exists>f' d' f'' d''. fwrite [72, 105, 10] 1 3 stdout_FILE (demo_dev [] []) = Some (3, f', d') \<and> fflush f' d' = Some (0, f'', d'') \<and> d_out d'' = [72, 105, 10]"
  using fwrite_correct [OF demo_stdout(1,2), of "demo_dev [] []" "[72, 105, 10]" 1 3] demo_stdout(3) by auto

theorem fread_correct_witness:
  "\<exists>n f' d'. fread [0, 0, 0] 1 3 stdin_FILE (demo_dev [] [1, 2, 3, 4, 5]) = Some (n, [1, 2, 3], f', d') \<and> n = 3 \<and> ahead f' d' = [4, 5]"
proof -
  have "length [0 :: uint8_t, 0, 0] = unat (1 * 3 :: size_t)" by simp
  from fread_correct [OF demo_stdin(1,2) _ this, of "demo_dev [] [1, 2, 3, 4, 5]"] show ?thesis
    by (auto simp: demo_stdin(3) overwrite_def numeral_3_eq_3)
qed

theorem stdio_write_short_witness:
  "\<exists>f' d'. stdio_write [7, 8, 9] stderr_FILE (demo_dev [0, 1, 0, 1] []) = Some (3, f', d') \<and> d_out d' = [7, 8, 9]"
  using stdio_write_short [of stderr_FILE "demo_dev [0, 1, 0, 1] []" "[7, 8, 9]"]
  by (auto simp: stderr_FILE_def no_errors_def)

theorem stdio_write_error_witness:
  "\<exists>f' d'. stdio_write [7, 8, 9] stderr_FILE (demo_dev [- 5] []) = Some (0, f', d') \<and> f_flags f' AND F_ERR = F_ERR"
  using stdio_write_error [of "demo_dev [- 5] []" "- 5" "[]" "[7, 8, 9]" stderr_FILE] by auto

definition demo_buffered :: FILE where
  "demo_buffered = stderr_FILE\<lparr>f_mem := [1, 2, 0, 0], f_buf := 0, f_buf_size := 4, f_wbase := Some 0, f_wpos := Some 2, f_wend := Some 4\<rparr>"

theorem stdio_write_loses_witness:
  "\<exists>f' d'. stdio_write [3, 4] demo_buffered (demo_dev [1, 2] []) = Some (2, f', d') \<and> d_out d' = [1, 3, 4, 4]"
  using stdio_write_loses [of "demo_dev [1, 2] []" 1 "[3, 4]" demo_buffered]
  by (auto simp: demo_buffered_def pending_def span_def)

end
