(* ===== verification/Printf.thy ===== *)
theory Printf
  imports Stdio LibcString
begin

text \<open>
  Formatted output: \<^verbatim>\<open>libc/generic/stdio/vfprintf.c\<close> and \<^verbatim>\<open>vsnprintf.c\<close> with the multibyte conversion of
  \<^verbatim>\<open>libc/generic/multibyte\<close>. A format is the list of its bytes without the terminating NUL; the pointer
  \<open>s\<close> of the code is the rest of the format. The arguments of a call are the general purpose slots and
  the floating point values of a \<open>va_list\<close>; a missing argument makes the call fail (\<open>None\<close>). Conversions
  read and write memory as in the theory \<open>Bytes\<close>.

  \<^verbatim>\<open>printf_core\<close> uses its stream only to test it for null and to pass it to \<^verbatim>\<open>out\<close>. A conversion is therefore
  a function to the list of the pieces that it passes to \<^verbatim>\<open>out\<close>, which the loop then writes in this
  order. Floating point conversions (\<^verbatim>\<open>fmt_fp\<close>) and the text of an error number are parameters.
\<close>

section \<open>Flags and states\<close>

definition INT_MAX :: int where "INT_MAX = 0x7fffffff"

definition ALT_FORM :: uint32_t where "ALT_FORM = push_bit 3 1"
definition ZERO_PAD :: uint32_t where "ZERO_PAD = push_bit 16 1"
definition LEFT_ADJ :: uint32_t where "LEFT_ADJ = push_bit 13 1"
definition PAD_POS :: uint32_t where "PAD_POS = push_bit 0 1"
definition MARK_POS :: uint32_t where "MARK_POS = push_bit 11 1"
definition GROUPED :: uint32_t where "GROUPED = push_bit 7 1"

definition FLAGMASK :: uint32_t where
  "FLAGMASK = ALT_FORM OR ZERO_PAD OR LEFT_ADJ OR PAD_POS OR MARK_POS OR GROUPED"

datatype fmt_state = BARE | LPRE | LLPRE | HPRE | HHPRE | BIGLPRE | ZTPRE | JPRE
  | T_PTR | T_INT | T_UINT | T_ULLONG | T_LONG | T_ULONG | T_SHORT | T_USHORT | T_CHAR | T_UCHAR
  | T_LLONG | T_SIZET | T_IMAX | T_UMAX | T_PDIFF | T_UIPTR | T_DBL | T_LDBL | T_NOARG

text \<open>The states before \<^verbatim>\<open>STOP\<close> other than 0.\<close>

definition is_prefix :: "fmt_state \<Rightarrow> bool" where
  "is_prefix st \<longleftrightarrow> st \<in> {LPRE, LLPRE, HPRE, HHPRE, BIGLPRE, ZTPRE, JPRE}"

abbreviation chr :: "char \<Rightarrow> uint8_t" where
  "chr c \<equiv> of_char c"

definition among :: "uint8_t \<Rightarrow> string \<Rightarrow> bool" where
  "among c cs \<longleftrightarrow> c \<in> set (map of_char cs)"

definition states_bare :: "uint8_t \<Rightarrow> fmt_state" where
  "states_bare c =
     (if among c ''di'' then T_INT else if among c ''ouxX'' then T_UINT else if among c ''efgaEFGA'' then T_DBL
      else if among c ''c'' then T_CHAR else if among c ''C'' then T_INT else if among c ''sSn'' then T_PTR
      else if among c ''p'' then T_UIPTR else if among c ''m'' then T_NOARG else if among c ''l'' then LPRE
      else if among c ''h'' then HPRE else if among c ''L'' then BIGLPRE else if among c ''zt'' then ZTPRE
      else if among c ''j'' then JPRE else BARE)"

definition states_int :: "fmt_state \<Rightarrow> fmt_state \<Rightarrow> uint8_t \<Rightarrow> fmt_state" where
  "states_int s u c = (if among c ''di'' then s else if among c ''ouxX'' then u else if among c ''n'' then T_PTR else BARE)"

definition states :: "fmt_state \<Rightarrow> uint8_t \<Rightarrow> fmt_state" where
  "states st c = (case st of
       BARE \<Rightarrow> states_bare c
     | LPRE \<Rightarrow> (if among c ''efgaEFGA'' then T_DBL else if among c ''c'' then T_INT else if among c ''s'' then T_PTR
               else if among c ''l'' then LLPRE else states_int T_LONG T_ULONG c)
     | LLPRE \<Rightarrow> states_int T_LLONG T_ULLONG c
     | HPRE \<Rightarrow> (if among c ''h'' then HHPRE else states_int T_SHORT T_USHORT c)
     | HHPRE \<Rightarrow> states_int T_CHAR T_UCHAR c
     | BIGLPRE \<Rightarrow> (if among c ''efgaEFGA'' then T_LDBL else if among c ''n'' then T_PTR else BARE)
     | ZTPRE \<Rightarrow> states_int T_PDIFF T_SIZET c
     | JPRE \<Rightarrow> states_int T_IMAX T_UMAX c
     | _ \<Rightarrow> BARE)"

definition OOB :: "uint8_t \<Rightarrow> bool" where
  "OOB x \<longleftrightarrow> 57 < x - 65"

section \<open>Arguments\<close>

datatype 'd arg = A_word "64 word" | A_fp 'd

record 'd va_list =
  va_words :: "64 word list"
  va_doubles :: "'d list"
  va_ldoubles :: "'d list"

definition arg_i :: "'d arg \<Rightarrow> 64 word option" where
  "arg_i a = (case a of A_word w \<Rightarrow> Some w | A_fp _ \<Rightarrow> None)"

definition arg_f :: "'d arg \<Rightarrow> 'd option" where
  "arg_f a = (case a of A_word _ \<Rightarrow> None | A_fp x \<Rightarrow> Some x)"

definition va_word :: "'d va_list \<Rightarrow> (64 word \<times> 'd va_list) option" where
  "va_word ap = (case va_words ap of [] \<Rightarrow> None | w # ws \<Rightarrow> Some (w, ap\<lparr>va_words := ws\<rparr>))"

definition to_int :: "64 word \<Rightarrow> int" where
  "to_int w = sint (ucast w :: 32 word)"

definition va_int :: "'d va_list \<Rightarrow> (int \<times> 'd va_list) option" where
  "va_int ap = do { (w, ap1) \<leftarrow> va_word ap; Some (to_int w, ap1) }"

definition narrow :: "fmt_state \<Rightarrow> 64 word \<Rightarrow> 64 word" where
  "narrow ty w = (case ty of
       T_INT \<Rightarrow> scast (ucast w :: 32 word) | T_UINT \<Rightarrow> ucast (ucast w :: 32 word)
     | T_SHORT \<Rightarrow> scast (ucast w :: 16 word) | T_USHORT \<Rightarrow> ucast (ucast w :: 16 word)
     | T_CHAR \<Rightarrow> scast (ucast w :: 8 word) | T_UCHAR \<Rightarrow> ucast (ucast w :: 8 word)
     | _ \<Rightarrow> w)"

definition is_word_type :: "fmt_state \<Rightarrow> bool" where
  "is_word_type ty \<longleftrightarrow> ty \<in> {T_PTR, T_INT, T_UINT, T_ULLONG, T_LONG, T_ULONG, T_SHORT, T_USHORT, T_CHAR, T_UCHAR,
     T_LLONG, T_SIZET, T_IMAX, T_UMAX, T_PDIFF, T_UIPTR}"

definition pop_arg :: "'d arg \<Rightarrow> fmt_state \<Rightarrow> 'd va_list \<Rightarrow> ('d arg \<times> 'd va_list) option" where
  "pop_arg arg ty ap =
     (if is_word_type ty then do { (w, ap1) \<leftarrow> va_word ap; Some (A_word (narrow ty w), ap1) }
      else if ty = T_DBL then (case va_doubles ap of [] \<Rightarrow> None | x # xs \<Rightarrow> Some (A_fp x, ap\<lparr>va_doubles := xs\<rparr>))
      else if ty = T_LDBL then (case va_ldoubles ap of [] \<Rightarrow> None | x # xs \<Rightarrow> Some (A_fp x, ap\<lparr>va_ldoubles := xs\<rparr>))
      else Some (arg, ap))"

section \<open>Pieces of output\<close>

text \<open>\<^verbatim>\<open>pad\<close> passes blocks of 256 characters to \<^verbatim>\<open>out\<close>, and then the rest.\<close>

fun pad_blocks :: "uint8_t \<Rightarrow> nat \<Rightarrow> bytes list" where
  "pad_blocks c l = (if 256 \<le> l then replicate 256 c # pad_blocks c (l - 256) else [replicate l c])"

declare pad_blocks.simps [simp del]

definition pad :: "uint8_t \<Rightarrow> int \<Rightarrow> int \<Rightarrow> uint32_t \<Rightarrow> bytes list" where
  "pad c w l fl = (if fl AND (LEFT_ADJ OR ZERO_PAD) \<noteq> 0 \<or> w \<le> l then [] else pad_blocks c (nat (w - l)))"

definition xdigits :: bytes where
  "xdigits = map of_char ''0123456789ABCDEF''"

function fmt_x :: "64 word \<Rightarrow> uint8_t \<Rightarrow> bytes \<Rightarrow> bytes" where
  "fmt_x x lower s = (if x = 0 then s else fmt_x (drop_bit 4 x) lower ((xdigits ! unat (x AND 15) OR lower) # s))"
  by pat_completeness auto
termination
  by (relation "measure (\<lambda>(x, _, _). unat x)") (auto simp: drop_bit_eq_div unat_div_distrib word_unat_eq_iff)

function fmt_o :: "64 word \<Rightarrow> bytes \<Rightarrow> bytes" where
  "fmt_o x s = (if x = 0 then s else fmt_o (drop_bit 3 x) ((48 + ucast (x AND 7)) # s))"
  by pat_completeness auto
termination
  by (relation "measure (\<lambda>(x, _). unat x)") (auto simp: drop_bit_eq_div unat_div_distrib word_unat_eq_iff)

text \<open>A 64-bit value never exceeds \<^verbatim>\<open>ULONG_MAX\<close>, so the first loop of \<^verbatim>\<open>fmt_u\<close> does nothing.\<close>

function fmt_u :: "64 word \<Rightarrow> bytes \<Rightarrow> bytes" where
  "fmt_u y s = (if y = 0 then s else fmt_u (y div 10) ((48 + ucast (y mod 10)) # s))"
  by pat_completeness auto
termination
  by (relation "measure (\<lambda>(y, _). unat y)") (auto simp: unat_div_distrib word_unat_eq_iff)

declare fmt_x.simps [simp del] fmt_o.simps [simp del] fmt_u.simps [simp del]

section \<open>Reading the format\<close>

definition isdigit :: "uint8_t \<Rightarrow> bool" where
  "isdigit c \<longleftrightarrow> c - 48 < 10"

definition digit :: "uint8_t \<Rightarrow> nat" where
  "digit c = unat (c - 48)"

definition peek :: "nat \<Rightarrow> bytes \<Rightarrow> uint8_t" where
  "peek k s = (if k < length s then s ! k else 0)"

text \<open>The comparison of \<^verbatim>\<open>i\<close> with \<^verbatim>\<open>INT_MAX/10U\<close> is unsigned, hence true for -1.\<close>

fun getint :: "int \<Rightarrow> bytes \<Rightarrow> int \<times> bytes" where
  "getint i [] = (i, [])"
| "getint i (c # s) =
     (if isdigit c
      then getint (if i < 0 \<or> INT_MAX div 10 < i \<or> INT_MAX - 10 * i < int (digit c) then - 1 else 10 * i + int (digit c)) s
      else (i, c # s))"

fun read_flags :: "uint32_t \<Rightarrow> bytes \<Rightarrow> uint32_t \<times> bytes" where
  "read_flags fl [] = (fl, [])"
| "read_flags fl (c # s) =
     (if c - 32 < 32 \<and> FLAGMASK AND push_bit (unat (c - 32)) 1 \<noteq> 0
      then read_flags (fl OR push_bit (unat (c - 32)) 1) s else (fl, c # s))"

text \<open>The loop over the state table: the new state, the previous one, the last character and the rest.\<close>

fun scan :: "fmt_state \<Rightarrow> bytes \<Rightarrow> (fmt_state \<times> fmt_state \<times> uint8_t \<times> bytes) option" where
  "scan st [] = None"
| "scan st (c # s) =
     (if OOB c then None
      else let st1 = states st c in if is_prefix st1 then scan st1 s else Some (st1, st, c, s))"

fun percents :: "bytes \<Rightarrow> nat" where
  "percents (a # b # s) = (if a = 37 \<and> b = 37 then Suc (percents s) else 0)"
| "percents _ = 0"

text \<open>Literal text and the first of each pair of percent signs.\<close>

definition literal :: "bytes \<Rightarrow> bytes \<times> bytes" where
  "literal s = (let r = dropWhile (\<lambda>c. c \<noteq> 37) s; n = percents r in (takeWhile (\<lambda>c. c \<noteq> 37) s @ take n r, drop (2 * n) r))"

section \<open>One conversion\<close>

text \<open>The variables that outlive an iteration of the loop of \<^verbatim>\<open>printf_core\<close>, other than the stream, the count
  and the position. An iteration goes on, or ends the function with a result and possibly an error
  number.\<close>

record 'd pst =
  p_mem :: mem
  p_ap :: "'d va_list"
  p_nl_type :: "fmt_state list"
  p_nl_arg :: "'d arg list"
  p_l10n :: bool
  p_errno :: int

datatype ('a, 's) step = Go 'a 's | Stop int "int option" 's

definition step_bind :: "('a, 's) step option \<Rightarrow> ('a \<Rightarrow> 's \<Rightarrow> ('b, 's) step option) \<Rightarrow> ('b, 's) step option" where
  "step_bind m k = (case m of None \<Rightarrow> None | Some (Go a s) \<Rightarrow> k a s | Some (Stop r e s) \<Rightarrow> Some (Stop r e s))"

definition EINVAL :: int where "EINVAL = 22"
definition EOVERFLOW :: int where "EOVERFLOW = 75"
definition EILSEQ :: int where "EILSEQ = 84"

abbreviation inval :: "'s \<Rightarrow> ('a, 's) step option" where
  "inval st \<equiv> Some (Stop (- 1) (Some EINVAL) st)"

abbreviation overflowed :: "'s \<Rightarrow> ('a, 's) step option" where
  "overflowed st \<equiv> Some (Stop (- 1) (Some EOVERFLOW) st)"

text \<open>A positional argument for a width or a precision.\<close>

definition nl_int :: "nat \<Rightarrow> 'd pst \<Rightarrow> (int \<times> 'd pst) option" where
  "nl_int k st = do {
     i \<leftarrow> arg_i (p_nl_arg st ! k);
     Some (to_int i, st\<lparr>p_nl_type := (p_nl_type st)[k := T_INT]\<rparr>)
   }"

text \<open>\<^verbatim>\<open>w = f ? va_arg(*ap, int) : 0\<close>.\<close>

definition next_int :: "bool \<Rightarrow> 'd pst \<Rightarrow> (int \<times> 'd pst) option" where
  "next_int f st = (if f then do { (i, ap) \<leftarrow> va_int (p_ap st); Some (i, st\<lparr>p_ap := ap\<rparr>) } else Some (0, st))"

definition negate :: "int \<Rightarrow> int" where
  "negate w = sint (- (of_int w) :: 32 word)"

definition adjust_width :: "uint32_t \<Rightarrow> int \<Rightarrow> int \<times> uint32_t" where
  "adjust_width fl w = (if w < 0 then (negate w, fl OR LEFT_ADJ) else (w, fl))"

definition read_width :: "bool \<Rightarrow> uint32_t \<Rightarrow> bytes \<Rightarrow> 'd pst \<Rightarrow> (int \<times> uint32_t \<times> bytes, 'd pst) step option" where
  "read_width f fl s st =
     (if peek 0 s = 42 then
        if isdigit (peek 1 s) \<and> peek 2 s = 36 then do {
          (w, st1) \<leftarrow> nl_int (digit (peek 1 s)) (st\<lparr>p_l10n := True\<rparr>);
          let (w1, fl1) = adjust_width fl w;
          Some (Go (w1, fl1, drop 3 s) st1)
        } else if \<not> p_l10n st then do {
          (w, st1) \<leftarrow> next_int f st;
          let (w1, fl1) = adjust_width fl w;
          Some (Go (w1, fl1, drop 1 s) st1)
        } else inval st
      else let (w, s1) = getint 0 s in if w < 0 then overflowed st else Some (Go (w, fl, s1) st))"

definition read_precision :: "bool \<Rightarrow> bytes \<Rightarrow> 'd pst \<Rightarrow> (int \<times> bool \<times> bytes, 'd pst) step option" where
  "read_precision f s st =
     (if peek 0 s = 46 \<and> peek 1 s = 42 then
        if isdigit (peek 2 s) \<and> peek 3 s = 36 then do {
          (p, st1) \<leftarrow> nl_int (digit (peek 2 s)) st;
          Some (Go (p, 0 \<le> p, drop 4 s) st1)
        } else if \<not> p_l10n st then do {
          (p, st1) \<leftarrow> next_int f st;
          Some (Go (p, 0 \<le> p, drop 2 s) st1)
        } else inval st
      else if peek 0 s = 46 then let (p, s1) = getint 0 (drop 1 s) in Some (Go (p, True, s1) st)
      else Some (Go (- 1, False, s) st))"

text \<open>The argument of the conversion. In the first pass, without positional arguments, there is nothing
  to do and \<^verbatim>\<open>printf_core\<close> returns 0.\<close>

definition fetch_arg :: "bool \<Rightarrow> int \<Rightarrow> fmt_state \<Rightarrow> 'd pst \<Rightarrow> ('d arg, 'd pst) step option" where
  "fetch_arg f argpos ty st =
     (if ty = T_NOARG then if 0 \<le> argpos then inval st else Some (Go (A_word 0) st)
      else if 0 \<le> argpos then
        Some (Go (p_nl_arg st ! nat argpos) (st\<lparr>p_nl_type := (p_nl_type st)[nat argpos := ty]\<rparr>))
      else if f then do { (a, ap) \<leftarrow> pop_arg (A_word 0) ty (p_ap st); Some (Go a (st\<lparr>p_ap := ap\<rparr>)) }
      else Some (Stop 0 None st))"

text \<open>The stores of \<^verbatim>\<open>%n\<close>: the size of the object by the length modifier.\<close>

fun store_le :: "mem \<Rightarrow> addr \<Rightarrow> nat \<Rightarrow> 64 word \<Rightarrow> mem option" where
  "store_le m p 0 v = Some m"
| "store_le m p (Suc n) v = do { m1 \<leftarrow> store m p (ucast v); store_le m1 (p + 1) n (drop_bit 8 v) }"

definition count_size :: "fmt_state \<Rightarrow> nat" where
  "count_size ps = (case ps of BARE \<Rightarrow> 4 | LPRE \<Rightarrow> 8 | LLPRE \<Rightarrow> 8 | HPRE \<Rightarrow> 2 | HHPRE \<Rightarrow> 1 | ZTPRE \<Rightarrow> 8 | JPRE \<Rightarrow> 8 | _ \<Rightarrow> 0)"

text \<open>What the switch leaves behind for the common part: the flags, the precision, the sign or prefix, and
  the text.\<close>

record conversion =
  cv_fl :: uint32_t
  cv_p :: int
  cv_prefix :: bytes
  cv_text :: bytes

definition prefix_chars :: bytes where
  "prefix_chars = map of_char ''-+   0X0x''"

definition finish_int :: "uint32_t \<Rightarrow> int \<Rightarrow> bool \<Rightarrow> 64 word \<Rightarrow> bytes \<Rightarrow> bytes \<Rightarrow> 'd pst \<Rightarrow> (conversion, 'd pst) step option" where
  "finish_int fl p xp i prefix a st =
     (if xp \<and> p < 0 then overflowed st
      else let fl1 = (if xp then fl AND NOT ZERO_PAD else fl) in
        if i = 0 \<and> p = 0 then Some (Go \<lparr>cv_fl = fl1, cv_p = p, cv_prefix = prefix, cv_text = []\<rparr> st)
        else Some (Go \<lparr>cv_fl = fl1, cv_p = max p (int (length a) + (if i = 0 then 1 else 0)), cv_prefix = prefix, cv_text = a\<rparr> st))"

definition conv_x :: "uint8_t \<Rightarrow> uint32_t \<Rightarrow> int \<Rightarrow> bool \<Rightarrow> 64 word \<Rightarrow> 'd pst \<Rightarrow> (conversion, 'd pst) step option" where
  "conv_x t fl p xp i st =
     finish_int fl p xp i (if i \<noteq> 0 \<and> fl AND ALT_FORM \<noteq> 0 then take 2 (drop (unat (drop_bit 4 t)) prefix_chars) else [])
       (fmt_x i (t AND 32) []) st"

definition conv_o :: "uint32_t \<Rightarrow> int \<Rightarrow> bool \<Rightarrow> 64 word \<Rightarrow> 'd pst \<Rightarrow> (conversion, 'd pst) step option" where
  "conv_o fl p xp i st =
     (let a = fmt_o i [];
          p1 = (if fl AND ALT_FORM \<noteq> 0 \<and> p < int (length a) + 1 then int (length a) + 1 else p)
      in finish_int fl p1 xp i [] a st)"

definition INTMAX_MAX :: "64 word" where "INTMAX_MAX = 0x7fffffffffffffff"

definition conv_d :: "uint32_t \<Rightarrow> int \<Rightarrow> bool \<Rightarrow> 64 word \<Rightarrow> 'd pst \<Rightarrow> (conversion, 'd pst) step option" where
  "conv_d fl p xp i st =
     (if INTMAX_MAX < i then finish_int fl p xp (- i) (take 1 prefix_chars) (fmt_u (- i) []) st
      else finish_int fl p xp i
        (if fl AND MARK_POS \<noteq> 0 then take 1 (drop 1 prefix_chars) else if fl AND PAD_POS \<noteq> 0 then take 1 (drop 2 prefix_chars) else [])
        (fmt_u i []) st)"

text \<open>A string from memory, up to the precision; a null pointer is printed as \<^verbatim>\<open>(null)\<close>.\<close>

definition conv_s :: "uint32_t \<Rightarrow> int \<Rightarrow> addr \<Rightarrow> 'd pst \<Rightarrow> (conversion, 'd pst) step option" where
  "conv_s fl p a st =
     (if a = 0 then let z = (if p < 0 then map of_char ''(null)'' else take (nat p) (map of_char ''(null)'')) in
        Some (Go \<lparr>cv_fl = fl AND NOT ZERO_PAD, cv_p = int (length z), cv_prefix = [], cv_text = z\<rparr> st)
      else do {
        n \<leftarrow> libc_strnlen (p_mem st) a (of_int (if p < 0 then INT_MAX else p));
        over \<leftarrow> (if p < 0 then do { z \<leftarrow> load (p_mem st) (a + n); Some (z \<noteq> 0) } else Some False);
        if over then overflowed st
        else do {
          z \<leftarrow> load_bytes (p_mem st) a (unat n);
          Some (Go \<lparr>cv_fl = fl AND NOT ZERO_PAD, cv_p = int (length z), cv_prefix = [], cv_text = z\<rparr> st)
        }
      })"

text \<open>The common part: the pieces of padding, prefix, zeros and text, and the length of the field.\<close>

definition field :: "int \<Rightarrow> int \<Rightarrow> conversion \<Rightarrow> 'd pst \<Rightarrow> (bytes list \<times> int, 'd pst) step option" where
  "field cnt w cv st =
     (let n = int (length (cv_text cv)); pl = int (length (cv_prefix cv));
          p = max (cv_p cv) n; fl = cv_fl cv in
      if INT_MAX - pl < p then overflowed st
      else let w1 = max w (pl + p) in
        if INT_MAX - cnt < w1 then overflowed st
        else Some (Go (pad 32 w1 (pl + p) fl @ [cv_prefix cv] @ pad 48 w1 (pl + p) (fl XOR ZERO_PAD) @ pad 48 p n 0 @
                       [cv_text cv] @ pad 32 w1 (pl + p) (fl XOR LEFT_ADJ), w1) st))"

section \<open>Wide characters\<close>

definition IS_CODEUNIT :: "32 word \<Rightarrow> bool" where
  "IS_CODEUNIT c \<longleftrightarrow> c - 0xdf80 < 0x80"

definition wcrtomb :: "bool \<Rightarrow> 32 word \<Rightarrow> bytes option" where
  "wcrtomb utf8 wc =
     (let low = (\<lambda>x. ucast (0x80 OR (x AND 0x3f)) :: uint8_t) in
      if wc < 0x80 then Some [ucast wc]
      else if \<not> utf8 then if \<not> IS_CODEUNIT wc then None else Some [ucast wc]
      else if wc < 0x800 then Some [ucast (0xc0 OR drop_bit 6 wc), low wc]
      else if wc < 0xd800 \<or> wc - 0xe000 < 0x2000 then Some [ucast (0xe0 OR drop_bit 12 wc), low (drop_bit 6 wc), low wc]
      else if wc - 0x10000 < 0x100000 then
        Some [ucast (0xf0 OR drop_bit 18 wc), low (drop_bit 12 wc), low (drop_bit 6 wc), low wc]
      else None)"

lemma wcrtomb_length: "wcrtomb utf8 wc = Some bs \<Longrightarrow> 1 \<le> length bs \<and> length bs \<le> 4"
  by (auto simp: wcrtomb_def Let_def split: if_splits)

text \<open>A wide string is read by its index: from memory, or from the two characters that \<^verbatim>\<open>%C\<close> makes.\<close>

type_synonym wide = "nat \<Rightarrow> 32 word option"

definition wide_mem :: "mem \<Rightarrow> addr \<Rightarrow> wide" where
  "wide_mem m p k = do { bs \<leftarrow> load_bytes m (p + 4 * of_nat k) 4; Some (ucast (le_word bs)) }"

definition wide_char :: "64 word \<Rightarrow> wide" where
  "wide_char i k = Some (if k = 0 then ucast i else 0)"

text \<open>The first loop measures how many bytes fit into \<open>P\<close>, the second one writes them.\<close>

function wide_measure :: "bool \<Rightarrow> wide \<Rightarrow> nat \<Rightarrow> nat \<Rightarrow> nat \<Rightarrow> nat option option" where
  "wide_measure utf8 ws P k i =
     (if P \<le> i then Some (Some i)
      else do {
        wc \<leftarrow> ws k;
        if wc = 0 then Some (Some i)
        else case wcrtomb utf8 wc of
            None \<Rightarrow> Some None
          | Some mb \<Rightarrow> if length mb \<le> P - i then wide_measure utf8 ws P (Suc k) (i + length mb) else Some (Some i)
      })"
  by pat_completeness auto
termination
  by (relation "measure (\<lambda>(_, _, P, _, i). P - i)") (auto dest!: wcrtomb_length)

function wide_pieces :: "bool \<Rightarrow> wide \<Rightarrow> nat \<Rightarrow> nat \<Rightarrow> nat \<Rightarrow> bytes list option" where
  "wide_pieces utf8 ws P k i =
     (if P \<le> i then Some []
      else do {
        wc \<leftarrow> ws k;
        if wc = 0 then Some []
        else case wcrtomb utf8 wc of
            None \<Rightarrow> None
          | Some mb \<Rightarrow> if i + length mb \<le> P
              then do { r \<leftarrow> wide_pieces utf8 ws P (Suc k) (i + length mb); Some (mb # r) } else Some []
      })"
  by pat_completeness auto
termination
  by (relation "measure (\<lambda>(_, _, P, _, i). P - i)") (auto dest!: wcrtomb_length)

declare wide_measure.simps [simp del] wide_pieces.simps [simp del]

definition conv_wide :: "bool \<Rightarrow> uint32_t \<Rightarrow> int \<Rightarrow> int \<Rightarrow> wide \<Rightarrow> 'd pst \<Rightarrow> (bytes list \<times> int, 'd pst) step option" where
  "conv_wide utf8 fl w p ws st = do {
     r \<leftarrow> wide_measure utf8 ws (nat (if p < 0 then 2 ^ 64 + p else p)) 0 0;
     case r of
       None \<Rightarrow> Some (Stop (- 1) (Some EILSEQ) st)
     | Some i \<Rightarrow>
         if INT_MAX < int i then overflowed st
         else do {
           pieces \<leftarrow> wide_pieces utf8 ws i 0 0;
           Some (Go (pad 32 w (int i) fl @ pieces @ pad 32 w (int i) (fl XOR LEFT_ADJ), max w (int i)) st)
         }
   }"

section \<open>The loop\<close>

record 'd penv =
  e_fmt_fp :: "'d \<Rightarrow> int \<Rightarrow> int \<Rightarrow> uint32_t \<Rightarrow> uint8_t \<Rightarrow> int \<times> bytes list"
  e_strerror :: "int \<Rightarrow> addr"
  e_utf8 :: bool

definition lift_arg :: "'a option \<Rightarrow> ('a \<Rightarrow> ('b, 's) step option) \<Rightarrow> ('b, 's) step option" where
  "lift_arg a k = (case a of None \<Rightarrow> None | Some x \<Rightarrow> k x)"

text \<open>The switch over the conversion character.\<close>

definition convert ::
  "'d penv \<Rightarrow> int \<Rightarrow> uint32_t \<Rightarrow> int \<Rightarrow> int \<Rightarrow> bool \<Rightarrow> fmt_state \<Rightarrow> uint8_t \<Rightarrow> 'd arg \<Rightarrow> 'd pst \<Rightarrow> (bytes list \<times> int, 'd pst) step option" where
  "convert env cnt fl0 w p xp ps t0 arg st =
     (let t = (if ps \<noteq> BARE \<and> t0 AND 15 = 3 then t0 AND NOT 32 else t0);
          fl = (if fl0 AND LEFT_ADJ \<noteq> 0 then fl0 AND NOT ZERO_PAD else fl0) in
      if t = chr CHR ''n'' then do {
        a \<leftarrow> arg_i arg;
        m \<leftarrow> store_le (p_mem st) a (count_size ps) (of_int cnt);
        Some (Go ([], 0) (st\<lparr>p_mem := m\<rparr>))
      }
      else if t = chr CHR ''p'' then
        lift_arg (arg_i arg) (\<lambda>i. step_bind (conv_x (chr CHR ''x'') (fl OR ALT_FORM) (max p 16) xp i st) (field cnt w))
      else if among t ''xX'' then lift_arg (arg_i arg) (\<lambda>i. step_bind (conv_x t fl p xp i st) (field cnt w))
      else if t = chr CHR ''o'' then lift_arg (arg_i arg) (\<lambda>i. step_bind (conv_o fl p xp i st) (field cnt w))
      else if among t ''di'' then lift_arg (arg_i arg) (\<lambda>i. step_bind (conv_d fl p xp i st) (field cnt w))
      else if t = chr CHR ''u'' then
        lift_arg (arg_i arg) (\<lambda>i. step_bind (finish_int fl p xp i [] (fmt_u i []) st) (field cnt w))
      else if t = chr CHR ''c'' then
        lift_arg (arg_i arg) (\<lambda>i. field cnt w \<lparr>cv_fl = fl AND NOT ZERO_PAD, cv_p = 1, cv_prefix = [], cv_text = [ucast i]\<rparr> st)
      else if t = chr CHR ''m'' then step_bind (conv_s fl p (e_strerror env (p_errno st)) st) (field cnt w)
      else if t = chr CHR ''s'' then lift_arg (arg_i arg) (\<lambda>i. step_bind (conv_s fl p i st) (field cnt w))
      else if t = chr CHR ''C'' then lift_arg (arg_i arg) (\<lambda>i. conv_wide (e_utf8 env) fl w (- 1) (wide_char i) st)
      else if t = chr CHR ''S'' then lift_arg (arg_i arg) (\<lambda>i. conv_wide (e_utf8 env) fl w p (wide_mem (p_mem st) i) st)
      else if among t ''efgaEFGA'' then
        if xp \<and> p < 0 then overflowed st
        else lift_arg (arg_f arg) (\<lambda>x. let (l, pieces) = e_fmt_fp env x w p fl t in
               if l < 0 then overflowed st else Some (Go (pieces, l) st))
      else None)"

text \<open>A conversion specification: position of the argument (or -1), flags, width, precision and whether it
  was given, the type of the argument, the state before the last character, and that character.\<close>

record spec =
  sp_argpos :: int
  sp_fl :: uint32_t
  sp_w :: int
  sp_p :: int
  sp_xp :: bool
  sp_ty :: fmt_state
  sp_ps :: fmt_state
  sp_t :: uint8_t

definition read_spec :: "bool \<Rightarrow> bytes \<Rightarrow> 'd pst \<Rightarrow> (spec \<times> bytes, 'd pst) step option" where
  "read_spec f s st =
     (let (argpos, s1, st1) = (if isdigit (peek 1 s) \<and> peek 2 s = 36
            then (int (digit (peek 1 s)), drop 3 s, st\<lparr>p_l10n := True\<rparr>) else (- 1, drop 1 s, st));
          (fl, s2) = read_flags 0 s1 in
      step_bind (read_width f fl s2 st1) (\<lambda>(w, fl1, s3) st2.
      step_bind (read_precision f s3 st2) (\<lambda>(p, xp, s4) st3.
      case scan BARE s4 of
        None \<Rightarrow> inval st3
      | Some (ty, ps, t, s5) \<Rightarrow>
          if ty = BARE then inval st3
          else Some (Go (\<lparr>sp_argpos = argpos, sp_fl = fl1, sp_w = w, sp_p = p, sp_xp = xp, sp_ty = ty, sp_ps = ps, sp_t = t\<rparr>, s5) st3))))"

text \<open>The part of an iteration behind the literal text. The result has the pieces, the length and the rest of
  the format.\<close>

definition directive :: "'d penv \<Rightarrow> bool \<Rightarrow> int \<Rightarrow> bytes \<Rightarrow> 'd pst \<Rightarrow> (bytes list \<times> int \<times> bytes, 'd pst) step option" where
  "directive env f cnt s st =
     step_bind (read_spec f s st) (\<lambda>(sp, s1) st1.
     step_bind (fetch_arg f (sp_argpos sp) (sp_ty sp) st1) (\<lambda>arg st2.
       if \<not> f then Some (Go ([], 0, s1) st2)
       else step_bind (convert env cnt (sp_fl sp) (sp_w sp) (sp_p sp) (sp_xp sp) (sp_ps sp) (sp_t sp) arg st2)
              (\<lambda>(pieces, l) st3. Some (Go (pieces, l, s1) st3))))"

definition iteration :: "'d penv \<Rightarrow> bool \<Rightarrow> int \<Rightarrow> bytes \<Rightarrow> 'd pst \<Rightarrow> (bytes list \<times> int \<times> bytes, 'd pst) step option" where
  "iteration env f cnt s st =
     (let (txt, s1) = literal s in
      if INT_MAX - cnt < int (length txt) then overflowed st
      else if txt \<noteq> [] then Some (Go ([txt], int (length txt), s1) st)
      else step_bind (directive env f cnt s1 st) (\<lambda>(pieces, l, s2) st1. Some (Go (txt # pieces, l, s2) st1)))"

text \<open>Every iteration consumes a part of the format.\<close>

lemma getint_length: "length (snd (getint i s)) \<le> length s"
  by (induction i s rule: getint.induct) auto

lemma read_flags_length: "length (snd (read_flags fl s)) \<le> length s"
  by (induction fl s rule: read_flags.induct) auto

lemma scan_length: "scan st s = Some (ty, ps, t, s') \<Longrightarrow> length s' < length s"
  by (induction st s rule: scan.induct) (auto simp: Let_def split: if_splits)

lemma step_bind_Go:
  "step_bind m k = Some (Go b s') \<longleftrightarrow> (\<exists>a s. m = Some (Go a s) \<and> k a s = Some (Go b s'))"
  by (auto simp: step_bind_def split: option.splits step.splits)

lemma read_width_length: "read_width f fl s st = Some (Go (w, fl', s') st') \<Longrightarrow> length s' \<le> length s"
  using getint_length [of 0 s]
  by (auto simp: read_width_def Let_def split: if_splits prod.splits Option.bind_splits)

lemma read_precision_length: "read_precision f s st = Some (Go (p, xp, s') st') \<Longrightarrow> length s' \<le> length s"
  using getint_length [of 0 "drop 1 s"]
  by (auto simp: read_precision_def Let_def split: if_splits prod.splits Option.bind_splits)

text \<open>The parts of a specification that was read.\<close>

lemma read_spec_parts:
  assumes "read_spec f s st = Some (Go (sp, s') st')"
  defines "s2 \<equiv> snd (read_flags 0 (if isdigit (peek 1 s) \<and> peek 2 s = 36 then drop 3 s else drop 1 s))"
  shows "\<exists>fl st1 w fl1 s3 st2 p xp s4. read_width f fl s2 st1 = Some (Go (w, fl1, s3) st2) \<and>
    read_precision f s3 st2 = Some (Go (p, xp, s4) st') \<and> scan BARE s4 = Some (sp_ty sp, sp_ps sp, sp_t sp, s') \<and> sp_ty sp \<noteq> BARE"
proof -
  let ?pos = "isdigit (peek 1 s) \<and> peek 2 s = 36"
  define s1 where "s1 = (if ?pos then drop 3 s else drop 1 s)"
  define st1 where "st1 = (if ?pos then st\<lparr>p_l10n := True\<rparr> else st)"
  define ap where "ap = (if ?pos then int (digit (peek 1 s)) else - 1)"
  obtain fl where fl: "read_flags 0 s1 = (fl, s2)" by (cases "read_flags 0 s1") (simp add: s2_def s1_def)
  have pos: "(if ?pos then (int (digit (peek 1 s)), drop 3 s, st\<lparr>p_l10n := True\<rparr>) else (- 1, drop 1 s, st)) = (ap, s1, st1)"
    by (simp add: ap_def s1_def st1_def)
  from assms(1) obtain w fl1 s3 st2 where w: "read_width f fl s2 st1 = Some (Go (w, fl1, s3) st2)" and
    r1: "step_bind (read_precision f s3 st2) (\<lambda>(p, xp, s4) st3. case scan BARE s4 of None \<Rightarrow> inval st3 | Some (ty, ps, t, s5) \<Rightarrow>
        if ty = BARE then inval st3 else Some (Go (\<lparr>sp_argpos = ap, sp_fl = fl1, sp_w = w, sp_p = p, sp_xp = xp, sp_ty = ty, sp_ps = ps, sp_t = t\<rparr>, s5) st3))
      = Some (Go (sp, s') st')"
    unfolding read_spec_def pos Let_def prod.case fl by (auto simp: step_bind_Go [of "read_width f fl s2 st1"])
  from r1 obtain p xp s4 st3 where p: "read_precision f s3 st2 = Some (Go (p, xp, s4) st3)" and
    r2: "(case scan BARE s4 of None \<Rightarrow> inval st3 | Some (ty, ps, t, s5) \<Rightarrow>
        if ty = BARE then inval st3 else Some (Go (\<lparr>sp_argpos = ap, sp_fl = fl1, sp_w = w, sp_p = p, sp_xp = xp, sp_ty = ty, sp_ps = ps, sp_t = t\<rparr>, s5) st3))
      = Some (Go (sp, s') st')" by (auto simp: step_bind_Go)
  then obtain ty ps t s5 where sc: "scan BARE s4 = Some (ty, ps, t, s5)" by (cases "scan BARE s4") auto
  with r2 have e: "sp = \<lparr>sp_argpos = ap, sp_fl = fl1, sp_w = w, sp_p = p, sp_xp = xp, sp_ty = ty, sp_ps = ps, sp_t = t\<rparr>" "s5 = s'" "st3 = st'" "ty \<noteq> BARE"
    by (auto split: if_splits)
  show ?thesis unfolding e(1) spec.simps using w p [unfolded e(3)] sc [unfolded e(2)] e(4) by blast
qed

lemma directive_length:
  assumes "directive env f cnt s st = Some (Go (pieces, l, s') st')"
  shows "length s' < length s"
proof -
  from assms obtain sp st1 where r: "read_spec f s st = Some (Go (sp, s') st1)"
    by (auto simp: directive_def step_bind_Go split: if_splits)
  define s1 where "s1 = (if isdigit (peek 1 s) \<and> peek 2 s = 36 then drop 3 s else drop 1 s)"
  have "length (snd (read_flags 0 s1)) \<le> length s1" by (rule read_flags_length)
  also have "length s1 \<le> length s" by (simp add: s1_def)
  finally show ?thesis
    using read_spec_parts [OF r, folded s1_def] by (fastforce dest!: read_width_length read_precision_length scan_length)
qed

lemma percents_length: "2 * percents s \<le> length s"
  by (induction s rule: percents.induct) auto

lemma literal_length: "literal s = (txt, s') \<Longrightarrow> length s' + length txt \<le> length s"
proof -
  assume a: "literal s = (txt, s')"
  let ?r = "dropWhile (\<lambda>c. c \<noteq> 37) s"
  have "length s = length (takeWhile (\<lambda>c. c \<noteq> 37) s) + length ?r" by (metis length_append takeWhile_dropWhile_id)
  then show ?thesis using a percents_length [of ?r] by (auto simp: literal_def Let_def)
qed

lemma iteration_length:
  assumes "iteration env f cnt s st = Some (Go (pieces, l, s') st')"
  shows "length s' < length s"
proof -
  obtain lit s1 where t: "literal s = (lit, s1)" by (cases "literal s")
  note len = literal_length [OF t]
  show ?thesis
  proof (cases "lit = []")
    case True
    with assms t obtain pieces' st1 where "directive env f cnt s1 st = Some (Go (pieces', l, s') st1)"
      by (auto simp: iteration_def step_bind_Go split: if_splits)
    from directive_length [OF this] len show ?thesis by simp
  next
    case False
    then have "s' = s1" using assms t by (auto simp: iteration_def split: if_splits)
    moreover have "0 < length lit" using False by simp
    then have "length s1 < length s" using len by linarith
    ultimately show ?thesis by simp
  qed
qed

text \<open>The calls of \<^verbatim>\<open>out\<close>, on a stream of any type.\<close>

fun emit :: "(bytes \<Rightarrow> 'f \<Rightarrow> 'f option) \<Rightarrow> bytes list \<Rightarrow> 'f option \<Rightarrow> 'f option option" where
  "emit put ps None = Some None"
| "emit put [] (Some f) = Some (Some f)"
| "emit put (p # ps) (Some f) = do { f1 \<leftarrow> put p f; emit put ps (Some f1) }"

text \<open>The loop. The stream is \<open>None\<close> in the first pass.\<close>

function printf_loop :: "(bytes \<Rightarrow> 'f \<Rightarrow> 'f option) \<Rightarrow> 'd penv \<Rightarrow> 'f option \<Rightarrow> 'd pst \<Rightarrow> int \<Rightarrow> int \<Rightarrow> bytes
    \<Rightarrow> ((int, 'd pst) step \<times> 'f option) option" where
  "printf_loop put env f st cnt l s =
     (if INT_MAX - cnt < l then Some (Stop (- 1) (Some EOVERFLOW) st, f)
      else if s = [] then Some (Go (cnt + l) st, f)
      else case iteration env (f \<noteq> None) (cnt + l) s st of
          None \<Rightarrow> None
        | Some (Stop r e st1) \<Rightarrow> Some (Stop r e st1, f)
        | Some (Go (pieces, l1, s1) st1) \<Rightarrow> do {
            f1 \<leftarrow> emit put pieces f;
            printf_loop put env f1 st1 (cnt + l) l1 s1
          })"
  by pat_completeness auto
termination
  by (relation "measure (\<lambda>(_, _, _, _, _, _, s). length s)") (auto dest: iteration_length)

declare printf_loop.simps [simp del]

text \<open>The end of the first pass: the positional arguments are fetched in their order, and there must be no
  gap.\<close>

fun pop_positional :: "nat list \<Rightarrow> 'd pst \<Rightarrow> (nat list \<times> 'd pst) option" where
  "pop_positional [] st = Some ([], st)"
| "pop_positional (i # is) st =
     (if p_nl_type st ! i = BARE then Some (i # is, st)
      else do {
        (a, ap) \<leftarrow> pop_arg (p_nl_arg st ! i) (p_nl_type st ! i) (p_ap st);
        pop_positional is (st\<lparr>p_nl_arg := (p_nl_arg st)[i := a], p_ap := ap\<rparr>)
      })"

definition NL_ARGMAX :: nat where "NL_ARGMAX = 9"

definition set_errno :: "int option \<Rightarrow> 'd pst \<Rightarrow> 'd pst" where
  "set_errno e st = (case e of None \<Rightarrow> st | Some x \<Rightarrow> st\<lparr>p_errno := x\<rparr>)"

definition printf_core :: "(bytes \<Rightarrow> 'f \<Rightarrow> 'f option) \<Rightarrow> 'd penv \<Rightarrow> 'f option \<Rightarrow> bytes \<Rightarrow> 'd pst \<Rightarrow> (int \<times> 'd pst \<times> 'f option) option" where
  "printf_core put env f fmt st0 = do {
     (r, f1) \<leftarrow> printf_loop put env f (st0\<lparr>p_l10n := False\<rparr>) 0 0 fmt;
     case r of
       Stop ret e st \<Rightarrow> Some (ret, set_errno e st, f1)
     | Go cnt st \<Rightarrow>
         if f1 \<noteq> None then Some (cnt, st, f1)
         else if \<not> p_l10n st then Some (0, st, f1)
         else do {
           (rest, st1) \<leftarrow> pop_positional [1..<Suc NL_ARGMAX] st;
           if list_ex (\<lambda>i. p_nl_type st1 ! i \<noteq> BARE) rest then Some (- 1, set_errno (Some EINVAL) st1, f1)
           else Some (1, st1, f1)
         }
   }"

section \<open>Streams\<close>

definition out :: "bytes \<Rightarrow> FILE \<times> device \<Rightarrow> (FILE \<times> device) option" where
  "out s fd = (case fd of (f, d) \<Rightarrow>
     if f_flags f AND F_ERR = 0 then do { (_, f1, d1) \<leftarrow> fwritex s f d; Some (f1, d1) } else Some (f, d))"

text \<open>A stream without a buffer writes through \<^verbatim>\<open>internal_buf\<close> during the call.\<close>

definition with_buffer :: "FILE \<Rightarrow> FILE" where
  "with_buffer f = (if f_buf_size f = 0
     then f\<lparr>f_mem := replicate 80 0, f_buf := 0, f_buf_size := 80, f_wpos := None, f_wbase := None, f_wend := None\<rparr> else f)"

definition restore_buffer :: "FILE \<Rightarrow> FILE \<Rightarrow> device \<Rightarrow> int \<Rightarrow> (int \<times> FILE \<times> device) option" where
  "restore_buffer saved f d ret =
     (if f_buf_size saved = 0 then do {
        (_, f1, d1) \<leftarrow> call_write [] f d;
        Some (if f_wpos f1 = None then - 1 else ret,
              f1\<lparr>f_mem := f_mem saved, f_buf := f_buf saved, f_buf_size := 0, f_wpos := None, f_wbase := None, f_wend := None\<rparr>, d1)
      } else Some (ret, f, d))"

definition vfprintf :: "'d penv \<Rightarrow> bytes \<Rightarrow> 'd pst \<Rightarrow> FILE \<Rightarrow> device \<Rightarrow> (int \<times> 'd pst \<times> FILE \<times> device) option" where
  "vfprintf env fmt st0 f d = do {
     (r0, st1, _) \<leftarrow> printf_core out env None fmt (st0\<lparr>p_nl_type := replicate (Suc NL_ARGMAX) BARE\<rparr>);
     if r0 < 0 then Some (- 1, st1, f, d)
     else do {
       let olderr = f_flags f AND F_ERR;
       let f1 = (if f_mode f < 1 then f\<lparr>f_flags := f_flags f AND NOT F_ERR\<rparr> else f);
       let f2 = with_buffer f1;
       let (r1, f3) = (if f_wend f2 = None then towrite f2 else (0, f2));
       (ret, st2, fd) \<leftarrow> (if r1 \<noteq> 0 then Some (- 1, st1, Some (f3, d)) else printf_core out env (Some (f3, d)) fmt st1);
       (f4, d4) \<leftarrow> fd;
       (ret1, f5, d5) \<leftarrow> restore_buffer f f4 d4 ret;
       let ret2 = (if f_flags f5 AND F_ERR \<noteq> 0 then - 1 else ret1);
       Some (ret2, st2, f5\<lparr>f_flags := f_flags f5 OR olderr\<rparr>, d5)
     }
   }"

text \<open>\<^verbatim>\<open>vsnprintf\<close> gets the array at \<open>s\<close> and the size \<open>n\<close>, which need not be the size of the array; a store outside
  the array fails. For \<open>n = 0\<close> the one byte \<^verbatim>\<open>dummy\<close> is written.\<close>

definition string_FILE :: "cookie \<Rightarrow> FILE" where
  "string_FILE c = \<lparr>f_flags = 0, f_rpos = None, f_rend = None, f_wend = None, f_wpos = None, f_wbase = None,
     f_read = No_read, f_write = Sn_write, f_mem = [0], f_buf = 0, f_buf_size = 0, f_mode = 0, f_lbf = EOF, f_cookie = c\<rparr>"

definition vsnprintf :: "'d penv \<Rightarrow> bytes \<Rightarrow> nat \<Rightarrow> bytes \<Rightarrow> 'd pst \<Rightarrow> device \<Rightarrow> (int \<times> bytes \<times> 'd pst) option" where
  "vsnprintf env s n fmt st d =
     (if INT_MAX < int n then Some (- 1, s, st\<lparr>p_errno := EOVERFLOW\<rparr>)
      else do {
        a \<leftarrow> splice 0 [0] (if n \<noteq> 0 then s else [0]);
        (r, st1, f, _) \<leftarrow> vfprintf env fmt st (string_FILE \<lparr>c_array = a, c_s = 0, c_n = n - 1\<rparr>) d;
        Some (r, if n \<noteq> 0 then c_array (f_cookie f) else s, st1)
      })"

definition vsprintf :: "'d penv \<Rightarrow> bytes \<Rightarrow> bytes \<Rightarrow> 'd pst \<Rightarrow> device \<Rightarrow> (int \<times> bytes \<times> 'd pst) option" where
  "vsprintf env s fmt st d = vsnprintf env s (nat INT_MAX) fmt st d"

section \<open>Sinks\<close>

text \<open>A sink is a type of streams on which writing a piece appends it to a text. Formatting into any sink
  does what formatting into a list of bytes does.\<close>

definition append_put :: "bytes \<Rightarrow> bytes \<Rightarrow> bytes option" where
  "append_put bs t = Some (t @ bs)"

lemma emit_Some: "emit put ps (Some f) = Some f' \<Longrightarrow> f' \<noteq> None"
  by (induction ps arbitrary: f) (auto split: Option.bind_splits)

lemma printf_loop_Some: "printf_loop put env f st cnt l s = Some (r, f') \<Longrightarrow> f \<noteq> None \<Longrightarrow> f' \<noteq> None"
proof (induction "length s" arbitrary: f st cnt l s rule: less_induct)
  case less
  show ?case
  proof (cases "INT_MAX - cnt < l \<or> s = []")
    case True
    then show ?thesis using less.prems by (auto simp: printf_loop.simps [of put env f] split: if_splits)
  next
    case False
    then obtain x where x: "iteration env (f \<noteq> None) (cnt + l) s st = Some x"
      using less.prems(1) by (cases "iteration env (f \<noteq> None) (cnt + l) s st") (auto simp: printf_loop.simps [of put env f])
    show ?thesis
    proof (cases x)
      case (Go y st1)
      obtain pieces l1 s1 where y: "y = (pieces, l1, s1)" by (cases y)
      from less.prems(1) False x Go y obtain f1 where e: "emit put pieces f = Some f1" "printf_loop put env f1 st1 (cnt + l) l1 s1 = Some (r, f')"
        by (auto simp: printf_loop.simps [of put env f] split: Option.bind_splits)
      have "f1 \<noteq> None" using e(1) less.prems(2) emit_Some by (metis not_None_eq)
      then show ?thesis using less.hyps [OF _ e(2)] iteration_length x Go y by blast
    next
      case (Stop r' e' st1)
      then show ?thesis using less.prems False x by (auto simp: printf_loop.simps [of put env f])
    qed
  qed
qed

lemma printf_core_Some:
  assumes "printf_core put env (Some f) fmt st = Some (r, st', f')"
  shows "f' \<noteq> None"
proof -
  from assms obtain x f1 where x: "printf_loop put env (Some f) (st\<lparr>p_l10n := False\<rparr>) 0 0 fmt = Some (x, f1)"
    unfolding printf_core_def by (cases "printf_loop put env (Some f) (st\<lparr>p_l10n := False\<rparr>) 0 0 fmt") auto
  have "f1 \<noteq> None" using printf_loop_Some [OF x] by simp
  then show ?thesis using assms x unfolding printf_core_def by (cases x) auto
qed

locale sink =
  fixes put :: "bytes \<Rightarrow> 'f \<Rightarrow> 'f option" and R :: "'f \<Rightarrow> bytes \<Rightarrow> bool"
  assumes put_text: "R f t \<Longrightarrow> \<exists>f'. put bs f = Some f' \<and> R f' (t @ bs)"
begin

lemma emit_text: "rel_option R f t \<Longrightarrow> \<exists>f' t'. emit put ps f = Some f' \<and> emit append_put ps t = Some t' \<and> rel_option R f' t'"
proof (induction ps arbitrary: f t)
  case Nil
  then show ?case by (cases f; cases t) auto
next
  case (Cons p ps)
  show ?case
  proof (cases f)
    case None
    then show ?thesis using Cons.prems by (cases t) auto
  next
    case (Some g)
    then obtain u where u: "t = Some u" "R g u" using Cons.prems by (cases t) auto
    from put_text [OF u(2), of p] obtain g' where g': "put p g = Some g'" "R g' (u @ p)" by blast
    from Cons.IH [of "Some g'" "Some (u @ p)"] g'(2) obtain f' t' where
      "emit put ps (Some g') = Some f'" "emit append_put ps (Some (u @ p)) = Some t'" "rel_option R f' t'" by auto
    moreover have "append_put p u = Some (u @ p)" by (simp add: append_put_def)
    ultimately show ?thesis using Some u(1) g'(1) by simp
  qed
qed

lemma loop_text:
  "rel_option R f t \<Longrightarrow> rel_option (rel_prod (=) (rel_option R)) (printf_loop put env f st cnt l s) (printf_loop append_put env t st cnt l s)"
proof (induction "length s" arbitrary: f t st cnt l s rule: less_induct)
  case less
  have nn: "f \<noteq> None \<longleftrightarrow> t \<noteq> None" using less.prems by (cases f; cases t) auto
  note unfold_loop = printf_loop.simps [of put env f] printf_loop.simps [of append_put env t]
  show ?case
  proof (cases "INT_MAX - cnt < l \<or> s = []")
    case False
    show ?thesis
    proof (cases "iteration env (t \<noteq> None) (cnt + l) s st")
      case (Some r)
      show ?thesis
      proof (cases r)
        case (Go x st1)
        obtain pieces l1 s1 where x: "x = (pieces, l1, s1)" by (cases x)
        have len: "length s1 < length s" using iteration_length Some Go x by blast
        from emit_text [OF less.prems, of pieces] obtain f' t' where e: "emit put pieces f = Some f'" "emit append_put pieces t = Some t'" "rel_option R f' t'" by blast
        show ?thesis using less.hyps [OF len e(3), of st1 "cnt + l" l1] Some Go x e(1,2) False nn by (simp add: unfold_loop)
      qed (use Some False nn less.prems in \<open>simp add: unfold_loop\<close>)
    qed (use False nn in \<open>simp add: unfold_loop\<close>)
  qed (use less.prems in \<open>auto simp: unfold_loop\<close>)
qed

lemma core_text:
  assumes "rel_option R f t"
  shows "rel_option (rel_prod (=) (rel_prod (=) (rel_option R))) (printf_core put env f fmt st) (printf_core append_put env t fmt st)"
proof -
  have "rel_option (rel_prod (=) (rel_option R)) (printf_loop put env f (st\<lparr>p_l10n := False\<rparr>) 0 0 fmt)
      (printf_loop append_put env t (st\<lparr>p_l10n := False\<rparr>) 0 0 fmt)" by (rule loop_text [OF assms])
  then show ?thesis
  proof (cases rule: option.rel_cases)
    case (Some x y)
    obtain r f1 t1 where xy: "x = (r, f1)" "y = (r, t1)" "rel_option R f1 t1" using Some(3) by (cases x; cases y) auto
    have nn: "f1 = None \<longleftrightarrow> t1 = None" using xy(3) by (cases f1; cases t1) auto
    show ?thesis
    proof (cases r)
      case (Go cnt st1)
      show ?thesis
      proof (cases "t1 = None \<and> p_l10n st1")
        case True
        then have f0: "f1 = None" "t1 = None" "p_l10n st1" using nn by auto
        show ?thesis
          by (cases "pop_positional [1..<Suc NL_ARGMAX] st1") (use Some xy Go f0 in \<open>auto simp: printf_core_def\<close>)
      qed (use Some xy Go nn in \<open>auto simp: printf_core_def\<close>)
    qed (use Some xy nn in \<open>auto simp: printf_core_def\<close>)
  qed (simp add: printf_core_def)
qed

lemma first_pass:
  "map_option (\<lambda>(r, st', _). (r, st')) (printf_core put env None fmt st) = map_option (\<lambda>(r, st', _). (r, st')) (printf_core append_put env None fmt st)"
  using core_text [of None None env fmt st] by (cases rule: option.rel_cases) auto

lemma second_pass:
  assumes "R f t" and "printf_core append_put env (Some t) fmt st = Some (r, st', Some u)"
  shows "\<exists>f'. printf_core put env (Some f) fmt st = Some (r, st', Some f') \<and> R f' u"
proof -
  have "rel_option (rel_prod (=) (rel_prod (=) (rel_option R))) (printf_core put env (Some f) fmt st) (Some (r, st', Some u))"
    using core_text [of "Some f" "Some t" env fmt st] assms by simp
  then show ?thesis by (cases "printf_core put env (Some f) fmt st") (auto simp: option_rel_Some2)
qed

end

text \<open>The reference: the two passes of \<^verbatim>\<open>vfprintf\<close>, with the output collected in a list.\<close>

definition formatted :: "'d penv \<Rightarrow> bytes \<Rightarrow> 'd pst \<Rightarrow> (int \<times> 'd pst \<times> bytes) option" where
  "formatted env fmt st = do {
     (r0, st1, _) \<leftarrow> printf_core append_put env None fmt (st\<lparr>p_nl_type := replicate (Suc NL_ARGMAX) BARE\<rparr>);
     if r0 < 0 then Some (- 1, st1, [])
     else do {
       (r, st2, t) \<leftarrow> printf_core append_put env (Some []) fmt st1;
       u \<leftarrow> t;
       Some (r, st2, u)
     }
   }"

section \<open>Formatting into a stream\<close>

definition stream_rel :: "bytes \<Rightarrow> FILE \<times> device \<Rightarrow> bytes \<Rightarrow> bool" where
  "stream_rel base fd t = (case fd of (f, d) \<Rightarrow>
     wstream f \<and> line_inv f \<and> d_answers d = [] \<and> f_flags f AND F_ERR = 0 \<and> f_wend f \<noteq> None \<and> sent f d = base @ t)"

interpretation streams: sink out "stream_rel base" for base
proof
  fix fd t bs assume "stream_rel base fd t"
  then show "\<exists>fd'. out bs fd = Some fd' \<and> stream_rel base fd' (t @ bs)"
    using fwritex_ok [of "fst fd" "snd fd" bs] by (cases fd) (fastforce simp: stream_rel_def out_def)
qed

lemma wstream_no_err: "f_flags f AND F_ERR = 0 \<Longrightarrow> f\<lparr>f_flags := f_flags f AND NOT F_ERR\<rparr> = f"
proof -
  assume a: "f_flags f AND F_ERR = 0"
  have "f_flags f AND NOT F_ERR = f_flags f"
  proof (rule bit_word_eqI)
    fix n assume "n < LENGTH(32)"
    have "\<not> (bit (f_flags f) n \<and> bit F_ERR n)" using a by (metis bit_0_eq bit_and_iff bot_apply bot_bool_def)
    then show "bit (f_flags f AND NOT F_ERR) n = bit (f_flags f) n" using \<open>n < LENGTH(32)\<close> by (auto simp: bit_simps)
  qed
  then show ?thesis by simp
qed

text \<open>The stream that the second pass writes to.\<close>

lemma vfprintf_stream:
  assumes w: "wstream f" "line_inv f"
  shows "\<exists>f3. (if f_wend (with_buffer f) = None then towrite (with_buffer f) else (0, with_buffer f)) = (0, f3) \<and> wstream f3 \<and> line_inv f3 \<and>
     pending f3 = pending f \<and> f_flags f3 = f_flags f \<and> f_wend f3 \<noteq> None"
proof -
  have p0: "pending f = []" if "f_wend f = None \<or> f_buf_size f = 0" using w that by (auto simp: wstream_def)
  have b: "wstream (with_buffer f)" "pending (with_buffer f) = pending f" "line_inv (with_buffer f)" "f_flags (with_buffer f) = f_flags f"
    using w p0 by (auto simp: with_buffer_def wstream_def line_inv_def)
  show ?thesis
  proof (cases "f_wend (with_buffer f) = None")
    case True
    have "pending (with_buffer f) = []" using True b(1) by (auto simp: wstream_def)
    then show ?thesis using towrite_ok [OF b(1) True] True b by (auto simp: line_inv_def)
  qed (use b in auto)
qed

lemma restore_ok:
  assumes f: "wstream f" and w: "wstream f4" "line_inv f4" "d_answers d4 = []" and e: "f_flags f4 AND F_ERR = 0" "f_wend f4 \<noteq> None"
  shows "\<exists>f5 d5. restore_buffer f f4 d4 ret = Some (ret, f5, d5) \<and> wstream f5 \<and> line_inv f5 \<and> sent f5 d5 = sent f4 d4 \<and>
     f_flags f5 = f_flags f4 \<and> (f_buf_size f = 0 \<longrightarrow> d_out d5 = sent f4 d4)"
proof (cases "f_buf_size f = 0")
  case True
  obtain f' where f': "call_write [] f4 d4 = Some (0, f', d4\<lparr>d_out := sent f4 d4\<rparr>)" "wstream f'" "f_wpos f' = Some (f_buf f4)" "f_flags f' = f_flags f4"
    using call_write_all [OF w(1,3) e(2), of "[]"] by auto
  then show ?thesis using True f by (auto simp: restore_buffer_def wstream_def line_inv_def sent_def)
qed (use w in \<open>simp add: restore_buffer_def\<close>)


section \<open>Formatting into an array\<close>

text \<open>The array behind the cookie has got the first bytes of \<open>u\<close>, at most \<open>cap\<close> of them.\<close>

definition filled :: "nat \<Rightarrow> nat \<Rightarrow> cookie \<Rightarrow> bytes \<Rightarrow> bool" where
  "filled cap len c u \<longleftrightarrow> cap < len \<and> length (c_array c) = len \<and> c_s c = min cap (length u) \<and> c_n c = cap - c_s c \<and>
     take (c_s c) (c_array c) = take cap u"

lemma splice_ok: "p + length s \<le> length m \<Longrightarrow> \<exists>m'. splice p s m = Some m' \<and> length m' = length m \<and>
     take (p + length s) m' = take p m @ s"
  by (simp add: splice_def)

lemma cookie_copy_ok:
  assumes "filled cap len c u"
  shows "\<exists>c'. cookie_copy s c = Some c' \<and> filled cap len c' (u @ s)"
proof -
  define k where "k = min (c_n c) (length s)"
  note fd = assms [unfolded filled_def]
  show ?thesis
  proof (cases "k = 0")
    case True
    then have "cap \<le> length u \<or> s = []" using fd by (auto simp: k_def min_def split: if_splits)
    then have "filled cap len c (u @ s)" using fd by (auto simp: filled_def min_def)
    then show ?thesis using True by (simp add: cookie_copy_def k_def)
  next
    case False
    then have lt: "length u < cap" "k = min (cap - length u) (length s)" using fd by (auto simp: k_def)
    then have cs: "c_s c = length u" "c_s c + k \<le> length (c_array c)" using fd by auto
    from splice_ok [of "c_s c" "take k s" "c_array c"] cs(2) obtain m' where m': "splice (c_s c) (take k s) (c_array c) = Some m'"
      "length m' = len" "take (c_s c + k) m' = take (c_s c) (c_array c) @ take k s" using fd by (auto simp: k_def)
    have "filled cap len \<lparr>c_array = m', c_s = c_s c + k, c_n = c_n c - k\<rparr> (u @ s)"
    proof -
      have "take (min (cap - length u) (length s)) s = take (cap - length u) s" by (simp add: min_def)
      then show ?thesis using fd m'(2,3) lt cs(1) by (auto simp: filled_def)
    qed
    then show ?thesis using False m'(1) unfolding cookie_copy_def Let_def k_def [symmetric] by simp
  qed
qed

definition terminated :: "nat \<Rightarrow> nat \<Rightarrow> cookie \<Rightarrow> bytes \<Rightarrow> bool" where
  "terminated cap len c u \<longleftrightarrow> filled cap len c u \<and> c_array c ! c_s c = 0"

definition string_rel :: "nat \<Rightarrow> nat \<Rightarrow> FILE \<times> device \<Rightarrow> bytes \<Rightarrow> bool" where
  "string_rel cap len fd t = (case fd of (f, d) \<Rightarrow>
     f_write f = Sn_write \<and> f_flags f = 0 \<and> f_lbf f = - 1 \<and> f_buf f = 0 \<and> f_buf_size f = 80 \<and> length (f_mem f) = 80 \<and>
     f_wbase f = Some 0 \<and> f_wend f = Some 80 \<and>
     (\<exists>p u. f_wpos f = Some p \<and> p \<le> 80 \<and> t = u @ pending f \<and> terminated cap len (f_cookie f) u))"

lemma sn_write_ok:
  assumes "string_rel cap len (f, d) t"
  shows "\<exists>f'. call_write s f d = Some (length s, f', d) \<and> string_rel cap len (f', d) (t @ s) \<and> f_wpos f' = Some 0 \<and>
     terminated cap len (f_cookie f') (t @ s)"
proof -
  from assms obtain p u where f: "f_write f = Sn_write" "f_flags f = 0" "f_lbf f = - 1" "f_buf f = 0" "f_buf_size f = 80" "length (f_mem f) = 80"
    "f_wbase f = Some 0" "f_wend f = Some 80" "f_wpos f = Some p" "p \<le> 80" and t: "t = u @ pending f" "terminated cap len (f_cookie f) u"
    by (auto simp: string_rel_def)
  have "filled cap len (f_cookie f) u" using t(2) by (simp add: terminated_def)
  from cookie_copy_ok [OF this] obtain c1 where c1: "cookie_copy (pending f) (f_cookie f) = Some c1" "filled cap len c1 (u @ pending f)"
    by blast
  obtain c2 where c2: "cookie_copy s c1 = Some c2" "filled cap len c2 (t @ s)" using cookie_copy_ok [OF c1(2)] t(1) by auto
  have l: "c_s c2 + length [0 :: uint8_t] \<le> length (c_array c2)" using c2(2) by (auto simp: filled_def)
  from splice_ok [OF l] obtain a where a: "splice (c_s c2) [0] (c_array c2) = Some a" "length a = length (c_array c2)"
    "take (c_s c2 + 1) a = take (c_s c2) (c_array c2) @ [0]" by auto
  have "a ! c_s c2 = take (c_s c2 + 1) a ! c_s c2" by simp
  also have "\<dots> = 0" unfolding a(3) using l by (simp add: nth_append)
  finally have z: "a ! c_s c2 = 0" .
  have "take (c_s c2) a = take (c_s c2) (take (c_s c2 + 1) a)" by (simp add: min_def)
  also have "\<dots> = take (c_s c2) (c_array c2)" unfolding a(3) using l by simp
  finally have "terminated cap len (c2\<lparr>c_array := a\<rparr>) (t @ s)" using c2(2) a(2) z by (auto simp: terminated_def filled_def)
  then show ?thesis
    using f c1(1) c2(1) a(1) by (simp add: call_write_def sn_write_def string_rel_def pending_def span_def)
qed

lemma string_put:
  assumes "string_rel cap len fd t"
  shows "\<exists>fd'. out s fd = Some fd' \<and> string_rel cap len fd' (t @ s)"
proof -
  obtain f d where fd: "fd = (f, d)" by (cases fd)
  note r = assms [unfolded fd]
  from r obtain p where f: "f_wpos f = Some p" "p \<le> 80" "f_wend f = Some 80" "f_flags f = 0" "f_wbase f = Some 0" "length (f_mem f) = 80" "f_lbf f = - 1"
    by (auto simp: string_rel_def)
  show ?thesis
  proof (cases "80 - p < length s")
    case True
    then show ?thesis using sn_write_ok [OF r, of s] f by (auto simp: fd out_def fwritex_def fwritex_active_def)
  next
    case False
    then have le: "p + length s \<le> length (f_mem f)" using f by simp
    obtain m where m: "splice p s (f_mem f) = Some m" "length m = length (f_mem f)"
      "pending (f\<lparr>f_mem := m, f_wpos := Some (p + length s)\<rparr>) = pending f @ s"
      using splice_pending [OF f(5,1) _ le] by auto
    have "string_rel cap len (f\<lparr>f_mem := m, f_wpos := Some (p + length s)\<rparr>, d) (t @ s)"
      using r m(2,3) le f(6) by (auto simp: string_rel_def)
    then show ?thesis using False f m(1) by (simp add: fd out_def fwritex_def fwritex_active_def copy_pending_def)
  qed
qed

interpretation strings: sink out "string_rel cap len" for cap len
  by unfold_locales (rule string_put)


section \<open>Examples\<close>

definition hello_env :: "unit penv" where
  "hello_env = \<lparr>e_fmt_fp = (\<lambda>_ _ _ _ _. (- 1, [])), e_strerror = (\<lambda>_. 0), e_utf8 = True\<rparr>"

definition hello_st :: "unit pst" where
  "hello_st = \<lparr>p_mem = Map.empty, p_ap = \<lparr>va_words = [], va_doubles = [], va_ldoubles = []\<rparr>, p_nl_type = replicate 10 BARE,
     p_nl_arg = replicate 10 (A_word 0), p_l10n = False, p_errno = 0\<rparr>"

definition hello :: bytes where
  "hello = map of_char ''hello''"

lemma hello_formatted: "formatted hello_env hello hello_st = Some (5, hello_st, hello)"
proof -
  have lit: "literal hello = (hello, [])" "hello \<noteq> []" "length hello = 5" by (simp_all add: literal_def hello_def Let_def)
  have it: "iteration hello_env f 0 hello hello_st = Some (Go ([hello], 5, []) hello_st)" for f
    using lit by (simp add: iteration_def INT_MAX_def)
  have "printf_loop append_put hello_env None hello_st 0 0 hello = Some (Go 5 hello_st, None)"
    using it lit(2) by (simp add: printf_loop.simps [of _ _ _ _ _ _ hello] printf_loop.simps [of _ _ _ _ _ _ "[]"] INT_MAX_def)
  moreover have "append_put hello [] = Some hello" by (simp add: append_put_def)
  then have "printf_loop append_put hello_env (Some []) hello_st 0 0 hello = Some (Go 5 hello_st, Some hello)"
    using it lit(2) by (simp add: printf_loop.simps [of _ _ _ _ _ _ hello] printf_loop.simps [of _ _ _ _ _ _ "[]"] INT_MAX_def)
  moreover have e: "hello_st\<lparr>p_l10n := False\<rparr> = hello_st" "hello_st\<lparr>p_nl_type := replicate (Suc NL_ARGMAX) BARE\<rparr> = hello_st" "\<not> p_l10n hello_st"
    by (simp_all add: hello_st_def NL_ARGMAX_def)
  ultimately show ?thesis using e(3) unfolding formatted_def printf_core_def e(1,2) by (simp add: printf_core_def e(1))
qed



end
