(* ===== verification/PrintfText.thy ===== *)
theory PrintfText
  imports Printf "HOL-Library.Sublist"
begin

text \<open>
  What the formatted text looks like: the return value of the printf functions is the number of bytes
  they wrote, and the digits of an integer conversion read back as the integer.
\<close>

section \<open>Flags\<close>

lemma flag_bits:
  "fl AND LEFT_ADJ \<noteq> 0 \<longleftrightarrow> bit fl 13" "fl AND ZERO_PAD \<noteq> 0 \<longleftrightarrow> bit fl 16"
  "fl AND (LEFT_ADJ OR ZERO_PAD) \<noteq> 0 \<longleftrightarrow> bit fl 13 \<or> bit fl 16"
proof -
  have p: "LEFT_ADJ = 2 ^ 13" "ZERO_PAD = 2 ^ 16" by (simp_all add: LEFT_ADJ_def ZERO_PAD_def push_bit_eq_mult)
  show a: "fl AND LEFT_ADJ \<noteq> 0 \<longleftrightarrow> bit fl 13" "fl AND ZERO_PAD \<noteq> 0 \<longleftrightarrow> bit fl 16"
    unfolding p by (simp_all only: and_exp_eq_0_iff_not_bit not_not)
  show "fl AND (LEFT_ADJ OR ZERO_PAD) \<noteq> 0 \<longleftrightarrow> bit fl 13 \<or> bit fl 16"
    using a by (simp add: bit.conj_disj_distrib or_eq_0_iff)
qed

lemma flag_ops:
  "bit (fl XOR ZERO_PAD) 13 = bit fl 13" "bit (fl XOR ZERO_PAD) 16 = (\<not> bit fl 16)"
  "bit (fl XOR LEFT_ADJ) 13 = (\<not> bit fl 13)" "bit (fl XOR LEFT_ADJ) 16 = bit fl 16"
  "bit (fl AND NOT ZERO_PAD) 13 = bit fl 13" "\<not> bit (fl AND NOT ZERO_PAD) 16"
  "bit (fl OR ALT_FORM) 13 = bit fl 13" "bit (fl OR ALT_FORM) 16 = bit fl 16" for fl :: uint32_t
  by (simp_all add: LEFT_ADJ_def ZERO_PAD_def ALT_FORM_def bit_simps)

text \<open>The flags of a conversion never have both.\<close>

definition one_pad :: "uint32_t \<Rightarrow> bool" where
  "one_pad fl \<longleftrightarrow> \<not> (bit fl 13 \<and> bit fl 16)"

lemma one_pad_simps [simp]:
  "one_pad (fl AND NOT ZERO_PAD)" "one_pad (fl OR ALT_FORM) = one_pad fl"
  "one_pad (if fl AND LEFT_ADJ \<noteq> 0 then fl AND NOT ZERO_PAD else fl)"
  by (simp_all add: one_pad_def flag_ops flag_bits)

section \<open>Lengths of pieces\<close>

lemma pad_blocks_concat: "concat (pad_blocks c l) = replicate l c"
proof (induction c l rule: pad_blocks.induct)
  case (1 c l)
  show ?case
  proof (cases "256 \<le> l")
    case True
    then have "replicate l c = replicate 256 c @ replicate (l - 256) c" by (simp only: replicate_add [symmetric] le_add_diff_inverse)
    then show ?thesis using 1 True by (simp only: pad_blocks.simps [of c l] if_True concat.simps)
  qed (simp add: pad_blocks.simps [of c l])
qed

lemma pad_concat: "concat (pad c w l fl) = (if bit fl 13 \<or> bit fl 16 \<or> w \<le> l then [] else replicate (nat (w - l)) c)"
  by (simp add: pad_def flag_bits pad_blocks_concat)

text \<open>A field: padding, prefix, zeros and text, in an order that depends on the flags.\<close>

lemma field_text:
  assumes "field cnt w cv st = Some (Go (pieces, l) st')" and "one_pad (cv_fl cv)"
  defines "n \<equiv> int (length (cv_text cv))" and "pl \<equiv> int (length (cv_prefix cv))"
  shows "l = max w (pl + max (cv_p cv) n)" and "int (length (concat pieces)) = l" and "st' = st"
    and "bit (cv_fl cv) 13 \<Longrightarrow> concat pieces = cv_prefix cv @ replicate (nat (max (cv_p cv) n - n)) 48 @ cv_text cv @ replicate (nat (l - (pl + max (cv_p cv) n))) 32"
    and "bit (cv_fl cv) 16 \<Longrightarrow> concat pieces = cv_prefix cv @ replicate (nat (l - (pl + max (cv_p cv) n)) + nat (max (cv_p cv) n - n)) 48 @ cv_text cv"
    and "\<not> bit (cv_fl cv) 13 \<Longrightarrow> \<not> bit (cv_fl cv) 16 \<Longrightarrow>
      concat pieces = replicate (nat (l - (pl + max (cv_p cv) n))) 32 @ cv_prefix cv @ replicate (nat (max (cv_p cv) n - n)) 48 @ cv_text cv"
proof -
  let ?p = "max (cv_p cv) n"
  have l: "l = max w (pl + ?p)" and st: "st' = st" and pc: "pieces = pad 32 l (pl + ?p) (cv_fl cv) @ [cv_prefix cv] @
      pad 48 l (pl + ?p) (cv_fl cv XOR ZERO_PAD) @ pad 48 ?p n 0 @ [cv_text cv] @ pad 32 l (pl + ?p) (cv_fl cv XOR LEFT_ADJ)"
    using assms(1) by (auto simp: field_def Let_def n_def pl_def split: if_splits)
  show "l = max w (pl + max (cv_p cv) n)" "st' = st" by (fact l st)+
  have le: "pl + ?p \<le> l" "n \<le> ?p" using l by auto
  note c = pc pad_concat flag_ops
  show "concat pieces = cv_prefix cv @ replicate (nat (?p - n)) 48 @ cv_text cv @ replicate (nat (l - (pl + ?p))) 32" if "bit (cv_fl cv) 13"
    using that assms(2) le by (auto simp: c one_pad_def)
  moreover show "concat pieces = cv_prefix cv @ replicate (nat (l - (pl + ?p)) + nat (?p - n)) 48 @ cv_text cv" if "bit (cv_fl cv) 16"
    using that assms(2) le by (auto simp: c one_pad_def replicate_add)
  moreover show "concat pieces = replicate (nat (l - (pl + ?p))) 32 @ cv_prefix cv @ replicate (nat (?p - n)) 48 @ cv_text cv"
    if "\<not> bit (cv_fl cv) 13" "\<not> bit (cv_fl cv) 16"
    using that le by (auto simp: c)
  ultimately show "int (length (concat pieces)) = l"
    using le by (cases "bit (cv_fl cv) 13"; cases "bit (cv_fl cv) 16") (simp_all add: n_def pl_def)
qed

lemma field_fits:
  assumes "int (length (cv_prefix cv)) + max (cv_p cv) (int (length (cv_text cv))) \<le> INT_MAX"
    and "max w (int (length (cv_prefix cv)) + max (cv_p cv) (int (length (cv_text cv)))) \<le> INT_MAX - cnt"
  shows "\<exists>pieces l. field cnt w cv st = Some (Go (pieces, l) st)"
proof -
  have "\<not> INT_MAX - int (length (cv_prefix cv)) < max (cv_p cv) (int (length (cv_text cv)))" using assms(1) by linarith
  moreover have "\<not> INT_MAX - cnt < max w (int (length (cv_prefix cv)) + max (cv_p cv) (int (length (cv_text cv))))" using assms(2) by linarith
  ultimately show ?thesis unfolding field_def Let_def by (simp only: if_False) blast
qed

section \<open>Conversions\<close>

lemma finish_int_pad: "finish_int fl p xp i pre a st = Some (Go cv st') \<Longrightarrow> one_pad fl \<Longrightarrow> one_pad (cv_fl cv)"
  by (auto simp: finish_int_def Let_def split: if_splits)

lemma conv_pad:
  "conv_x t fl p xp i st = Some (Go cv st') \<Longrightarrow> one_pad fl \<Longrightarrow> one_pad (cv_fl cv)"
  "conv_o fl p xp i st = Some (Go cv st') \<Longrightarrow> one_pad fl \<Longrightarrow> one_pad (cv_fl cv)"
  "conv_d fl p xp i st = Some (Go cv st') \<Longrightarrow> one_pad fl \<Longrightarrow> one_pad (cv_fl cv)"
  by (auto simp: conv_x_def conv_o_def conv_d_def Let_def dest: finish_int_pad split: if_splits)

lemma conv_s_pad: "conv_s fl p a st = Some (Go cv st') \<Longrightarrow> one_pad (cv_fl cv)"
  by (auto simp: conv_s_def Let_def split: if_splits Option.bind_splits)

text \<open>The length that a floating point conversion returns has to be the number of bytes it writes.\<close>

definition fp_counts :: "'d penv \<Rightarrow> bool" where
  "fp_counts env \<longleftrightarrow> (\<forall>x w p fl t l pieces. e_fmt_fp env x w p fl t = (l, pieces) \<longrightarrow> 0 \<le> l \<longrightarrow> int (length (concat pieces)) = l)"

definition wide_t :: "fmt_state \<Rightarrow> uint8_t \<Rightarrow> bool" where
  "wide_t ps t \<longleftrightarrow> (let u = (if ps \<noteq> BARE \<and> t AND 15 = 3 then t AND NOT 32 else t) in u = chr CHR ''C'' \<or> u = chr CHR ''S'')"

lemma lift_arg_Some: "lift_arg a k = Some r \<longleftrightarrow> (\<exists>x. a = Some x \<and> k x = Some r)"
  by (cases a) (auto simp: lift_arg_def)

lemma convert_count:
  assumes "convert env cnt fl w p xp ps t arg st = Some (Go (pieces, l) st')" and "\<not> wide_t ps t" and "fp_counts env"
  shows "int (length (concat pieces)) = l"
proof -
  define u where "u = (if ps \<noteq> BARE \<and> t AND 15 = 3 then t AND NOT 32 else t)"
  define fl1 where "fl1 = (if fl AND LEFT_ADJ \<noteq> 0 then fl AND NOT ZERO_PAD else fl)"
  have fl1: "one_pad fl1" by (simp add: fl1_def)
  have u: "u \<noteq> chr CHR ''C''" "u \<noteq> chr CHR ''S''" using assms(2) by (auto simp: wide_t_def u_def Let_def)
  have int: "int (length (concat pieces)) = l"
    if "lift_arg a (\<lambda>i. step_bind (c i) (field cnt w)) = Some (Go (pieces, l) st')" "\<And>i cv s. c i = Some (Go cv s) \<Longrightarrow> one_pad (cv_fl cv)" for a :: "64 word option" and c
    using that field_text(2) by (fastforce simp: lift_arg_Some step_bind_Go)
  have str: "int (length (concat pieces)) = l"
    if "step_bind c (field cnt w) = Some (Go (pieces, l) st')" "\<And>cv s. c = Some (Go cv s) \<Longrightarrow> one_pad (cv_fl cv)" for c
    using that field_text(2) by (fastforce simp: step_bind_Go)
  note e = assms(1) [unfolded convert_def, folded u_def fl1_def, unfolded Let_def, folded u_def fl1_def]
  consider "u = chr CHR ''n''" | "u = chr CHR ''p''" | "among u ''xX''" | "u = chr CHR ''o''" | "among u ''di''" | "u = chr CHR ''u''"
    | "u = chr CHR ''c''" | "u = chr CHR ''m''" | "u = chr CHR ''s''" | "among u ''efgaEFGA''"
    using e u by (auto split: if_splits)
  then show ?thesis
  proof cases
    case 1
    then show ?thesis using e by (auto split: Option.bind_splits)
  next
    case 2
    with e have "lift_arg (arg_i arg) (\<lambda>i. step_bind (conv_x (chr CHR ''x'') (fl1 OR ALT_FORM) (max p 16) xp i st) (field cnt w)) = Some (Go (pieces, l) st')"
      by simp
    then show ?thesis by (rule int) (use conv_pad(1) fl1 in fastforce)
  next
    case 3
    with e have "lift_arg (arg_i arg) (\<lambda>i. step_bind (conv_x u fl1 p xp i st) (field cnt w)) = Some (Go (pieces, l) st')"
      by (auto simp: among_def)
    then show ?thesis by (rule int) (use conv_pad(1) fl1 in blast)
  next
    case 4
    with e have "lift_arg (arg_i arg) (\<lambda>i. step_bind (conv_o fl1 p xp i st) (field cnt w)) = Some (Go (pieces, l) st')"
      by (simp add: among_def)
    then show ?thesis by (rule int) (use conv_pad(2) fl1 in blast)
  next
    case 5
    with e have "lift_arg (arg_i arg) (\<lambda>i. step_bind (conv_d fl1 p xp i st) (field cnt w)) = Some (Go (pieces, l) st')"
      by (auto simp: among_def)
    then show ?thesis by (rule int) (use conv_pad(3) fl1 in blast)
  next
    case 6
    with e have "lift_arg (arg_i arg) (\<lambda>i. step_bind (finish_int fl1 p xp i [] (fmt_u i []) st) (field cnt w)) = Some (Go (pieces, l) st')"
      by (simp add: among_def)
    then show ?thesis by (rule int) (use finish_int_pad fl1 in blast)
  next
    case 7
    with e obtain i :: "64 word" where "field cnt w \<lparr>cv_fl = fl1 AND NOT ZERO_PAD, cv_p = 1, cv_prefix = [], cv_text = [ucast i]\<rparr> st = Some (Go (pieces, l) st')"
      by (auto simp: among_def lift_arg_Some)
    then show ?thesis using field_text(2) by fastforce
  next
    case 8
    with e have "step_bind (conv_s fl1 p (e_strerror env (p_errno st)) st) (field cnt w) = Some (Go (pieces, l) st')" by (simp add: among_def)
    then show ?thesis by (rule str) (use conv_s_pad in blast)
  next
    case 9
    with e have "lift_arg (arg_i arg) (\<lambda>i. step_bind (conv_s fl1 p i st) (field cnt w)) = Some (Go (pieces, l) st')" by (simp add: among_def)
    then show ?thesis by (rule int) (use conv_s_pad in blast)
  next
    case 10
    then have "u \<noteq> chr CHR ''n'' \<and> u \<noteq> chr CHR ''p'' \<and> \<not> among u ''xX'' \<and> u \<noteq> chr CHR ''o'' \<and> \<not> among u ''di'' \<and> u \<noteq> chr CHR ''u'' \<and>
        u \<noteq> chr CHR ''c'' \<and> u \<noteq> chr CHR ''m'' \<and> u \<noteq> chr CHR ''s''"
      by (auto simp: among_def)
    with e u 10 obtain x where x: "(let (l, pieces) = e_fmt_fp env x w p fl1 u in if l < 0 then overflowed st else Some (Go (pieces, l) st)) = Some (Go (pieces, l) st')"
      by (auto simp: lift_arg_Some split: if_splits)
    then show ?thesis using assms(3) by (cases "e_fmt_fp env x w p fl1 u") (auto simp: fp_counts_def split: if_splits)
  qed
qed

section \<open>Formats without wide characters\<close>

definition wide_free :: "bytes \<Rightarrow> bool" where
  "wide_free s \<longleftrightarrow> (\<forall>i < length s. s ! i \<noteq> chr CHR ''C'' \<and> s ! i \<noteq> chr CHR ''S'') \<and>
     (\<forall>i. Suc i < length s \<longrightarrow> s ! i = chr CHR ''l'' \<longrightarrow> s ! Suc i \<noteq> chr CHR ''c'' \<and> s ! Suc i \<noteq> chr CHR ''s'')"

lemma wide_free_suffix:
  assumes "wide_free s" and "suffix t s"
  shows "wide_free t"
proof -
  obtain u where s: "s = u @ t" using assms(2) by (auto simp: suffix_def)
  have t: "t ! i = s ! (length u + i)" for i by (simp add: s)
  have 1: "t ! i \<noteq> chr CHR ''C'' \<and> t ! i \<noteq> chr CHR ''S''" if "i < length t" for i
  proof -
    have "length u + i < length s" using that by (simp add: s)
    then have "s ! (length u + i) \<noteq> chr CHR ''C'' \<and> s ! (length u + i) \<noteq> chr CHR ''S''" using assms(1) unfolding wide_free_def by blast
    then show ?thesis unfolding t .
  qed
  have 2: "t ! Suc i \<noteq> chr CHR ''c'' \<and> t ! Suc i \<noteq> chr CHR ''s''" if "Suc i < length t" "t ! i = chr CHR ''l''" for i
  proof -
    have "Suc (length u + i) < length s" "s ! (length u + i) = chr CHR ''l''" using that by (simp_all add: s)
    then have "s ! Suc (length u + i) \<noteq> chr CHR ''c'' \<and> s ! Suc (length u + i) \<noteq> chr CHR ''s''" using assms(1) unfolding wide_free_def by blast
    then show ?thesis unfolding t by simp
  qed
  show ?thesis unfolding wide_free_def using 1 2 by blast
qed

lemma getint_suffix: "suffix (snd (getint i s)) s"
  by (induction i s rule: getint.induct) (auto intro: suffix_ConsI)

lemma read_flags_suffix: "suffix (snd (read_flags fl s)) s"
  by (induction fl s rule: read_flags.induct) (auto intro: suffix_ConsI)

lemma read_width_suffix: "read_width f fl s st = Some (Go (w, fl', s') st') \<Longrightarrow> suffix s' s"
  using getint_suffix [of 0 s]
  by (auto simp: read_width_def Let_def suffix_drop split: if_splits prod.splits Option.bind_splits)

lemma read_precision_suffix: "read_precision f s st = Some (Go (p, xp, s') st') \<Longrightarrow> suffix s' s"
  using getint_suffix [of 0 "drop 1 s"] suffix_order.trans [OF _ suffix_drop [of 1 s]]
  by (auto simp: read_precision_def Let_def suffix_drop split: if_splits prod.splits Option.bind_splits)

lemma scan_suffix:
  "scan st s = Some (ty, ps, t, s') \<Longrightarrow> suffix (t # s') s \<and> ty = states ps t \<and>
     (s = t # s' \<and> ps = st \<or> (\<exists>c q. suffix (c # t # s') s \<and> states q c = ps))"
proof (induction st s rule: scan.induct)
  case (2 st c s)
  show ?case
  proof (cases "is_prefix (states st c)")
    case True
    with 2 have "suffix (t # s') s \<and> ty = states ps t \<and> (s = t # s' \<and> ps = states st c \<or> (\<exists>d q. suffix (d # t # s') s \<and> states q d = ps))"
      by (auto simp: Let_def split: if_splits)
    then show ?thesis by (auto intro: suffix_ConsI)
  qed (use 2(2) in \<open>auto simp: Let_def split: if_splits\<close>)
qed simp

lemma states_LPRE: "states q c = LPRE \<Longrightarrow> c = chr CHR ''l''"
  by (cases q) (auto simp: states_def states_bare_def states_int_def among_def split: if_splits)

lemma states_char: "ps \<noteq> BARE \<Longrightarrow> states ps t \<noteq> BARE \<Longrightarrow> t = chr CHR ''c'' \<or> t = chr CHR ''s'' \<Longrightarrow> ps = LPRE"
  by (cases ps) (auto simp: states_def states_int_def among_def split: if_splits)

lemma clear_case: "t AND NOT 32 = u \<Longrightarrow> t = u \<or> t = u OR 32" for t u :: uint8_t
proof -
  assume u: "t AND NOT 32 = u"
  have "t AND 32 = 0 \<or> t AND 32 = 32"
    using and_exp_eq_0_iff_not_bit [of t 5] and_exp_eq_0_iff_not_bit [of "NOT t" 5] by (cases "bit t 5") (auto simp: bit_eq_iff bit_simps)
  moreover have "t = u OR (t AND 32)" unfolding u [symmetric] by (rule bit_word_eqI) (auto simp: bit_simps)
  ultimately show ?thesis by auto
qed

lemma not_wide:
  assumes "wide_free s" and "scan BARE s = Some (ty, ps, t, s')" and "ty \<noteq> BARE"
  shows "\<not> wide_t ps t"
proof
  assume w: "wide_t ps t"
  note sc = scan_suffix [OF assms(2)]
  have "wide_free (t # s')" using wide_free_suffix assms(1) sc by blast
  then have t: "t \<noteq> chr CHR ''C''" "t \<noteq> chr CHR ''S''" unfolding wide_free_def by force+
  have ps: "ps \<noteq> BARE" and "t AND NOT 32 = chr CHR ''C'' \<or> t AND NOT 32 = chr CHR ''S''"
    using w t by (auto simp: wide_t_def Let_def split: if_splits)
  then have cs: "t = chr CHR ''c'' \<or> t = chr CHR ''s''"
    using clear_case [of t "chr CHR ''C''"] clear_case [of t "chr CHR ''S''"] t by auto
  have "ps = LPRE" using states_char [OF ps _ cs] sc assms(3) by auto
  then obtain c q where c: "suffix (c # t # s') s" "states q c = LPRE" using sc by auto
  have "wide_free (c # t # s')" using wide_free_suffix assms(1) c(1) by blast
  then show False using states_LPRE [OF c(2)] cs unfolding wide_free_def by force
qed

lemma read_spec_suffix:
  assumes "read_spec f s st = Some (Go (sp, s') st')"
  obtains s4 where "suffix s4 s" "scan BARE s4 = Some (sp_ty sp, sp_ps sp, sp_t sp, s')" "sp_ty sp \<noteq> BARE"
proof -
  let ?pos = "isdigit (peek 1 s) \<and> peek 2 s = 36"
  define s1 where "s1 = (if ?pos then drop 3 s else drop 1 s)"
  define s2 where "s2 = snd (read_flags 0 s1)"
  have s1: "suffix s1 s" by (simp add: s1_def suffix_drop)
  have s2: "suffix s2 s" using suffix_order.trans [OF read_flags_suffix s1] by (simp add: s2_def)
  obtain fl st1 w fl1 s3 st2 p xp s4 where r: "read_width f fl s2 st1 = Some (Go (w, fl1, s3) st2)"
    "read_precision f s3 st2 = Some (Go (p, xp, s4) st')" "scan BARE s4 = Some (sp_ty sp, sp_ps sp, sp_t sp, s')" "sp_ty sp \<noteq> BARE"
    using read_spec_parts [OF assms, folded s1_def s2_def] by blast
  have "suffix s4 s"
    by (rule suffix_order.trans [OF read_precision_suffix [OF r(2)] suffix_order.trans [OF read_width_suffix [OF r(1)] s2]])
  then show ?thesis using that r(3,4) by blast
qed

lemma literal_suffix: "suffix (snd (literal s)) s"
  unfolding literal_def Let_def snd_conv by (rule suffix_order.trans [OF suffix_drop suffix_dropWhile])

lemma iteration_count:
  assumes "iteration env True cnt s st = Some (Go (pieces, l, s') st')" and "wide_free s" and "fp_counts env"
  shows "int (length (concat pieces)) = l" and "suffix s' s"
proof -
  obtain lit s1 where t: "literal s = (lit, s1)" by (cases "literal s")
  have s1: "suffix s1 s" using literal_suffix [of s] t by simp
  have "int (length (concat pieces)) = l \<and> suffix s' s"
  proof (cases "lit = []")
    case True
    with assms t obtain ps' where d: "directive env True cnt s1 st = Some (Go (ps', l, s') st')" "pieces = [] # ps'"
      by (auto simp: iteration_def step_bind_Go split: if_splits)
    from d(1) obtain sp st1 arg st2 where sp: "read_spec True s1 st = Some (Go (sp, s') st1)"
      "convert env cnt (sp_fl sp) (sp_w sp) (sp_p sp) (sp_xp sp) (sp_ps sp) (sp_t sp) arg st2 = Some (Go (ps', l) st')"
      by (auto simp: directive_def step_bind_Go)
    from sp(1) obtain s4 where s4: "suffix s4 s1" "scan BARE s4 = Some (sp_ty sp, sp_ps sp, sp_t sp, s')" "sp_ty sp \<noteq> BARE" by (rule read_spec_suffix)
    have s4s: "suffix s4 s" by (rule suffix_order.trans [OF s4(1) s1])
    have "wide_free s4" by (rule wide_free_suffix [OF assms(2) s4s])
    then have "int (length (concat ps')) = l" using convert_count [OF sp(2) _ assms(3)] not_wide [OF _ s4(2,3)] by blast
    moreover have "suffix s' s4" by (rule suffix_ConsD) (rule conjunct1 [OF scan_suffix [OF s4(2)]])
    then have "suffix s' s" by (rule suffix_order.trans [OF _ s4s])
    ultimately show ?thesis using d(2) by simp
  next
    case False
    then show ?thesis using assms t s1 by (auto simp: iteration_def split: if_splits)
  qed
  then show "int (length (concat pieces)) = l" "suffix s' s" by blast+
qed

lemma emit_append: "emit append_put ps (Some t) = Some (Some (t @ concat ps))"
proof (induction ps arbitrary: t)
  case (Cons p ps)
  have "append_put p t = Some (t @ p)" by (simp add: append_put_def)
  then show ?case using Cons [of "t @ p"] by simp
qed simp

lemma loop_count:
  assumes "printf_loop append_put env (Some t) st cnt l s = Some (Go n st', Some t')" and "int (length t) = cnt + l"
    and "wide_free s" and "fp_counts env"
  shows "int (length t') = n"
  using assms(1-3)
proof (induction "length s" arbitrary: t st cnt l s rule: less_induct)
  case less
  show ?case
  proof (cases "INT_MAX - cnt < l \<or> s = []")
    case True
    then show ?thesis using less.prems by (auto simp: printf_loop.simps [of append_put env "Some t"] split: if_splits)
  next
    case False
    then obtain x where x: "iteration env True (cnt + l) s st = Some x"
      using less.prems(1) by (cases "iteration env True (cnt + l) s st") (auto simp: printf_loop.simps [of append_put env "Some t"])
    show ?thesis
    proof (cases x)
      case (Go y st1)
      obtain pieces l1 s1 where y: "y = (pieces, l1, s1)" by (cases y)
      note it = iteration_count [OF x [unfolded Go y] less.prems(3) assms(4)]
      have "printf_loop append_put env (Some (t @ concat pieces)) st1 (cnt + l) l1 s1 = Some (Go n st', Some t')"
        using less.prems(1) False x Go y by (simp add: printf_loop.simps [of append_put env "Some t"] emit_append)
      from less.hyps [OF _ this] show ?thesis
        using it less.prems(2) iteration_length [OF x [unfolded Go y]] wide_free_suffix [OF less.prems(3) it(2)] by simp
    next
      case (Stop r e st1)
      then show ?thesis using less.prems False x by (auto simp: printf_loop.simps [of append_put env "Some t"])
    qed
  qed
qed

section \<open>Results\<close>

text \<open>In the second pass a failure is always reported as -1.\<close>

definition fails_neg :: "('a, 's) step option \<Rightarrow> bool" where
  "fails_neg m \<longleftrightarrow> (\<forall>r e s. m = Some (Stop r e s) \<longrightarrow> r = - 1)"

lemma fails_neg_simps [simp]: "fails_neg None" "fails_neg (Some (Go a s))" "fails_neg (Some (Stop r e s)) \<longleftrightarrow> r = - 1"
  by (simp_all add: fails_neg_def)

lemma fails_neg_if [simp]: "fails_neg (if b then x else y) \<longleftrightarrow> (b \<longrightarrow> fails_neg x) \<and> (\<not> b \<longrightarrow> fails_neg y)"
  by simp

lemma fails_neg_bind: "fails_neg m \<Longrightarrow> (\<And>a s. fails_neg (k a s)) \<Longrightarrow> fails_neg (step_bind m k)"
  by (auto simp: fails_neg_def step_bind_def split: option.splits step.splits)

lemma fails_neg_option [simp]: "(\<And>x. fails_neg (k x)) \<Longrightarrow> fails_neg (m \<bind> k)" "(\<And>x. fails_neg (h x)) \<Longrightarrow> fails_neg (lift_arg m h)"
  by (cases m; simp add: lift_arg_def)+

lemma fails_neg_parts:
  "fails_neg (read_width f fl s st)" "fails_neg (read_precision f s st)" "fails_neg (fetch_arg True pos ty st)"
  "fails_neg (finish_int fl p xp i pre a st)" "fails_neg (conv_x t fl p xp i st)" "fails_neg (conv_o fl p xp i st)"
  "fails_neg (conv_d fl p xp i st)" "fails_neg (conv_s fl p ad st)" "fails_neg (field cnt w cv st)" "fails_neg (conv_wide utf8 fl w p ws st)"
  by (auto simp: read_width_def read_precision_def fetch_arg_def finish_int_def conv_x_def conv_o_def conv_d_def conv_s_def field_def
      conv_wide_def Let_def split: prod.splits option.splits)

lemma fails_neg_convert: "fails_neg (convert env cnt fl w p xp ps t arg st)"
  unfolding convert_def Let_def
  by (intro conjI impI fails_neg_option fails_neg_bind fails_neg_parts | simp split: prod.splits add: fails_neg_bind fails_neg_parts)+

lemma fails_neg_iteration: "fails_neg (iteration env True cnt s st)"
proof -
  have "fails_neg (read_spec True s st)" for s :: bytes and st :: "'a pst"
    unfolding read_spec_def Let_def
    by (auto intro!: fails_neg_bind simp: fails_neg_parts split: prod.splits option.splits)
  then have "fails_neg (directive env True cnt s st)" for s st
    unfolding directive_def by (auto intro!: fails_neg_bind simp: fails_neg_parts fails_neg_convert)
  then show ?thesis unfolding iteration_def by (auto intro!: fails_neg_bind split: prod.splits)
qed

lemma loop_stop:
  "printf_loop put env f st cnt l s = Some (Stop r e st', f') \<Longrightarrow> f \<noteq> None \<Longrightarrow> r = - 1"
proof (induction "length s" arbitrary: f st cnt l s rule: less_induct)
  case less
  show ?case
  proof (cases "INT_MAX - cnt < l \<or> s = []")
    case True
    then show ?thesis using less.prems by (auto simp: printf_loop.simps [of put env f] split: if_splits)
  next
    case False
    obtain x where x: "iteration env True (cnt + l) s st = Some x"
      using less.prems False by (cases "iteration env True (cnt + l) s st") (auto simp: printf_loop.simps [of put env f])
    show ?thesis
    proof (cases x)
      case (Go y st1)
      obtain pieces l1 s1 where y: "y = (pieces, l1, s1)" by (cases y)
      from less.prems False x Go y obtain f1 where e: "emit put pieces f = Some f1" "printf_loop put env f1 st1 (cnt + l) l1 s1 = Some (Stop r e st', f')"
        by (auto simp: printf_loop.simps [of put env f] split: Option.bind_splits)
      have "f1 \<noteq> None" using e(1) less.prems(2) emit_Some by (metis not_None_eq)
      then show ?thesis using less.hyps [OF _ e(2)] iteration_length [OF x [unfolded Go y]] by blast
    next
      case (Stop r' e' st1)
      then show ?thesis using less.prems False x fails_neg_iteration [of env "cnt + l" s st] by (auto simp: printf_loop.simps [of put env f])
    qed
  qed
qed

text \<open>The value that formatted output returns is the number of bytes written (\<^verbatim>\<open>printf_core\<close>): for every format
  without wide character conversions and all arguments, when the result is not negative it is
  exactly the length of the text, with all flags, widths and precisions. The floating point
  conversion is assumed to return the length of what it writes.\<close>

theorem printf_count:
  assumes "formatted env fmt st = Some (ret, st', text)" and "wide_free fmt" and "fp_counts env" and "0 \<le> ret"
  shows "int (length text) = ret"
proof -
  from assms(1,4) obtain st1 where c: "printf_core append_put env (Some []) fmt st1 = Some (ret, st', Some text)"
    by (auto simp: formatted_def split: Option.bind_splits if_splits)
  then obtain x t' where x: "printf_loop append_put env (Some []) (st1\<lparr>p_l10n := False\<rparr>) 0 0 fmt = Some (x, t')"
    unfolding printf_core_def by (cases "printf_loop append_put env (Some []) (st1\<lparr>p_l10n := False\<rparr>) 0 0 fmt") auto
  have "t' \<noteq> None" using printf_loop_Some [OF x] by simp
  then show ?thesis
    using c x assms(4) loop_stop [of append_put env "Some []"] loop_count [of env "[]" _ 0 0 fmt, OF _ _ assms(2,3)]
    unfolding printf_core_def by (cases x) (fastforce split: if_splits)+
qed

section \<open>Integers\<close>

text \<open>The value of a sequence of decimal digits.\<close>

definition decimal :: "bytes \<Rightarrow> nat" where
  "decimal ds = foldl (\<lambda>n d. 10 * n + (unat d - 48)) 0 ds"

lemma decimal_snoc: "decimal (ds @ [d]) = 10 * decimal ds + (unat d - 48)"
  by (simp add: decimal_def)

lemma fmt_u_0: "fmt_u 0 s = s"
  by (simp add: fmt_u.simps [of 0])

lemma fmt_u_append: "fmt_u y s = fmt_u y [] @ s"
proof (induction "unat y" arbitrary: y s rule: less_induct)
  case less
  show ?case
  proof (cases "y = 0")
    case False
    let ?d = "48 + ucast (y mod 10) :: uint8_t"
    have "unat (y div 10) < unat y" using False by (simp add: unat_div_distrib word_unat_eq_iff)
    note IH = less.hyps [OF this]
    have "fmt_u y s = fmt_u (y div 10) (?d # s)" "fmt_u y [] = fmt_u (y div 10) [?d]" using False by (simp_all add: fmt_u.simps [of y])
    then show ?thesis using IH [of "?d # s"] IH [of "[?d]"] by simp
  qed (simp add: fmt_u.simps)
qed

lemma fmt_u_snoc: "y \<noteq> 0 \<Longrightarrow> fmt_u y [] = fmt_u (y div 10) [] @ [48 + ucast (y mod 10)]"
  using fmt_u_append [of "y div 10" "[48 + ucast (y mod 10)]"] by (simp add: fmt_u.simps [of y])

lemma digit_value:
  fixes y :: "64 word"
  shows "unat (ucast (y mod 10) :: uint8_t) = unat y mod 10" and "unat (48 + ucast (y mod 10) :: uint8_t) = 48 + unat y mod 10"
proof -
  have lt: "unat y mod 10 < 10" by simp
  show d: "unat (ucast (y mod 10) :: uint8_t) = unat y mod 10"
    using lt by (simp add: unsigned_ucast_eq unat_mod_distrib take_bit_eq_mod)
  show "unat (48 + ucast (y mod 10) :: uint8_t) = 48 + unat y mod 10" using d lt by (simp add: unat_word_ariths)
qed

text \<open>The digits have the value of the number, and a number that is not zero has no leading zero.\<close>

lemma fmt_u_decimal: "decimal (fmt_u y []) = unat y \<and> (\<forall>d \<in> set (fmt_u y []). isdigit d) \<and> (y \<noteq> 0 \<longrightarrow> hd (fmt_u y []) \<noteq> 48)"
proof (induction "unat y" arbitrary: y rule: less_induct)
  case less
  show ?case
  proof (cases "y = 0")
    case False
    have lt: "unat (y div 10) < unat y" using False by (simp add: unat_div_distrib word_unat_eq_iff)
    note IH = less.hyps [OF lt]
    let ?d = "48 + ucast (y mod 10) :: uint8_t"
    have dv: "unat ?d = 48 + unat y mod 10" by (rule digit_value(2))
    have "unat (?d - 48) = unat y mod 10" using digit_value(1) by simp
    then have dg: "isdigit ?d" by (simp add: isdigit_def word_less_nat_alt)
    have "decimal (fmt_u y []) = unat y"
      using IH dv by (simp add: fmt_u_snoc [OF False] decimal_snoc unat_div_distrib)
    moreover have "hd (fmt_u y []) \<noteq> 48"
    proof (cases "y div 10 = 0")
      case True
      then have "unat (y div 10) = 0" by simp
      then have "unat y < 10" by (simp add: unat_div_distrib)
      then have "unat ?d \<noteq> 48" using dv False by (simp add: word_unat_eq_iff)
      then show ?thesis using True False by (auto simp: fmt_u_snoc [OF False] fmt_u.simps [of 0])
    next
      case nz: False
      then have "fmt_u (y div 10) [] \<noteq> []" by (simp add: fmt_u_snoc)
      then show ?thesis using IH nz by (simp add: fmt_u_snoc [OF False])
    qed
    ultimately show ?thesis using IH dg by (auto simp: fmt_u_snoc [OF False])
  qed (simp add: fmt_u.simps decimal_def)
qed

text \<open>The format \<^verbatim>\<open>%d\<close>.\<close>

definition fmt_d :: bytes where
  "fmt_d = map of_char ''%d''"

lemma read_spec_d:
  "read_spec f fmt_d st = Some (Go (\<lparr>sp_argpos = - 1, sp_fl = 0, sp_w = 0, sp_p = - 1, sp_xp = False, sp_ty = T_INT, sp_ps = BARE, sp_t = 100\<rparr>, []) st)"
  by (simp add: read_spec_def fmt_d_def peek_def isdigit_def read_width_def read_precision_def step_bind_def OOB_def states_def
      states_bare_def among_def is_prefix_def FLAGMASK_def ALT_FORM_def ZERO_PAD_def LEFT_ADJ_def PAD_POS_def MARK_POS_def GROUPED_def Let_def)

lemma literal_d: "literal fmt_d = ([], fmt_d)"
  by (simp add: literal_def fmt_d_def Let_def)

lemma to_int_narrow: "narrow T_INT w = of_int (to_int w)"
  by (simp add: narrow_def to_int_def)

text \<open>The text for an integer: a sign if it is negative, and the digits of its absolute value, at least one.\<close>

definition int_text :: "int \<Rightarrow> bytes" where
  "int_text i = (if i < 0 then [45] else []) @ (if i = 0 then [48] else fmt_u (of_int \<bar>i\<bar>) [])"

lemma fmt_u_length: "unat y < 10 ^ n \<Longrightarrow> length (fmt_u y []) \<le> n"
proof (induction n arbitrary: y)
  case 0
  then show ?case by (simp add: fmt_u.simps word_unat_eq_iff)
next
  case (Suc n)
  show ?case
  proof (cases "y = 0")
    case False
    have "unat (y div 10) < 10 ^ n" using Suc.prems by (simp add: unat_div_distrib less_mult_imp_div_less mult.commute)
    from Suc.IH [OF this] show ?thesis by (simp add: fmt_u_snoc [OF False])
  qed (simp add: fmt_u.simps)
qed

lemma of_int_abs:
  assumes "- (2 ^ 31) \<le> i" and "i < 2 ^ 31"
  shows "unat (of_int \<bar>i\<bar> :: 64 word) = nat \<bar>i\<bar>"
  using assms by (simp add: unat_eq_nat_uint uint_word_of_int take_bit_eq_mod)

lemma conv_d_text:
  assumes "- (2 ^ 31) \<le> i" and "i < 2 ^ 31"
  shows "\<exists>cv. conv_d 0 (- 1) False (of_int i) st = Some (Go cv st) \<and>
     (\<exists>pieces. field 0 0 cv st = Some (Go (pieces, int (length (int_text i))) st) \<and> concat pieces = int_text i)"
proof -
  define b where "b = (of_int \<bar>i\<bar> :: 64 word)"
  define a where "a = fmt_u b []"
  have ab: "unat b = nat \<bar>i\<bar>" unfolding b_def by (rule of_int_abs [OF assms])
  have z: "b = 0 \<longleftrightarrow> i = 0" using ab by (simp add: word_unat_eq_iff)
  have la: "length a \<le> 10" unfolding a_def by (rule fmt_u_length) (use ab assms in simp)
  have a0: "a = [] \<longleftrightarrow> i = 0" using z fmt_u_snoc [of b] by (cases "i = 0") (simp_all add: a_def fmt_u_0)
  define cv where "cv = \<lparr>cv_fl = 0, cv_p = max (- 1) (int (length a) + (if i = 0 then 1 else 0)), cv_prefix = (if i < 0 then [45] else []), cv_text = a\<rparr>"
  have "conv_d 0 (- 1) False (of_int i) st = Some (Go cv st)"
  proof (cases "i < 0")
    case True
    then have m: "- (of_int i :: 64 word) = b" by (simp add: b_def)
    have "i mod 2 ^ 64 = (i + 2 ^ 64) mod 2 ^ 64" by (rule mod_add_self2 [symmetric])
    also have "\<dots> = i + 2 ^ 64" using True assms by (intro mod_pos_pos_trivial) simp_all
    finally have "uint (of_int i :: 64 word) = 2 ^ 64 + i" by (simp add: uint_word_of_int take_bit_eq_mod)
    then have "INTMAX_MAX < of_int i" using assms True by (simp add: INTMAX_MAX_def word_less_def)
    then show ?thesis using True z m by (simp add: conv_d_def finish_int_def cv_def a_def prefix_chars_def)
  next
    case False
    then have "uint (of_int i :: 64 word) = i" using assms by (simp add: uint_word_of_int take_bit_eq_mod)
    then have "\<not> INTMAX_MAX < of_int i" using assms False by (simp add: INTMAX_MAX_def word_less_def)
    moreover have "(of_int i :: 64 word) = b" using False by (simp add: b_def)
    ultimately show ?thesis using False z by (simp add: conv_d_def finish_int_def cv_def a_def)
  qed
  moreover have len: "length (int_text i) = (if i < 0 then 1 else 0) + max 1 (length a)"
    using a0 by (auto simp: int_text_def a_def b_def [symmetric] Suc_le_eq max_def)
  have "int (length (cv_prefix cv)) + max (cv_p cv) (int (length (cv_text cv))) \<le> 12"
    using la by (simp add: cv_def)
  then obtain pieces l where f: "field 0 0 cv st = Some (Go (pieces, l) st)"
    using field_fits [of cv 0 0 st] by (auto simp: INT_MAX_def)
  moreover have "one_pad (cv_fl cv)" by (simp add: cv_def one_pad_def)
  note ft = field_text [OF f this]
  have "concat pieces = int_text i" using ft(1,6) a0 by (auto simp: cv_def int_text_def a_def b_def [symmetric])
  moreover have "l = int (length (int_text i))" using ft(2) \<open>concat pieces = int_text i\<close> by simp
  ultimately show ?thesis by blast
qed

lemma to_int_range: "- (2 ^ 31) \<le> to_int w" "to_int w < 2 ^ 31"
  using sint_range_size [of "ucast w :: 32 word"] by (simp_all add: to_int_def word_size)

lemma iteration_d:
  assumes "va_words (p_ap st) = w # ws"
  shows "iteration env False 0 fmt_d st = Some (Stop 0 None st)"
    and "\<exists>pieces. iteration env True 0 fmt_d st = Some (Go (pieces, int (length (int_text (to_int w))), []) (st\<lparr>p_ap := (p_ap st)\<lparr>va_words := ws\<rparr>\<rparr>)) \<and>
       concat pieces = int_text (to_int w)"
proof -
  have ne: "fmt_d \<noteq> []" "\<not> INT_MAX < 0" by (simp_all add: fmt_d_def INT_MAX_def)
  show "iteration env False 0 fmt_d st = Some (Stop 0 None st)"
    by (simp add: iteration_def literal_d ne directive_def read_spec_d step_bind_def fetch_arg_def)
  let ?st = "st\<lparr>p_ap := (p_ap st)\<lparr>va_words := ws\<rparr>\<rparr>"
  obtain cv pieces where c: "conv_d 0 (- 1) False (of_int (to_int w)) ?st = Some (Go cv ?st)"
    "field 0 0 cv ?st = Some (Go (pieces, int (length (int_text (to_int w)))) ?st)" "concat pieces = int_text (to_int w)"
    using conv_d_text [OF to_int_range, of w ?st] by blast
  have f: "fetch_arg True (- 1) T_INT st = Some (Go (A_word (of_int (to_int w))) ?st)"
    using assms by (simp add: fetch_arg_def pop_arg_def is_word_type_def va_word_def to_int_narrow)
  have "convert env 0 0 0 (- 1) False BARE 100 (A_word (of_int (to_int w))) ?st = Some (Go (pieces, int (length (int_text (to_int w)))) ?st)"
    using c by (simp add: convert_def among_def lift_arg_def arg_i_def step_bind_def)
  then have "iteration env True 0 fmt_d st = Some (Go ([] # pieces, int (length (int_text (to_int w))), []) ?st)"
    using f by (simp add: iteration_def literal_d ne directive_def read_spec_d step_bind_def)
  then show "\<exists>pieces. iteration env True 0 fmt_d st = Some (Go (pieces, int (length (int_text (to_int w))), []) ?st) \<and> concat pieces = int_text (to_int w)"
    using c(3) by (intro exI [of _ "[] # pieces"]) simp
qed

text \<open>Reading a number back.\<close>

definition read_int :: "bytes \<Rightarrow> int" where
  "read_int t = (if t \<noteq> [] \<and> hd t = 45 then - int (decimal (tl t)) else int (decimal t))"

lemma read_int_text:
  assumes "- (2 ^ 31) \<le> i" and "i < 2 ^ 31"
  shows "read_int (int_text i) = i"
proof -
  define b where "b = (of_int \<bar>i\<bar> :: 64 word)"
  have b: "unat b = nat \<bar>i\<bar>" unfolding b_def by (rule of_int_abs [OF assms])
  have d: "decimal (fmt_u b []) = nat \<bar>i\<bar>" "\<forall>d \<in> set (fmt_u b []). isdigit d" using fmt_u_decimal [of b] b by auto
  have ns: "\<not> isdigit 45" by (simp add: isdigit_def)
  then have "fmt_u b [] = [] \<or> hd (fmt_u b []) \<noteq> 45" using d(2) by (metis hd_in_set)
  then show ?thesis using d(1) by (auto simp: read_int_def int_text_def b_def [symmetric] decimal_def)
qed

lemma int_text_length:
  assumes "- (2 ^ 31) \<le> i" and "i < 2 ^ 31"
  shows "int (length (int_text i)) \<le> INT_MAX"
proof -
  define b where "b = (of_int \<bar>i\<bar> :: 64 word)"
  have "unat b = nat \<bar>i\<bar>" unfolding b_def by (rule of_int_abs [OF assms])
  then have "length (fmt_u b []) \<le> 10" using assms by (intro fmt_u_length) simp
  then have "length (int_text i) \<le> 11" by (simp add: int_text_def b_def [symmetric])
  then show ?thesis by (simp add: INT_MAX_def)
qed

lemma formatted_d:
  assumes "va_words (p_ap st) = w # ws"
  shows "\<exists>st'. formatted env fmt_d st = Some (int (length (int_text (to_int w))), st', int_text (to_int w))"
proof -
  let ?t = "int_text (to_int w)"
  define st0 where "st0 = st\<lparr>p_nl_type := replicate (Suc NL_ARGMAX) BARE, p_l10n := False\<rparr>"
  have a0: "va_words (p_ap st0) = w # ws" using assms by (simp add: st0_def)
  obtain pieces where p: "iteration env True 0 fmt_d st0 = Some (Go (pieces, int (length ?t), []) (st0\<lparr>p_ap := (p_ap st0)\<lparr>va_words := ws\<rparr>\<rparr>))"
    "concat pieces = ?t" using iteration_d(2) [OF a0] by blast
  have ne: "fmt_d \<noteq> []" "\<not> INT_MAX < 0" by (simp_all add: fmt_d_def INT_MAX_def)
  have r: "int (length ?t) \<le> INT_MAX" by (rule int_text_length [OF to_int_range])
  have "printf_loop append_put env None st0 0 0 fmt_d = Some (Stop 0 None st0, None)"
    using iteration_d(1) [OF a0] ne by (simp add: printf_loop.simps [of _ _ _ _ _ _ fmt_d])
  then have c1: "printf_core append_put env None fmt_d (st\<lparr>p_nl_type := replicate (Suc NL_ARGMAX) BARE\<rparr>) = Some (0, st0, None)"
    by (simp add: printf_core_def st0_def set_errno_def)
  have l10n: "st0\<lparr>p_l10n := False\<rparr> = st0" by (simp add: st0_def)
  let ?st1 = "st0\<lparr>p_ap := (p_ap st0)\<lparr>va_words := ws\<rparr>\<rparr>"
  have "printf_loop append_put env (Some []) st0 0 0 fmt_d = Some (Go (int (length ?t)) ?st1, Some ?t)"
    using p ne r by (simp add: printf_loop.simps [of _ _ _ _ _ _ fmt_d] printf_loop.simps [of _ _ _ _ _ _ "[]"] emit_append)
  then have "printf_core append_put env (Some []) fmt_d st0 = Some (int (length ?t), ?st1, Some ?t)"
    by (simp add: printf_core_def l10n)
  with c1 have "formatted env fmt_d st = Some (int (length ?t), ?st1, ?t)" by (simp add: formatted_def)
  then show ?thesis by blast
qed

text \<open>C30. Printing an \<^verbatim>\<open>int\<close> with \<^verbatim>\<open>%d\<close> and reading it back: for every value of the argument the call succeeds, its
  result is the length of the text, the text is a sign for negative values followed by decimal digits,
  and its value is the argument, the least \<^verbatim>\<open>int\<close> included.\<close>

theorem printf_int_roundtrip:
  assumes "va_words (p_ap st) = w # ws"
  shows "\<exists>st' text. formatted env fmt_d st = Some (int (length text), st', text) \<and> read_int text = to_int w \<and>
     (\<forall>c \<in> set (if to_int w < 0 then tl text else text). isdigit c)"
proof -
  have "\<forall>c \<in> set (if i < 0 then tl (int_text i) else int_text i). isdigit c" for i
    using fmt_u_decimal [of "of_int \<bar>i\<bar>"] by (simp add: int_text_def isdigit_def)
  with formatted_d [OF assms, of env] read_int_text [OF to_int_range, of w] show ?thesis by metis
qed

section \<open>Examples\<close>

definition demo_env :: "unit penv" where
  "demo_env = \<lparr>e_fmt_fp = (\<lambda>_ _ _ _ _. (- 1, [])), e_strerror = (\<lambda>_. 0), e_utf8 = True\<rparr>"

definition demo_st :: "64 word list \<Rightarrow> unit pst" where
  "demo_st ws = \<lparr>p_mem = Map.empty, p_ap = \<lparr>va_words = ws, va_doubles = [], va_ldoubles = []\<rparr>, p_nl_type = [],
     p_nl_arg = replicate 10 (A_word 0), p_l10n = False, p_errno = 0\<rparr>"

theorem printf_int_roundtrip_witness:
  "\<exists>st' text. formatted demo_env fmt_d (demo_st [0x80000000]) = Some (int (length text), st', text) \<and> read_int text = - (2 ^ 31)"
  using printf_int_roundtrip [of "demo_st [0x80000000]" "0x80000000" "[]" demo_env] by (auto simp: demo_st_def to_int_def)

theorem printf_count_witness:
  "\<exists>st' text. formatted demo_env fmt_d (demo_st [7]) = Some (int (length text), st', text) \<and> text = int_text 7"
proof -
  have v: "va_words (p_ap (demo_st [7])) = 7 # []" by (simp add: demo_st_def)
  obtain st' where f: "formatted demo_env fmt_d (demo_st [7]) = Some (int (length (int_text (to_int 7))), st', int_text (to_int 7))"
    using formatted_d [OF v, of demo_env] by blast
  have "wide_free fmt_d" by (simp add: wide_free_def fmt_d_def less_Suc_eq)
  moreover have "fp_counts demo_env" by (simp add: fp_counts_def demo_env_def)
  ultimately have "int (length (int_text (to_int 7))) = int (length (int_text (to_int 7)))" using printf_count [OF f] by simp
  then show ?thesis using f by (simp add: to_int_def)
qed

end
