(* ===== verification/SharedPtr.thy ===== *)
theory SharedPtr
  imports Handles Sync
begin

text \<open>
  The shared pointer \<^verbatim>\<open>lib::shared_ptr<T>\<close> of \<^verbatim>\<open>kernel/include/lib/shared_ptr.h\<close>. A shared pointer is the
  address of its control block (\<^verbatim>\<open>m_data\<close>), null when it is empty; control blocks live in a store. The
  object behind the pointer is never touched by these operations.
\<close>

section \<open>Operations\<close>

record shared_ptr_data =
  m_ptr :: addr
  m_refCount :: size_t

type_synonym sp_store = "shared_ptr_data store"

definition sp_addRef :: "addr \<Rightarrow> sp_store \<Rightarrow> (size_t \<times> sp_store) option" where
  "sp_addRef self h = do {
     d \<leftarrow> deref h self;
     let (old, new) = atomic_add (m_refCount d) 1;
     Some (old, h(self \<mapsto> d\<lparr>m_refCount := new\<rparr>))
   }"

definition sp_release :: "addr \<Rightarrow> sp_store \<Rightarrow> (size_t \<times> sp_store) option" where
  "sp_release self h = do {
     d \<leftarrow> deref h self;
     let (old, new) = atomic_add (m_refCount d) (- 1);
     Some (old, h(self \<mapsto> d\<lparr>m_refCount := new\<rparr>))
   }"

text \<open>\<open>mem\<close> is the memory of the new control block.\<close>

definition sp_new :: "addr \<Rightarrow> addr \<Rightarrow> sp_store \<Rightarrow> addr \<times> sp_store" where
  "sp_new mem ptr h = (mem, h(mem \<mapsto> \<lparr>m_ptr = ptr, m_refCount = 1\<rparr>))"

text \<open>The copy constructor dereferences the control block without a test for null.\<close>

definition sp_copy :: "addr \<Rightarrow> sp_store \<Rightarrow> (addr \<times> sp_store) option" where
  "sp_copy self h = do {
     (old, h1) \<leftarrow> sp_addRef self h;
     kassert (old \<noteq> 0);
     Some (self, h1)
   }"

text \<open>\<^verbatim>\<open>clear\<close>, also the destructor. The member is reset only when the last reference goes.\<close>

definition sp_clear :: "addr \<Rightarrow> sp_store \<Rightarrow> (addr \<times> sp_store) option" where
  "sp_clear m_data h =
     (if m_data = 0 then Some (m_data, h)
      else do {
        (old, h1) \<leftarrow> sp_release m_data h;
        if old = 1 then Some (0, h1(m_data := None)) else Some (m_data, h1)
      })"

definition sp_assign :: "addr \<Rightarrow> addr \<Rightarrow> sp_store \<Rightarrow> (addr \<times> sp_store) option" where
  "sp_assign this self h = do {
     (_, h1) \<leftarrow> sp_clear this h;
     sp_copy self h1
   }"

definition sp_assign_ptr :: "addr \<Rightarrow> addr \<Rightarrow> addr \<Rightarrow> sp_store \<Rightarrow> (addr \<times> sp_store) option" where
  "sp_assign_ptr mem this ptr h = do {
     (_, h1) \<leftarrow> sp_clear this h;
     Some (sp_new mem ptr h1)
   }"

definition sp_get :: "addr \<Rightarrow> sp_store \<Rightarrow> addr option" where
  "sp_get m_data h =
     (if m_data = 0 then Some 0
      else do { d \<leftarrow> deref h m_data; kassert (m_ptr d \<noteq> 0); Some (m_ptr d) })"

definition sp_equals :: "addr \<Rightarrow> addr \<Rightarrow> sp_store \<Rightarrow> bool option" where
  "sp_equals m_data ptr h =
     (if m_data \<noteq> 0 then do { d \<leftarrow> deref h m_data; Some (m_ptr d = ptr) } else Some (ptr = 0))"

definition sp_isNull :: "addr \<Rightarrow> sp_store \<Rightarrow> bool option" where
  "sp_isNull m_data h = sp_equals m_data 0 h"

section \<open>Counts are exact\<close>

text \<open>\<open>sp_counted h ps\<close>: \<open>ps\<close> are the shared pointers in use, none of them empty; every control block
  counts those that refer to it and exists only while there is one.\<close>

definition block_counts :: "shared_ptr_data option \<Rightarrow> nat \<Rightarrow> bool" where
  "block_counts b n \<longleftrightarrow> (case b of None \<Rightarrow> n = 0 | Some d \<Rightarrow> m_refCount d = of_nat n \<and> n \<noteq> 0)"

definition sp_counted :: "sp_store \<Rightarrow> addr list \<Rightarrow> bool" where
  "sp_counted h ps \<longleftrightarrow> length ps < 2 ^ 63 \<and> 0 \<notin> set ps \<and> (\<forall>p. p \<noteq> 0 \<longrightarrow> block_counts (h p) (count_list ps p))"

lemma block_counts_simps [simp]:
  "block_counts None n \<longleftrightarrow> n = 0" "block_counts (Some d) n \<longleftrightarrow> m_refCount d = of_nat n \<and> n \<noteq> 0"
  by (simp_all add: block_counts_def)

lemma block_counts_pos: "block_counts b n \<Longrightarrow> n \<noteq> 0 \<Longrightarrow> \<exists>d. b = Some d \<and> m_refCount d = of_nat n"
  by (cases b) auto

lemma sp_countedD:
  assumes "sp_counted h ps" and "p \<in> set ps"
  shows "\<exists>d. h p = Some d \<and> m_refCount d = of_nat (count_list ps p) \<and> p \<noteq> 0 \<and> 0 < count_list ps p \<and> count_list ps p < 2 ^ 63"
proof -
  have z: "p \<noteq> 0" using assms by (auto simp: sp_counted_def)
  have c: "count_list ps p \<noteq> 0" "count_list ps p \<le> length ps" using assms(2) by (auto simp: count_list_0_iff count_le_length)
  from assms(1) z have "block_counts (h p) (count_list ps p)" by (simp add: sp_counted_def)
  from block_counts_pos [OF this c(1)] z c assms(1) show ?thesis by (auto simp: sp_counted_def)
qed

lemma sp_copy_counted:
  assumes "sp_counted h ps" and "p \<in> set ps" and "Suc (length ps) < 2 ^ 63"
  shows "\<exists>h'. sp_copy p h = Some (p, h') \<and> sp_counted h' (p # ps) \<and> m_ptr (the (h' p)) = m_ptr (the (h p))"
proof -
  from sp_countedD [OF assms(1,2)] obtain d where
    d: "h p = Some d" "m_refCount d = of_nat (count_list ps p)" "p \<noteq> 0" "0 < count_list ps p" "count_list ps p < 2 ^ 63" by blast
  have "m_refCount d \<noteq> 0" using d(2,4,5) of_nat_eq_0_small [of "count_list ps p", where 'a = 64] by simp
  then have "sp_copy p h = Some (p, h(p \<mapsto> d\<lparr>m_refCount := m_refCount d + 1\<rparr>))"
    using d(1,3) by (simp add: sp_copy_def sp_addRef_def atomic_add_def)
  moreover have "sp_counted (h(p \<mapsto> d\<lparr>m_refCount := m_refCount d + 1\<rparr>)) (p # ps)"
    using assms(1,3) d(2,3) by (simp add: sp_counted_def)
  ultimately show ?thesis using d(1) by simp
qed

lemma sp_clear_counted:
  assumes "sp_counted h (p # ps)"
  shows "\<exists>h' m. sp_clear p h = Some (m, h') \<and> sp_counted h' ps \<and> (m = (if p \<in> set ps then p else 0)) \<and> (h' p = None \<longleftrightarrow> p \<notin> set ps)"
proof -
  from sp_countedD [OF assms, of p] obtain d where
    d: "h p = Some d" "m_refCount d = of_nat (Suc (count_list ps p))" "p \<noteq> 0" "Suc (count_list ps p) < 2 ^ 63" by auto
  have one: "m_refCount d = 1 \<longleftrightarrow> count_list ps p = 0"
    using d(2,4) of_nat_eq_0_small [of "count_list ps p", where 'a = 64] by simp
  have others: "q \<noteq> p \<Longrightarrow> count_list (p # ps) q = count_list ps q" for q by simp
  show ?thesis
  proof (cases "count_list ps p = 0")
    case True
    then have "sp_clear p h = Some (0, h(p := None))"
      using d(1,3) one by (simp add: sp_clear_def sp_release_def atomic_add_def)
    moreover have "sp_counted (h(p := None)) ps" using assms True by (auto simp: sp_counted_def split: if_splits)
    ultimately show ?thesis using True by (auto simp: count_list_0_iff)
  next
    case False
    let ?h = "h(p \<mapsto> d\<lparr>m_refCount := m_refCount d - 1\<rparr>)"
    have "sp_clear p h = Some (p, ?h)"
      using d(1,3) one False by (simp add: sp_clear_def sp_release_def atomic_add_def)
    moreover have "sp_counted ?h ps" using assms False d(2) by (auto simp: sp_counted_def split: if_splits)
    ultimately show ?thesis using False by (auto simp: count_list_0_iff)
  qed
qed

lemma sp_counted_perm:
  assumes "mset ps = mset qs"
  shows "sp_counted h ps = sp_counted h qs"
proof -
  have "count_list ps p = count_list qs p" for p using assms by (metis count_mset)
  moreover have "length ps = length qs" "set ps = set qs" using assms by (metis size_mset, metis set_mset_mset)
  ultimately show ?thesis by (simp only: sp_counted_def)
qed

interpretation sph: handles sp_counted "\<lambda>p h. map_option snd (sp_copy p h)" "\<lambda>p h. map_option snd (sp_clear p h)" "2 ^ 63"
proof unfold_locales
  show "sp_counted h xs \<Longrightarrow> x \<in> set xs \<Longrightarrow> Suc (length xs) < 2 ^ 63 \<Longrightarrow>
     \<exists>h'. map_option snd (sp_copy x h) = Some h' \<and> sp_counted h' (x # xs)" for h x xs
    using sp_copy_counted [of h xs x] by force
  show "sp_counted h (x # xs) \<Longrightarrow> \<exists>h'. map_option snd (sp_clear x h) = Some h' \<and> sp_counted h' xs" for h x xs
    using sp_clear_counted [of h x xs] by force
qed (rule sp_counted_perm)

section \<open>Properties\<close>

text \<open>Shared ownership (the constructors, the assignment and the destructor of \<^verbatim>\<open>shared_ptr\<close>): assigning one
  live pointer to another one, each with its own entry in the list of owners, keeps all counts exact;
  the target's old control block disappears exactly when the target was its last owner.\<close>

theorem sp_assign_correct:
  assumes "sp_counted h (this # self # ps)" and "Suc (Suc (length ps)) < 2 ^ 63"
  shows "\<exists>h'. sp_assign this self h = Some (self, h') \<and> sp_counted h' (self # self # ps) \<and>
     (h' this = None \<longleftrightarrow> this \<notin> set (self # ps))"
proof -
  from sp_clear_counted [OF assms(1)] obtain h1 m where
    h1: "sp_clear this h = Some (m, h1)" "sp_counted h1 (self # ps)" "h1 this = None \<longleftrightarrow> this \<notin> set (self # ps)" by metis
  from sp_copy_counted [OF h1(2)] assms(2) obtain h' where
    h': "sp_copy self h1 = Some (self, h')" "sp_counted h' (self # self # ps)" by auto
  have "h' this = None \<longleftrightarrow> h1 this = None"
    using h'(1) by (auto simp: sp_copy_def sp_addRef_def atomic_add_def deref_def split: bind_splits if_splits)
  with h1 h' show ?thesis by (simp add: sp_assign_def)
qed

definition two_owners :: sp_store where
  "two_owners = [16 \<mapsto> \<lparr>m_ptr = 100, m_refCount = 1\<rparr>, 32 \<mapsto> \<lparr>m_ptr = 200, m_refCount = 1\<rparr>]"

lemma two_owners_counted: "sp_counted two_owners [16, 32]"
  by (auto simp: sp_counted_def two_owners_def)

theorem sp_assign_correct_witness: "\<exists>h'. sp_assign 16 32 two_owners = Some (32, h') \<and> h' 16 = None \<and> sp_counted h' [32, 32]"
  using sp_assign_correct [of two_owners 16 32 "[]"] two_owners_counted by auto

text \<open>\<^verbatim>\<open>clear\<close> leaves the member in place while others own the object, so that the destructor of a pointer
  that was cleared releases a second reference: with two owners the control block is deleted while
  the other owner still refers to it, and every use by that owner faults.\<close>

theorem sp_clear_then_destroy:
  assumes "sp_counted h [p, p]"
  shows "\<exists>m h1 h2. sp_clear p h = Some (m, h1) \<and> m = p \<and> sp_clear m h1 = Some (0, h2) \<and> sp_get p h2 = None \<and> sp_copy p h2 = None"
proof -
  from sp_clear_counted [OF assms] obtain h1 where h1: "sp_clear p h = Some (p, h1)" "sp_counted h1 [p]" by auto
  from sp_clear_counted [OF h1(2)] obtain h2 where h2: "sp_clear p h1 = Some (0, h2)" "h2 p = None" by auto
  have "p \<noteq> 0" using assms by (auto simp: sp_counted_def)
  with h1(1) h2 show ?thesis by (simp add: sp_get_def sp_copy_def sp_addRef_def deref_def)
qed

theorem sp_clear_then_destroy_witness:
  "\<exists>h1 h2. sp_clear 16 [16 \<mapsto> \<lparr>m_ptr = 100, m_refCount = 2\<rparr>] = Some (16, h1) \<and> sp_clear 16 h1 = Some (0, h2) \<and> sp_get 16 h2 = None"
proof -
  have "sp_counted [16 \<mapsto> \<lparr>m_ptr = 100, m_refCount = 2\<rparr>] [16, 16]" by (auto simp: sp_counted_def)
  from sp_clear_then_destroy [OF this] show ?thesis by blast
qed


end
