(* ===== verification/Loader.thy ===== *)
theory Loader
  imports AddrSpace Bytes
begin

text \<open>
  The program loader \<^verbatim>\<open>kernel/loader.cpp\<close>, which maps the pages of an ELF binary on demand. The binary is
  a boot module in the kernel's memory, given as the byte memory \<open>elf\<close>; the packed structs of
  \<^verbatim>\<open>kernel/include/elf.h\<close> are read from it field by field, little endian. The page that is filled is a
  frame of the physical memory of the theory \<open>AddrSpace\<close>; its 512 cells are read as 4096 bytes.
\<close>

section \<open>The bytes of a frame\<close>

definition word_of_pte :: "pte \<Rightarrow> uint64_t" where
  "word_of_pte e = of_bool (e_present e) OR push_bit 1 (of_bool (e_write e)) OR push_bit 2 (of_bool (e_user e)) OR
     push_bit 3 (of_bool (e_write_through e)) OR push_bit 4 (of_bool (e_cache_disable e)) OR
     push_bit 5 (of_bool (e_accessed e)) OR push_bit 6 (of_bool (e_dirty e)) OR push_bit 7 (ucast (e_zero1 e)) OR
     push_bit 9 (of_bool (e_cow_was_writable e)) OR push_bit 10 (of_bool (e_shared e)) OR
     push_bit 11 (of_bool (e_available1 e)) OR push_bit 12 (ucast (e_ppn e)) OR push_bit 40 (ucast (e_zero2 e)) OR
     push_bit 52 (ucast (e_available2 e)) OR push_bit 59 (ucast (e_protection_key e)) OR push_bit 63 (of_bool (e_no_exec e))"

definition pte_of_word :: "uint64_t \<Rightarrow> pte" where
  "pte_of_word w = \<lparr>e_present = bit w 0, e_write = bit w 1, e_user = bit w 2, e_write_through = bit w 3,
     e_cache_disable = bit w 4, e_accessed = bit w 5, e_dirty = bit w 6, e_zero1 = ucast (drop_bit 7 w),
     e_cow_was_writable = bit w 9, e_shared = bit w 10, e_available1 = bit w 11, e_ppn = ucast (drop_bit 12 w),
     e_zero2 = ucast (drop_bit 40 w), e_available2 = ucast (drop_bit 52 w), e_protection_key = ucast (drop_bit 59 w),
     e_no_exec = bit w 63\<rparr>"

text \<open>A page of bytes as cells, and a byte of a frame.\<close>

definition page_cells :: "uint8_t list \<Rightarrow> nat \<Rightarrow> pte" where
  "page_cells bs i = pte_of_word (le_word (take 8 (drop (8 * i) bs)))"

definition frame_byte :: "pmem \<Rightarrow> size_t \<Rightarrow> nat \<Rightarrow> uint8_t" where
  "frame_byte m ppn j = ucast (drop_bit (8 * (j mod 8)) (word_of_pte (m ppn (j div 8))))"

section \<open>ELF structures\<close>

record phdr =
  ph_type :: uint32_t
  ph_flags :: uint32_t
  p_offset :: uint64_t
  p_vaddr :: uint64_t
  p_filesz :: uint64_t
  p_memsz :: uint64_t

definition load_le :: "mem \<Rightarrow> addr \<Rightarrow> nat \<Rightarrow> uint64_t option" where
  "load_le m p n = map_option le_word (load_bytes m p n)"

definition read_phdr :: "mem \<Rightarrow> addr \<Rightarrow> phdr option" where
  "read_phdr elf p = do {
     type \<leftarrow> load_le elf p 4;
     flags \<leftarrow> load_le elf (p + 4) 4;
     offset \<leftarrow> load_le elf (p + 8) 8;
     vaddr \<leftarrow> load_le elf (p + 16) 8;
     filesz \<leftarrow> load_le elf (p + 32) 8;
     memsz \<leftarrow> load_le elf (p + 40) 8;
     Some \<lparr>ph_type = ucast type, ph_flags = ucast flags, p_offset = offset, p_vaddr = vaddr, p_filesz = filesz, p_memsz = memsz\<rparr>
   }"

record loader =
  ld_valid :: bool
  ld_elfBinary :: addr
  ld_phtEntryCount :: size_t
  ld_pht :: addr

section \<open>Validation\<close>

text \<open>\<^verbatim>\<open>isValidBinary\<close>: \<open>k\<close> counts the remaining program headers, \<open>p\<close> is the address of the next one.\<close>

fun check_headers :: "mem \<Rightarrow> nat \<Rightarrow> addr \<Rightarrow> bool option" where
  "check_headers elf 0 p = Some True"
| "check_headers elf (Suc k) p = do {
     ph \<leftarrow> read_phdr elf p;
     if ph_type ph \<noteq> 1 then check_headers elf k (p + 56)
     else if p_vaddr ph AND 0xfff \<noteq> 0 then Some False
     else check_headers elf k (p + 56)
   }"

definition isValidBinary :: "mem \<Rightarrow> addr \<Rightarrow> size_t \<Rightarrow> addr \<Rightarrow> bool option" where
  "isValidBinary elf m_header m_phtEntryCount m_pht =
     (if m_header = 0 then Some False
      else do {
        magic \<leftarrow> load_le elf m_header 4;
        if magic \<noteq> 0x464c457f then Some False
        else check_headers elf (unat m_phtEntryCount) m_pht
      })"

text \<open>The constructor reads the header before it is checked.\<close>

definition new_loader :: "mem \<Rightarrow> addr \<Rightarrow> loader option" where
  "new_loader elf elfBinary = do {
     pht_pos \<leftarrow> load_le elf (elfBinary + 32) 8;
     pht_entries \<leftarrow> load_le elf (elfBinary + 56) 2;
     let pht = elfBinary + pht_pos;
     valid \<leftarrow> isValidBinary elf elfBinary pht_entries pht;
     Some \<lparr>ld_valid = valid, ld_elfBinary = elfBinary, ld_phtEntryCount = pht_entries, ld_pht = pht\<rparr>
   }"

definition entryAddr :: "mem \<Rightarrow> loader \<Rightarrow> addr option" where
  "entryAddr elf ld = load_le elf (ld_elfBinary ld + 24) 8"

section \<open>Loading a page\<close>

definition seg_flags :: "uint32_t \<Rightarrow> uint32_t" where
  "seg_flags flags =
     (let f1 = MAP_USER;
          f2 = (if flags AND 1 = 0 then f1 OR MAP_NOEXEC else f1)
      in if flags AND 2 \<noteq> 0 then f2 OR MAP_WRITE else f2)"

definition covers :: "phdr \<Rightarrow> addr \<Rightarrow> bool" where
  "covers ph a \<longleftrightarrow> \<not> (a < p_vaddr ph \<or> p_vaddr ph + p_memsz ph \<le> a)"

definition load_segment :: "mem \<Rightarrow> addr \<Rightarrow> phdr \<Rightarrow> addr \<Rightarrow> size_t \<Rightarrow> vmem \<Rightarrow> (bool \<times> vmem) option" where
  "load_segment elf m_elfBinary ph a pml4 vm = do {
     (ppn, pm) \<leftarrow> alloc False (v_pages vm);
     let data = replicate 4096 0;
     let page_start_addr = a AND NOT 0xfff;
     let (destAddr, len) = (if p_vaddr ph > page_start_addr
                            then (p_vaddr ph, 4096 - (p_vaddr ph - page_start_addr)) else (page_start_addr, 4096));
     let file_offset = p_offset ph + (destAddr - p_vaddr ph);
     let destOffset = unat (destAddr AND 0xfff);
     src \<leftarrow> load_bytes elf (m_elfBinary + file_offset) (unat len);
     let data1 = take destOffset data @ src @ drop (destOffset + unat len) data;
     vm1 \<leftarrow> map_page_at pml4 (drop_bit PAGE_SHIFT a) ppn (seg_flags (ph_flags ph))
              \<lparr>v_pages = pm, v_mem = (v_mem vm)(ppn := page_cells data1)\<rparr>;
     Some (True, vm1)
   }"

fun load_from :: "mem \<Rightarrow> addr \<Rightarrow> nat \<Rightarrow> addr \<Rightarrow> addr \<Rightarrow> size_t \<Rightarrow> vmem \<Rightarrow> (bool \<times> vmem) option" where
  "load_from elf m_elfBinary 0 p a pml4 vm = Some (False, vm)"
| "load_from elf m_elfBinary (Suc k) p a pml4 vm = do {
     ph \<leftarrow> read_phdr elf p;
     if \<not> covers ph a then load_from elf m_elfBinary k (p + 56) a pml4 vm
     else if ph_type ph \<noteq> 1 then load_from elf m_elfBinary k (p + 56) a pml4 vm
     else load_segment elf m_elfBinary ph a pml4 vm
   }"

definition loader_load :: "mem \<Rightarrow> loader \<Rightarrow> addr \<Rightarrow> size_t \<Rightarrow> vmem \<Rightarrow> (bool \<times> vmem) option" where
  "loader_load elf ld a pml4 vm = load_from elf (ld_elfBinary ld) (unat (ld_phtEntryCount ld)) (ld_pht ld) a pml4 vm"

section \<open>Cells and bytes\<close>

lemma bit_flag: "n < 64 \<Longrightarrow> bit (push_bit k (of_bool (bit w k)) :: uint64_t) n \<longleftrightarrow> n = k \<and> bit (w :: uint64_t) n"
  by (auto simp: bit_simps)

lemma bit_field:
  "n < 64 \<Longrightarrow> bit (push_bit k (ucast (ucast (drop_bit k w) :: 'a::len word)) :: uint64_t) n \<longleftrightarrow>
     k \<le> n \<and> n < k + LENGTH('a) \<and> bit (w :: uint64_t) n"
  by (auto simp: bit_simps)

lemma word_pte_word: "word_of_pte (pte_of_word w) = w"
proof (rule bit_word_eqI)
  fix n assume "n < LENGTH(64)"
  then have n: "n < 64" by simp
  have z: "bit (of_bool (bit w 0) :: uint64_t) n \<longleftrightarrow> n = 0 \<and> bit w n" using bit_flag [OF n, of 0 w] by simp
  have "n = 0 \<or> n = 1 \<or> n = 2 \<or> n = 3 \<or> n = 4 \<or> n = 5 \<or> n = 6 \<or> (7 \<le> n \<and> n < 9) \<or> n = 9 \<or> n = 10 \<or> n = 11 \<or> (12 \<le> n \<and> n < 40) \<or>
    (40 \<le> n \<and> n < 52) \<or> (52 \<le> n \<and> n < 59) \<or> (59 \<le> n \<and> n < 63) \<or> n = 63" using n by presburger
  then show "bit (word_of_pte (pte_of_word w)) n = bit w n"
    unfolding word_of_pte_def pte_of_word_def pte.simps bit_or_iff z bit_flag [OF n] bit_field [OF n] by auto
qed

lemma le_word_byte:
  assumes "i < length bs" and "length bs \<le> 8"
  shows "ucast (drop_bit (8 * i) (le_word bs)) = bs ! i"
proof (rule bit_word_eqI)
  fix n assume "n < LENGTH(8)"
  then have n: "n < 8" by simp
  have "(8 * i + n) div 8 = i" "(8 * i + n) mod 8 = n" "8 * i + n < 64" using n assms by auto
  then show "bit (ucast (drop_bit (8 * i) (le_word bs)) :: uint8_t) n = bit (bs ! i) n"
    using n assms(1) by (simp add: bit_simps bit_le_word)
qed

lemma frame_byte_page:
  assumes "m ppn = page_cells bs" and "length bs = 4096" and "j < 4096"
  shows "frame_byte m ppn j = bs ! j"
proof -
  let ?cell = "take 8 (drop (8 * (j div 8)) bs)"
  have j: "8 * (j div 8) + j mod 8 = j" by simp
  have d: "j div 8 < 512" using assms(3) by (simp add: less_mult_imp_div_less)
  have len: "length ?cell = 8" using d assms(2) by simp
  have "frame_byte m ppn j = ?cell ! (j mod 8)"
    using le_word_byte [of "j mod 8" ?cell] len assms(1) by (simp add: frame_byte_def page_cells_def word_pte_word)
  also have "\<dots> = bs ! (8 * (j div 8) + j mod 8)" using d assms(2) by (subst nth_take) (auto intro!: nth_drop)
  finally show ?thesis by (simp only: j)
qed

section \<open>Mapping leaves other frames alone\<close>

text \<open>A frame in use that is no table below the starting point keeps its cells and its count while a page
  is mapped.\<close>

lemma map_levels_other:
  assumes "map_levels level a virt phys flags vm = Some vm'" and "pm_inv (v_pages vm)" and "unlocked (v_pages vm)"
    and "unat (m_totalPages (v_pages vm)) \<le> 2 ^ 28" and "refs (v_pages vm) q \<noteq> 0"
    and "\<And>p. length p \<le> level \<Longrightarrow> good_path p \<Longrightarrow> node (v_mem vm) a p \<noteq> Some q"
  shows "v_mem vm' q = v_mem vm q \<and> refs (v_pages vm') q = refs (v_pages vm) q"
  using assms
proof (induction level arbitrary: a vm)
  case 0
  then show ?case using "0.prems"(6) [of "[]"] by (auto simp: set_entry_def good_path_def split: if_splits)
next
  case (Suc level)
  let ?i = "table_index (Suc level) virt"
  have aq: "a \<noteq> q" using Suc.prems(6) [of "[]"] by (auto simp: good_path_def)
  show ?case
  proof (cases "e_present (v_mem vm a ?i)")
    case True
    have "node (v_mem vm) (ppn_of (v_mem vm a ?i)) p \<noteq> Some q" if "length p \<le> level" "good_path p" for p
      using Suc.prems(6) [of "?i # p"] that True table_index_less [of "Suc level" virt] by (auto simp: good_path_def)
    with Suc.IH [of "ppn_of (v_mem vm a ?i)" vm] Suc.prems True show ?thesis by (auto simp: Let_def)
  next
    case False
    obtain n pm where al: "alloc False (v_pages vm) = Some (n, pm)"
      using Suc.prems(1) False by (auto simp: Let_def split: bind_splits)
    from alloc_frame [OF Suc.prems(2) _ al] alloc_correct [OF Suc.prems(2) _ al] Suc.prems(3)
    have n: "refs (v_pages vm) n = 0" "pm_inv pm" "unlocked pm" "\<And>b. b \<noteq> n \<Longrightarrow> refs pm b = refs (v_pages vm) b"
      "m_totalPages pm = m_totalPages (v_pages vm)" "unat n < unat (m_totalPages (v_pages vm))" by (auto simp: set_refs_def)
    have nq: "n \<noteq> q" using n(1) Suc.prems(5) by auto
    define vm1 where "vm1 = \<lparr>v_pages = pm, v_mem = set_entry a ?i (table_entry n) (clear_frame n (v_mem vm))\<rparr>"
    have e: "ppn_of (v_mem vm1 a ?i) = n"
      using n(6) Suc.prems(4) by (simp add: vm1_def set_entry_def ppn_table_entry)
    have run: "map_levels level n virt phys flags vm1 = Some vm'"
      using Suc.prems(1) False al e by (simp add: Let_def vm1_def)
    have "node (v_mem vm1) n p \<noteq> Some q" if "length p \<le> level" "good_path p" for p
    proof (cases "a = n")
      case True
      then show ?thesis using that Suc.prems(6) [of p] nq aq
      proof (cases p)
        case (Cons i p')
        have "node (v_mem vm1) n p' \<noteq> Some q" if "length p' \<le> k" "good_path p'" for k p'
          using that
        proof (induction k arbitrary: p')
          case (Suc k)
          then show ?case using True e nq by (cases p') (auto simp: vm1_def set_entry_def clear_frame_def pte_zero_def good_path_def)
        qed (use nq in auto)
        then show ?thesis using that by blast
      qed (use nq in auto)
    next
      case False
      then show ?thesis using nq by (cases p) (auto simp: vm1_def set_entry_def clear_frame_def pte_zero_def)
    qed
    then have "v_mem vm' q = v_mem vm1 q \<and> refs (v_pages vm') q = refs (v_pages vm1) q"
      using Suc.IH [OF run] n Suc.prems(4,5) nq by (auto simp: vm1_def)
    then show ?thesis using aq nq n(4) by (auto simp: vm1_def set_entry_def clear_frame_def)
  qed
qed

text \<open>Filling a frame that is no table changes no table walk.\<close>

lemma node_fill:
  assumes "\<And>p'. length p' < length p \<Longrightarrow> good_path p' \<Longrightarrow> node m t p' \<noteq> Some q" and "good_path p"
  shows "node (m(q := c)) t p = node m t p"
  using assms
proof (induction p arbitrary: t)
  case (Cons i p)
  have t: "t \<noteq> q" using Cons.prems(1) [of "[]"] by (auto simp: good_path_def)
  have "node (m(q := c)) (ppn_of (m t i)) p = node m (ppn_of (m t i)) p" if "e_present (m t i)"
  proof (rule Cons.IH)
    show "node m (ppn_of (m t i)) p' \<noteq> Some q" if "length p' < length p" "good_path p'" for p'
      using Cons.prems(1) [of "i # p'"] Cons.prems(2) that \<open>e_present (m t i)\<close> by (auto simp: good_path_def)
    show "good_path p" using Cons.prems(2) by (simp add: good_path_def)
  qed
  then show ?case using t by (simp only: node.simps fun_upd_other) simp
qed simp

lemma leaf_fill:
  assumes "\<And>p'. length p' \<le> 3 \<Longrightarrow> good_path p' \<Longrightarrow> node m t p' \<noteq> Some q" and "good_path p" and "length p = 4"
  shows "leaf (m(q := c)) t p = leaf m t p"
proof -
  have p: "good_path (butlast p)" "length (butlast p) = 3" using assms(2,3) by (auto simp: good_path_def dest: in_set_butlastD)
  have "node (m(q := c)) t (butlast p) = node m t (butlast p)" using assms(1) p by (intro node_fill) auto
  moreover have "a \<noteq> q" if "node m t (butlast p) = Some a" for a using assms(1) [of "butlast p"] p that by auto
  ultimately show ?thesis by (cases "node m t (butlast p)") (auto simp: leaf_def)
qed

text \<open>Taking a free frame and filling it keeps an address space well formed.\<close>

lemma fill_new_frame:
  assumes "space_ok vm t" and "alloc False (v_pages vm) = Some (n, pm)" and vm0_def: "vm0 = \<lparr>v_pages = pm, v_mem = (v_mem vm)(n := c)\<rparr>"
  shows "space_ok vm0 t" and "refs pm n = 1" and "unat n < 2 ^ 28"
    and "\<And>p. length p \<le> 3 \<Longrightarrow> good_path p \<Longrightarrow> node (v_mem vm0) t p \<noteq> Some n"
    and "\<And>p. length p = 4 \<Longrightarrow> good_path p \<Longrightarrow> leaf (v_mem vm0) t p = leaf (v_mem vm) t p"
proof -
  note ok = space_okD [OF assms(1)]
  from alloc_frame [OF ok(1) _ assms(2)] alloc_correct [OF ok(1) _ assms(2)] ok(2)
  have n: "refs (v_pages vm) n = 0" "pm_inv pm" "unlocked pm" "\<And>b. b \<noteq> n \<Longrightarrow> refs pm b = refs (v_pages vm) b" "refs pm n = 1"
    "m_totalPages pm = m_totalPages (v_pages vm)" "unat n < unat (m_totalPages (v_pages vm))" by (auto simp: set_refs_def)
  show "refs pm n = 1" by (rule n(5))
  show "unat n < 2 ^ 28" using n(7) ok(3) by simp
  have no: "node (v_mem vm) t p \<noteq> Some n" if "length p \<le> 3" "good_path p" for p
    using ok(4) [OF that, of n] n(1) by auto
  have same: "node (v_mem vm0) t p = node (v_mem vm) t p" if "length p \<le> 3" "good_path p" for p
    using that no unfolding vm0_def vmem.simps by (intro node_fill) auto
  show "node (v_mem vm0) t p \<noteq> Some n" if "length p \<le> 3" "good_path p" for p
    using same [OF that] no [OF that] by simp
  show "leaf (v_mem vm0) t p = leaf (v_mem vm) t p" if "length p = 4" "good_path p" for p
    using that no unfolding vm0_def vmem.simps by (intro leaf_fill) auto
  show "space_ok vm0 t"
    unfolding space_ok_def
  proof (intro conjI allI impI)
    show "pm_inv (v_pages vm0)" "unlocked (v_pages vm0)" using n(2,3) by (simp_all add: vm0_def)
    show "unat (m_totalPages (v_pages vm0)) \<le> 2 ^ 28" using ok(3) n(6) by (simp add: vm0_def)
  next
    fix p a assume p: "length p \<le> 3" "good_path p" "node (v_mem vm0) t p = Some a"
    then have "node (v_mem vm) t p = Some a" using same by simp
    then have "unat a < unat (m_totalPages (v_pages vm))" "refs (v_pages vm) a \<noteq> 0" "a \<noteq> n" using ok(4) [OF p(1,2)] n(1) by auto
    then show "unat a < unat (m_totalPages (v_pages vm0))" "refs (v_pages vm0) a \<noteq> 0" using n(4,6) by (simp_all add: vm0_def)
  next
    fix p q a assume p: "length p \<le> 3" "good_path p" "length q \<le> 3" "good_path q"
      "node (v_mem vm0) t p = Some a" "node (v_mem vm0) t q = Some a"
    then show "p = q" using ok(5) [OF p(1-4), of a] same by simp
  qed
qed

text \<open>Mapping a freshly filled frame, the common end of the loader and of the page fault handler's stack
  case.\<close>

lemma map_new_frame:
  assumes "space_ok vm t" and "alloc False (v_pages vm) = Some (n, pm)" and "leaf (v_mem vm) t (path virt) = None"
    and "4 \<le> zeros (m_pagemap (v_pages vm))"
  shows "\<exists>vm'. map_page_at t virt n flags \<lparr>v_pages = pm, v_mem = (v_mem vm)(n := c)\<rparr> = Some vm' \<and> space_ok vm' t \<and>
     leaf (v_mem vm') t (path virt) = Some (leaf_entry n flags) \<and> refs (v_pages vm') n = 1 \<and> v_mem vm' n = c \<and>
     (\<forall>v. path v \<noteq> path virt \<longrightarrow> leaf (v_mem vm') t (path v) = leaf (v_mem vm) t (path v))"
proof -
  let ?vm0 = "\<lparr>v_pages = pm, v_mem = (v_mem vm)(n := c)\<rparr>"
  note f = fill_new_frame [OF assms(1,2), where c = c, OF refl]
  note ok = space_okD [OF f(1)]
  from alloc_zeros [OF space_okD(1,2) [OF assms(1)]] assms(2,4) have z: "3 \<le> zeros (m_pagemap pm)" by fastforce
  have l: "leaf (v_mem ?vm0) t ([] @ rest_path 3 virt) = None"
    using f(5) [of "path virt"] assms(3) unfolding append_Nil path_rest [symmetric] by simp
  have g: "good_path []" by (simp add: good_path_def)
  from map_levels_ok [OF f(1) _ g _ _ l, of t phys flags for phys] z obtain vm' where
    m: "map_levels 3 t virt n flags ?vm0 = Some vm'" "space_ok vm' t" "leaf (v_mem vm') t (path virt) = Some (leaf_entry n flags)"
      "\<forall>q. length q = 4 \<longrightarrow> good_path q \<longrightarrow> q \<noteq> path virt \<longrightarrow> leaf (v_mem vm') t q = leaf (v_mem ?vm0) t q"
    unfolding append_Nil path_rest [symmetric] by auto
  have "v_mem vm' n = v_mem ?vm0 n \<and> refs (v_pages vm') n = refs (v_pages ?vm0) n"
    using m(1) ok(1-3) f(2,4) by (intro map_levels_other [OF m(1)]) auto
  then show ?thesis using m f(2,5) by (auto simp: map_page_at_def)
qed

section \<open>Addresses within a page\<close>

lemma page_offset: "unat (a AND 0xfff :: addr) = unat a mod 4096"
proof -
  have "a AND 0xfff = a mod 4096" using take_bit_eq_mask [of 12 a] by (simp add: take_bit_eq_mod mask_eq_exp_minus_1)
  then show ?thesis by (simp only: unat_mod_distrib) simp
qed

lemma page_start: "unat (a AND NOT 0xfff :: addr) = unat a - unat a mod 4096"
proof -
  have "(a AND NOT 0xfff) + (a AND 0xfff) = (a AND NOT 0xfff) OR (a AND 0xfff)"
    by (rule disjunctive_add) (auto simp: bit_simps)
  also have "\<dots> = a" by (rule bit_word_eqI) (auto simp: bit_simps)
  finally have "a AND NOT 0xfff = a - (a AND 0xfff)" by (simp add: eq_diff_eq)
  moreover have "a AND 0xfff \<le> a" by (rule word_and_le2)
  ultimately show ?thesis by (simp add: unat_sub page_offset)
qed

lemma aligned_below:
  assumes "v AND 0xfff = (0 :: addr)" and "v \<le> a"
  shows "v \<le> a AND NOT 0xfff"
proof -
  have v: "unat v mod 4096 = 0" using page_offset [of v] assms(1) by simp
  then obtain k where k: "unat v = 4096 * k" by (auto simp: dvd_eq_mod_eq_0 [symmetric] elim: dvdE)
  have "unat v \<le> unat a" using assms(2) by (simp add: word_le_nat_alt)
  then have "4096 * k \<le> 4096 * (unat a div 4096)" using k by (simp add: less_eq_div_iff_mult_less_eq)
  then have "unat v \<le> unat a - unat a mod 4096" using k by (simp add: minus_mod_eq_mult_div)
  then show ?thesis unfolding word_le_nat_alt page_start .
qed

lemma page_start_aligned: "(a AND NOT 0xfff) AND 0xfff = (0 :: addr)"
  by (rule bit_word_eqI) (auto simp: bit_simps)

section \<open>Program headers\<close>

text \<open>All program headers of a binary.\<close>

fun read_headers :: "mem \<Rightarrow> nat \<Rightarrow> addr \<Rightarrow> phdr list option" where
  "read_headers elf 0 p = Some []"
| "read_headers elf (Suc k) p = do { ph \<leftarrow> read_phdr elf p; phs \<leftarrow> read_headers elf k (p + 56); Some (ph # phs) }"

lemma check_headers_aligned:
  "check_headers elf k p = Some True \<Longrightarrow> read_headers elf k p = Some phs \<Longrightarrow> ph \<in> set phs \<Longrightarrow> ph_type ph = 1 \<Longrightarrow>
     p_vaddr ph AND 0xfff = 0"
  by (induction k arbitrary: p phs) (auto split: bind_splits if_splits)

lemma load_from_first:
  assumes "read_headers elf k p = Some (pre @ ph # post)" and "\<forall>h \<in> set pre. \<not> (covers h a \<and> ph_type h = 1)"
    and "covers ph a" and "ph_type ph = 1"
  shows "load_from elf bin k p a t vm = load_segment elf bin ph a t vm"
  using assms(1,2)
proof (induction pre arbitrary: k p)
  case Nil
  then show ?case using assms(3,4) by (cases k) (auto split: bind_splits)
next
  case (Cons h pre)
  then obtain k' where k: "k = Suc k'" by (cases k) auto
  with Cons.prems have "read_phdr elf p = Some h" "read_headers elf k' (p + 56) = Some (pre @ ph # post)"
    by (auto split: bind_splits)
  then show ?case using Cons.IH [of k' "p + 56"] Cons.prems(2) k by auto
qed

lemma load_from_none:
  assumes "read_headers elf k p = Some phs" and "\<forall>h \<in> set phs. \<not> (covers h a \<and> ph_type h = 1)"
  shows "load_from elf bin k p a t vm = Some (False, vm)"
  using assms by (induction k arbitrary: p phs) (auto split: bind_splits)
section \<open>Properties\<close>

lemma load_segment_ok:
  assumes "covers ph a" and "p_vaddr ph AND 0xfff = 0"
    and src: "\<And>j. j < 4096 \<Longrightarrow> elf (bin + (p_offset ph + ((a AND NOT 0xfff) - p_vaddr ph)) + of_nat j) \<noteq> None"
    and ok: "space_ok vm t" "leaf (v_mem vm) t (path (drop_bit PAGE_SHIFT a)) = None" "4 \<le> zeros (m_pagemap (v_pages vm))"
  shows "\<exists>vm' n. load_segment elf bin ph a t vm = Some (True, vm') \<and> space_ok vm' t \<and>
     leaf (v_mem vm') t (path (drop_bit PAGE_SHIFT a)) = Some (leaf_entry n (seg_flags (ph_flags ph))) \<and> refs (v_pages vm') n = 1 \<and>
     (\<forall>j < 4096. elf (bin + (p_offset ph + ((a AND NOT 0xfff) - p_vaddr ph)) + of_nat j) = Some (frame_byte (v_mem vm') n j)) \<and>
     (\<forall>v. path v \<noteq> path (drop_bit PAGE_SHIFT a) \<longrightarrow> leaf (v_mem vm') t (path v) = leaf (v_mem vm) t (path v))"
proof -
  let ?src = "bin + (p_offset ph + ((a AND NOT 0xfff) - p_vaddr ph))"
  have "p_vaddr ph \<le> a" using assms(1) by (simp add: covers_def not_less)
  then have no: "\<not> (a AND NOT 0xfff < p_vaddr ph)" using aligned_below [OF assms(2)] by (simp only: not_less)
  obtain n pm where al: "alloc False (v_pages vm) = Some (n, pm)"
    using alloc_zeros [OF space_okD(1,2) [OF ok(1)]] ok(3) by (metis less_le_trans zero_less_numeral)
  from load_bytes_mapped [of 4096 elf ?src] src obtain bs where bs: "load_bytes elf ?src 4096 = Some bs" by blast
  note b = load_bytes_nth [OF bs]
  from map_new_frame [OF ok(1) al ok(2,3), of "seg_flags (ph_flags ph)" "page_cells bs"] obtain vm' where
    m: "map_page_at t (drop_bit PAGE_SHIFT a) n (seg_flags (ph_flags ph)) \<lparr>v_pages = pm, v_mem = (v_mem vm)(n := page_cells bs)\<rparr> = Some vm'"
      "space_ok vm' t" "leaf (v_mem vm') t (path (drop_bit PAGE_SHIFT a)) = Some (leaf_entry n (seg_flags (ph_flags ph)))"
      "refs (v_pages vm') n = 1" "v_mem vm' n = page_cells bs"
      "\<forall>v. path v \<noteq> path (drop_bit PAGE_SHIFT a) \<longrightarrow> leaf (v_mem vm') t (path v) = leaf (v_mem vm) t (path v)" by blast
  have "load_segment elf bin ph a t vm = Some (True, vm')"
    unfolding load_segment_def Let_def al if_not_P [OF no] using m(1) bs b by (simp add: page_start_aligned [simplified])
  moreover have "elf (?src + of_nat j) = Some (frame_byte (v_mem vm') n j)" if "j < 4096" for j
    using frame_byte_page [of "v_mem vm'" n bs j] m(5) b that by simp
  ultimately show ?thesis using m by blast
qed


text \<open>An address that no \<^verbatim>\<open>LOAD\<close> segment covers is refused and nothing changes.\<close>

theorem load_refuses:
  assumes "read_headers elf (unat (ld_phtEntryCount ld)) (ld_pht ld) = Some phs" and "\<forall>h \<in> set phs. \<not> (covers h a \<and> ph_type h = 1)"
  shows "loader_load elf ld a t vm = Some (False, vm)"
  unfolding loader_load_def by (rule load_from_none [OF assms])

section \<open>Examples\<close>

text \<open>A binary at \<open>0x8000\<close> with one read-write segment for the addresses from \<open>0x1000\<close>, of which only the
  first 16 bytes are in the file.\<close>

definition demo_header :: "uint8_t list" where
  "demo_header = [0x7f, 0x45, 0x4c, 0x46] @ replicate 28 0 @ [64] @ replicate 23 0 @ [1] @ replicate 7 0 @
     [1, 0, 0, 0, 2, 0, 0, 0] @ [120] @ replicate 7 0 @ [0, 0x10] @ replicate 6 0 @ replicate 8 0 @ [16] @ replicate 7 0 @
     [0, 0x10] @ replicate 6 0 @ replicate 8 0"

definition demo_elf :: mem where
  "demo_elf p = (if p < 0x8000 \<or> 0xc000 \<le> p then None
     else if p < 0x8078 then Some (demo_header ! unat (p - 0x8000)) else Some 7)"

definition demo_loader :: loader where
  "demo_loader = \<lparr>ld_valid = True, ld_elfBinary = 0x8000, ld_phtEntryCount = 1, ld_pht = 0x8040\<rparr>"

definition demo_phdr :: phdr where
  "demo_phdr = \<lparr>ph_type = 1, ph_flags = 2, p_offset = 120, p_vaddr = 0x1000, p_filesz = 16, p_memsz = 0x1000\<rparr>"

lemma demo_read: "read_phdr demo_elf 0x8040 = Some demo_phdr"
  by code_simp


lemma demo_new: "new_loader demo_elf 0x8000 = Some demo_loader"
  by code_simp

lemma demo_headers: "read_headers demo_elf (unat (ld_phtEntryCount demo_loader)) (ld_pht demo_loader) = Some ([] @ demo_phdr # [])"
  by (simp add: demo_loader_def numeral_eq_Suc demo_read)

lemma demo_source: "\<forall>j < 4096. demo_elf (0x8000 + (p_offset demo_phdr + ((0x1234 AND NOT 0xfff) - p_vaddr demo_phdr)) + of_nat j) = Some 7"
proof (intro allI impI)
  fix j :: nat assume j: "j < 4096"
  have u: "unat (of_nat j :: addr) = j" using j by (intro unat_of_nat_small) simp
  have s: "(0x8000 :: addr) + (p_offset demo_phdr + ((0x1234 AND NOT 0xfff) - p_vaddr demo_phdr)) = 0x8078" by (simp add: demo_phdr_def)
  have "unat (0x8078 + of_nat j :: addr) = 0x8078 + j" using u j by (simp add: unat_word_ariths)
  then have "\<not> 0x8078 + of_nat j < (0x8000 :: addr)" "\<not> (0xc000 :: addr) \<le> 0x8078 + of_nat j" "\<not> 0x8078 + of_nat j < (0x8078 :: addr)"
    using j by (simp_all add: word_less_nat_alt word_le_nat_alt)
  then show "demo_elf (0x8000 + (p_offset demo_phdr + ((0x1234 AND NOT 0xfff) - p_vaddr demo_phdr)) + of_nat j) = Some 7"
    unfolding s by (simp add: demo_elf_def)
qed

lemma demo_covers: "covers demo_phdr 0x1234" "ph_type demo_phdr = 1"
  by (simp_all add: covers_def demo_phdr_def)


theorem load_refuses_witness: "loader_load demo_elf demo_loader 0x5000 0 demo_vm = Some (False, demo_vm)"
  using load_refuses [OF demo_headers, of "0x5000"] by (simp add: covers_def demo_phdr_def)


end
