(* ===== verification/UserTask.thy ===== *)
theory UserTask
  imports UserProc CopyOnWrite SharedPtr Loader
begin

text \<open>
  User tasks: the register frames of \<^verbatim>\<open>arch/x86_64/context.cpp\<close>, the lazy switching of the floating point
  unit in \<^verbatim>\<open>kernel/fpu.cpp\<close> and \<^verbatim>\<open>arch/x86_64/fpu.cpp\<close>, and \<^verbatim>\<open>kernel/user_task.cpp\<close>. The record \<open>kernel\<close> holds the
  state that tasks and processes share; the theories \<open>Process\<close>, \<open>PageFault\<close> and \<open>Interrupt\<close> work on
  it.
\<close>

section \<open>Register frames\<close>

record irq_context =
  r15 :: size_t
  r14 :: size_t
  r13 :: size_t
  r12 :: size_t
  r11 :: size_t
  r10 :: size_t
  r9 :: size_t
  r8 :: size_t
  rdi :: size_t
  rsi :: size_t
  rdx :: size_t
  rcx :: size_t
  rbx :: size_t
  rax :: size_t
  rbp :: size_t
  irq_id :: size_t
  error_id :: size_t
  rip :: size_t
  reg_cs :: size_t
  rflags :: size_t
  rsp :: size_t
  reg_ss :: size_t

definition IRQ_CONTEXT_SIZE :: size_t where "IRQ_CONTEXT_SIZE = 22 * 8"

definition new_irq_context :: irq_context where
  "new_irq_context = \<lparr>r15 = 0, r14 = 0, r13 = 0, r12 = 0, r11 = 0, r10 = 0, r9 = 0, r8 = 0, rdi = 0, rsi = 0, rdx = 0,
     rcx = 0, rbx = 0, rax = 0, rbp = 0, irq_id = 0, error_id = 0, rip = 0, reg_cs = 0, rflags = 0x0200, rsp = 0, reg_ss = 0\<rparr>"

definition newUserCtx :: "irq_context \<Rightarrow> irq_context" where
  "newUserCtx c = c\<lparr>reg_cs := 0x1b, reg_ss := 0x23\<rparr>"

definition newCompatUserCtx :: "irq_context \<Rightarrow> irq_context" where
  "newCompatUserCtx c = c\<lparr>reg_cs := 0x2b, reg_ss := 0x33\<rparr>"

definition newKernelCtx :: "irq_context \<Rightarrow> irq_context" where
  "newKernelCtx c = c\<lparr>reg_cs := 0x08, reg_ss := 0x10\<rparr>"

section \<open>State\<close>

text \<open>\<open>ut_fpuContext\<close> are the 512 bytes of the saved FPU state.\<close>

record user_task =
  ut_process :: addr
  ut_stack :: size_t
  ut_threadPtr :: addr
  ut_fpuContext :: "uint8_t list"

text \<open>The objects behind pointers are in one store per class; an address space object is represented by
  its top-level table. \<open>k_fpuRegs\<close> are the registers of the floating point unit.\<close>

record kernel =
  k_sched :: sched
  k_contexts :: "irq_context store"
  k_userTasks :: "user_task store"
  k_fpuTask :: addr
  k_fpuRegs :: "uint8_t list"
  k_procs :: "user_proc store"
  k_procList :: "klist \<times> addr nodes"
  k_pidCounter :: size_t
  k_spaces :: "size_t store"
  k_kernelSpace :: size_t
  k_vm :: vmem
  k_files :: files
  k_shared :: sp_store
  k_loaders :: "loader store"
  k_elf :: mem

abbreviation current :: "kernel \<Rightarrow> addr" where
  "current k \<equiv> s_currentTask (k_sched k)"

section \<open>Floating point unit\<close>

definition fpu_clearTrap :: "cpu \<Rightarrow> cpu" where
  "fpu_clearTrap c = (if \<not> cpu_fpuEnabled c then c else c\<lparr>cpu_fpuTrap := False\<rparr>)"

text \<open>\<open>fpu_save\<close> is \<^verbatim>\<open>fxsave\<close> into the context of a task, \<open>fpu_restore\<close> is \<^verbatim>\<open>fxrstor\<close>.\<close>

definition fpu_save :: "addr \<Rightarrow> kernel \<Rightarrow> kernel option" where
  "fpu_save t k = do {
     uts \<leftarrow> modify (k_userTasks k) t (ut_fpuContext_update (\<lambda>_. k_fpuRegs k));
     Some (k\<lparr>k_userTasks := uts\<rparr>)
   }"

definition fpu_restore :: "addr \<Rightarrow> kernel \<Rightarrow> kernel option" where
  "fpu_restore t k = do {
     ut \<leftarrow> deref (k_userTasks k) t;
     Some (k\<lparr>k_fpuRegs := ut_fpuContext ut\<rparr>)
   }"

definition fpu_onFault :: "kernel \<Rightarrow> kernel option" where
  "fpu_onFault k = do {
     let k1 = k\<lparr>k_sched := (k_sched k)\<lparr>s_cpu := fpu_clearTrap (s_cpu (k_sched k))\<rparr>\<rparr>;
     currentTask \<leftarrow> currentUserTask (k_sched k1);
     if k_fpuTask k1 \<noteq> currentTask then do {
       k2 \<leftarrow> (if k_fpuTask k1 \<noteq> 0 then fpu_save (k_fpuTask k1) k1 else Some k1);
       k3 \<leftarrow> fpu_restore currentTask k2;
       Some (k3\<lparr>k_fpuTask := currentTask\<rparr>)
     } else Some k1
   }"

definition fpu_clear :: "kernel \<Rightarrow> kernel" where
  "fpu_clear k =
     (if k_fpuTask k = current k
      then k\<lparr>k_fpuTask := 0, k_sched := (k_sched k)\<lparr>s_cpu := fpu_enableTrap (s_cpu (k_sched k))\<rparr>\<rparr>
      else k)"

section \<open>User tasks\<close>

definition EXIT_ADDR :: addr where "EXIT_ADDR = 0xffff8000deadbeef"

text \<open>The constructor of a new task. \<open>self\<close> is the task's address and \<open>stack\<close> its kernel stack; memory from
  \<^verbatim>\<open>kmalloc\<close> is cleared, so the saved FPU state starts as zeros.\<close>

definition new_user_task :: "addr \<Rightarrow> addr \<Rightarrow> addr \<Rightarrow> addr \<Rightarrow> addr \<Rightarrow> addr \<Rightarrow> kernel \<Rightarrow> kernel option" where
  "new_user_task self stack process entryPoint arg1 arg2 k = do {
     pr \<leftarrow> deref (k_procs k) process;
     let s1 = new_task IRQ_CONTEXT_SIZE self (p_addrSpace pr) True stack (k_sched k);
     t \<leftarrow> deref (s_tasks s1) self;
     (top, v) \<leftarrow> allocStack (p_stackList pr);
     let c = (newUserCtx new_irq_context)\<lparr>rip := entryPoint, rsp := top - 8, rdi := arg1, rsi := arg2, rdx := m_tid t\<rparr>;
     Some (k\<lparr>k_sched := s1, k_contexts := (k_contexts k)(m_context t \<mapsto> c),
       k_procs := (k_procs k)(process \<mapsto> pr\<lparr>p_stackList := v\<rparr>),
       k_userTasks := (k_userTasks k)(self \<mapsto> \<lparr>ut_process = process, ut_stack = top, ut_threadPtr = 0,
         ut_fpuContext = replicate 512 0\<rparr>)\<rparr>)
   }"

text \<open>The constructor used by fork: the new task gets the saved registers of \<open>forkee\<close> with the return value
  0, its stack, and a copy of its saved FPU state.\<close>

definition fork_user_task :: "addr \<Rightarrow> addr \<Rightarrow> addr \<Rightarrow> addr \<Rightarrow> kernel \<Rightarrow> kernel option" where
  "fork_user_task self stack process forkee k = do {
     pr \<leftarrow> deref (k_procs k) process;
     let s1 = new_task IRQ_CONTEXT_SIZE self (p_addrSpace pr) True stack (k_sched k);
     t \<leftarrow> deref (s_tasks s1) self;
     f \<leftarrow> deref (s_tasks s1) forkee;
     fu \<leftarrow> deref (k_userTasks k) forkee;
     c \<leftarrow> deref (k_contexts k) (m_context f);
     Some (k\<lparr>k_sched := s1, k_contexts := (k_contexts k)(m_context t \<mapsto> c\<lparr>rax := 0\<rparr>),
       k_userTasks := (k_userTasks k)(self \<mapsto> fu\<lparr>ut_process := process\<rparr>)\<rparr>)
   }"

text \<open>\<open>ctx\<close> is the frame that the yield pushes; the result is the frame of the task that runs next.\<close>

definition user_task_exit :: "addr \<Rightarrow> addr \<Rightarrow> kernel \<Rightarrow> (addr \<times> kernel) option" where
  "user_task_exit self ctx k = do {
     let k1 = fpu_clear k;
     (ctx1, s1) \<leftarrow> task_exit self ctx (k_sched k1);
     Some (ctx1, k1\<lparr>k_sched := s1\<rparr>)
   }"

definition asyncExit :: "addr \<Rightarrow> kernel \<Rightarrow> kernel option" where
  "asyncExit self k = do {
     kassert (current k \<noteq> self);
     t \<leftarrow> deref (s_tasks (k_sched k)) self;
     cs \<leftarrow> modify (k_contexts k) (m_context t) (rip_update (\<lambda>_. EXIT_ADDR));
     Some (k\<lparr>k_contexts := cs\<rparr>)
   }"

text \<open>The destructor, with the memory of the task given back.\<close>

definition delete_user_task :: "addr \<Rightarrow> kernel \<Rightarrow> kernel option" where
  "delete_user_task self k = do {
     ut \<leftarrow> deref (k_userTasks k) self;
     pr \<leftarrow> deref (k_procs k) (ut_process ut);
     v \<leftarrow> releaseStack (ut_stack ut) (p_stackList pr);
     Some (k\<lparr>k_procs := (k_procs k)(ut_process ut \<mapsto> pr\<lparr>p_stackList := v\<rparr>), k_userTasks := (k_userTasks k)(self := None),
       k_sched := (k_sched k)\<lparr>s_tasks := (s_tasks (k_sched k))(self := None)\<rparr>\<rparr>)
   }"

definition setThreadPtr :: "addr \<Rightarrow> addr \<Rightarrow> kernel \<Rightarrow> kernel option" where
  "setThreadPtr self ptr k = do {
     uts \<leftarrow> modify (k_userTasks k) self (ut_threadPtr_update (\<lambda>_. ptr));
     Some (k\<lparr>k_userTasks := uts\<rparr>)
   }"

definition getThreadPtr :: "addr \<Rightarrow> kernel \<Rightarrow> addr option" where
  "getThreadPtr self k = do { ut \<leftarrow> deref (k_userTasks k) self; Some (ut_threadPtr ut) }"

section \<open>Each task has its own floating point registers\<close>

text \<open>The registers a task sees: those of the unit while it owns the unit, else the saved ones.\<close>

definition fpu_view :: "kernel \<Rightarrow> addr \<Rightarrow> uint8_t list option" where
  "fpu_view k t = (if t = k_fpuTask k then Some (k_fpuRegs k) else map_option ut_fpuContext (k_userTasks k t))"

text \<open>The steps that concern the unit: a task uses it while the trap is off, a use with the trap on faults,
  the scheduler switches, a task exits.\<close>

inductive fpu_step :: "kernel \<Rightarrow> kernel \<Rightarrow> bool" where
  use: "\<not> cpu_fpuTrap (s_cpu (k_sched k)) \<Longrightarrow> fpu_step k (k\<lparr>k_fpuRegs := regs\<rparr>)"
| fault: "cpu_fpuTrap (s_cpu (k_sched k)) \<Longrightarrow> fpu_onFault k = Some k' \<Longrightarrow> fpu_step k k'"
| switch: "schedule ctx (k_sched k) = Some (ctx', s') \<Longrightarrow> fpu_step k (k\<lparr>k_sched := s'\<rparr>)"
| leave: "user_task_exit (current k) ctx k = Some (ctx', k') \<Longrightarrow> fpu_step k k'"

text \<open>While the trap is off the running task owns the unit; the owner is a live user task.\<close>

definition fpu_inv :: "kernel \<Rightarrow> bool" where
  "fpu_inv k \<longleftrightarrow> cpu_fpuEnabled (s_cpu (k_sched k)) \<and>
     (\<not> cpu_fpuTrap (s_cpu (k_sched k)) \<longrightarrow> k_fpuTask k = current k \<and> current k \<noteq> 0) \<and>
     (k_fpuTask k \<noteq> 0 \<longrightarrow> k_userTasks k (k_fpuTask k) \<noteq> None)"

lemma getNextTask_frame:
  assumes "getNextTask s = Some y"
  shows "s_currentTask (snd y) = s_currentTask s \<and> s_cpu (snd y) = s_cpu s"
proof (rule getNextTask.raw_induct [OF _ assms])
  fix g s y
  assume ih: "\<And>s y. g s = Some y \<Longrightarrow> s_currentTask (snd y) = s_currentTask s \<and> s_cpu (snd y) = s_cpu s"
    and run: "rotate_list (s_taskList s) \<bind> (\<lambda>q. front_item q \<bind> (\<lambda>task. kassert (task \<noteq> 0) \<bind> (\<lambda>_. deref (s_tasks s) task \<bind>
      (\<lambda>t. case schedulable (s_timerTicks s) t of (b, t1) \<Rightarrow>
        let s1 = s\<lparr>s_taskList := q, s_tasks := (s_tasks s)(task \<mapsto> t1)\<rparr> in if \<not> b then g s1 else Some (task, s1))))) = Some y"
  from run show "s_currentTask (snd y) = s_currentTask s \<and> s_cpu (snd y) = s_cpu s"
    by (auto simp: Let_def split: bind_splits prod.splits if_splits dest!: ih)
qed

lemma schedule_cpu:
  assumes "schedule ctx s = Some (ctx', s')"
  shows "cpu_fpuEnabled (s_cpu s') = cpu_fpuEnabled (s_cpu s) \<and>
     (s_currentTask s' = s_currentTask s \<and> s_cpu s' = s_cpu s \<or> s_currentTask s' \<noteq> 0 \<and> cpu_fpuTrap (s_cpu s') = (cpu_fpuEnabled (s_cpu s) \<or> cpu_fpuTrap (s_cpu s)))"
proof (cases "s_schedEnable s")
  case False
  then show ?thesis using assms by (simp add: schedule_def)
next
  case True
  then obtain n s1 where n: "getNextTask s = Some (n, s1)" using assms by (cases "getNextTask s") (auto simp: schedule_def)
  note f = getNextTask_frame [OF n, simplified]
  show ?thesis
  proof (cases "n = s_currentTask s1")
    case True
    then show ?thesis using assms n f \<open>s_schedEnable s\<close> by (simp add: schedule_def)
  next
    case False
    then show ?thesis using assms n f \<open>s_schedEnable s\<close>
      by (auto simp: schedule_def fpu_enableTrap_def Let_def deref_def split: bind_splits if_splits)
  qed
qed

text \<open>The fault handler returns, hands the unit to the running task and changes no task's registers.\<close>

lemma fpu_onFault_ok:
  assumes "fpu_inv k" and "current k \<noteq> 0" and "s_tasks (k_sched k) (current k) = Some t" and "t_isUserTask t"
    and "k_userTasks k (current k) = Some ut"
  shows "\<exists>k'. fpu_onFault k = Some k' \<and> fpu_inv k' \<and> current k' = current k \<and> k_fpuTask k' = current k \<and>
     \<not> cpu_fpuTrap (s_cpu (k_sched k')) \<and> (\<forall>t. t \<noteq> 0 \<longrightarrow> fpu_view k' t = fpu_view k t)"
  using assms by (auto simp: fpu_onFault_def fpu_inv_def currentUserTask_def fpu_save_def fpu_restore_def fpu_view_def
      fpu_clearTrap_def Let_def)

lemma fpu_onFault_inv:
  assumes "fpu_onFault k = Some k'" and "fpu_inv k"
  shows "fpu_inv k' \<and> current k' = current k \<and> (\<forall>t. t \<noteq> 0 \<longrightarrow> fpu_view k' t = fpu_view k t)"
proof -
  from assms(1) obtain t where t: "current k \<noteq> 0" "s_tasks (k_sched k) (current k) = Some t" "t_isUserTask t"
    by (auto simp: fpu_onFault_def currentUserTask_def deref_def Let_def split: bind_splits if_splits)
  show ?thesis
  proof (cases "k_userTasks k (current k)")
    case None
    have "fpu_restore (current k) (k\<lparr>k_sched := s, k_userTasks := us\<rparr>) = None" if "us (current k) = None" for s us
      using that by (simp add: fpu_restore_def deref_def)
    with None have "k_fpuTask k = current k"
      using assms(1) t by (auto simp: fpu_onFault_def currentUserTask_def fpu_save_def fpu_restore_def modify_def deref_def Let_def split: option.splits if_splits bind_splits)
    with None t(1) assms(2) show ?thesis by (auto simp: fpu_inv_def)
  next
    case (Some ut)
    from fpu_onFault_ok [OF assms(2) t Some] assms(1) show ?thesis by auto
  qed
qed

lemma fpu_clear_inv:
  assumes "fpu_inv k"
  shows "fpu_inv (fpu_clear k) \<and> cpu_fpuTrap (s_cpu (k_sched (fpu_clear k))) \<and> current (fpu_clear k) = current k \<and>
     (\<forall>t. t \<noteq> 0 \<longrightarrow> t \<noteq> current k \<longrightarrow> fpu_view (fpu_clear k) t = fpu_view k t)"
  using assms by (auto simp: fpu_clear_def fpu_inv_def fpu_view_def fpu_enableTrap_def)

lemma schedule_fpu_inv:
  assumes "schedule ctx (k_sched k) = Some (ctx', s')" and "fpu_inv k"
  shows "fpu_inv (k\<lparr>k_sched := s'\<rparr>)"
  using schedule_cpu [OF assms(1)] assms(2) by (auto simp: fpu_inv_def)

section \<open>Example\<close>

text \<open>A process at 500 with the two threads 100, which runs and owns the floating point unit, and 200, and
  an idle task 300.\<close>

definition demo_task :: "size_t \<Rightarrow> addr \<Rightarrow> bool \<Rightarrow> task" where
  "demo_task tid ctx user = \<lparr>m_tid = tid, m_state = RUNNING, m_addrSpace = (if user then 7 else 8), m_wakeUpAt = - 1,
     m_kernelStackTop = ctx + 176, m_context = ctx, t_isUserTask = user\<rparr>"

definition demo_sched :: sched where
  "demo_sched = \<lparr>s_taskList = (\<lparr>magic = MAGIC, m_size = 3, m_first = 16, m_last = 48\<rparr>,
       [16 \<mapsto> \<lparr>item = 100, next_ptr = 32, prev_ptr = 0\<rparr>, 32 \<mapsto> \<lparr>item = 200, next_ptr = 48, prev_ptr = 16\<rparr>,
        48 \<mapsto> \<lparr>item = 300, next_ptr = 0, prev_ptr = 32\<rparr>]),
     s_schedEnable = True, s_currentTask = 100,
     s_tasks = [100 \<mapsto> demo_task 1 1000 True, 200 \<mapsto> demo_task 2 2000 True, 300 \<mapsto> demo_task 3 3000 False],
     s_timerTicks = 9, s_cpu = \<lparr>cpu_space = 7, cpu_kernelStack = 1176, cpu_fpuTrap = False, cpu_fpuEnabled = True\<rparr>, s_tidCounter = 4\<rparr>"

definition demo_user_task :: "size_t \<Rightarrow> user_task" where
  "demo_user_task i = \<lparr>ut_process = 500, ut_stack = stack_top i, ut_threadPtr = 0, ut_fpuContext = replicate 512 0\<rparr>"

definition demo_proc :: user_proc where
  "demo_proc = \<lparr>p_state = PRunning, p_pid = 1, p_addrSpace = 7, p_loader = 600, p_term = 620,
     p_taskList = (\<lparr>magic = MAGIC, m_size = 2, m_first = 64, m_last = 80\<rparr>,
       [64 \<mapsto> \<lparr>item = 100, next_ptr = 80, prev_ptr = 0\<rparr>, 80 \<mapsto> \<lparr>item = 200, next_ptr = 0, prev_ptr = 64\<rparr>]),
     p_stackList = \<lparr>v_size = 2, v_capacity = 16, v_array = [True, True] @ replicate 14 False\<rparr>,
     p_files = (0, Map.empty)\<rparr>"

definition demo_kernel :: kernel where
  "demo_kernel = \<lparr>k_sched = demo_sched, k_contexts = [1000 \<mapsto> new_irq_context, 2000 \<mapsto> new_irq_context, 3000 \<mapsto> new_irq_context],
     k_userTasks = [100 \<mapsto> demo_user_task 0, 200 \<mapsto> demo_user_task 1], k_fpuTask = 100, k_fpuRegs = replicate 512 7,
     k_procs = [500 \<mapsto> demo_proc], k_procList = (\<lparr>magic = MAGIC, m_size = 1, m_first = 96, m_last = 96\<rparr>,
       [96 \<mapsto> \<lparr>item = 500, next_ptr = 0, prev_ptr = 0\<rparr>]), k_pidCounter = 2, k_spaces = [7 \<mapsto> 0], k_kernelSpace = 5,
     k_vm = demo_vm, k_files = Map.empty, k_shared = [600 \<mapsto> \<lparr>m_ptr = 640, m_refCount = 1\<rparr>, 620 \<mapsto> \<lparr>m_ptr = 660, m_refCount = 1\<rparr>],
     k_loaders = [640 \<mapsto> demo_loader], k_elf = demo_elf\<rparr>"

lemma demo_sched_ptrs: "ptrs (s_taskList demo_sched) = [16, 32, 48]"
  by (simp add: ptrs_def demo_sched_def) (simp add: numeral_3_eq_3)

lemma demo_sched_queue: "run_queue demo_sched = [100, 200, 300]"
  unfolding run_queue_def contents_def demo_sched_ptrs by (simp add: items_at_def demo_sched_def)

lemma demo_sched_inv: "sched_inv demo_sched"
  unfolding sched_inv_def demo_sched_queue klist_inv_def demo_sched_ptrs
  by (simp add: demo_sched_def rep_def)

lemma demo_fpu_inv: "fpu_inv demo_kernel"
  by (simp add: fpu_inv_def demo_kernel_def demo_sched_def)

section \<open>Properties\<close>

text \<open>C26. Lazy switching of the floating point unit (\<^verbatim>\<open>fpu::onFault\<close>, \<^verbatim>\<open>fpu::Context::clear\<close>, \<^verbatim>\<open>fpu::enableTrap\<close> in the
  scheduler): whatever sequence of FPU instructions, faults, task switches and exits has happened, no
  step changes the FPU registers that a task other than the running one sees, a fault changes
  nobody's, and whenever instructions run without a trap they work on the running task's own
  registers.\<close>

theorem fpu_lazy:
  assumes "fpu_inv k0" and "fpu_step\<^sup>*\<^sup>* k0 k" and "fpu_step k k'"
  shows "fpu_inv k' \<and> (\<forall>t. t \<noteq> 0 \<longrightarrow> t \<noteq> current k \<longrightarrow> fpu_view k' t = fpu_view k t) \<and>
     (fpu_onFault k = Some k' \<longrightarrow> (\<forall>t. t \<noteq> 0 \<longrightarrow> fpu_view k' t = fpu_view k t)) \<and>
     (\<not> cpu_fpuTrap (s_cpu (k_sched k')) \<longrightarrow> current k' \<noteq> 0 \<and> fpu_view k' (current k') = Some (k_fpuRegs k'))"
proof -
  have step: "fpu_inv b \<and> (\<forall>t. t \<noteq> 0 \<longrightarrow> t \<noteq> current a \<longrightarrow> fpu_view b t = fpu_view a t)" if "fpu_step a b" "fpu_inv a" for a b
    using that
  proof (cases rule: fpu_step.cases)
    case (use regs)
    then show ?thesis using that(2) by (auto simp: fpu_inv_def fpu_view_def)
  next
    case fault
    then show ?thesis using fpu_onFault_inv that(2) by blast
  next
    case (switch ctx ctx' s')
    then show ?thesis using schedule_fpu_inv that(2) by (auto simp: fpu_view_def)
  next
    case (leave ctx ctx')
    obtain s1 where s1: "task_exit (current a) ctx (k_sched (fpu_clear a)) = Some (ctx', s1)" "b = (fpu_clear a)\<lparr>k_sched := s1\<rparr>"
      using leave by (auto simp: user_task_exit_def Let_def split: bind_splits)
    note c = fpu_clear_inv [OF that(2)]
    let ?s = "(k_sched (fpu_clear a))\<lparr>s_tasks := ts\<rparr>"
    from s1(1) obtain ts where ts: "yield_task ctx ((k_sched (fpu_clear a))\<lparr>s_tasks := ts\<rparr>) = Some (ctx', s1)"
      by (auto simp: task_exit_def split: bind_splits)
    let ?k = "(fpu_clear a)\<lparr>k_sched := (k_sched (fpu_clear a))\<lparr>s_tasks := ts\<rparr>\<rparr>"
    have "fpu_inv ?k" using c by (simp add: fpu_inv_def)
    then have "fpu_inv b" using ts s1(2) schedule_fpu_inv [of ctx ?k ctx' s1] by (auto simp: yield_task_def split: if_splits)
    moreover have "fpu_view b t = fpu_view (fpu_clear a) t" for t by (simp add: s1(2) fpu_view_def)
    ultimately show ?thesis using c by simp
  qed
  have inv: "fpu_inv k" using assms(2,1) by (induction rule: rtranclp_induct) (use step in blast)+
  from step [OF assms(3) inv] fpu_onFault_inv [OF _ inv, of k'] show ?thesis by (auto simp: fpu_inv_def fpu_view_def)
qed

theorem fpu_lazy_witness:
  "fpu_inv (demo_kernel\<lparr>k_fpuRegs := [1]\<rparr>) \<and> fpu_view (demo_kernel\<lparr>k_fpuRegs := [1]\<rparr>) 200 = Some (replicate 512 0) \<and>
   fpu_view (demo_kernel\<lparr>k_fpuRegs := [1]\<rparr>) 100 = Some [1]"
proof -
  have "fpu_step demo_kernel (demo_kernel\<lparr>k_fpuRegs := [1]\<rparr>)" by (rule fpu_step.use) (simp add: demo_kernel_def demo_sched_def)
  from fpu_lazy [OF demo_fpu_inv rtranclp.rtrancl_refl this] show ?thesis
    by (simp add: demo_kernel_def demo_sched_def demo_user_task_def fpu_view_def)
qed

text \<open>fork copies the saved FPU state of the running task, which is out of date while the task owns the
  unit: the child starts with the registers of the parent's last save and not with its current ones
  (\<^verbatim>\<open>UserTask::UserTask\<close>, \<^verbatim>\<open>fpu::Context::clone\<close>).\<close>

theorem fork_fpu_stale:
  assumes "fork_user_task self stack p forkee k = Some k'" and "k_fpuTask k = forkee" and "self \<noteq> forkee"
  shows "\<exists>fu. k_userTasks k forkee = Some fu \<and> fpu_view k' self = Some (ut_fpuContext fu) \<and> fpu_view k' forkee = Some (k_fpuRegs k)"
proof -
  from assms(1) have "\<exists>fu. deref (k_userTasks k) forkee = Some fu \<and> k_userTasks k' = (k_userTasks k)(self \<mapsto> fu\<lparr>ut_process := p\<rparr>) \<and>
      k_fpuTask k' = k_fpuTask k \<and> k_fpuRegs k' = k_fpuRegs k"
    unfolding fork_user_task_def Let_def bind_eq_Some_conv option.inject
    apply (elim exE conjE)
    apply (rule exI)
    apply (rule conjI)
    apply assumption
    apply hypsubst
    apply simp
    done
  then obtain fu where fu: "deref (k_userTasks k) forkee = Some fu" "k_userTasks k' = (k_userTasks k)(self \<mapsto> fu\<lparr>ut_process := p\<rparr>)"
    "k_fpuTask k' = k_fpuTask k" "k_fpuRegs k' = k_fpuRegs k" by blast
  have "k_userTasks k forkee = Some fu" using fu(1) by (simp add: deref_def split: if_splits)
  with fu(2-4) assms(2,3) show ?thesis by (simp add: fpu_view_def)
qed

theorem fork_fpu_stale_witness:
  "\<exists>k'. fork_user_task 400 4096 500 100 demo_kernel = Some k' \<and> fpu_view k' 400 = Some (replicate 512 0) \<and> fpu_view k' 100 = Some (replicate 512 7)"
proof -
  have "fork_user_task 400 4096 500 100 demo_kernel \<noteq> None"
    by (simp add: fork_user_task_def demo_kernel_def demo_sched_def new_task_def getNewTid_def atomic_add_def demo_task_def Let_def)
  then obtain k' where k: "fork_user_task 400 4096 500 100 demo_kernel = Some k'" by blast
  from fork_fpu_stale [OF k] show ?thesis using k by (simp add: demo_kernel_def demo_user_task_def)
qed

end
