(* ===== verification/Process.thy ===== *)
theory Process
  imports UserTask
begin

text \<open>
  The life of a process: \<^verbatim>\<open>kernel/user_proc.cpp\<close>, \<^verbatim>\<open>kernel/sched/proc_list.cpp\<close> and the system calls of
  \<^verbatim>\<open>kernel/sched/task_syscalls.cpp\<close> and \<^verbatim>\<open>kernel/sched/sleep.cpp\<close>. Creation and fork compose the address space, the file table, the
  shared pointers, the process list and the scheduler; the cleanup loops that run in the idle task
  take dead threads and processes apart. The mutexes of a process and of the process list are held
  for the whole of each operation.
\<close>

section \<open>Tables of open files\<close>

text \<open>Copying and destroying a map of descriptors copies and destroys the descriptors in it; the entries
  are visited in the order of the recursion of \<^verbatim>\<open>MapEntry\<close>'s copy constructor and of \<^verbatim>\<open>destroyChildren\<close>.\<close>

partial_function (option) copy_values :: "(size_t, file_desc) entries \<Rightarrow> addr \<Rightarrow> files \<Rightarrow> files option" where
  "copy_values h p fs = do {
     e \<leftarrow> deref h p;
     (_, fs1) \<leftarrow> fd_copy (m_value e) fs;
     fs2 \<leftarrow> (if m_left e \<noteq> 0 then copy_values h (m_left e) fs1 else Some fs1);
     if m_right e \<noteq> 0 then copy_values h (m_right e) fs2 else Some fs2
   }"

partial_function (option) destroy_values :: "(size_t, file_desc) entries \<Rightarrow> addr \<Rightarrow> files \<Rightarrow> files option" where
  "destroy_values h p fs = do {
     e \<leftarrow> deref h p;
     fs1 \<leftarrow> (if m_left e \<noteq> 0 then destroy_values h (m_left e) fs else Some fs);
     fs2 \<leftarrow> (if m_right e \<noteq> 0 then destroy_values h (m_right e) fs1 else Some fs1);
     fd_destroy (m_value e) fs2
   }"

definition copy_files :: "addr list \<Rightarrow> (size_t, file_desc) kmap \<Rightarrow> files \<Rightarrow> ((size_t, file_desc) kmap \<times> files) option" where
  "copy_files news m fs = do {
     m1 \<leftarrow> map_copy news m;
     fs1 \<leftarrow> (if fst m \<noteq> 0 then copy_values (snd m) (fst m) fs else Some fs);
     Some (m1, fs1)
   }"

definition destroy_files :: "(size_t, file_desc) kmap \<Rightarrow> files \<Rightarrow> files option" where
  "destroy_files m fs = (if fst m \<noteq> 0 then destroy_values (snd m) (fst m) fs else Some fs)"

section \<open>Threads of a process\<close>

definition getNewPid :: "kernel \<Rightarrow> size_t \<times> kernel" where
  "getNewPid k = (case atomic_add (k_pidCounter k) 1 of (old, new) \<Rightarrow> (old, k\<lparr>k_pidCounter := new\<rparr>))"

definition isOwnProcess :: "addr \<Rightarrow> kernel \<Rightarrow> bool option" where
  "isOwnProcess p k = do {
     t \<leftarrow> deref (s_tasks (k_sched k)) (current k);
     if \<not> t_isUserTask t then Some False
     else do { ut \<leftarrow> deref (k_userTasks k) (current k); Some (ut_process ut = p) }
   }"

text \<open>\<open>it\<close> and \<open>mem\<close> are the memory of the list items in the process's task list and in the run queue.\<close>

definition start_task :: "addr \<Rightarrow> addr \<Rightarrow> addr \<Rightarrow> addr \<Rightarrow> kernel \<Rightarrow> (size_t \<times> kernel) option" where
  "start_task p task it mem k = do {
     pr \<leftarrow> deref (k_procs k) p;
     q \<leftarrow> push_back task it (p_taskList pr);
     s \<leftarrow> insertTask task mem (k_sched k);
     t \<leftarrow> deref (s_tasks s) task;
     Some (m_tid t, k\<lparr>k_procs := (k_procs k)(p \<mapsto> pr\<lparr>p_taskList := q\<rparr>), k_sched := s\<rparr>)
   }"

definition addTask :: "addr \<Rightarrow> addr \<Rightarrow> addr \<Rightarrow> addr \<Rightarrow> addr \<Rightarrow> addr \<Rightarrow> addr \<Rightarrow> addr \<Rightarrow> kernel \<Rightarrow> (size_t \<times> kernel) option" where
  "addTask p task stack it mem entryPoint arg1 arg2 k = do {
     pr \<leftarrow> deref (k_procs k) p;
     kassert (p_state pr = PRunning);
     k1 \<leftarrow> new_user_task task stack p entryPoint arg1 arg2 k;
     start_task p task it mem k1
   }"

text \<open>\<^verbatim>\<open>killAllTasks\<close>, from the list item \<open>it\<close> on.\<close>

partial_function (option) kill_from :: "addr nodes \<Rightarrow> addr \<Rightarrow> kernel \<Rightarrow> kernel option" where
  "kill_from h it k =
     (if it = 0 then Some k
      else do {
        n \<leftarrow> deref h it;
        k1 \<leftarrow> (if item n = current k then Some k else asyncExit (item n) k);
        kill_from h (next_ptr n) k1
      })"

definition killAllTasks :: "addr \<Rightarrow> kernel \<Rightarrow> kernel option" where
  "killAllTasks p k = do {
     pr \<leftarrow> deref (k_procs k) p;
     kill_from (snd (p_taskList pr)) (m_first (fst (p_taskList pr))) k
   }"

text \<open>\<^verbatim>\<open>exit\<close>: \<open>ctx\<close> is the frame pushed when the calling task yields for good; if it does not belong to the
  process, the call returns and the frame is unchanged.\<close>

definition exit_self :: "addr \<Rightarrow> addr \<Rightarrow> kernel \<Rightarrow> (addr \<times> kernel) option" where
  "exit_self p ctx k = do {
     own \<leftarrow> isOwnProcess p k;
     if own then user_task_exit (current k) ctx k else Some (ctx, k)
   }"

definition proc_exit :: "addr \<Rightarrow> addr \<Rightarrow> kernel \<Rightarrow> (addr \<times> kernel) option" where
  "proc_exit p ctx k = do {
     pr \<leftarrow> deref (k_procs k) p;
     if p_state pr \<noteq> PRunning then exit_self p ctx k
     else do {
       k1 \<leftarrow> killAllTasks p (k\<lparr>k_procs := (k_procs k)(p \<mapsto> pr\<lparr>p_state := PKilled\<rparr>)\<rparr>);
       exit_self p ctx k1
     }
   }"

section \<open>Cleaning up\<close>

text \<open>The loop shared by \<^verbatim>\<open>checkForDeadTasks\<close> and \<^verbatim>\<open>checkForDeadProcesses\<close>: \<open>visit\<close> is the body up to the removal
  of the list item and tells whether the item is to be removed. When the first item goes, the
  iteration continues behind the new first item.\<close>

partial_function (option) sweep_loop ::
    "(addr \<Rightarrow> 's \<Rightarrow> (bool \<times> 's) option) \<Rightarrow> addr \<Rightarrow> (klist \<times> addr nodes) \<times> 's \<Rightarrow> ((klist \<times> addr nodes) \<times> 's) option" where
  "sweep_loop visit it st =
     (if it = 0 then Some st
      else case st of (q, s) \<Rightarrow> do {
        n \<leftarrow> deref (snd q) it;
        (dead, s1) \<leftarrow> visit (item n) s;
        if dead then do {
          q1 \<leftarrow> remove_item it q;
          let it1 = (if prev_ptr n = 0 then m_first (fst q1) else prev_ptr n);
          if it1 = 0 then Some (q1, s1)
          else do { n1 \<leftarrow> deref (snd q1) it1; sweep_loop visit (next_ptr n1) (q1, s1) }
        }
        else sweep_loop visit (next_ptr n) (q, s1)
      })"

definition reap_task :: "addr \<Rightarrow> kernel \<Rightarrow> (bool \<times> kernel) option" where
  "reap_task userTask k = do {
     t \<leftarrow> deref (s_tasks (k_sched k)) userTask;
     if m_state t = KILLED then do {
       kassert (userTask \<noteq> current k);
       s \<leftarrow> removeTask userTask (k_sched k);
       k1 \<leftarrow> delete_user_task userTask (k\<lparr>k_sched := s\<rparr>);
       Some (True, k1)
     } else Some (False, k)
   }"

definition checkForDeadTasks :: "addr \<Rightarrow> kernel \<Rightarrow> kernel option" where
  "checkForDeadTasks p k = do {
     pr \<leftarrow> deref (k_procs k) p;
     (q, k1) \<leftarrow> sweep_loop reap_task (m_first (fst (p_taskList pr))) (p_taskList pr, k);
     pr1 \<leftarrow> deref (k_procs k1) p;
     n \<leftarrow> size_of_list (fst q);
     let pr2 = pr1\<lparr>p_taskList := q\<rparr>;
     let pr3 = (if n = 0 then pr2\<lparr>p_state := ToBeDeleted\<rparr> else pr2);
     Some (k1\<lparr>k_procs := (k_procs k1)(p \<mapsto> pr3)\<rparr>)
   }"

text \<open>The destructor of a process: its members in reverse order.\<close>

definition delete_process :: "addr \<Rightarrow> kernel \<Rightarrow> kernel option" where
  "delete_process p k = do {
     pr \<leftarrow> deref (k_procs k) p;
     fs \<leftarrow> destroy_files (p_files pr) (k_files k);
     _ \<leftarrow> clear_list (p_taskList pr);
     (_, sp1) \<leftarrow> sp_clear (p_term pr) (k_shared k);
     (_, sp2) \<leftarrow> sp_clear (p_loader pr) sp1;
     pml4 \<leftarrow> deref (k_spaces k) (p_addrSpace pr);
     vm \<leftarrow> destroy_space pml4 (k_vm k);
     Some (k\<lparr>k_files := fs, k_shared := sp2, k_vm := vm, k_spaces := (k_spaces k)(p_addrSpace pr := None),
       k_procs := (k_procs k)(p := None)\<rparr>)
   }"

definition reap_process :: "addr \<Rightarrow> kernel \<Rightarrow> (bool \<times> kernel) option" where
  "reap_process p k = do {
     k1 \<leftarrow> checkForDeadTasks p k;
     pr \<leftarrow> deref (k_procs k1) p;
     if p_state pr = ToBeDeleted then do { k2 \<leftarrow> delete_process p k1; Some (True, k2) } else Some (False, k1)
   }"

definition checkForDeadProcesses :: "kernel \<Rightarrow> kernel option" where
  "checkForDeadProcesses k = do {
     (q, k1) \<leftarrow> sweep_loop reap_process (m_first (fst (k_procList k))) (k_procList k, k);
     Some (k1\<lparr>k_procList := q\<rparr>)
   }"

section \<open>Creating and forking\<close>

definition onAddProcess :: "addr \<Rightarrow> addr \<Rightarrow> kernel \<Rightarrow> kernel option" where
  "onAddProcess p it k = do {
     q \<leftarrow> push_back p it (k_procList k);
     Some (k\<lparr>k_procList := q\<rparr>)
   }"

text \<open>The memory a new process takes from the heap: the process, its address space object, the list items
  and the first task with its kernel stack, and the entries of the file table.\<close>

record proc_mem =
  pm_proc :: addr
  pm_space :: addr
  pm_procItem :: addr
  pm_task :: addr
  pm_stack :: addr
  pm_taskItem :: addr
  pm_schedItem :: addr
  pm_entries :: "addr list"

definition new_process :: "proc_mem \<Rightarrow> addr \<Rightarrow> addr \<Rightarrow> addr \<Rightarrow> kernel \<Rightarrow> kernel option" where
  "new_process mem stdio loader term k = do {
     let (pid, k1) = getNewPid k;
     (pml4, vm) \<leftarrow> new_addr_space True (k_kernelSpace k1) (k_vm k1);
     (_, sp1) \<leftarrow> sp_copy loader (k_shared k1);
     (_, sp2) \<leftarrow> sp_copy term sp1;
     lp \<leftarrow> sp_get loader sp2;
     l \<leftarrow> deref (k_loaders k1) lp;
     kassert (ld_valid l);
     (fd, fs0) \<leftarrow> fd_new stdio True (k_files k1);
     (_, m1, fs1) \<leftarrow> insertOpenFile (pm_entries mem ! 0) fd (Some 0) ((0, Map.empty), fs0);
     (_, m2, fs2) \<leftarrow> insertOpenFile (pm_entries mem ! 1) fd (Some 1) (m1, fs1);
     (_, m3, fs3) \<leftarrow> insertOpenFile (pm_entries mem ! 2) fd (Some 2) (m2, fs2);
     entry \<leftarrow> entryAddr (k_elf k1) l;
     (_, k2) \<leftarrow> addTask (pm_proc mem) (pm_task mem) (pm_stack mem) (pm_taskItem mem) (pm_schedItem mem) entry 0 0
       (k1\<lparr>k_vm := vm, k_spaces := (k_spaces k1)(pm_space mem \<mapsto> pml4), k_shared := sp2, k_files := fs3,
           k_procs := (k_procs k1)(pm_proc mem \<mapsto> \<lparr>p_state = PRunning, p_pid = pid, p_addrSpace = pm_space mem, p_loader = loader,
             p_term = term, p_taskList = (new_list, Map.empty), p_stackList = new_vector False, p_files = m3\<rparr>)\<rparr>);
     k3 \<leftarrow> onAddProcess (pm_proc mem) (pm_procItem mem) k2;
     fs4 \<leftarrow> fd_destroy fd (k_files k3);
     Some (k3\<lparr>k_files := fs4\<rparr>)
   }"

text \<open>The copy constructor of fork in two parts: up to the entry in the process list, and the new thread.\<close>

definition fork_begin :: "proc_mem \<Rightarrow> addr \<Rightarrow> kernel \<Rightarrow> kernel option" where
  "fork_begin mem forkee k = do {
     pr \<leftarrow> deref (k_procs k) forkee;
     let (pid, k1) = getNewPid k;
     old \<leftarrow> deref (k_spaces k1) (p_addrSpace pr);
     (pml4, vm) \<leftarrow> clone_space True (k_kernelSpace k1) old (k_vm k1);
     (_, sp1) \<leftarrow> sp_copy (p_loader pr) (k_shared k1);
     (_, sp2) \<leftarrow> sp_copy (p_term pr) sp1;
     (m, fs) \<leftarrow> copy_files (pm_entries mem) (p_files pr) (k_files k1);
     onAddProcess (pm_proc mem) (pm_procItem mem)
       (k1\<lparr>k_vm := vm, k_spaces := (k_spaces k1)(pm_space mem \<mapsto> pml4), k_shared := sp2, k_files := fs,
           k_procs := (k_procs k1)(pm_proc mem \<mapsto> \<lparr>p_state = PRunning, p_pid = pid, p_addrSpace = pm_space mem, p_loader = p_loader pr,
             p_term = p_term pr, p_taskList = (new_list, Map.empty), p_stackList = vec_copy False (p_stackList pr), p_files = m\<rparr>)\<rparr>)
   }"

definition fork_finish :: "proc_mem \<Rightarrow> kernel \<Rightarrow> kernel option" where
  "fork_finish mem k = do {
     cur \<leftarrow> currentUserTask (k_sched k);
     k1 \<leftarrow> fork_user_task (pm_task mem) (pm_stack mem) (pm_proc mem) cur k;
     (_, k2) \<leftarrow> start_task (pm_proc mem) (pm_task mem) (pm_taskItem mem) (pm_schedItem mem) k1;
     Some k2
   }"

definition fork :: "proc_mem \<Rightarrow> addr \<Rightarrow> kernel \<Rightarrow> (size_t \<times> kernel) option" where
  "fork mem p k = do {
     own \<leftarrow> isOwnProcess p k;
     kassert own;
     k1 \<leftarrow> fork_begin mem p k;
     k2 \<leftarrow> fork_finish mem k1;
     pr \<leftarrow> deref (k_procs k2) (pm_proc mem);
     Some (p_pid pr, k2)
   }"

section \<open>System calls\<close>

definition current_process :: "kernel \<Rightarrow> addr option" where
  "current_process k = do {
     t \<leftarrow> currentUserTask (k_sched k);
     ut \<leftarrow> deref (k_userTasks k) t;
     Some (ut_process ut)
   }"

definition sys_exit :: "addr \<Rightarrow> kernel \<Rightarrow> (addr \<times> kernel) option" where
  "sys_exit ctx k = do { p \<leftarrow> current_process k; proc_exit p ctx k }"

definition sys_thread_exit :: "addr \<Rightarrow> kernel \<Rightarrow> (addr \<times> kernel) option" where
  "sys_thread_exit ctx k = do { t \<leftarrow> currentUserTask (k_sched k); user_task_exit t ctx k }"

definition set_thread_ptr :: "addr \<Rightarrow> kernel \<Rightarrow> kernel option" where
  "set_thread_ptr ptr k = do { t \<leftarrow> currentUserTask (k_sched k); setThreadPtr t ptr k }"

definition get_thread_ptr :: "kernel \<Rightarrow> addr option" where
  "get_thread_ptr k = do { t \<leftarrow> currentUserTask (k_sched k); getThreadPtr t k }"

definition sys_thread_create :: "addr \<Rightarrow> addr \<Rightarrow> addr \<Rightarrow> addr \<Rightarrow> addr \<Rightarrow> addr \<Rightarrow> addr \<Rightarrow> kernel \<Rightarrow> (size_t \<times> kernel) option" where
  "sys_thread_create task stack it mem rt0 func arg k = do {
     p \<leftarrow> current_process k;
     addTask p task stack it mem rt0 func arg k
   }"

definition sys_thread_count :: "kernel \<Rightarrow> size_t option" where
  "sys_thread_count k = do {
     p \<leftarrow> current_process k;
     pr \<leftarrow> deref (k_procs k) p;
     size_of_list (fst (p_taskList pr))
   }"

definition sys_fork :: "proc_mem \<Rightarrow> kernel \<Rightarrow> (size_t \<times> kernel) option" where
  "sys_fork mem k = do { p \<leftarrow> current_process k; fork mem p k }"

definition sys_getpid :: "kernel \<Rightarrow> size_t option" where
  "sys_getpid k = do { p \<leftarrow> current_process k; pr \<leftarrow> deref (k_procs k) p; Some (p_pid pr) }"

text \<open>A tick is 20 milliseconds. The members of \<^verbatim>\<open>timespec\<close> are signed and the division truncates.\<close>

definition sys_nanosleep :: "int \<Rightarrow> int \<Rightarrow> addr \<Rightarrow> kernel \<Rightarrow> (addr \<times> kernel) option" where
  "sys_nanosleep tv_sec tv_nsec ctx k = do {
     let ticks = word_of_int (tv_sec * 50 + sgn tv_nsec * (\<bar>tv_nsec\<bar> div 20000000));
     (ctx1, s) \<leftarrow> sleepTicks ticks (current k) ctx (k_sched k);
     Some (ctx1, k\<lparr>k_sched := s\<rparr>)
   }"

section \<open>The cleanup loop\<close>

text \<open>What one pass leaves of a list when the items with \<open>d\<close> are removed: if the first one goes, the item
  behind it is not looked at.\<close>

fun swept :: "('a \<Rightarrow> bool) \<Rightarrow> 'a list \<Rightarrow> 'a list" where
  "swept d [] = []"
| "swept d [x] = (if d x then [] else [x])"
| "swept d (x # y # ys) = (if d x then y # filter (\<lambda>z. \<not> d z) ys else x # filter (\<lambda>z. \<not> d z) (y # ys))"

lemma swept_alive: "swept d (y # filter (\<lambda>z. \<not> d z) ys) = filter (\<lambda>z. \<not> d z) (y # ys)"
proof (cases "filter (\<lambda>z. \<not> d z) ys")
  case (Cons z zs)
  have "\<forall>x \<in> set (z # zs). \<not> d x" unfolding Cons [symmetric] by simp
  then have "filter (\<lambda>z. \<not> d z) zs = zs" "\<not> d z" by (auto simp: filter_id_conv)
  with Cons show ?thesis by simp
qed simp

lemma swept_twice: "swept d (swept d xs) = filter (\<lambda>x. \<not> d x) xs"
proof (cases "(d, xs)" rule: swept.cases)
  case (3 d' x y ys)
  then show ?thesis using swept_alive [of d y ys] swept_alive [of d x "y # ys"] by (auto simp del: filter.simps) auto
qed auto

lemma set_swept: "set (swept d xs) \<subseteq> set xs"
  by (cases "(d, xs)" rule: swept.cases) auto

lemma alive_swept: "x \<in> set xs \<Longrightarrow> \<not> d x \<Longrightarrow> x \<in> set (swept d xs)"
  by (cases "(d, xs)" rule: swept.cases) auto

text \<open>The links of an item in the middle of a list.\<close>

lemma rep_node:
  assumes "rep q (as @ b # bs)"
  shows "\<exists>n. deref (snd q) b = Some n \<and> prev_ptr n = (if as = [] then 0 else last as) \<and> next_ptr n = (if bs = [] then 0 else hd bs)"
proof -
  from assms obtain n where n: "snd q b = Some n" "b \<noteq> 0" "dlseg (snd q) 0 (m_first (fst q)) as (prev_ptr n) b"
    "dlseg (snd q) b (next_ptr n) bs (m_last (fst q)) 0"
    by (auto simp: rep_def dlseg_append split: option.splits)
  from dlseg_last [OF n(3)] dlseg_first [OF n(4)] n(1,2) show ?thesis by (auto split: if_splits)
qed

locale sweep =
  fixes visit :: "addr \<Rightarrow> 's \<Rightarrow> (bool \<times> 's) option"
    and live :: "addr list \<Rightarrow> 's \<Rightarrow> bool"
    and dead :: "addr \<Rightarrow> bool"
  assumes visit_dead: "live (as @ x # bs) s \<Longrightarrow> dead x \<Longrightarrow> \<exists>s'. visit x s = Some (True, s') \<and> live (as @ bs) s'"
    and visit_alive: "live (as @ x # bs) s \<Longrightarrow> \<not> dead x \<Longrightarrow> \<exists>s'. visit x s = Some (False, s') \<and> live (as @ x # bs) s'"
begin

lemma sweep_tail:
  assumes "rep q (as @ bs)" and "live (items_at (snd q) (as @ bs)) s" and "as \<noteq> []"
  defines "cs \<equiv> filter (\<lambda>p. \<not> dead (item (the (snd q p)))) bs"
  shows "\<exists>q' s'. sweep_loop visit (if bs = [] then 0 else hd bs) (q, s) = Some (q', s') \<and> rep q' (as @ cs) \<and>
     items_at (snd q') (as @ cs) = items_at (snd q) (as @ cs) \<and> live (items_at (snd q) (as @ cs)) s'"
  using assms(1-3) unfolding cs_def
proof (induction bs arbitrary: as q s)
  case Nil
  then show ?case by (subst sweep_loop.simps) simp
next
  case (Cons b bs)
  from rep_node [OF Cons.prems(1)] Cons.prems(3) obtain n where
    n: "deref (snd q) b = Some n" "prev_ptr n = last as" "next_ptr n = (if bs = [] then 0 else hd bs)" by auto
  have b: "b \<noteq> 0" "snd q b = Some n" using n(1) by (auto simp: deref_def split: if_splits)
  have "0 \<notin> set (as @ b # bs)" using Cons.prems(1) by (auto simp: rep_def simp del: set_append dest!: dlseg_nonzero)
  then have as: "last as \<noteq> 0" using last_in_set [OF Cons.prems(3)] by (metis Un_iff set_append)
  have live: "live (items_at (snd q) as @ item n # items_at (snd q) bs) s" using Cons.prems(2) b(2) by (simp add: items_at_def)
  show ?case
  proof (cases "dead (item n)")
    case True
    from visit_dead [OF live True] obtain s1 where s1: "visit (item n) s = Some (True, s1)"
      "live (items_at (snd q) as @ items_at (snd q) bs) s1" by blast
    from remove_item_rep [of "fst q" "snd q" as b bs] Cons.prems(1) obtain q1 where
      q1: "remove_item b q = Some q1" "rep q1 (as @ bs)" "items_at (snd q1) (as @ bs) = items_at (snd q) (as @ bs)" by auto
    obtain as' a where a: "as = as' @ [a]" using Cons.prems(3) by (cases as rule: rev_cases) auto
    from rep_node [of q1 as' a bs] q1(2) a obtain n1 where
      n1: "deref (snd q1) a = Some n1" "next_ptr n1 = (if bs = [] then 0 else hd bs)" by auto
    have it: "item (the (snd q1 p)) = item (the (snd q p))" if "p \<in> set (as @ bs)" for p
      using q1(3) that by (auto simp: items_at_def map_eq_conv)
    have run: "sweep_loop visit b (q, s) = sweep_loop visit (if bs = [] then 0 else hd bs) (q1, s1)"
      using b(1) n s1(1) True q1(1) as a n1 by (subst sweep_loop.simps) (simp add: Let_def)
    have l1: "live (items_at (snd q1) (as @ bs)) s1" unfolding q1(3) using s1(2) by (simp add: items_at_def)
    have f: "filter (\<lambda>p. \<not> dead (item (the (snd q1 p)))) bs = filter (\<lambda>p. \<not> dead (item (the (snd q p)))) bs"
      by (rule filter_cong) (use it in auto)
    from Cons.IH [OF q1(2) l1 Cons.prems(3)] obtain q' s' where
      "sweep_loop visit (if bs = [] then 0 else hd bs) (q1, s1) = Some (q', s')"
      "rep q' (as @ filter (\<lambda>p. \<not> dead (item (the (snd q p)))) bs)"
      "items_at (snd q') (as @ filter (\<lambda>p. \<not> dead (item (the (snd q p)))) bs) = items_at (snd q1) (as @ filter (\<lambda>p. \<not> dead (item (the (snd q p)))) bs)"
      "live (items_at (snd q1) (as @ filter (\<lambda>p. \<not> dead (item (the (snd q p)))) bs)) s'" unfolding f by blast
    moreover have "items_at (snd q1) (as @ filter (\<lambda>p. \<not> dead (item (the (snd q p)))) bs) =
        items_at (snd q) (as @ filter (\<lambda>p. \<not> dead (item (the (snd q p)))) bs)"
      unfolding items_at_def by (rule map_cong) (use it in auto)
    ultimately show ?thesis using run b(2) True by auto
  next
    case False
    from visit_alive [OF live False] obtain s1 where s1: "visit (item n) s = Some (False, s1)"
      "live (items_at (snd q) as @ item n # items_at (snd q) bs) s1" by blast
    have run: "sweep_loop visit b (q, s) = sweep_loop visit (if bs = [] then 0 else hd bs) (q, s1)"
      using b(1) n s1(1) False by (subst sweep_loop.simps) simp
    have l1: "live (items_at (snd q) ((as @ [b]) @ bs)) s1" using s1(2) b(2) by (simp add: items_at_def)
    from Cons.IH [of q "as @ [b]" s1] Cons.prems(1) l1 show ?thesis using run b(2) False by simp
  qed
qed

lemma sweep_all:
  assumes "klist_inv q" and "live (contents q) s"
  shows "\<exists>q' s'. sweep_loop visit (m_first (fst q)) (q, s) = Some (q', s') \<and> klist_inv q' \<and>
     contents q' = swept dead (contents q) \<and> live (contents q') s'"
proof -
  obtain ps where r: "rep q ps" using assms(1) by (auto simp: klist_inv_def)
  have c: "contents q = items_at (snd q) ps" by (rule rep_contents [OF r])
  have m: "m_first (fst q) = (if ps = [] then 0 else hd ps)" using rep_first [of "fst q" "snd q" ps] r by simp
  show ?thesis
  proof (cases ps)
    case Nil
    then show ?thesis using m assms c by (subst sweep_loop.simps) (simp add: items_at_def)
  next
    case (Cons b bs)
    from rep_node [of q "[]" b bs] r Cons obtain n where
      n: "deref (snd q) b = Some n" "prev_ptr n = 0" "next_ptr n = (if bs = [] then 0 else hd bs)" by auto
    have b: "b \<noteq> 0" "snd q b = Some n" using n(1) by (auto simp: deref_def split: if_splits)
    have live: "live ([] @ item n # items_at (snd q) bs) s" using assms(2) c Cons b(2) by (simp add: items_at_def)
    have tail: "\<exists>q' s'. sweep_loop visit (if rs = [] then 0 else hd rs) (q1, s1) = Some (q', s') \<and> klist_inv q' \<and>
        contents q' = item (the (snd q1 a)) # filter (\<lambda>x. \<not> dead x) (items_at (snd q1) rs) \<and> live (contents q') s'"
      if "rep q1 (a # rs)" "live (items_at (snd q1) (a # rs)) s1" for q1 s1 a rs
    proof -
      let ?cs = "filter (\<lambda>p. \<not> dead (item (the (snd q1 p)))) rs"
      from sweep_tail [of q1 "[a]" rs s1] that obtain q' s' where q': "sweep_loop visit (if rs = [] then 0 else hd rs) (q1, s1) = Some (q', s')"
        "rep q' (a # ?cs)" "items_at (snd q') (a # ?cs) = items_at (snd q1) (a # ?cs)" "live (items_at (snd q1) (a # ?cs)) s'" by auto
      have "items_at (snd q1) (a # ?cs) = item (the (snd q1 a)) # filter (\<lambda>x. \<not> dead x) (items_at (snd q1) rs)"
        by (simp add: items_at_def filter_map comp_def)
      with q' rep_abs [OF q'(2)] show ?thesis by auto
    qed
    show ?thesis
    proof (cases "dead (item n)")
      case True
      from visit_dead [OF live True] obtain s1 where s1: "visit (item n) s = Some (True, s1)" "live (items_at (snd q) bs) s1" by auto
      from remove_item_rep [of "fst q" "snd q" "[]" b bs] r Cons obtain q1 where
        q1: "remove_item b q = Some q1" "rep q1 bs" "items_at (snd q1) bs = items_at (snd q) bs" by auto
      have m1: "m_first (fst q1) = (if bs = [] then 0 else hd bs)" using rep_first [of "fst q1" "snd q1" bs] q1(2) by simp
      show ?thesis
      proof (cases bs)
        case bNil: Nil
        have "sweep_loop visit b (q, s) = Some (q1, s1)"
          using b(1) n s1(1) True q1(1) m1 bNil by (subst sweep_loop.simps) simp
        then show ?thesis using m Cons bNil True c b(2) rep_abs [OF q1(2)] s1(2) by (simp add: items_at_def)
      next
        case (Cons a rs)
        from rep_node [of q1 "[]" a rs] q1(2) Cons obtain n1 where
          n1: "deref (snd q1) a = Some n1" "next_ptr n1 = (if rs = [] then 0 else hd rs)" by auto
        then have a: "a \<noteq> 0" by (auto simp: deref_def)
        have run: "sweep_loop visit b (q, s) = sweep_loop visit (if rs = [] then 0 else hd rs) (q1, s1)"
          using b(1) n s1(1) True q1(1) m1 Cons a n1 by (subst sweep_loop.simps) (simp add: Let_def)
        have cq: "contents q = item n # items_at (snd q1) (a # rs)" using c \<open>ps = b # bs\<close> Cons b(2) q1(3) by (simp add: items_at_def)
        have "live (items_at (snd q1) (a # rs)) s1" using s1(2) q1(3) Cons by simp
        from tail [OF q1(2) [unfolded Cons] this] obtain q' s' where
          "sweep_loop visit (if rs = [] then 0 else hd rs) (q1, s1) = Some (q', s')" "klist_inv q'"
          "contents q' = item (the (snd q1 a)) # filter (\<lambda>x. \<not> dead x) (items_at (snd q1) rs)" "live (contents q') s'" by blast
        then show ?thesis unfolding m cq using run True \<open>ps = b # bs\<close> by (intro exI [of _ q'] exI [of _ s']) simp
      qed
    next
      case False
      from visit_alive [OF live False] obtain s1 where s1: "visit (item n) s = Some (False, s1)"
        "live (item n # items_at (snd q) bs) s1" by auto
      have run: "sweep_loop visit b (q, s) = sweep_loop visit (if bs = [] then 0 else hd bs) (q, s1)"
        using b(1) n s1(1) False by (subst sweep_loop.simps) simp
      have "live (items_at (snd q) (b # bs)) s1" using s1(2) b(2) by (simp add: items_at_def)
      from tail [OF r [unfolded Cons] this] show ?thesis
        using run m Cons c b(2) False by (cases bs) (auto simp: items_at_def)
    qed
  qed
qed

end

section \<open>Dead threads\<close>

definition killed :: "kernel \<Rightarrow> addr \<Rightarrow> bool" where
  "killed k x \<longleftrightarrow> (\<exists>t. s_tasks (k_sched k) x = Some t \<and> m_state t = KILLED)"

text \<open>A thread of the process \<open>p\<close>: it is in the run queue and holds a stack slot of the process.\<close>

definition thread_ok :: "kernel \<Rightarrow> bool vector \<Rightarrow> addr \<Rightarrow> addr \<Rightarrow> bool" where
  "thread_ok k v p x \<longleftrightarrow> x \<in> set (run_queue (k_sched k)) \<and>
     (\<exists>ut i. k_userTasks k x = Some ut \<and> ut_process ut = p \<and> ut_stack ut = stack_top (of_nat i) \<and> slot v i)"

definition stack_of :: "kernel \<Rightarrow> addr \<Rightarrow> size_t" where
  "stack_of k x = ut_stack (the (k_userTasks k x))"

definition threads_ok :: "kernel \<Rightarrow> addr \<Rightarrow> addr list \<Rightarrow> bool" where
  "threads_ok k p xs \<longleftrightarrow> p \<noteq> 0 \<and> distinct xs \<and> inj_on (stack_of k) (set xs) \<and> sched_inv (k_sched k) \<and> s_schedEnable (k_sched k) \<and>
     current k \<in> set (run_queue (k_sched k)) \<and> \<not> killed k (current k) \<and>
     (\<exists>pr. k_procs k p = Some pr \<and> vec_inv (p_stackList pr) \<and> length (elems (p_stackList pr)) \<le> 2 ^ 24 \<and>
        (\<forall>x \<in> set xs. thread_ok k (p_stackList pr) p x))"

text \<open>The state \<open>k\<close> after the threads \<open>R\<close> of the process \<open>p\<close> were taken out of \<open>k0\<close>.\<close>

definition without :: "kernel \<Rightarrow> addr \<Rightarrow> addr set \<Rightarrow> kernel \<Rightarrow> bool" where
  "without k0 p R k \<longleftrightarrow> (\<exists>q v ts pr. k_procs k0 p = Some pr \<and>
     k = k0\<lparr>k_sched := (k_sched k0)\<lparr>s_taskList := q, s_tasks := ts\<rparr>, k_userTasks := k_userTasks k,
            k_procs := (k_procs k0)(p \<mapsto> pr\<lparr>p_stackList := v\<rparr>)\<rparr> \<and>
     contents q = filter (\<lambda>x. x \<notin> R) (run_queue (k_sched k0)) \<and>
     (\<forall>y. y \<notin> R \<longrightarrow> ts y = s_tasks (k_sched k0) y \<and> k_userTasks k y = k_userTasks k0 y) \<and>
     (\<forall>y \<in> R. ts y = None \<and> k_userTasks k y = None))"

lemma removeTask_frame:
  "removeTask x s = Some s' \<Longrightarrow> s_schedEnable s \<and> s' = s\<lparr>s_taskList := s_taskList s'\<rparr>"
  by (cases s) (auto simp: removeTask_def split: bind_splits prod.splits)

lemma slot_release:
  assumes "elems v' = (if Suc i = length (elems v) then butlast (elems v) else (elems v)[i := False])" and "slot v j" and "j \<noteq> i"
  shows "slot v' j"
  using assms by (auto simp: slot_def nth_butlast)

lemma reap_dead:
  assumes ok: "threads_ok k p (as @ x # bs)" and w: "without k0 p R k" and x: "killed k x"
  shows "\<exists>k'. reap_task x k = Some (True, k') \<and> threads_ok k' p (as @ bs) \<and> without k0 p (insert x R) k'"
proof -
  let ?s = "k_sched k"
  from ok obtain pr where pr: "k_procs k p = Some pr" "vec_inv (p_stackList pr)" "length (elems (p_stackList pr)) \<le> 2 ^ 24"
    "\<forall>y \<in> set (as @ x # bs). thread_ok k (p_stackList pr) p y"
    and inv: "p \<noteq> 0" "distinct (as @ x # bs)" "inj_on (stack_of k) (set (as @ x # bs))" "sched_inv ?s" "s_schedEnable ?s"
      "current k \<in> set (run_queue ?s)" "\<not> killed k (current k)" by (auto simp: threads_ok_def)
  from pr(4) obtain ut i where ut: "x \<in> set (run_queue ?s)" "k_userTasks k x = Some ut" "ut_process ut = p"
    "ut_stack ut = stack_top (of_nat i)" "slot (p_stackList pr) i" by (auto simp: thread_ok_def)
  from x obtain t where t: "s_tasks ?s x = Some t" "m_state t = KILLED" by (auto simp: killed_def)
  have x0: "x \<noteq> 0" using inv(4) ut(1) by (auto simp: sched_inv_def)
  have xc: "x \<noteq> current k" using x inv(7) by auto
  have "run_queue ?s \<noteq> [x]" using inv(6) xc by auto
  from removeTask_ok [OF inv(4,5) ut(1) t this] obtain s' where
    s': "removeTask x ?s = Some s'" "sched_inv s'" "run_queue s' = remove1 x (run_queue ?s)" "s_tasks s' = s_tasks ?s" by blast
  note fr = removeTask_frame [OF s'(1)]
  then obtain q1 where q1: "s' = ?s\<lparr>s_taskList := q1\<rparr>" by blast
  have rq: "run_queue s' = filter (\<lambda>y. y \<noteq> x) (run_queue ?s)"
    using s'(3) inv(4) distinct_remove1_removeAll [of "run_queue ?s" x] by (simp add: sched_inv_def removeAll_filter_not_eq) metis
  from releaseStack_ok [OF pr(2) ut(5) pr(3)] obtain v' where
    v': "releaseStack (ut_stack ut) (p_stackList pr) = Some v'" "vec_inv v'"
      "elems v' = (if Suc i = length (elems (p_stackList pr)) then butlast (elems (p_stackList pr)) else (elems (p_stackList pr))[i := False])"
    using ut(4) by auto
  define k' where "k' = k\<lparr>k_procs := (k_procs k)(p \<mapsto> pr\<lparr>p_stackList := v'\<rparr>), k_userTasks := (k_userTasks k)(x := None),
     k_sched := s'\<lparr>s_tasks := (s_tasks ?s)(x := None)\<rparr>\<rparr>"
  have run: "reap_task x k = Some (True, k')"
    using x0 t xc s'(1,4) ut(2,3) inv(1) pr(1) v'(1) by (simp add: reap_task_def delete_user_task_def k'_def)
  have cur: "s_currentTask s' = current k" "s_schedEnable s'" using fr by (metis sched.select_convs sched.surjective sched.update_convs)+
  have rq': "run_queue (k_sched k') = filter (\<lambda>y. y \<noteq> x) (run_queue ?s)" using rq by (simp add: k'_def run_queue_def)
  have "threads_ok k' p (as @ bs)"
    unfolding threads_ok_def
  proof (intro conjI exI [of _ "pr\<lparr>p_stackList := v'\<rparr>"] ballI)
    show "p \<noteq> 0" "distinct (as @ bs)" "k_procs k' p = Some (pr\<lparr>p_stackList := v'\<rparr>)" using inv(1,2) by (auto simp: k'_def)
    have "stack_of k' y = stack_of k y" if "y \<in> set (as @ bs)" for y using that inv(2) by (auto simp: stack_of_def k'_def)
    moreover have "inj_on (stack_of k) (set (as @ bs))" by (rule inj_on_subset [OF inv(3)]) auto
    ultimately show "inj_on (stack_of k') (set (as @ bs))" using inj_on_cong by blast
    have "s_tasks ?s y \<noteq> None" "y \<noteq> 0" if "y \<in> set (run_queue ?s)" for y using inv(4) that by (auto simp: sched_inv_def)
    then show "sched_inv (k_sched k')"
      using s'(2) rq rq' cur xc inv(6) by (auto simp: sched_inv_def k'_def run_queue_def)
    show "s_schedEnable (k_sched k')" "current k' \<in> set (run_queue (k_sched k'))" "\<not> killed k' (current k')"
      using cur inv(6,7) xc rq' by (auto simp: k'_def killed_def)
    show "vec_inv (p_stackList (pr\<lparr>p_stackList := v'\<rparr>))" "length (elems (p_stackList (pr\<lparr>p_stackList := v'\<rparr>))) \<le> 2 ^ 24"
      using v'(2,3) pr(3) by auto
  next
    fix y assume y: "y \<in> set (as @ bs)"
    then have yx: "y \<noteq> x" and th: "thread_ok k (p_stackList pr) p y" using inv(2) pr(4) by auto
    from th obtain uy j where uy: "y \<in> set (run_queue ?s)" "k_userTasks k y = Some uy" "ut_process uy = p"
      "ut_stack uy = stack_top (of_nat j)" "slot (p_stackList pr) j" by (auto simp: thread_ok_def)
    have "stack_of k y \<noteq> stack_of k x" using inv(3) y yx by (auto simp: inj_on_def)
    then have "j \<noteq> i" using uy(2,4) ut(2,4) by (auto simp: stack_of_def)
    with slot_release [OF v'(3) uy(5)] uy yx rq' show "thread_ok k' (p_stackList (pr\<lparr>p_stackList := v'\<rparr>)) p y"
      by (auto simp: thread_ok_def k'_def)
  qed
  moreover have "without k0 p (insert x R) k'"
  proof -
    from w obtain q v ts pr0 where w': "k_procs k0 p = Some pr0"
      "k = k0\<lparr>k_sched := (k_sched k0)\<lparr>s_taskList := q, s_tasks := ts\<rparr>, k_userTasks := k_userTasks k, k_procs := (k_procs k0)(p \<mapsto> pr0\<lparr>p_stackList := v\<rparr>)\<rparr>"
      "contents q = filter (\<lambda>x. x \<notin> R) (run_queue (k_sched k0))"
      "\<forall>y. y \<notin> R \<longrightarrow> ts y = s_tasks (k_sched k0) y \<and> k_userTasks k y = k_userTasks k0 y" "\<forall>y \<in> R. ts y = None \<and> k_userTasks k y = None"
      by (auto simp: without_def)
    have ks: "k_sched k = (k_sched k0)\<lparr>s_taskList := q, s_tasks := ts\<rparr>" "k_procs k = (k_procs k0)(p \<mapsto> pr0\<lparr>p_stackList := v\<rparr>)"
      by (subst w'(2), simp)+
    have p0: "pr = pr0\<lparr>p_stackList := v\<rparr>" using pr(1) ks(2) by simp
    have q': "contents (s_taskList s') = filter (\<lambda>y. y \<notin> insert x R) (run_queue (k_sched k0))"
      using rq w'(3) ks(1) by (simp add: run_queue_def conj_commute)
    have k'eq: "k' = k0\<lparr>k_sched := (k_sched k0)\<lparr>s_taskList := s_taskList s', s_tasks := ts(x := None)\<rparr>, k_userTasks := k_userTasks k',
       k_procs := (k_procs k0)(p \<mapsto> pr0\<lparr>p_stackList := v'\<rparr>)\<rparr>"
    proof -
      have "s'\<lparr>s_tasks := (s_tasks ?s)(x := None)\<rparr> = (k_sched k0)\<lparr>s_taskList := s_taskList s', s_tasks := ts(x := None)\<rparr>"
        unfolding q1 ks(1) by simp
      then show ?thesis unfolding k'_def by (subst w'(2)) (simp add: ks(2) p0)
    qed
    show ?thesis unfolding without_def
      using w'(1,4,5) q' k'eq by (intro exI [of _ "s_taskList s'"] exI [of _ v'] exI [of _ "ts(x := None)"] exI [of _ pr0]) (auto simp: k'_def)
  qed
  ultimately show ?thesis using run by blast
qed

lemma withoutD:
  assumes "without k0 p R k"
  obtains q v ts pr where "k_procs k0 p = Some pr" "k_sched k = (k_sched k0)\<lparr>s_taskList := q, s_tasks := ts\<rparr>"
    "k_procs k = (k_procs k0)(p \<mapsto> pr\<lparr>p_stackList := v\<rparr>)" "contents q = filter (\<lambda>x. x \<notin> R) (run_queue (k_sched k0))"
    "\<And>y. y \<notin> R \<Longrightarrow> ts y = s_tasks (k_sched k0) y"
proof -
  from assms obtain q v ts pr where w: "k_procs k0 p = Some pr"
    and k: "k = k0\<lparr>k_sched := (k_sched k0)\<lparr>s_taskList := q, s_tasks := ts\<rparr>, k_userTasks := k_userTasks k, k_procs := (k_procs k0)(p \<mapsto> pr\<lparr>p_stackList := v\<rparr>)\<rparr>"
    and r: "contents q = filter (\<lambda>x. x \<notin> R) (run_queue (k_sched k0))" "\<forall>y. y \<notin> R \<longrightarrow> ts y = s_tasks (k_sched k0) y"
    by (auto simp: without_def)
  have "k_sched k = (k_sched k0)\<lparr>s_taskList := q, s_tasks := ts\<rparr>" "k_procs k = (k_procs k0)(p \<mapsto> pr\<lparr>p_stackList := v\<rparr>)" by (subst k, simp)+
  with that w r show thesis by blast
qed

lemma without_tasks: "without k0 p R k \<Longrightarrow> y \<notin> R \<Longrightarrow> s_tasks (k_sched k) y = s_tasks (k_sched k0) y"
  by (erule withoutD) simp

interpretation tasks: sweep reap_task "\<lambda>xs k. threads_ok k p xs \<and> set xs \<subseteq> set xs0 \<and> without k0 p (set xs0 - set xs) k" "killed k0"
  for k0 p xs0
proof
  fix as x bs k
  assume a: "threads_ok k p (as @ x # bs) \<and> set (as @ x # bs) \<subseteq> set xs0 \<and> without k0 p (set xs0 - set (as @ x # bs)) k"
  have same: "killed k x = killed k0 x" using without_tasks [of k0 p _ k x] a by (force simp: killed_def)
  {
    assume "killed k0 x"
    moreover have "insert x (set xs0 - set (as @ x # bs)) = set xs0 - set (as @ bs)" using a by (auto simp: threads_ok_def)
    ultimately show "\<exists>k'. reap_task x k = Some (True, k') \<and> threads_ok k' p (as @ bs) \<and> set (as @ bs) \<subseteq> set xs0 \<and>
        without k0 p (set xs0 - set (as @ bs)) k'"
      using reap_dead [of k p as x bs k0 "set xs0 - set (as @ x # bs)"] a same by auto
  next
    assume "\<not> killed k0 x"
    moreover have "x \<noteq> 0" "s_tasks (k_sched k) x \<noteq> None" using a by (auto simp: threads_ok_def thread_ok_def sched_inv_def)
    ultimately have "reap_task x k = Some (False, k)" using same by (auto simp: reap_task_def killed_def)
    with a show "\<exists>k'. reap_task x k = Some (False, k') \<and> threads_ok k' p (as @ x # bs) \<and> set (as @ x # bs) \<subseteq> set xs0 \<and>
        without k0 p (set xs0 - set (as @ x # bs)) k'" by blast
  }
qed

definition threads :: "kernel \<Rightarrow> addr \<Rightarrow> addr list" where
  "threads k p = contents (p_taskList (the (k_procs k p)))"

definition proc_ok :: "kernel \<Rightarrow> addr \<Rightarrow> bool" where
  "proc_ok k p \<longleftrightarrow> threads_ok k p (threads k p) \<and> klist_inv (p_taskList (the (k_procs k p)))"

lemma klist_size_zero: "klist_inv q \<Longrightarrow> m_size (fst q) = 0 \<longleftrightarrow> contents q = []"
proof -
  assume "klist_inv q"
  then have r: "rep q (ptrs q)" by (simp add: klist_inv_def)
  have "m_size (fst q) = 0 \<longleftrightarrow> unat (m_size (fst q)) = 0" by (simp add: unat_eq_0)
  then show ?thesis using rep_size [OF r] by (simp add: contents_def items_at_def)
qed

lemma checkForDeadTasks_ok:
  assumes "proc_ok k p"
  shows "\<exists>k'. checkForDeadTasks p k = Some k' \<and> proc_ok k' p \<and> threads k' p = swept (killed k) (threads k p) \<and>
     run_queue (k_sched k') = filter (\<lambda>x. x \<notin> set (threads k p) - set (threads k' p)) (run_queue (k_sched k)) \<and> current k' = current k \<and>
     (\<forall>x. x \<notin> set (threads k p) - set (threads k' p) \<longrightarrow> s_tasks (k_sched k') x = s_tasks (k_sched k) x) \<and>
     p_state (the (k_procs k' p)) = (if threads k' p = [] then ToBeDeleted else p_state (the (k_procs k p)))"
proof -
  let ?xs = "threads k p"
  from assms obtain pr where pr: "k_procs k p = Some pr" "p \<noteq> 0" "klist_inv (p_taskList pr)" "threads_ok k p ?xs"
    by (auto simp: proc_ok_def threads_ok_def)
  have xs: "?xs = contents (p_taskList pr)" by (simp add: threads_def pr(1))
  have "without k p {} k"
    unfolding without_def using pr(1)
    by (intro exI [of _ "s_taskList (k_sched k)"] exI [of _ "p_stackList pr"] exI [of _ "s_tasks (k_sched k)"] exI [of _ pr])
       (auto simp: run_queue_def fun_upd_idem)
  then have "threads_ok k p (contents (p_taskList pr)) \<and> set (contents (p_taskList pr)) \<subseteq> set ?xs \<and>
      without k p (set ?xs - set (contents (p_taskList pr))) k" using pr(4) xs by simp
  from tasks.sweep_all [OF pr(3), of k p ?xs k, OF this] obtain q k1 where
    q: "sweep_loop reap_task (m_first (fst (p_taskList pr))) (p_taskList pr, k) = Some (q, k1)" "klist_inv q"
      "contents q = swept (killed k) ?xs" "threads_ok k1 p (contents q)" "without k p (set ?xs - set (contents q)) k1"
    unfolding xs by blast
  from q(5) obtain q2 v ts where w: "k_procs k1 p = Some (pr\<lparr>p_stackList := v\<rparr>)" "k_sched k1 = (k_sched k)\<lparr>s_taskList := q2, s_tasks := ts\<rparr>"
    "contents q2 = filter (\<lambda>x. x \<notin> set ?xs - set (contents q)) (run_queue (k_sched k))"
    "\<And>y. y \<notin> set ?xs - set (contents q) \<Longrightarrow> ts y = s_tasks (k_sched k) y"
    by (elim withoutD) (simp add: pr(1))
  define pr3 where "pr3 = (if m_size (fst q) = 0 then pr\<lparr>p_stackList := v, p_taskList := q, p_state := ToBeDeleted\<rparr> else pr\<lparr>p_stackList := v, p_taskList := q\<rparr>)"
  define k' where "k' = k1\<lparr>k_procs := (k_procs k1)(p \<mapsto> pr3)\<rparr>"
  have sz: "size_of_list (fst q) = Some (m_size (fst q))" using q(2) by (cases q) (auto simp: size_of_list_def klist_inv_def verify_def rep_def)
  have run: "checkForDeadTasks p k = Some k'"
    using pr(1,2) q(1) w(1) sz by (simp add: checkForDeadTasks_def k'_def pr3_def)
  have p3: "p_taskList pr3 = q" "p_stackList pr3 = v" by (simp_all add: pr3_def)
  have th: "threads k' p = contents q" by (simp add: threads_def k'_def p3)
  have "proc_ok k' p"
    using q(2,4) w(1) p3 unfolding proc_ok_def th by (auto simp: threads_ok_def thread_ok_def k'_def killed_def stack_of_def cong: inj_on_cong)
  moreover have "run_queue (k_sched k') = filter (\<lambda>x. x \<notin> set ?xs - set (threads k' p)) (run_queue (k_sched k))"
    using w(2,3) th by (simp add: run_queue_def k'_def)
  moreover have "p_state (the (k_procs k' p)) = (if threads k' p = [] then ToBeDeleted else p_state (the (k_procs k p)))"
    using klist_size_zero [OF q(2)] th by (simp add: k'_def pr3_def pr(1))
  ultimately show ?thesis using run th q(3) w(2,4) by (simp add: k'_def)
qed

section \<open>Ending a process\<close>

text \<open>A running task that gives up the processor for good: some other task that is ready runs next.\<close>

lemma schedule_leaves:
  assumes "sched_inv s" and "s_schedEnable s" and "s_currentTask s \<noteq> 0" and "s_tasks s (s_currentTask s) = Some c"
    and "\<not> ready s (s_currentTask s)" and "y \<in> set (run_queue s)" and "ready s y"
  shows "\<exists>p t s'. schedule ctx s = Some (m_context t, s') \<and> s_currentTask s' = p \<and> p \<noteq> s_currentTask s \<and> ready s p \<and>
     p \<in> set (run_queue s) \<and> s_tasks s p = Some t \<and> s_tasks s' (s_currentTask s) = Some (c\<lparr>m_context := ctx\<rparr>) \<and>
     (\<forall>x. x \<noteq> s_currentTask s \<longrightarrow> x \<noteq> p \<longrightarrow> s_tasks s' x = s_tasks s x) \<and> s_tasks s' p = Some (snd (schedulable (s_timerTicks s) t)) \<and>
     sched_inv s' \<and> set (run_queue s') = set (run_queue s)"
proof -
  have "y \<in> set (rotate1 (run_queue s))" using assms(6) by simp
  from split_first_ready [OF this assms(7)] obtain xs p ys where
    sp: "rotate1 (run_queue s) = xs @ p # ys" "\<forall>x \<in> set xs. \<not> ready s x" "ready s p" by blast
  from getNextTask_finds [OF assms(1) sp] obtain s1 t where
    n: "getNextTask s = Some (p, s1)" "sched_inv s1" "run_queue s1 = p # ys @ xs" "s_tasks s p = Some t"
      "s_tasks s1 = (s_tasks s)(p \<mapsto> snd (schedulable (s_timerTicks s) t))" by blast
  have pc: "p \<noteq> s_currentTask s" using sp(3) assms(5) by auto
  note f = getNextTask_frame [OF n(1), simplified]
  have "set (run_queue s) = set (xs @ p # ys)" using sp(1) by (metis set_rotate1)
  then have rq: "p \<in> set (run_queue s)" "set (p # ys @ xs) = set (run_queue s)" by auto
  have p0: "p \<noteq> 0" using n(2,3) by (auto simp: sched_inv_def)
  have mc: "m_context (snd (schedulable (s_timerTicks s) t)) = m_context t" by (simp add: schedulable_def Let_def)
  obtain cpu where run: "schedule ctx s = Some (m_context t, s1\<lparr>s_tasks := (s_tasks s1)(s_currentTask s \<mapsto> c\<lparr>m_context := ctx\<rparr>), s_cpu := cpu, s_currentTask := p\<rparr>)"
    using assms(2-4) n(1,5) f pc p0 mc by (simp add: schedule_def Let_def)
  show ?thesis
    using run pc sp(3) rq n(2-5) p0 assms(3) by (intro exI [of _ p] exI [of _ t]) (auto simp: sched_inv_def run_queue_def)
qed

text \<open>Asking a sequence of tasks to exit, all but the running one.\<close>

definition kill_one :: "addr \<Rightarrow> kernel \<Rightarrow> kernel option" where
  "kill_one x k = (if x = current k then Some k else asyncExit x k)"

lemma kill_from_dlseg:
  "dlseg h pv p ps la 0 \<Longrightarrow> kill_from h p k = fold_opt kill_one (items_at h ps) k"
proof (induction ps arbitrary: pv p k)
  case Nil
  then show ?case by (subst kill_from.simps) (simp add: items_at_def)
next
  case (Cons a ps)
  from Cons.prems obtain n where n: "p = a" "a \<noteq> 0" "h a = Some n" "dlseg h a (next_ptr n) ps la 0"
    by (auto split: option.splits)
  have "kill_from h p k = kill_one (item n) k \<bind> kill_from h (next_ptr n)"
    using n(1-3) by (subst kill_from.simps) (simp add: kill_one_def [of "item n" k])
  also have "kill_from h (next_ptr n) = fold_opt kill_one (items_at h ps)" using Cons.IH [OF n(4)] by (rule ext)
  finally show ?case using n(3) by (simp add: items_at_def)
qed

text \<open>A thread whose saved registers exist, and one that will exit when it runs.\<close>

definition has_context :: "kernel \<Rightarrow> addr \<Rightarrow> bool" where
  "has_context k x \<longleftrightarrow> x \<noteq> 0 \<and> (\<exists>t c. s_tasks (k_sched k) x = Some t \<and> m_context t \<noteq> 0 \<and> k_contexts k (m_context t) = Some c)"

definition will_exit :: "kernel \<Rightarrow> addr \<Rightarrow> bool" where
  "will_exit k x \<longleftrightarrow> (\<exists>t c. s_tasks (k_sched k) x = Some t \<and> k_contexts k (m_context t) = Some c \<and> rip c = EXIT_ADDR)"

lemma kill_all:
  assumes "\<And>x. x \<in> set xs \<Longrightarrow> x \<noteq> current k \<Longrightarrow> has_context k x"
  shows "\<exists>cs. fold_opt kill_one xs k = Some (k\<lparr>k_contexts := cs\<rparr>) \<and> (\<forall>x \<in> set xs. x \<noteq> current k \<longrightarrow> will_exit (k\<lparr>k_contexts := cs\<rparr>) x) \<and>
     (\<forall>a c. k_contexts k a = Some c \<longrightarrow> cs a = Some c \<or> cs a = Some (c\<lparr>rip := EXIT_ADDR\<rparr>))"
  using assms
proof (induction xs arbitrary: k)
  case Nil
  then show ?case by (auto intro: exI [of _ "k_contexts k"])
next
  case (Cons x xs)
  show ?case
  proof (cases "x = current k")
    case True
    from Cons.IH [of k] Cons.prems obtain cs where "fold_opt kill_one xs k = Some (k\<lparr>k_contexts := cs\<rparr>)"
      "\<forall>x \<in> set xs. x \<noteq> current k \<longrightarrow> will_exit (k\<lparr>k_contexts := cs\<rparr>) x"
      "\<forall>a c. k_contexts k a = Some c \<longrightarrow> cs a = Some c \<or> cs a = Some (c\<lparr>rip := EXIT_ADDR\<rparr>)" by auto
    with True show ?thesis by (auto simp: kill_one_def [of "current k" k])
  next
    case False
    from Cons.prems [of x] False obtain t c where t: "x \<noteq> 0" "s_tasks (k_sched k) x = Some t" "m_context t \<noteq> 0" "k_contexts k (m_context t) = Some c"
      by (auto simp: has_context_def)
    define k1 where "k1 = k\<lparr>k_contexts := (k_contexts k)(m_context t \<mapsto> c\<lparr>rip := EXIT_ADDR\<rparr>)\<rparr>"
    have one: "kill_one x k = Some k1" using False t by (simp add: kill_one_def [of x k] asyncExit_def k1_def)
    have "has_context k1 y" if "y \<in> set xs" "y \<noteq> current k1" for y
      using Cons.prems [of y] that by (auto simp: k1_def has_context_def)
    from Cons.IH [OF this] obtain cs where cs: "fold_opt kill_one xs k1 = Some (k1\<lparr>k_contexts := cs\<rparr>)"
      "\<forall>x \<in> set xs. x \<noteq> current k1 \<longrightarrow> will_exit (k1\<lparr>k_contexts := cs\<rparr>) x"
      "\<forall>a c. k_contexts k1 a = Some c \<longrightarrow> cs a = Some c \<or> cs a = Some (c\<lparr>rip := EXIT_ADDR\<rparr>)" by auto
    have e: "k1\<lparr>k_contexts := cs\<rparr> = k\<lparr>k_contexts := cs\<rparr>" "current k1 = current k" by (simp_all add: k1_def)
    have "cs (m_context t) = Some (c\<lparr>rip := EXIT_ADDR\<rparr>)" using cs(3) [rule_format, of "m_context t"] by (auto simp: k1_def)
    then have "will_exit (k\<lparr>k_contexts := cs\<rparr>) x" using t(2) by (auto simp: will_exit_def)
    moreover have "cs a = Some d \<or> cs a = Some (d\<lparr>rip := EXIT_ADDR\<rparr>)" if "k_contexts k a = Some d" for a d
      using cs(3) [rule_format, of a] that t(4) by (cases "a = m_context t") (auto simp: k1_def)
    ultimately show ?thesis using one cs(1,2) e by auto
  qed
qed

lemma fpu_clear_frame:
  "s_tasks (k_sched (fpu_clear k)) = s_tasks (k_sched k)" "s_taskList (k_sched (fpu_clear k)) = s_taskList (k_sched k)"
  "s_currentTask (k_sched (fpu_clear k)) = current k" "s_schedEnable (k_sched (fpu_clear k)) = s_schedEnable (k_sched k)"
  "s_timerTicks (k_sched (fpu_clear k)) = s_timerTicks (k_sched k)"
  "k_contexts (fpu_clear k) = k_contexts k" "k_procs (fpu_clear k) = k_procs k" "k_userTasks (fpu_clear k) = k_userTasks k"
  "current k \<noteq> 0 \<Longrightarrow> k_fpuTask (fpu_clear k) \<noteq> current k"
  by (auto simp: fpu_clear_def)

text \<open>A user task that exits is killed, gives up the floating point unit, and another task runs.\<close>

lemma user_task_exit_ok:
  assumes "sched_inv (k_sched k)" and "s_schedEnable (k_sched k)" and "current k \<noteq> 0" and "s_tasks (k_sched k) (current k) = Some c"
    and "y \<in> set (run_queue (k_sched k))" and "ready (k_sched k) y" and "y \<noteq> current k"
  shows "\<exists>t k'. user_task_exit (current k) ctx k = Some (m_context t, k') \<and> killed k' (current k) \<and> current k' \<noteq> current k \<and>
     ready (k_sched k) (current k') \<and> s_tasks (k_sched k) (current k') = Some t \<and> k_fpuTask k' \<noteq> current k \<and>
     k_contexts k' = k_contexts k \<and> k_procs k' = k_procs k \<and> k_userTasks k' = k_userTasks k \<and>
     (\<forall>x. x \<noteq> current k \<longrightarrow> map_option m_context (s_tasks (k_sched k') x) = map_option m_context (s_tasks (k_sched k) x))"
proof -
  note f = fpu_clear_frame [of k]
  define s where "s = (k_sched (fpu_clear k))\<lparr>s_tasks := (s_tasks (k_sched k))(current k \<mapsto> c\<lparr>m_state := KILLED\<rparr>)\<rparr>"
  have s: "s_tasks s = (s_tasks (k_sched k))(current k \<mapsto> c\<lparr>m_state := KILLED\<rparr>)" "s_taskList s = s_taskList (k_sched k)"
    "s_currentTask s = current k" "s_schedEnable s" "s_timerTicks s = s_timerTicks (k_sched k)" using f assms(2) by (simp_all add: s_def)
  have rq: "run_queue s = run_queue (k_sched k)" by (simp add: run_queue_def s(2))
  have inv: "sched_inv s" using assms(1,3) by (auto simp: sched_inv_def rq s)
  have rd: "ready s x = ready (k_sched k) x" if "x \<noteq> current k" for x using that unfolding ready_def s(1,5) by simp
  have nr: "\<not> ready s (s_currentTask s)" using ready_iff [of s "current k"] by (simp add: s)
  from schedule_leaves [OF inv s(4) _ _ nr, of "c\<lparr>m_state := KILLED\<rparr>" y ctx] assms(3,5-7) rq rd s(1,3) obtain p t s' where
    r: "schedule ctx s = Some (m_context t, s')" "s_currentTask s' = p" "p \<noteq> current k" "ready s p" "s_tasks s p = Some t"
      "s_tasks s' (current k) = Some (c\<lparr>m_state := KILLED, m_context := ctx\<rparr>)"
      "\<forall>x. x \<noteq> current k \<longrightarrow> x \<noteq> p \<longrightarrow> s_tasks s' x = s_tasks s x" "s_tasks s' p = Some (snd (schedulable (s_timerTicks s) t))" by auto
  have run: "user_task_exit (current k) ctx k = Some (m_context t, (fpu_clear k)\<lparr>k_sched := s'\<rparr>)"
    using assms(3,4) f(1,3,4) r(1) s(4) by (simp add: user_task_exit_def task_exit_def yield_task_def s_def)
  have tp: "s_tasks (k_sched k) p = Some t" using r(3,5) s(1) by simp
  have mc: "m_context (snd (schedulable (s_timerTicks s) t)) = m_context t" by (simp add: schedulable_def Let_def)
  have "map_option m_context (s_tasks s' x) = map_option m_context (s_tasks (k_sched k) x)" if "x \<noteq> current k" for x
    using r(7,8) tp mc s(1) that by (cases "x = p") auto
  then show ?thesis using run r(2-4,6) rd f(6-8) f(9) [OF assms(3)] tp
    by (intro exI [of _ t] exI [of _ "(fpu_clear k)\<lparr>k_sched := s'\<rparr>"]) (auto simp: killed_def)
qed

section \<open>Properties\<close>

lemma current_process_ok:
  assumes "proc_ok k p" and "current k \<in> set (threads k p)" and "t_isUserTask (the (s_tasks (k_sched k) (current k)))"
  shows "current_process k = Some p" "\<exists>ut. k_userTasks k (current k) = Some ut \<and> ut_process ut = p" "current k \<noteq> 0" "p \<noteq> 0"
    "\<exists>t. s_tasks (k_sched k) (current k) = Some t \<and> t_isUserTask t" "\<exists>pr. k_procs k p = Some pr"
proof -
  from assms(1,2) obtain pr ut where pr: "k_procs k p = Some pr" "p \<noteq> 0" "current k \<in> set (run_queue (k_sched k))" "k_userTasks k (current k) = Some ut" "ut_process ut = p"
    "sched_inv (k_sched k)" by (auto simp: proc_ok_def threads_ok_def thread_ok_def)
  then obtain t where t: "current k \<noteq> 0" "s_tasks (k_sched k) (current k) = Some t" by (auto simp: sched_inv_def)
  with pr assms(3) show "current_process k = Some p" "\<exists>ut. k_userTasks k (current k) = Some ut \<and> ut_process ut = p" "current k \<noteq> 0" "p \<noteq> 0"
    "\<exists>t. s_tasks (k_sched k) (current k) = Some t \<and> t_isUserTask t" "\<exists>pr. k_procs k p = Some pr"
    by (auto simp: current_process_def currentUserTask_def)
qed

lemma proc_exit_ok:
  assumes ok: "proc_ok k p" "p_state (the (k_procs k p)) = PRunning" and cur: "current k \<in> set (threads k p)" "t_isUserTask (the (s_tasks (k_sched k) (current k)))"
    and cx: "\<forall>x \<in> set (threads k p). x \<noteq> current k \<longrightarrow> has_context k x"
    and y: "y \<in> set (run_queue (k_sched k))" "ready (k_sched k) y" "y \<noteq> current k"
  shows "\<exists>ctx' k'. proc_exit p ctx k = Some (ctx', k') \<and> p_state (the (k_procs k' p)) = PKilled \<and> threads k' p = threads k p \<and>
     killed k' (current k) \<and> k_fpuTask k' \<noteq> current k \<and> current k' \<noteq> current k \<and> ready (k_sched k) (current k') \<and>
     (\<forall>x \<in> set (threads k p). x \<noteq> current k \<longrightarrow> will_exit k' x)"
proof -
  from ok(1) obtain pr where pr: "k_procs k p = Some pr" "p \<noteq> 0" "thread_ok k (p_stackList pr) p (current k)" "klist_inv (p_taskList pr)"
    and inv: "sched_inv (k_sched k)" "s_schedEnable (k_sched k)" using cur(1) by (auto simp: proc_ok_def threads_ok_def)
  have cq: "current k \<noteq> 0" and "s_tasks (k_sched k) (current k) \<noteq> None" using pr(3) inv(1) by (auto simp: thread_ok_def sched_inv_def)
  then obtain c where c: "s_tasks (k_sched k) (current k) = Some c" by blast
  obtain ut where ut: "k_userTasks k (current k) = Some ut" "ut_process ut = p" using pr(3) by (auto simp: thread_ok_def)
  define k0 where "k0 = k\<lparr>k_procs := (k_procs k)(p \<mapsto> pr\<lparr>p_state := PKilled\<rparr>)\<rparr>"
  have th: "threads k p = contents (p_taskList pr)" by (simp add: threads_def pr(1))
  from pr(4) have "dlseg (snd (p_taskList pr)) 0 (m_first (fst (p_taskList pr))) (ptrs (p_taskList pr)) (m_last (fst (p_taskList pr))) 0"
    by (simp add: klist_inv_def rep_def)
  from kill_from_dlseg [OF this] have kf: "kill_from (snd (p_taskList pr)) (m_first (fst (p_taskList pr))) k0 = fold_opt kill_one (threads k p) k0"
    by (simp add: th contents_def)
  have "has_context k0 x" if "x \<in> set (threads k p)" "x \<noteq> current k0" for x
    using cx that by (auto simp: has_context_def k0_def)
  from kill_all [OF this] obtain cs where cs: "fold_opt kill_one (threads k p) k0 = Some (k0\<lparr>k_contexts := cs\<rparr>)"
    "\<forall>x \<in> set (threads k p). x \<noteq> current k0 \<longrightarrow> will_exit (k0\<lparr>k_contexts := cs\<rparr>) x" by blast
  define k1 where "k1 = k0\<lparr>k_contexts := cs\<rparr>"
  have k1: "k_sched k1 = k_sched k" "k_userTasks k1 = k_userTasks k" "k_procs k1 = (k_procs k)(p \<mapsto> pr\<lparr>p_state := PKilled\<rparr>)"
    by (simp_all add: k1_def k0_def)
  from user_task_exit_ok [of k1 c y ctx, unfolded k1(1), OF inv cq c y] obtain t :: task and k' where
    e: "user_task_exit (current k) ctx k1 = Some (m_context t, k')" "killed k' (current k)" "current k' \<noteq> current k" "ready (k_sched k) (current k')"
      "k_fpuTask k' \<noteq> current k" "k_contexts k' = k_contexts k1" "k_procs k' = k_procs k1"
      "\<forall>x. x \<noteq> current k \<longrightarrow> map_option m_context (s_tasks (k_sched k') x) = map_option m_context (s_tasks (k_sched k) x)"
    by blast
  have "proc_exit p ctx k = Some (m_context t, k')"
    using cq c cur(2) ut pr(1,2) ok(2) kf cs(1) e(1) k1
    by (simp add: proc_exit_def killAllTasks_def exit_self_def isOwnProcess_def k0_def k1_def)
  moreover have "will_exit k' x" if x: "x \<in> set (threads k p)" "x \<noteq> current k" for x
  proof -
    have "will_exit k1 x" using cs(2) x by (simp add: k1_def k0_def)
    then obtain tx cx where t: "s_tasks (k_sched k) x = Some tx" "k_contexts k1 (m_context tx) = Some cx" "rip cx = EXIT_ADDR"
      by (auto simp: will_exit_def k1(1))
    moreover from this(1) e(8) x(2) have "map_option m_context (s_tasks (k_sched k') x) = Some (m_context tx)" by simp
    ultimately show ?thesis using e(6) by (auto simp: will_exit_def)
  qed
  ultimately show ?thesis using e k1(3) by (auto simp: threads_def pr(1))
qed

text \<open>C16. The exit system call (\<^verbatim>\<open>sys_exit\<close>, \<^verbatim>\<open>UserProcess::exit\<close>, \<^verbatim>\<open>killAllTasks\<close>, \<^verbatim>\<open>asyncExit\<close>, \<^verbatim>\<open>UserTask::exit\<close>): when a thread of a
  running process exits and some other task can run, the call does not return to the thread. The
  process is marked as killed, the thread is killed and has given up the floating point unit, every
  other thread of the process has the exit address as its next instruction, and a task that was ready
  runs.\<close>

theorem exit_correct:
  assumes ok: "proc_ok k p" "p_state (the (k_procs k p)) = PRunning" and cur: "current k \<in> set (threads k p)" "t_isUserTask (the (s_tasks (k_sched k) (current k)))"
    and cx: "\<forall>x \<in> set (threads k p). x \<noteq> current k \<longrightarrow> has_context k x"
    and y: "y \<in> set (run_queue (k_sched k))" "ready (k_sched k) y" "y \<noteq> current k"
  shows "\<exists>ctx' k'. sys_exit ctx k = Some (ctx', k') \<and> p_state (the (k_procs k' p)) = PKilled \<and> threads k' p = threads k p \<and>
     killed k' (current k) \<and> k_fpuTask k' \<noteq> current k \<and> current k' \<noteq> current k \<and> ready (k_sched k) (current k') \<and>
     (\<forall>x \<in> set (threads k p). x \<noteq> current k \<longrightarrow> will_exit k' x)"
  using proc_exit_ok [OF assms] current_process_ok(1) [OF ok(1) cur] by (auto simp: sys_exit_def)

lemma swept_cong: "(\<And>x. x \<in> set xs \<Longrightarrow> d x = d' x) \<Longrightarrow> swept d xs = swept d' xs"
  by (cases "(d, xs)" rule: swept.cases) (auto intro: filter_cong)

text \<open>One pass of the cleanup over the threads of a process (\<^verbatim>\<open>checkForDeadTasks\<close>): it returns, removes exactly
  the killed threads, except that the second thread is passed over when the first one is removed, and
  keeps all lists, stack slots and the run queue consistent. The threads that go leave the run queue,
  no other task is affected, and the process is marked for deletion when no thread is left.\<close>

theorem checkForDeadTasks_correct:
  assumes "proc_ok k p"
  shows "\<exists>k'. checkForDeadTasks p k = Some k' \<and> proc_ok k' p \<and> threads k' p = swept (killed k) (threads k p) \<and>
     run_queue (k_sched k') = filter (\<lambda>x. x \<notin> set (threads k p) - set (threads k' p)) (run_queue (k_sched k)) \<and>
     (\<forall>x. x \<notin> set (threads k p) - set (threads k' p) \<longrightarrow> s_tasks (k_sched k') x = s_tasks (k_sched k) x) \<and>
     p_state (the (k_procs k' p)) = (if threads k' p = [] then ToBeDeleted else p_state (the (k_procs k p)))"
  using checkForDeadTasks_ok [OF assms] by blast

text \<open>C17. Two passes leave no killed thread: whatever the order of the threads, the threads that remain are those
  that were not killed, and if all were killed the process is marked for deletion.\<close>

theorem two_passes_clean:
  assumes "proc_ok k p"
  shows "\<exists>k'. (checkForDeadTasks p k \<bind> checkForDeadTasks p) = Some k' \<and> proc_ok k' p \<and>
     threads k' p = filter (\<lambda>x. \<not> killed k x) (threads k p) \<and>
     ((\<forall>x \<in> set (threads k p). killed k x) \<longrightarrow> p_state (the (k_procs k' p)) = ToBeDeleted)"
proof -
  from checkForDeadTasks_ok [OF assms] obtain k1 where k1: "checkForDeadTasks p k = Some k1" "proc_ok k1 p"
    "threads k1 p = swept (killed k) (threads k p)"
    "\<forall>x. x \<notin> set (threads k p) - set (threads k1 p) \<longrightarrow> s_tasks (k_sched k1) x = s_tasks (k_sched k) x" by blast
  from checkForDeadTasks_ok [OF k1(2)] obtain k2 where k2: "checkForDeadTasks p k1 = Some k2" "proc_ok k2 p"
    "threads k2 p = swept (killed k1) (threads k1 p)"
    "p_state (the (k_procs k2 p)) = (if threads k2 p = [] then ToBeDeleted else p_state (the (k_procs k1 p)))" by blast
  have "killed k1 x = killed k x" if "x \<in> set (threads k1 p)" for x using k1(4) that by (simp add: killed_def)
  then have "threads k2 p = filter (\<lambda>x. \<not> killed k x) (threads k p)"
    using k2(3) k1(3) swept_cong [of "threads k1 p" "killed k1" "killed k"] swept_twice by metis
  with k1(1) k2(1,2,4) show ?thesis by (simp add: filter_empty_conv)
qed


section \<open>Example\<close>

text \<open>The process of the example, and the same one with both threads killed while the idle task runs.\<close>


definition demo_dead :: kernel where
  "demo_dead = demo_kernel\<lparr>k_sched := demo_sched\<lparr>s_currentTask := 300,
     s_tasks := (s_tasks demo_sched)(100 \<mapsto> demo_task 1 1000 True\<lparr>m_state := KILLED\<rparr>, 200 \<mapsto> demo_task 2 2000 True\<lparr>m_state := KILLED\<rparr>)\<rparr>\<rparr>"

lemma demo_threads_ptrs: "ptrs (p_taskList demo_proc) = [64, 80]"
  by (simp add: ptrs_def demo_proc_def, unfold numeral_2_eq_2, simp)

lemma demo_threads: "k_procs k 500 = Some demo_proc \<Longrightarrow> threads k 500 = [100, 200]"
  unfolding threads_def contents_def by (simp add: demo_threads_ptrs) (simp add: items_at_def demo_proc_def)

lemma demo_threads_inv: "klist_inv (p_taskList demo_proc)"
  unfolding klist_inv_def demo_threads_ptrs by (simp add: demo_proc_def rep_def)

lemma demo_slots: "vec_inv (p_stackList demo_proc)" "elems (p_stackList demo_proc) = [True, True]"
  by (simp_all add: demo_proc_def vec_inv_def elems_def)

lemma demo_thread_ok:
  assumes "run_queue (k_sched k) = [100, 200, 300]" "k_userTasks k = k_userTasks demo_kernel" "x \<in> {100, 200}"
  shows "thread_ok k (p_stackList demo_proc) 500 x"
proof -
  have "\<exists>i::nat. ut_stack (demo_user_task j) = stack_top (of_nat i) \<and> slot (p_stackList demo_proc) i" if "j \<in> {0, 1}" for j
    using that by (intro exI [of _ "unat j"]) (auto simp: demo_user_task_def slot_def demo_slots)
  then show ?thesis using assms by (auto simp: thread_ok_def demo_kernel_def demo_user_task_def)
qed

lemma demo_proc_ok_gen:
  assumes "run_queue (k_sched k) = [100, 200, 300]" "sched_inv (k_sched k)" "s_schedEnable (k_sched k)" "k_userTasks k = k_userTasks demo_kernel"
    "k_procs k = k_procs demo_kernel" "current k \<in> {100, 200, 300}" "\<not> killed k (current k)"
  shows "proc_ok k 500"
proof -
  have p: "k_procs k 500 = Some demo_proc" using assms(5) by (simp add: demo_kernel_def)
  have "inj_on (stack_of k) {100, 200}"
    using assms(4) by (simp add: stack_of_def demo_kernel_def demo_user_task_def stack_top_def UserProc.getStackSize_def USER_BREAK_def)
  then show ?thesis
    using assms p demo_thread_ok [OF assms(1,4)] unfolding proc_ok_def threads_ok_def
    by (auto simp: demo_threads [OF p] demo_threads_inv demo_slots)
qed

lemma demo_kernel_ok: "proc_ok demo_kernel 500"
  by (rule demo_proc_ok_gen) (simp_all add: demo_kernel_def demo_sched_queue demo_sched_inv, simp_all add: demo_sched_def killed_def demo_task_def)

lemma demo_dead_queue: "run_queue (k_sched demo_dead) = [100, 200, 300]"
  using demo_sched_queue by (simp add: demo_dead_def run_queue_def)

lemma demo_dead_ok: "proc_ok demo_dead 500"
proof (rule demo_proc_ok_gen [OF demo_dead_queue])
  show "sched_inv (k_sched demo_dead)"
    using demo_sched_inv demo_dead_queue demo_sched_queue unfolding sched_inv_def by (simp add: demo_dead_def)
qed (simp_all add: demo_dead_def demo_kernel_def demo_sched_def killed_def demo_task_def)

lemma demo_dead_killed: "threads demo_dead 500 = [100, 200]" "killed demo_dead 100" "killed demo_dead 200"
  by (simp_all add: demo_threads demo_dead_def demo_kernel_def killed_def)

theorem exit_correct_witness:
  "\<exists>ctx' k'. sys_exit 1000 demo_kernel = Some (ctx', k') \<and> p_state (the (k_procs k' 500)) = PKilled \<and>
     threads k' 500 = [100, 200] \<and> killed k' 100 \<and> k_fpuTask k' \<noteq> 100 \<and> current k' \<noteq> 100 \<and> will_exit k' 200"
proof -
  have t: "threads demo_kernel 500 = [100, 200]" by (rule demo_threads) (simp add: demo_kernel_def)
  have c: "current demo_kernel = 100" "k_procs demo_kernel 500 = Some demo_proc" "p_state demo_proc = PRunning" "has_context demo_kernel 200"
    by (simp_all add: demo_kernel_def demo_sched_def demo_proc_def has_context_def demo_task_def)
  have u: "t_isUserTask (the (s_tasks (k_sched demo_kernel) 100))" "ready (k_sched demo_kernel) 300" "run_queue (k_sched demo_kernel) = [100, 200, 300]"
    using demo_sched_queue by (simp_all add: demo_kernel_def) (simp_all add: demo_sched_def demo_task_def ready_def schedulable_def)
  show ?thesis using exit_correct [OF demo_kernel_ok, of 300 1000] t c u by auto
qed

theorem checkForDeadTasks_witness:
  "\<exists>k'. checkForDeadTasks 500 demo_dead = Some k' \<and> threads k' 500 = [200] \<and> run_queue (k_sched k') = [200, 300]"
  using checkForDeadTasks_correct [OF demo_dead_ok] by (auto simp: demo_dead_killed demo_dead_queue)

theorem two_passes_clean_witness:
  "\<exists>k'. (checkForDeadTasks 500 demo_dead \<bind> checkForDeadTasks 500) = Some k' \<and> threads k' 500 = [] \<and> p_state (the (k_procs k' 500)) = ToBeDeleted"
  using two_passes_clean [OF demo_dead_ok] by (auto simp: demo_dead_killed)

end
