(* ===== verification/PageFault.thy ===== *)
theory PageFault
  imports Process
begin

text \<open>
  The page fault handler, \<^verbatim>\<open>kernel/mm/page_fault.cpp\<close>: it carries out kill requests, copies pages that
  were shared by fork, extends stacks, loads the program on demand, and kills processes that use
  addresses they do not have. Since the handler can switch away from the faulting task for good, its
  result is either the value it returns or the frame of the task that runs next.
\<close>

section \<open>Model\<close>

definition MIN_LOAD_ADDR :: addr where "MIN_LOAD_ADDR = 0x100000"
definition PF_PRESENT :: uint32_t where "PF_PRESENT = 1"
definition PF_WRITE :: uint32_t where "PF_WRITE = 2"
definition PF_USER :: uint32_t where "PF_USER = 4"
definition PF_RESERVED :: uint32_t where "PF_RESERVED = 8"
definition PF_CODE :: uint32_t where "PF_CODE = 16"

datatype fault_result = Returned bool | Switched addr

definition checkIfValid :: "addr \<Rightarrow> bool" where
  "checkIfValid a = (if a < MIN_LOAD_ADDR then False else if a \<ge> USER_BREAK then False else True)"

text \<open>\<^verbatim>\<open>sched::currentTask()->exit()\<close> is a virtual call.\<close>

definition exit_current :: "addr \<Rightarrow> kernel \<Rightarrow> (addr \<times> kernel) option" where
  "exit_current ctx k = do {
     t \<leftarrow> deref (s_tasks (k_sched k)) (current k);
     if t_isUserTask t then user_task_exit (current k) ctx k
     else do { (ctx1, s) \<leftarrow> task_exit (current k) ctx (k_sched k); Some (ctx1, k\<lparr>k_sched := s\<rparr>) }
   }"

text \<open>\<open>ctx\<close> is the frame pushed if the task is switched away. A killed task is never resumed; only while
  the scheduler is off does a call of \<^verbatim>\<open>exit\<close> return.\<close>

definition killProgram :: "addr \<Rightarrow> kernel \<Rightarrow> (fault_result \<times> kernel) option" where
  "killProgram ctx k = do {
     p \<leftarrow> current_process k;
     (ctx1, k1) \<leftarrow> proc_exit p ctx k;
     Some (if s_schedEnable (k_sched k) then Switched ctx1 else Returned False, k1)
   }"

text \<open>The handler behind the test for a kill request.\<close>

definition fault_rest :: "addr \<Rightarrow> uint32_t \<Rightarrow> addr \<Rightarrow> kernel \<Rightarrow> (fault_result \<times> kernel) option" where
  "fault_rest a flags ctx k =
     (if \<not> checkIfValid a then killProgram ctx k
      else do {
        p \<leftarrow> current_process k;
        pr \<leftarrow> deref (k_procs k) p;
        pml4 \<leftarrow> deref (k_spaces k) (p_addrSpace pr);
        if flags AND PF_PRESENT \<noteq> 0 \<and> flags AND PF_WRITE \<noteq> 0 then do {
          (_, vm) \<leftarrow> triggerCow pml4 (drop_bit PAGE_SHIFT a) (k_vm k);
          Some (Returned True, k\<lparr>k_vm := vm\<rparr>)
        } else do {
          onStack \<leftarrow> isValidStackAddr a (p_stackList pr);
          if onStack then do {
            (ppn, pm) \<leftarrow> alloc False (v_pages (k_vm k));
            vm \<leftarrow> map_page_at pml4 (drop_bit PAGE_SHIFT a) ppn (MAP_USER OR MAP_WRITE OR MAP_NOEXEC) ((k_vm k)\<lparr>v_pages := pm\<rparr>);
            Some (Returned True, k\<lparr>k_vm := vm\<rparr>)
          } else do {
            lp \<leftarrow> sp_get (p_loader pr) (k_shared k);
            ld \<leftarrow> deref (k_loaders k) lp;
            (loaded, vm) \<leftarrow> loader_load (k_elf k) ld a pml4 (k_vm k);
            if \<not> loaded then killProgram ctx (k\<lparr>k_vm := vm\<rparr>)
            else Some (Returned True, k\<lparr>k_vm := vm\<rparr>)
          }
        }
      })"

definition handlePageFault :: "addr \<Rightarrow> uint32_t \<Rightarrow> addr \<Rightarrow> kernel \<Rightarrow> (fault_result \<times> kernel) option" where
  "handlePageFault a flags ctx k = do {
     kassert (flags AND PF_RESERVED = 0);
     if a = EXIT_ADDR \<and> flags AND PF_CODE \<noteq> 0 then do {
       (ctx1, k1) \<leftarrow> exit_current ctx k;
       if s_schedEnable (k_sched k) then Some (Switched ctx1, k1) else fault_rest a flags ctx1 k1
     }
     else fault_rest a flags ctx k
   }"

section \<open>Faults of a thread\<close>

text \<open>The running task is a thread of the process \<open>p\<close>, whose top-level table is \<open>t\<close>.\<close>

definition faulting :: "kernel \<Rightarrow> addr \<Rightarrow> size_t \<Rightarrow> bool" where
  "faulting k p t \<longleftrightarrow> proc_ok k p \<and> current k \<in> set (threads k p) \<and> t_isUserTask (the (s_tasks (k_sched k) (current k))) \<and>
     p_addrSpace (the (k_procs k p)) \<noteq> 0 \<and> k_spaces k (p_addrSpace (the (k_procs k p))) = Some t"

lemma fault_rest_valid:
  assumes "faulting k p t" and "checkIfValid a"
  shows "fault_rest a flags ctx k =
     (if flags AND PF_PRESENT \<noteq> 0 \<and> flags AND PF_WRITE \<noteq> 0 then do {
        (_, vm) \<leftarrow> triggerCow t (drop_bit PAGE_SHIFT a) (k_vm k);
        Some (Returned True, k\<lparr>k_vm := vm\<rparr>)
      } else do {
        onStack \<leftarrow> isValidStackAddr a (p_stackList (the (k_procs k p)));
        if onStack then do {
          (ppn, pm) \<leftarrow> alloc False (v_pages (k_vm k));
          vm \<leftarrow> map_page_at t (drop_bit PAGE_SHIFT a) ppn (MAP_USER OR MAP_WRITE OR MAP_NOEXEC) ((k_vm k)\<lparr>v_pages := pm\<rparr>);
          Some (Returned True, k\<lparr>k_vm := vm\<rparr>)
        } else do {
          lp \<leftarrow> sp_get (p_loader (the (k_procs k p))) (k_shared k);
          ld \<leftarrow> deref (k_loaders k) lp;
          (loaded, vm) \<leftarrow> loader_load (k_elf k) ld a t (k_vm k);
          if \<not> loaded then killProgram ctx (k\<lparr>k_vm := vm\<rparr>)
          else Some (Returned True, k\<lparr>k_vm := vm\<rparr>)
        }
      })"
proof -
  note f = assms(1) [unfolded faulting_def]
  note c = current_process_ok [of k p]
  from c(6) f obtain pr where "k_procs k p = Some pr" by auto
  with f c(1,4) show ?thesis using assms(2) by (simp add: fault_rest_def cong: if_cong)
qed

lemma handle_rest: "\<not> (a = EXIT_ADDR \<and> flags AND PF_CODE \<noteq> 0) \<Longrightarrow> flags AND PF_RESERVED = 0 \<Longrightarrow> handlePageFault a flags ctx k = fault_rest a flags ctx k"
  by (auto simp: handlePageFault_def)

lemma valid_not_exit: "checkIfValid a \<Longrightarrow> a \<noteq> EXIT_ADDR"
  by (auto simp: checkIfValid_def EXIT_ADDR_def MIN_LOAD_ADDR_def USER_BREAK_def split: if_splits)

lemma user_index:
  assumes "\<not> USER_BREAK \<le> a"
  shows "table_index 3 (drop_bit PAGE_SHIFT a) < 256"
proof -
  have "unat a < 2 ^ 47" using assms by (simp add: word_le_nat_alt USER_BREAK_def)
  then have "unat (drop_bit PAGE_SHIFT a) < 2 ^ 35" by (simp add: unat_drop_page)
  then have "unat (drop_bit 27 (drop_bit PAGE_SHIFT a)) < 256" by (simp only: unat_drop_bit_eq [of 27] drop_bit_nat_def) simp
  moreover have "unat (drop_bit 27 (drop_bit PAGE_SHIFT a) AND 0x1ff) \<le> unat (drop_bit 27 (drop_bit PAGE_SHIFT a))"
    by (rule word_and_le2 [unfolded word_le_nat_alt])
  ultimately show ?thesis by (simp add: table_index_def)
qed

lemma stack_addr_valid:
  assumes "unat i < 2 ^ 23" and "0 < unat r" and "unat r < 8388608"
  shows "checkIfValid (stack_top i - r)"
proof -
  let ?o = "getStackSize * i + r"
  have e: "stack_top i - r = USER_BREAK - ?o" by (simp add: stack_top_def)
  have m: "unat (getStackSize * i) = 8388608 * unat i"
    using assms(1) by (subst unat_mult_lem [THEN iffD1]) (simp_all add: UserProc.getStackSize_def)
  have o: "unat ?o = 8388608 * unat i + unat r"
    using assms(1,3) m by (subst unat_add_lem [THEN iffD1]) simp_all
  have b: "?o \<le> USER_BREAK" unfolding word_le_nat_alt o using assms(1,3) by (simp add: USER_BREAK_def)
  have "unat (stack_top i - r) = unat USER_BREAK - unat ?o" unfolding e using b by (rule unat_sub)
  then have u: "unat (stack_top i - r) = 140737488355328 - (8388608 * unat i + unat r)" using o by (simp add: USER_BREAK_def)
  have "1048576 \<le> unat (stack_top i - r)" "unat (stack_top i - r) < 140737488355328" unfolding u using assms by simp_all
  then show ?thesis by (simp add: checkIfValid_def word_less_nat_alt word_le_nat_alt MIN_LOAD_ADDR_def USER_BREAK_def)
qed

lemma page_cells_id: "(k_vm k)\<lparr>v_pages := pm\<rparr> = \<lparr>v_pages = pm, v_mem = (v_mem (k_vm k))(n := v_mem (k_vm k) n)\<rparr>"
  by simp

text \<open>C23. An access to a page of a stack that is not mapped yet: the handler maps an unreferenced frame there, for
  reading and writing but not for execution, and changes no other page. The frame is not cleared, so
  the page shows what the frame's previous owner left in it.\<close>

theorem stack_fault:
  assumes f: "faulting k p t" and a: "a = stack_top i - r" "unat i < 2 ^ 23" "0 < unat r" "unat r < 8388608" "slot (p_stackList (the (k_procs k p))) (unat i)"
    and fl: "flags AND PF_PRESENT = 0" "flags AND PF_RESERVED = 0"
    and vm: "space_ok (k_vm k) t" "leaf (v_mem (k_vm k)) t (path (drop_bit PAGE_SHIFT a)) = None" "4 \<le> zeros (m_pagemap (v_pages (k_vm k)))"
  shows "\<exists>k' n. handlePageFault a flags ctx k = Some (Returned True, k') \<and> space_ok (k_vm k') t \<and>
     leaf (v_mem (k_vm k')) t (path (drop_bit PAGE_SHIFT a)) = Some (leaf_entry n (MAP_USER OR MAP_WRITE OR MAP_NOEXEC)) \<and>
     refs (v_pages (k_vm k)) n = 0 \<and> refs (v_pages (k_vm k')) n = 1 \<and> v_mem (k_vm k') n = v_mem (k_vm k) n \<and>
     (\<forall>v. path v \<noteq> path (drop_bit PAGE_SHIFT a) \<longrightarrow> leaf (v_mem (k_vm k')) t (path v) = leaf (v_mem (k_vm k)) t (path v))"
proof -
  let ?v = "p_stackList (the (k_procs k p))"
  have v: "vec_inv ?v" using f by (auto simp: faulting_def proc_ok_def threads_ok_def)
  have valid: "checkIfValid a" using stack_addr_valid a(1-4) by blast
  have on: "isValidStackAddr a ?v = Some True" using isValidStackAddr_slots [OF v a(2,4)] a(1,5) by simp
  have "pm_inv (v_pages (k_vm k))" "unlocked (v_pages (k_vm k))" using space_okD [OF vm(1)] by blast+
  moreover from vm(3) obtain n pm where al: "alloc False (v_pages (k_vm k)) = Some (n, pm)"
    using alloc_zeros [OF calculation] by fastforce
  ultimately have fresh: "refs (v_pages (k_vm k)) n = 0" using alloc_correct by blast
  from map_new_frame [OF vm(1) al vm(2,3), where c = "v_mem (k_vm k) n" and flags = "MAP_USER OR MAP_WRITE OR MAP_NOEXEC"] obtain vm' where
    m: "map_page_at t (drop_bit PAGE_SHIFT a) n (MAP_USER OR MAP_WRITE OR MAP_NOEXEC) ((k_vm k)\<lparr>v_pages := pm\<rparr>) = Some vm'" "space_ok vm' t"
      "leaf (v_mem vm') t (path (drop_bit PAGE_SHIFT a)) = Some (leaf_entry n (MAP_USER OR MAP_WRITE OR MAP_NOEXEC))" "refs (v_pages vm') n = 1"
      "v_mem vm' n = v_mem (k_vm k) n" "\<forall>v. path v \<noteq> path (drop_bit PAGE_SHIFT a) \<longrightarrow> leaf (v_mem vm') t (path v) = leaf (v_mem (k_vm k)) t (path v)"
    unfolding page_cells_id [symmetric] by blast
  have "handlePageFault a flags ctx k = Some (Returned True, k\<lparr>k_vm := vm'\<rparr>)"
    using valid_not_exit [OF valid] fl on al m(1) by (simp add: handle_rest fault_rest_valid [OF f valid])
  then show ?thesis using m fresh by (intro exI [of _ "k\<lparr>k_vm := vm'\<rparr>"] exI [of _ n]) simp
qed

text \<open>A write to a page that is present but write-protected: the handler returns true, no address space sees
  other contents, and if the page can be written now its frame belongs to this address space alone.
  The answer of \<^verbatim>\<open>triggerCow\<close> is not looked at: the handler also returns true when the page stays read-only.\<close>

theorem cow_fault:
  assumes f: "faulting k p t" and a: "checkIfValid a" and fl: "flags AND PF_PRESENT \<noteq> 0" "flags AND PF_WRITE \<noteq> 0" "flags AND PF_RESERVED = 0"
    and vm: "spaces_ok (k_vm k) R lev" "t \<in> R" "CopyOnWrite.room (k_vm k) lev 3" "3 < zeros (m_pagemap (v_pages (k_vm k)))"
  shows "\<exists>k'. handlePageFault a flags ctx k = Some (Returned True, k') \<and> (\<exists>lev'. spaces_ok (k_vm k') R lev') \<and>
     same_views R (v_mem (k_vm k)) (v_mem (k_vm k')) \<and>
     (\<forall>e. leaf (v_mem (k_vm k')) t (path (drop_bit PAGE_SHIFT a)) = Some e \<longrightarrow> e_write e \<longrightarrow>
        unat (ppn_of e) < unat (m_totalPages (v_pages (k_vm k'))) \<longrightarrow> refs (v_pages (k_vm k')) (ppn_of e) = 1)"
proof -
  have "table_index 3 (drop_bit PAGE_SHIFT a) < 256" using user_index a by (auto simp: checkIfValid_def split: if_splits)
  from triggerCow_ok [OF vm(1,2) this vm(3,4)] obtain b vm' where
    m: "triggerCow t (drop_bit PAGE_SHIFT a) (k_vm k) = Some (b, vm')" "\<exists>lev'. spaces_ok vm' R lev'" "same_views R (v_mem (k_vm k)) (v_mem vm')"
      "b \<longleftrightarrow> (\<exists>e. leaf (v_mem vm') t (path (drop_bit PAGE_SHIFT a)) = Some e \<and> e_write e)"
      "\<forall>e. b \<longrightarrow> leaf (v_mem vm') t (path (drop_bit PAGE_SHIFT a)) = Some e \<longrightarrow> unat (ppn_of e) < unat (m_totalPages (v_pages vm')) \<longrightarrow>
        refs (v_pages vm') (ppn_of e) = 1" by blast
  have "handlePageFault a flags ctx k = Some (Returned True, k\<lparr>k_vm := vm'\<rparr>)"
    using valid_not_exit [OF a] fl m(1) by (simp add: handle_rest fault_rest_valid [OF f a])
  then show ?thesis using m(2-5) by (intro exI [of _ "k\<lparr>k_vm := vm'\<rparr>"]) auto
qed

text \<open>An address at which the process has nothing: outside the user half, or neither on one of its stacks
  nor in a segment of its program.\<close>

definition unowned :: "kernel \<Rightarrow> addr \<Rightarrow> addr \<Rightarrow> bool" where
  "unowned k p a \<longleftrightarrow> \<not> checkIfValid a \<or>
     isValidStackAddr a (p_stackList (the (k_procs k p))) = Some False \<and>
     (\<exists>lp ld phs. sp_get (p_loader (the (k_procs k p))) (k_shared k) = Some lp \<and> deref (k_loaders k) lp = Some ld \<and>
        read_headers (k_elf k) (unat (ld_phtEntryCount ld)) (ld_pht ld) = Some phs \<and> (\<forall>h \<in> set phs. \<not> (covers h a \<and> ph_type h = 1)))"


text \<open>A thread that was sent to the exit address by \<^verbatim>\<open>asyncExit\<close> faults there when it runs, dies and gives up the
  floating point unit; the process itself is not touched.\<close>

theorem kill_request:
  assumes "faulting k p t" and "flags AND PF_CODE \<noteq> 0" and "flags AND PF_RESERVED = 0"
    and y: "y \<in> set (run_queue (k_sched k))" "ready (k_sched k) y" "y \<noteq> current k"
  shows "\<exists>ctx' k'. handlePageFault EXIT_ADDR flags ctx k = Some (Switched ctx', k') \<and> killed k' (current k) \<and> k_fpuTask k' \<noteq> current k \<and>
     current k' \<noteq> current k \<and> ready (k_sched k) (current k') \<and> k_procs k' = k_procs k"
proof -
  from assms(1) have ok: "proc_ok k p" "current k \<in> set (threads k p)" "t_isUserTask (the (s_tasks (k_sched k) (current k)))" by (simp_all add: faulting_def)
  then have inv: "sched_inv (k_sched k)" "s_schedEnable (k_sched k)" by (simp_all add: proc_ok_def threads_ok_def)
  note c = current_process_ok [OF ok]
  from c(5) obtain tk where tk: "s_tasks (k_sched k) (current k) = Some tk" "t_isUserTask tk" by blast
  from user_task_exit_ok [OF inv c(3) tk(1) y, of ctx] obtain t :: task and k' where
    e: "user_task_exit (current k) ctx k = Some (m_context t, k')" "killed k' (current k)" "current k' \<noteq> current k" "ready (k_sched k) (current k')"
      "k_fpuTask k' \<noteq> current k" "k_procs k' = k_procs k" by blast
  then show ?thesis using assms(2,3) tk c(3) inv(2) by (simp add: handlePageFault_def exit_current_def)
qed

section \<open>Examples\<close>

lemma demo_faulting: "faulting demo_kernel 500 0"
proof -
  have t: "threads demo_kernel 500 = [100, 200]" by (rule demo_threads) (simp add: demo_kernel_def)
  show ?thesis unfolding faulting_def t using demo_kernel_ok
    by (simp_all add: demo_kernel_def demo_sched_def demo_proc_def demo_task_def)
qed

lemma demo_idle: "300 \<in> set (run_queue (k_sched demo_kernel))" "ready (k_sched demo_kernel) 300" "300 \<noteq> current demo_kernel" "current demo_kernel = 100"
  using demo_sched_queue by (simp_all add: demo_kernel_def) (simp_all add: demo_sched_def demo_task_def ready_def schedulable_def)

lemma demo_stack_page: "drop_bit PAGE_SHIFT (stack_top 0 - 8) = 0x7ffffffff" "leaf demo_mem 0 (path 0x7ffffffff) = None"
  by (simp_all add: PAGE_SHIFT_def stack_top_def USER_BREAK_def path_def table_index_def leaf_def demo_present)

theorem stack_fault_witness:
  "\<exists>k' n. handlePageFault (stack_top 0 - 8) PF_USER 1000 demo_kernel = Some (Returned True, k') \<and> v_mem (k_vm k') n = v_mem (k_vm demo_kernel) n \<and>
     leaf (v_mem (k_vm k')) 0 (path 0x7ffffffff) = Some (leaf_entry n (MAP_USER OR MAP_WRITE OR MAP_NOEXEC))"
proof -
  have p: "k_procs demo_kernel 500 = Some demo_proc" "k_vm demo_kernel = demo_vm" by (simp_all add: demo_kernel_def)
  show ?thesis
    using stack_fault [OF demo_faulting refl, of 0 8 PF_USER 1000] p demo_ok demo_pages demo_slots demo_stack_page
    by (auto simp: slot_def PF_USER_def PF_PRESENT_def PF_RESERVED_def)
qed

theorem cow_fault_witness:
  "\<exists>k'. handlePageFault 0x100000 (PF_PRESENT OR PF_WRITE) 1000 demo_kernel = Some (Returned True, k') \<and>
     same_views {0, 5} (v_mem (k_vm demo_kernel)) (v_mem (k_vm k'))"
proof -
  have "k_vm demo_kernel = demo_vm" by (simp add: demo_kernel_def)
  then show ?thesis
    using cow_fault [OF demo_faulting, of "0x100000" "PF_PRESENT OR PF_WRITE" "{0, 5}" demo_level 1000] demo_spaces demo_room demo_pages(4)
    by (auto simp: PF_WRITE_def PF_PRESENT_def PF_RESERVED_def checkIfValid_def MIN_LOAD_ADDR_def USER_BREAK_def)
qed


theorem kill_request_witness:
  "\<exists>ctx' k'. handlePageFault EXIT_ADDR PF_CODE 1000 demo_kernel = Some (Switched ctx', k') \<and> killed k' 100 \<and> current k' \<noteq> 100"
  using kill_request [OF demo_faulting, of PF_CODE 300 1000] demo_idle by (auto simp: PF_CODE_def PF_RESERVED_def)

end
