(* ===== verification/Fork.thy ===== *)
theory Fork
  imports PageFault
begin

text \<open>
  What \<^verbatim>\<open>fork\<close> achieves, composed from the contracts of the parts: the cloned address space, the copied file
  table with its reference counts, the shared pointers, the process list and the scheduler. The last
  section shows the gap between the two halves of the copy constructor of \<^verbatim>\<open>UserProcess\<close>.
\<close>

section \<open>File tables\<close>

text \<open>The descriptors in a table, in the order in which they are copied.\<close>

definition values_at :: "(size_t, file_desc) entries \<Rightarrow> addr list \<Rightarrow> file_desc list" where
  "values_at h as = map (\<lambda>a. m_value (the (h a))) as"

lemma values_at_simps [simp]:
  "values_at h [] = []" "values_at h (a # as) = m_value (the (h a)) # values_at h as" "values_at h (as @ bs) = values_at h as @ values_at h bs"
  by (simp_all add: values_at_def)

lemma copy_values_tree:
  "tree_at h p t \<Longrightarrow> t \<noteq> Leaf \<Longrightarrow> copy_values h p fs = fold_opt (\<lambda>fd fs. map_option snd (fd_copy fd fs)) (values_at h (preorder t)) fs"
proof (induction t arbitrary: p fs)
  case (Node l a r)
  from Node.prems obtain e where e: "p = a" "a \<noteq> 0" "h a = Some e" "tree_at h (m_left e) l" "tree_at h (m_right e) r"
    by (auto split: option.splits)
  have z: "m_left e = 0 \<longleftrightarrow> l = Leaf" "m_right e = 0 \<longleftrightarrow> r = Leaf" using e(4,5) by (cases l; cases r; auto)+
  have L: "(if m_left e \<noteq> 0 then copy_values h (m_left e) fs' else Some fs') = fold_opt (\<lambda>fd fs. map_option snd (fd_copy fd fs)) (values_at h (preorder l)) fs'" for fs'
    using Node.IH(1) [OF e(4)] z(1) by auto
  have R: "(if m_right e \<noteq> 0 then copy_values h (m_right e) fs' else Some fs') = fold_opt (\<lambda>fd fs. map_option snd (fd_copy fd fs)) (values_at h (preorder r)) fs'" for fs'
    using Node.IH(2) [OF e(5)] z(2) by auto
  show ?case
  proof (cases "fd_copy (m_value e) fs")
    case None
    then show ?thesis unfolding copy_values.simps [of h p fs] using e(1-3) by simp
  next
    case (Some x)
    obtain c fs1 where x: "x = (c, fs1)" by (cases x)
    have "copy_values h p fs = (if m_left e \<noteq> 0 then copy_values h (m_left e) fs1 else Some fs1) \<bind>
        (\<lambda>fs2. if m_right e \<noteq> 0 then copy_values h (m_right e) fs2 else Some fs2)"
      unfolding copy_values.simps [of h p fs] using e(1-3) Some x by simp
    then show ?thesis unfolding L R using e(3) Some x by (simp add: fold_opt_append)
  qed
qed simp

lemma values_kv: "values_at h as = map (\<lambda>a. snd (kv_at h a)) as"
  by (simp add: values_at_def kv_at_def)

lemma preorder_map: "preorder (map_tree f t) = map f (preorder t)"
  by (induction t) auto

text \<open>Copying a table: the copy has the same associations and every descriptor in it is counted once more.\<close>

lemma copy_files_ok:
  assumes "map_rep m t" and "size t \<le> length news" and "distinct news" and "0 \<notin> set news" and "set news \<inter> set_tree t = {}"
    and "counted fs fds" and "set (values_at (snd m) (preorder t)) \<subseteq> set fds" and "size t + length fds < 2 ^ 63"
  shows "\<exists>m' fs'. copy_files news m fs = Some (m', fs') \<and> map_inv m' \<and> map_get m' = map_get m \<and>
     counted fs' (values_at (snd m) (preorder t) @ fds)"
proof -
  from map_copy_ok [OF assms(1-5)] obtain m' where m': "map_copy news m = Some m'" "map_inv m'" "map_get m' = map_get m" by blast
  from assms(1) have t: "tree_at (snd m) (fst m) t" by (simp add: map_rep_def)
  then have z: "fst m = 0 \<longleftrightarrow> t = Leaf" by (cases t) auto
  have "length (values_at (snd m) (preorder t)) + length fds < 2 ^ 63" using assms(8) by (simp add: values_at_def)
  from fdh.acquire_all [OF assms(6,7) this] obtain fs' where
    fs': "fold_opt (\<lambda>fd fs. map_option snd (fd_copy fd fs)) (values_at (snd m) (preorder t)) fs = Some fs'"
      "counted fs' (values_at (snd m) (preorder t) @ fds)" by blast
  have "(if fst m \<noteq> 0 then copy_values (snd m) (fst m) fs else Some fs) = Some fs'"
    using copy_values_tree [OF t, of fs] fs'(1) z by auto
  with m' fs'(2) show ?thesis by (simp add: copy_files_def)
qed

section \<open>What fork needs\<close>

abbreviation parent :: "kernel \<Rightarrow> addr \<Rightarrow> user_proc" where
  "parent k p \<equiv> the (k_procs k p)"

text \<open>The address spaces \<open>R\<close>: a free frame for the new top-level table and room in the reference counts.\<close>

definition fork_space :: "kernel \<Rightarrow> size_t \<Rightarrow> size_t set \<Rightarrow> (size_t \<Rightarrow> nat) \<Rightarrow> bool" where
  "fork_space k t R lev \<longleftrightarrow> spaces_ok (k_vm k) R lev \<and> t \<in> R \<and> 0 < zeros (m_pagemap (v_pages (k_vm k))) \<and>
     (\<forall>q. unat q < unat (m_totalPages (v_pages (k_vm k))) \<longrightarrow>
        refs (v_pages (k_vm k)) q + length (filter (\<lambda>j. e_present (v_mem (k_vm k) t j) \<and> ppn_of (v_mem (k_vm k) t j) = q) [0..<256]) \<le> 255)"

text \<open>The objects the processes share: \<open>owners\<close> are the shared pointers, \<open>fds\<close> the descriptors, \<open>tr\<close> is the shape
  of the parent's file table.\<close>

definition fork_shared :: "proc_mem \<Rightarrow> kernel \<Rightarrow> addr \<Rightarrow> addr list \<Rightarrow> file_desc list \<Rightarrow> addr tree \<Rightarrow> bool" where
  "fork_shared mem k p owners fds tr \<longleftrightarrow> sp_counted (k_shared k) owners \<and> p_loader (parent k p) \<in> set owners \<and> p_term (parent k p) \<in> set owners \<and>
     Suc (Suc (length owners)) < 2 ^ 63 \<and> map_rep (p_files (parent k p)) tr \<and> size tr \<le> length (pm_entries mem) \<and> distinct (pm_entries mem) \<and>
     0 \<notin> set (pm_entries mem) \<and> set (pm_entries mem) \<inter> set_tree tr = {} \<and> counted (k_files k) fds \<and>
     set (values_at (snd (p_files (parent k p))) (preorder tr)) \<subseteq> set fds \<and> size tr + length fds < 2 ^ 63"

text \<open>The memory for the child is fresh, and the registers of the caller are saved in its frame.\<close>

definition fork_fresh :: "proc_mem \<Rightarrow> kernel \<Rightarrow> bool" where
  "fork_fresh mem k \<longleftrightarrow> klist_inv (k_procList k) \<and> pm_procItem mem \<noteq> 0 \<and> pm_procItem mem \<notin> set (ptrs (k_procList k)) \<and>
     pm_proc mem \<noteq> 0 \<and> k_procs k (pm_proc mem) = None \<and> pm_task mem \<noteq> 0 \<and> s_tasks (k_sched k) (pm_task mem) = None \<and>
     pm_taskItem mem \<noteq> 0 \<and> pm_schedItem mem \<noteq> 0 \<and> pm_schedItem mem \<notin> set (ptrs (s_taskList (k_sched k)))"

definition caller_frame :: "proc_mem \<Rightarrow> kernel \<Rightarrow> task \<Rightarrow> irq_context \<Rightarrow> bool" where
  "caller_frame mem k tc c \<longleftrightarrow> s_tasks (k_sched k) (current k) = Some tc \<and> m_context tc \<noteq> 0 \<and> k_contexts k (m_context tc) = Some c \<and>
     m_context tc \<noteq> pm_stack mem + KERNEL_STACK_SIZE - IRQ_CONTEXT_SIZE"

text \<open>The child as the first half of the constructor leaves it.\<close>

definition child_of :: "proc_mem \<Rightarrow> kernel \<Rightarrow> addr \<Rightarrow> (size_t, file_desc) kmap \<Rightarrow> user_proc" where
  "child_of mem k p m = \<lparr>p_state = PRunning, p_pid = k_pidCounter k, p_addrSpace = pm_space mem, p_loader = p_loader (parent k p),
     p_term = p_term (parent k p), p_taskList = (new_list, Map.empty), p_stackList = vec_copy False (p_stackList (parent k p)), p_files = m\<rparr>"

lemma fork_begin_ok:
  assumes f: "faulting k p t" and sp: "fork_space k t R lev" and sh: "fork_shared mem k p owners fds tr" and fr: "fork_fresh mem k"
  shows "\<exists>forked vm sp m fs q. fork_begin mem p k = Some (k\<lparr>k_pidCounter := k_pidCounter k + 1, k_vm := vm, k_spaces := (k_spaces k)(pm_space mem \<mapsto> forked),
       k_shared := sp, k_files := fs, k_procs := (k_procs k)(pm_proc mem \<mapsto> child_of mem k p m), k_procList := q\<rparr>) \<and>
     forked \<notin> R \<and> (\<exists>lev'. spaces_ok vm (insert forked R) lev') \<and> same_views R (v_mem (k_vm k)) (v_mem vm) \<and>
     (\<forall>v. length v = 4 \<longrightarrow> upath v \<longrightarrow> view (v_mem vm) forked v = view (v_mem (k_vm k)) t v) \<and>
     sp_counted sp (p_term (parent k p) # p_loader (parent k p) # owners) \<and> map_inv m \<and> map_get m = map_get (p_files (parent k p)) \<and>
     counted fs (values_at (snd (p_files (parent k p))) (preorder tr) @ fds) \<and> klist_inv q \<and> contents q = contents (k_procList k) @ [pm_proc mem]"
proof -
  note S = sp [unfolded fork_space_def] and H = sh [unfolded fork_shared_def] and F = fr [unfolded fork_fresh_def]
  from clone_ok [of "k_vm k" R lev t True "k_kernelSpace k"] S obtain forked vm where
    c: "clone_space True (k_kernelSpace k) t (k_vm k) = Some (forked, vm)" "forked \<notin> R" "\<exists>lev'. spaces_ok vm (insert forked R) lev'"
      "same_views R (v_mem (k_vm k)) (v_mem vm)" "\<forall>v. length v = 4 \<longrightarrow> upath v \<longrightarrow> view (v_mem vm) forked v = view (v_mem (k_vm k)) t v" by auto
  from sp_copy_counted [of "k_shared k" owners "p_loader (parent k p)"] H obtain sp1 where
    s1: "sp_copy (p_loader (parent k p)) (k_shared k) = Some (p_loader (parent k p), sp1)" "sp_counted sp1 (p_loader (parent k p) # owners)" by auto
  from sp_copy_counted [OF s1(2), of "p_term (parent k p)"] H obtain sp2 where
    s2: "sp_copy (p_term (parent k p)) sp1 = Some (p_term (parent k p), sp2)" "sp_counted sp2 (p_term (parent k p) # p_loader (parent k p) # owners)" by auto
  from copy_files_ok [of "p_files (parent k p)" tr "pm_entries mem" "k_files k" fds] H obtain m fs where
    m: "copy_files (pm_entries mem) (p_files (parent k p)) (k_files k) = Some (m, fs)" "map_inv m" "map_get m = map_get (p_files (parent k p))"
      "counted fs (values_at (snd (p_files (parent k p))) (preorder tr) @ fds)" by blast
  from push_back_abs [of "k_procList k" "pm_procItem mem" "pm_proc mem"] F obtain q where
    q: "push_back (pm_proc mem) (pm_procItem mem) (k_procList k) = Some q" "klist_inv q" "contents q = contents (k_procList k) @ [pm_proc mem]" by blast
  from f obtain pr where pr: "k_procs k p = Some pr" "p \<noteq> 0" "p_addrSpace pr \<noteq> 0" "k_spaces k (p_addrSpace pr) = Some t"
    using current_process_ok(4,6) [of k p] by (auto simp: faulting_def)
  have "fork_begin mem p k = Some (k\<lparr>k_pidCounter := k_pidCounter k + 1, k_vm := vm, k_spaces := (k_spaces k)(pm_space mem \<mapsto> forked),
       k_shared := sp2, k_files := fs, k_procs := (k_procs k)(pm_proc mem \<mapsto> child_of mem k p m), k_procList := q\<rparr>)"
    using pr c(1) s1(1) s2(1) m(1) q(1) by (simp add: fork_begin_def getNewPid_def atomic_add_def onAddProcess_def child_of_def)
  then show ?thesis using c(2-5) s2(2) m(2-4) q(2,3) by blast
qed

lemma new_list_ok: "klist_inv (new_list, h)" "ptrs (new_list, h) = []" "contents (new_list, h) = []"
proof -
  have "rep (new_list, h) []" by (simp add: rep_def new_list_def)
  then show "klist_inv (new_list, h)" "ptrs (new_list, h) = []" "contents (new_list, h) = []"
    by (auto intro: rep_inv simp: rep_ptrs rep_contents)
qed

lemma fork_finish_ok:
  assumes c: "current k \<noteq> 0" "caller_frame mem k tc ct" "t_isUserTask tc" "k_userTasks k (current k) = Some ut"
    and ch: "k_procs k (pm_proc mem) = Some pr" "pm_proc mem \<noteq> 0" "p_taskList pr = (new_list, h)"
    and m: "pm_task mem \<noteq> 0" "s_tasks (k_sched k) (pm_task mem) = None" "pm_taskItem mem \<noteq> 0" "pm_schedItem mem \<noteq> 0" "pm_schedItem mem \<notin> set (ptrs (s_taskList (k_sched k)))"
    and inv: "sched_inv (k_sched k)" "s_schedEnable (k_sched k)"
  shows "\<exists>q s. fork_finish mem k = Some (k\<lparr>k_sched := s, k_contexts := (k_contexts k)(pm_stack mem + KERNEL_STACK_SIZE - IRQ_CONTEXT_SIZE \<mapsto> ct\<lparr>rax := 0\<rparr>),
       k_userTasks := (k_userTasks k)(pm_task mem \<mapsto> ut\<lparr>ut_process := pm_proc mem\<rparr>), k_procs := (k_procs k)(pm_proc mem \<mapsto> pr\<lparr>p_taskList := q\<rparr>)\<rparr>) \<and>
     klist_inv q \<and> contents q = [pm_task mem] \<and> sched_inv s \<and> run_queue s = run_queue (k_sched k) @ [pm_task mem] \<and>
     map_option m_context (s_tasks s (pm_task mem)) = Some (pm_stack mem + KERNEL_STACK_SIZE - IRQ_CONTEXT_SIZE) \<and>
     map_option m_addrSpace (s_tasks s (pm_task mem)) = Some (p_addrSpace pr) \<and> ready s (pm_task mem) \<and>
     (\<forall>x. x \<noteq> pm_task mem \<longrightarrow> s_tasks s x = s_tasks (k_sched k) x) \<and> s_currentTask s = current k"
proof -
  note C = c(2) [unfolded caller_frame_def]
  define s1 where "s1 = new_task IRQ_CONTEXT_SIZE (pm_task mem) (p_addrSpace pr) True (pm_stack mem) (k_sched k)"
  define nt where "nt = \<lparr>m_tid = s_tidCounter (k_sched k), m_state = RUNNING, m_addrSpace = p_addrSpace pr, m_wakeUpAt = - 1,
      m_kernelStackTop = pm_stack mem + KERNEL_STACK_SIZE, m_context = pm_stack mem + KERNEL_STACK_SIZE - IRQ_CONTEXT_SIZE, t_isUserTask = True\<rparr>"
  have t1: "s_tasks s1 = (s_tasks (k_sched k))(pm_task mem \<mapsto> nt)" "s_taskList s1 = s_taskList (k_sched k)" "s_schedEnable s1" "s_currentTask s1 = current k"
    using inv(2) by (simp_all add: s1_def nt_def new_task_def getNewTid_def atomic_add_def Let_def)
  have ne: "current k \<noteq> pm_task mem" using m(2) C by auto
  have nq: "pm_task mem \<notin> set (run_queue (k_sched k))" using inv(1) m(2) by (auto simp: sched_inv_def)
  have i1: "sched_inv s1" "run_queue s1 = run_queue (k_sched k)" using inv(1) t1 by (auto simp: sched_inv_def run_queue_def)
  have fu: "fork_user_task (pm_task mem) (pm_stack mem) (pm_proc mem) (current k) k =
      Some (k\<lparr>k_sched := s1, k_contexts := (k_contexts k)(m_context nt \<mapsto> ct\<lparr>rax := 0\<rparr>), k_userTasks := (k_userTasks k)(pm_task mem \<mapsto> ut\<lparr>ut_process := pm_proc mem\<rparr>)\<rparr>)"
    using c(1,4) C ch m(1) t1(1) ne by (simp add: fork_user_task_def s1_def [symmetric])
  have "pm_taskItem mem \<notin> set (ptrs (p_taskList pr))" by (simp add: ch(3) new_list_ok)
  from push_back_abs [OF _ m(3) this, of "pm_task mem"] obtain q where
    q: "push_back (pm_task mem) (pm_taskItem mem) (p_taskList pr) = Some q" "klist_inv q" "contents q = [pm_task mem]"
    by (auto simp: ch(3) new_list_ok)
  have nt: "s_tasks s1 (pm_task mem) = Some nt" "m_state nt = RUNNING" by (simp_all add: t1(1) nt_def)
  from insertTask_ok [OF i1(1) t1(3) nt(1) m(1) nt(2) _ m(4)] nq m(5) i1(2) t1(2) obtain s where
    s: "insertTask (pm_task mem) (pm_schedItem mem) s1 = Some s" "sched_inv s" "run_queue s = run_queue (k_sched k) @ [pm_task mem]" "s_tasks s = s_tasks s1" by auto
  have cu: "currentUserTask (k_sched k) = Some (current k)" using c(1,3) C by (simp add: currentUserTask_def)
  have "fork_finish mem k = Some (k\<lparr>k_sched := s, k_contexts := (k_contexts k)(m_context nt \<mapsto> ct\<lparr>rax := 0\<rparr>),
       k_userTasks := (k_userTasks k)(pm_task mem \<mapsto> ut\<lparr>ut_process := pm_proc mem\<rparr>), k_procs := (k_procs k)(pm_proc mem \<mapsto> pr\<lparr>p_taskList := q\<rparr>)\<rparr>)"
    using cu fu q(1) s(1,4) nt(1) m(1) ch(1,2) by (simp add: fork_finish_def start_task_def)
  moreover have "s_currentTask s = current k" using s(1) t1(4) by (auto simp: insertTask_def split: bind_splits)
  moreover have "ready s (pm_task mem)" using s(4) nt by (simp add: ready_def schedulable_def Let_def)
  ultimately show ?thesis using q(2,3) s(2-4) t1(1) by (intro exI [of _ q] exI [of _ s]) (simp add: nt_def)
qed

lemma fork_ok:
  assumes f: "faulting k p t" and sp: "fork_space k t R lev" and sh: "fork_shared mem k p owners fds tr" and fr: "fork_fresh mem k" and cf: "caller_frame mem k tc c"
  shows "\<exists>k' forked child ctx. sys_fork mem k = Some (k_pidCounter k, k') \<and>
     k_procs k' (pm_proc mem) = Some child \<and> p_pid child = k_pidCounter k \<and> p_state child = PRunning \<and> contents (k_procList k') = contents (k_procList k) @ [pm_proc mem] \<and>
     k_spaces k' (p_addrSpace child) = Some forked \<and> same_views R (v_mem (k_vm k)) (v_mem (k_vm k')) \<and>
     (\<forall>v. length v = 4 \<longrightarrow> upath v \<longrightarrow> view (v_mem (k_vm k')) forked v = view (v_mem (k_vm k)) t v) \<and>
     map_inv (p_files child) \<and> map_get (p_files child) = map_get (p_files (parent k p)) \<and>
     counted (k_files k') (values_at (snd (p_files (parent k p))) (preorder tr) @ fds) \<and>
     sp_counted (k_shared k') (p_term (parent k p) # p_loader (parent k p) # owners) \<and>
     threads k' (pm_proc mem) = [pm_task mem] \<and> run_queue (k_sched k') = run_queue (k_sched k) @ [pm_task mem] \<and> ready (k_sched k') (pm_task mem) \<and>
     map_option m_context (s_tasks (k_sched k') (pm_task mem)) = Some ctx \<and> k_contexts k' ctx = Some (c\<lparr>rax := 0\<rparr>) \<and>
     ctx \<noteq> m_context tc \<and>
     k_contexts k' (m_context tc) = Some c \<and> k_procs k' p = k_procs k p \<and> current k' = current k"
proof -
  from fork_begin_ok [OF f sp sh fr] obtain forked vm sp1 m fs q where
    b: "fork_begin mem p k = Some (k\<lparr>k_pidCounter := k_pidCounter k + 1, k_vm := vm, k_spaces := (k_spaces k)(pm_space mem \<mapsto> forked),
       k_shared := sp1, k_files := fs, k_procs := (k_procs k)(pm_proc mem \<mapsto> child_of mem k p m), k_procList := q\<rparr>)"
     "same_views R (v_mem (k_vm k)) (v_mem vm)" "\<forall>v. length v = 4 \<longrightarrow> upath v \<longrightarrow> view (v_mem vm) forked v = view (v_mem (k_vm k)) t v"
     "sp_counted sp1 (p_term (parent k p) # p_loader (parent k p) # owners)" "map_inv m" "map_get m = map_get (p_files (parent k p))"
     "counted fs (values_at (snd (p_files (parent k p))) (preorder tr) @ fds)" "contents q = contents (k_procList k) @ [pm_proc mem]" by blast
  define k1 where "k1 = k\<lparr>k_pidCounter := k_pidCounter k + 1, k_vm := vm, k_spaces := (k_spaces k)(pm_space mem \<mapsto> forked),
       k_shared := sp1, k_files := fs, k_procs := (k_procs k)(pm_proc mem \<mapsto> child_of mem k p m), k_procList := q\<rparr>"
  have k1: "k_sched k1 = k_sched k" "k_contexts k1 = k_contexts k" "k_userTasks k1 = k_userTasks k" "k_procs k1 = (k_procs k)(pm_proc mem \<mapsto> child_of mem k p m)"
    "k_spaces k1 = (k_spaces k)(pm_space mem \<mapsto> forked)" "k_vm k1 = vm" "k_shared k1 = sp1" "k_files k1 = fs" "k_procList k1 = q" by (simp_all add: k1_def)
  note F = fr [unfolded fork_fresh_def]
  have ok: "proc_ok k p" "current k \<in> set (threads k p)" "t_isUserTask (the (s_tasks (k_sched k) (current k)))" using f by (simp_all add: faulting_def)
  note cp = current_process_ok [OF ok]
  have inv: "sched_inv (k_sched k1)" "s_schedEnable (k_sched k1)" using ok(1) by (simp_all add: k1 proc_ok_def threads_ok_def)
  obtain ut where ut: "k_userTasks k1 (current k1) = Some ut" "ut_process ut = p" using cp(2) by (auto simp: k1)
  have cf1: "caller_frame mem k1 tc c" "t_isUserTask tc" using cf cp(5) by (auto simp: caller_frame_def k1)
  have ch: "k_procs k1 (pm_proc mem) = Some (child_of mem k p m)" "p_taskList (child_of mem k p m) = (new_list, Map.empty)" by (simp_all add: k1 child_of_def)
  have m1: "current k1 \<noteq> 0" "pm_proc mem \<noteq> 0" "pm_task mem \<noteq> 0" "s_tasks (k_sched k1) (pm_task mem) = None" "pm_taskItem mem \<noteq> 0" "pm_schedItem mem \<noteq> 0"
    "pm_schedItem mem \<notin> set (ptrs (s_taskList (k_sched k1)))" using cp(3) F by (simp_all add: k1)
  from fork_finish_ok [OF m1(1) cf1 ut(1) ch(1) m1(2) ch(2) m1(3-7) inv] obtain tq and s :: sched where
    g: "fork_finish mem k1 = Some (k1\<lparr>k_sched := s, k_contexts := (k_contexts k1)(pm_stack mem + KERNEL_STACK_SIZE - IRQ_CONTEXT_SIZE \<mapsto> c\<lparr>rax := 0\<rparr>),
       k_userTasks := (k_userTasks k1)(pm_task mem \<mapsto> ut\<lparr>ut_process := pm_proc mem\<rparr>), k_procs := (k_procs k1)(pm_proc mem \<mapsto> (child_of mem k p m)\<lparr>p_taskList := tq\<rparr>)\<rparr>)"
     "contents tq = [pm_task mem]" "run_queue s = run_queue (k_sched k1) @ [pm_task mem]" "ready s (pm_task mem)"
     "map_option m_context (s_tasks s (pm_task mem)) = Some (pm_stack mem + KERNEL_STACK_SIZE - IRQ_CONTEXT_SIZE)"
     "s_currentTask s = current k1"
    by blast
  obtain pr where pr: "k_procs k p = Some pr" using cp(6) by blast
  then have np: "p \<noteq> pm_proc mem" using F by auto
  have own: "isOwnProcess p k = Some True" using cp(2,3,5) by (auto simp: isOwnProcess_def)
  let ?ctx = "pm_stack mem + KERNEL_STACK_SIZE - IRQ_CONTEXT_SIZE" and ?child = "(child_of mem k p m)\<lparr>p_taskList := tq\<rparr>"
  define k2 where "k2 = k1\<lparr>k_sched := s, k_contexts := (k_contexts k1)(?ctx \<mapsto> c\<lparr>rax := 0\<rparr>),
       k_userTasks := (k_userTasks k1)(pm_task mem \<mapsto> ut\<lparr>ut_process := pm_proc mem\<rparr>), k_procs := (k_procs k1)(pm_proc mem \<mapsto> ?child)\<rparr>"
  have "fork mem p k = Some (k_pidCounter k, k2)"
    using own b(1) g(1) F by (simp add: fork_def k1_def [symmetric] k2_def) (simp add: child_of_def)
  then have run: "sys_fork mem k = Some (k_pidCounter k, k2)" using cp(1) by (simp add: sys_fork_def)
  have k2: "k_procs k2 = (k_procs k)(pm_proc mem \<mapsto> ?child)" "k_spaces k2 (pm_space mem) = Some forked" "k_vm k2 = vm" "k_files k2 = fs" "k_shared k2 = sp1"
    "k_procList k2 = q" "k_sched k2 = s" "k_contexts k2 = (k_contexts k)(?ctx \<mapsto> c\<lparr>rax := 0\<rparr>)" by (simp_all add: k2_def k1)
  have child: "p_pid ?child = k_pidCounter k" "p_state ?child = PRunning" "p_addrSpace ?child = pm_space mem" "p_files ?child = m" by (simp_all add: child_of_def)
  have "?ctx \<noteq> m_context tc" "k_contexts k2 (m_context tc) = Some c" using cf by (auto simp: caller_frame_def k2)
  moreover have "threads k2 (pm_proc mem) = [pm_task mem]" using g(2) by (simp add: threads_def k2)
  ultimately show ?thesis using run child b(2-8) g(3-6) k1(1) np pr
    by (intro exI [of _ k2] exI [of _ forked] exI [of _ ?child] exI [of _ ?ctx]) (simp add: k2)
qed


section \<open>The gap in the constructor\<close>

text \<open>A process without threads is marked for deletion by the cleanup.\<close>

lemma sweep_empty: "m_first (fst q) = 0 \<Longrightarrow> sweep_loop visit (m_first (fst q)) (q, k) = Some (q, k)"
  by (subst sweep_loop.simps) simp


section \<open>Example\<close>

definition demo_mem :: proc_mem where
  "demo_mem = \<lparr>pm_proc = 700, pm_space = 9, pm_procItem = 720, pm_task = 740, pm_stack = 16384, pm_taskItem = 760, pm_schedItem = 780, pm_entries = []\<rparr>"

lemma demo_parent: "parent demo_kernel 500 = demo_proc"
  by (simp add: demo_kernel_def)

lemma demo_fork_space: "fork_space demo_kernel 0 {0, 5} demo_level"
proof -
  have "k_vm demo_kernel = demo_vm" by (simp add: demo_kernel_def)
  then show ?thesis using demo_spaces demo_shared demo_pages(4) by (simp add: fork_space_def)
qed

lemma demo_fork_shared: "fork_shared demo_mem demo_kernel 500 [600, 620] [] Leaf"
  unfolding fork_shared_def demo_parent
  by (simp add: demo_proc_def demo_mem_def demo_kernel_def sp_counted_def map_rep_def counted_def)

lemma demo_proc_list: "klist_inv (k_procList demo_kernel)" "ptrs (k_procList demo_kernel) = [96]"
proof -
  show p: "ptrs (k_procList demo_kernel) = [96]" by (simp add: ptrs_def demo_kernel_def)
  show "klist_inv (k_procList demo_kernel)" unfolding klist_inv_def p by (simp add: demo_kernel_def rep_def)
qed

lemma demo_fork_fresh: "fork_fresh demo_mem demo_kernel" "caller_frame demo_mem demo_kernel (demo_task 1 1000 True) new_irq_context"
proof -
  have s: "k_sched demo_kernel = demo_sched" "k_procs demo_kernel 700 = None" "k_contexts demo_kernel 1000 = Some new_irq_context" by (simp_all add: demo_kernel_def)
  have t: "s_tasks demo_sched 740 = None" "s_tasks demo_sched 100 = Some (demo_task 1 1000 True)" "s_currentTask demo_sched = 100" by (simp_all add: demo_sched_def)
  show "fork_fresh demo_mem demo_kernel" unfolding fork_fresh_def s demo_proc_list demo_sched_ptrs using demo_proc_list s t by (simp add: demo_mem_def)
  show "caller_frame demo_mem demo_kernel (demo_task 1 1000 True) new_irq_context" unfolding caller_frame_def s t using s t
    by (simp add: demo_task_def demo_mem_def KERNEL_STACK_SIZE_def IRQ_CONTEXT_SIZE_def)
qed



end
