(* ===== verification/Interrupt.thy ===== *)
theory Interrupt
  imports Fork
begin

text \<open>
  Entry into the kernel: the interrupt descriptor table and the interrupt controllers set up by
  \<^verbatim>\<open>arch/x86_64/idt.cpp\<close>, the dispatch of \<^verbatim>\<open>arch/x86_64/interrupt.cpp\<close>, the handlers registered through
  \<^verbatim>\<open>kernel/interrupt.cpp\<close>, the system call table with its dispatch in \<^verbatim>\<open>arch/x86_64/syscall.cpp\<close>, and the small
  system calls of \<^verbatim>\<open>kernel/sysinfo.cpp\<close>, \<^verbatim>\<open>kernel/htop.cpp\<close>, \<^verbatim>\<open>kernel/sched/execve.cpp\<close> and
  \<^verbatim>\<open>arch/x86_64/framebuffer.cpp\<close>, and kernel tasks (\<^verbatim>\<open>kernel/kernel_task.cpp\<close>).
\<close>

section \<open>Interrupt descriptors\<close>

record irq_descriptor =
  target0 :: uint16_t
  target_selector :: uint16_t
  ist :: uint8_t
  gate_flags :: uint8_t
  target1 :: uint16_t
  target2 :: uint32_t
  pad1 :: uint32_t

definition IDT_PRESENT :: uint8_t where "IDT_PRESENT = 0x80"
definition IDT_USER :: uint8_t where "IDT_USER = 0x60"
definition IDT_SUPV :: uint8_t where "IDT_SUPV = 0"
definition IDT_GATE :: uint8_t where "IDT_GATE = 0xe"

definition empty_descriptor :: irq_descriptor where
  "empty_descriptor = \<lparr>target0 = 0, target_selector = 0, ist = 0, gate_flags = 0, target1 = 0, target2 = 0, pad1 = 0\<rparr>"

text \<open>\<open>g\<close> are the 256 descriptors of \<^verbatim>\<open>g_idt\<close>.\<close>

definition idtd :: "nat \<Rightarrow> addr \<Rightarrow> uint8_t \<Rightarrow> uint8_t \<Rightarrow> irq_descriptor list \<Rightarrow> irq_descriptor list" where
  "idtd vec target_addr flags stack g = g[vec := (g ! vec)\<lparr>
     target0 := ucast (target_addr AND 0xffff), target1 := ucast (drop_bit 16 target_addr AND 0xffff),
     target2 := ucast (drop_bit 32 target_addr), ist := stack, target_selector := 0x08, gate_flags := flags\<rparr>]"

text \<open>\<open>irq i\<close> is the address of the entry point \<^verbatim>\<open>irq<i>\<close> and \<open>irq_syscall\<close> that of the system call entry.\<close>

definition setup_idt :: "(nat \<Rightarrow> addr) \<Rightarrow> addr \<Rightarrow> irq_descriptor list \<Rightarrow> irq_descriptor list" where
  "setup_idt irq irq_syscall g =
     idtd 0x80 irq_syscall (IDT_PRESENT OR IDT_USER OR IDT_GATE) 0
       (fold (\<lambda>i. idtd i (irq i) (IDT_PRESENT OR (if i = 31 then IDT_USER else IDT_SUPV) OR IDT_GATE) 0) [0..<48] g)"

text \<open>The port writes that configure the two interrupt controllers.\<close>

definition setup_pic :: "(uint16_t \<times> uint8_t) list" where
  "setup_pic = [(0x20, 0x11), (0xA0, 0x11), (0x21, 0x20), (0xA1, 0x28), (0x21, 0x04), (0xA1, 0x02),
     (0x21, 0x01), (0xA1, 0x01), (0x21, 0x00), (0xA1, 0x00)]"

text \<open>\<^verbatim>\<open>timer_reset\<close> of \<^verbatim>\<open>platform/pc/drivers/timer.cpp\<close>: the divisor is cut to 16 bits.\<close>

definition timer_reset :: "uint16_t \<Rightarrow> (uint16_t \<times> uint8_t) list option" where
  "timer_reset freqHz =
     (if freqHz = 0 then None
      else let pit = word_of_int (1193182 div uint freqHz) :: uint16_t in
        Some [(0x43, 0x34), (0x40, ucast (pit AND 0xff)), (0x40, ucast (drop_bit 8 pit AND 0xff))])"

section \<open>State of the machine\<close>

text \<open>A registered handler is the function with the argument it was registered with; \<open>m_out\<close> are the bytes
  written to ports, oldest first, and \<open>m_cr2\<close> is the address of the last page fault.\<close>

record machine =
  m_kernel :: kernel
  m_irqs :: "(kernel \<Rightarrow> kernel option) option list"
  m_out :: "(uint16_t \<times> uint8_t) list"
  m_cr2 :: addr

definition outb :: "uint16_t \<Rightarrow> uint8_t \<Rightarrow> machine \<Rightarrow> machine" where
  "outb port v m = m\<lparr>m_out := m_out m @ [(port, v)]\<rparr>"

definition x86_irq_init :: "(nat \<Rightarrow> addr) \<Rightarrow> addr \<Rightarrow> irq_descriptor list \<times> machine \<Rightarrow> irq_descriptor list \<times> machine" where
  "x86_irq_init irq irq_syscall gm =
     (case gm of (g, m) \<Rightarrow> (setup_idt irq irq_syscall g, fold (\<lambda>(port, v). outb port v) setup_pic m))"

definition registerIrq :: "nat \<Rightarrow> (kernel \<Rightarrow> kernel option) \<Rightarrow> machine \<Rightarrow> machine option" where
  "registerIrq vec func m = (if vec < length (m_irqs m) then Some (m\<lparr>m_irqs := (m_irqs m)[vec := Some func]\<rparr>) else None)"

definition handle_irq :: "nat \<Rightarrow> machine \<Rightarrow> machine option" where
  "handle_irq vec m =
     (if vec < length (m_irqs m)
      then case m_irqs m ! vec of
          None \<Rightarrow> Some m
        | Some func \<Rightarrow> do { k \<leftarrow> func (m_kernel m); Some (m\<lparr>m_kernel := k\<rparr>) }
      else None)"

section \<open>System calls\<close>

datatype sysfun = F_exit | F_thread_exit | F_read | F_write | F_close | F_set_thread_ptr | F_get_thread_ptr
  | F_fb_info | F_thread_create | F_thread_count | F_fork | F_getpid | F_get_sched_task_info | F_sysinfo
  | F_nanosleep | F_pipe | F_dup2 | F_execve | F_open

definition syscalls :: "sysfun option list" where
  "syscalls = [Some F_exit, Some F_thread_exit, Some F_read, Some F_write, Some F_close, None, Some F_set_thread_ptr,
     Some F_get_thread_ptr, None, Some F_fb_info, Some F_thread_create, Some F_thread_count, Some F_fork, Some F_getpid,
     Some F_get_sched_task_info, Some F_sysinfo, Some F_nanosleep, Some F_pipe, Some F_dup2, Some F_execve, Some F_open]"

text \<open>A system call returns a value, or the calling task is switched away and the frame of the next one
  is loaded. \<open>call\<close> is the call through the table entry with the six arguments.\<close>

datatype sysresult = Value size_t | Away addr

type_synonym syscall_table = "sysfun \<Rightarrow> size_t list \<Rightarrow> kernel \<Rightarrow> (sysresult \<times> kernel) option"

definition do_syscall :: "syscall_table \<Rightarrow> addr \<Rightarrow> kernel \<Rightarrow> (addr \<times> kernel) option" where
  "do_syscall call ctx k = do {
     c \<leftarrow> deref (k_contexts k) ctx;
     if unat (rax c) \<ge> length syscalls
     then Some (ctx, k\<lparr>k_contexts := (k_contexts k)(ctx \<mapsto> c\<lparr>rax := word_of_int (- ENOSYS)\<rparr>)\<rparr>)
     else case syscalls ! unat (rax c) of
         None \<Rightarrow> Some (ctx, k\<lparr>k_contexts := (k_contexts k)(ctx \<mapsto> c\<lparr>rax := word_of_int (- ENOSYS)\<rparr>)\<rparr>)
       | Some f \<Rightarrow> do {
           (r, k1) \<leftarrow> call f [rdi c, rsi c, rdx c, rcx c, r8 c, r9 c] k;
           case r of
             Value v \<Rightarrow> do { cs \<leftarrow> modify (k_contexts k1) ctx (rax_update (\<lambda>_. v)); Some (ctx, k1\<lparr>k_contexts := cs\<rparr>) }
           | Away ctx1 \<Rightarrow> Some (ctx1, k1)
         }
   }"

subsection \<open>Small system calls\<close>

text \<open>\<^verbatim>\<open>sys_sysinfo\<close>; the second component is the value stored through the pointer.\<close>

definition sys_sysinfo :: "int \<Rightarrow> kernel \<Rightarrow> (int \<times> size_t option) option" where
  "sys_sysinfo type k =
     (if type = 0 then Some (0, Some (getTotalMemory (v_pages (k_vm k))))
      else if type = 1 then Some (0, Some (getUsableMemory (v_pages (k_vm k))))
      else if type = 2 then Some (0, Some (getUsedMemory (v_pages (k_vm k))))
      else if type = 4 then do { n \<leftarrow> size_of_list (fst (k_procList k)); Some (0, Some n) }
      else if type = 3 then do { n \<leftarrow> taskCount (k_sched k); Some (0, Some n) }
      else Some (- ENOTSUP, None))"

text \<open>\<^verbatim>\<open>get_sched_task_info\<close>: the search through the run queue, then the state and id that are stored, and the
  id of the following task or -1.\<close>

partial_function (option) find_tid :: "size_t \<Rightarrow> task store \<Rightarrow> addr nodes \<Rightarrow> addr \<Rightarrow> addr option" where
  "find_tid tid ts h it =
     (if it = 0 then Some 0
      else do {
        n \<leftarrow> deref h it;
        t \<leftarrow> deref ts (item n);
        if m_tid t = tid then Some it else find_tid tid ts h (next_ptr n)
      })"

definition get_sched_task_info :: "size_t \<Rightarrow> kernel \<Rightarrow> (size_t \<times> task_state \<times> size_t) option" where
  "get_sched_task_info tid k = do {
     let (l, h) = s_taskList (k_sched k);
     let ts = s_tasks (k_sched k);
     it \<leftarrow> find_tid tid ts h (m_first l);
     let found = (if it = 0 then m_first l else it);
     n \<leftarrow> deref h found;
     t \<leftarrow> deref ts (item n);
     ret \<leftarrow> (if next_ptr n \<noteq> 0 then do { n1 \<leftarrow> deref h (next_ptr n); t1 \<leftarrow> deref ts (item n1); Some (m_tid t1) } else Some (- 1));
     Some (ret, m_state t, m_tid t)
   }"

definition sys_execve :: int where "sys_execve = - ENOSYS"

text \<open>The frame buffer, described by the boot loader.\<close>

record stivale_fb =
  framebuffer_addr :: uint64_t
  framebuffer_pitch :: uint16_t
  framebuffer_width :: uint16_t
  framebuffer_height :: uint16_t
  framebuffer_bpp :: uint16_t

definition FRAMEBUFFER_ADDR :: addr where "FRAMEBUFFER_ADDR = 0x400000000000"

definition fb_page_count :: "stivale_fb \<Rightarrow> size_t" where
  "fb_page_count fb =
     (let byte_size = ucast (framebuffer_pitch fb) * ucast (framebuffer_height fb) :: size_t;
          pages = drop_bit PAGE_SHIFT byte_size
      in if byte_size AND 0xfff \<noteq> 0 then pages + 1 else pages)"

fun fb_map_loop :: "nat \<Rightarrow> size_t \<Rightarrow> size_t \<Rightarrow> size_t \<Rightarrow> vmem \<Rightarrow> vmem option" where
  "fb_map_loop 0 pml4 virt phys vm = Some vm"
| "fb_map_loop (Suc n) pml4 virt phys vm = do {
     vm1 \<leftarrow> map_page_at pml4 virt phys (MAP_SHARED OR MAP_USER OR MAP_WRITE OR MAP_NOEXEC OR MAP_NOCACHE) vm;
     fb_map_loop n pml4 (virt + 1) (phys + 1) vm1
   }"

definition fb_map :: "stivale_fb \<Rightarrow> kernel \<Rightarrow> (addr \<times> kernel) option" where
  "fb_map fb k = do {
     p \<leftarrow> current_process k;
     pr \<leftarrow> deref (k_procs k) p;
     pml4 \<leftarrow> deref (k_spaces k) (p_addrSpace pr);
     vm \<leftarrow> fb_map_loop (unat (fb_page_count fb)) pml4 (drop_bit PAGE_SHIFT FRAMEBUFFER_ADDR) (drop_bit PAGE_SHIFT (framebuffer_addr fb)) (k_vm k);
     Some (FRAMEBUFFER_ADDR, k\<lparr>k_vm := vm\<rparr>)
   }"

text \<open>The pitch in pixels is a division of two ints; a depth of less than eight bits divides by zero.\<close>

definition fb_info :: "stivale_fb \<Rightarrow> int \<Rightarrow> kernel \<Rightarrow> (size_t \<times> kernel) option" where
  "fb_info fb type k =
     (if type = 1 then fb_map fb k
      else if type = 2 then Some (ucast (framebuffer_width fb), k)
      else if type = 3 then Some (ucast (framebuffer_height fb), k)
      else if type = 4 then
        (if drop_bit 3 (framebuffer_bpp fb) = 0 then None
         else Some (ucast (framebuffer_pitch fb div drop_bit 3 (framebuffer_bpp fb)), k))
      else if type = 5 then Some (ucast (drop_bit 3 (framebuffer_bpp fb)), k)
      else Some (word_of_int (- EINVAL), k))"

subsection \<open>The table of system calls\<close>

text \<open>An argument of type int is the low half of a register; results of type int are sign-extended.\<close>

definition int_arg :: "size_t \<Rightarrow> int" where
  "int_arg w = sint (ucast w :: uint32_t)"

text \<open>The calls on threads and processes. \<open>mem\<close> is the memory of a new process or thread and \<open>inner\<close> the frame
  pushed when a call yields. The calls that move data to or from user memory are \<open>other\<close>.\<close>

definition process_calls :: "syscall_table \<Rightarrow> stivale_fb \<Rightarrow> proc_mem \<Rightarrow> addr \<Rightarrow> syscall_table" where
  "process_calls other fb mem inner f args k =
     (case f of
        F_exit \<Rightarrow> do { (c, k1) \<leftarrow> sys_exit inner k; Some (Away c, k1) }
      | F_thread_exit \<Rightarrow> do { (c, k1) \<leftarrow> sys_thread_exit inner k; Some (Away c, k1) }
      | F_set_thread_ptr \<Rightarrow> do { k1 \<leftarrow> set_thread_ptr (args ! 0) k; Some (Value 0, k1) }
      | F_get_thread_ptr \<Rightarrow> do { v \<leftarrow> get_thread_ptr k; Some (Value v, k) }
      | F_fb_info \<Rightarrow> do { (v, k1) \<leftarrow> fb_info fb (int_arg (args ! 0)) k; Some (Value v, k1) }
      | F_thread_create \<Rightarrow> do {
          (v, k1) \<leftarrow> sys_thread_create (pm_task mem) (pm_stack mem) (pm_taskItem mem) (pm_schedItem mem) (args ! 0) (args ! 1) (args ! 2) k;
          Some (Value v, k1)
        }
      | F_thread_count \<Rightarrow> do { v \<leftarrow> sys_thread_count k; Some (Value v, k) }
      | F_fork \<Rightarrow> do { (v, k1) \<leftarrow> sys_fork mem k; Some (Value v, k1) }
      | F_getpid \<Rightarrow> do { v \<leftarrow> sys_getpid k; Some (Value v, k) }
      | F_execve \<Rightarrow> Some (Value (word_of_int sys_execve), k)
      | _ \<Rightarrow> other f args k)"

section \<open>Interrupts\<close>

definition EXC_FPU_SSE :: size_t where "EXC_FPU_SSE = 7"
definition EXC_PAGEFAULT :: size_t where "EXC_PAGEFAULT = 14"

text \<open>\<open>ctx\<close> is the frame of the interrupted task and \<open>inner\<close> one pushed if the handler itself is left by a task
  switch. The result is the frame to return to; an exception that is not handled panics.\<close>

definition x86_irq_handler :: "syscall_table \<Rightarrow> addr \<Rightarrow> addr \<Rightarrow> machine \<Rightarrow> (addr \<times> machine) option" where
  "x86_irq_handler call inner ctx m = do {
     let k = m_kernel m;
     c \<leftarrow> deref (k_contexts k) ctx;
     if irq_id c < 32 then
       (if irq_id c = 0x1f then do {
          (ctx1, s) \<leftarrow> schedule ctx (k_sched k);
          Some (ctx1, m\<lparr>m_kernel := k\<lparr>k_sched := s\<rparr>\<rparr>)
        }
        else if irq_id c = EXC_FPU_SSE then do {
          k1 \<leftarrow> fpu_onFault k;
          Some (ctx, m\<lparr>m_kernel := k1\<rparr>)
        }
        else if irq_id c = EXC_PAGEFAULT then do {
          (r, k1) \<leftarrow> handlePageFault (m_cr2 m) (ucast (error_id c)) inner k;
          case r of
            Returned b \<Rightarrow> (if b then Some (ctx, m\<lparr>m_kernel := k1\<rparr>) else None)
          | Switched ctx1 \<Rightarrow> Some (ctx1, m\<lparr>m_kernel := k1\<rparr>)
        }
        else None)
     else if irq_id c < 48 then do {
       let irq = irq_id c - 32;
       (ctx1, k1) \<leftarrow> (if irq = 0 then do {
            (ctx1, s) \<leftarrow> schedule ctx ((k_sched k)\<lparr>s_timerTicks := s_timerTicks (k_sched k) + 1\<rparr>);
            Some (ctx1, k\<lparr>k_sched := s\<rparr>)
          } else Some (ctx, k));
       m1 \<leftarrow> handle_irq (unat irq) (m\<lparr>m_kernel := k1\<rparr>);
       let m2 = (if irq \<ge> 8 then outb 0xa0 0x20 m1 else m1);
       Some (ctx1, outb 0x20 0x20 m2)
     }
     else if irq_id c = 0x80 then do {
       ts \<leftarrow> modify (s_tasks (k_sched k)) (current k) (m_context_update (\<lambda>_. ctx));
       (ctx1, k1) \<leftarrow> do_syscall call ctx (k\<lparr>k_sched := (k_sched k)\<lparr>s_tasks := ts\<rparr>\<rparr>);
       Some (ctx1, m\<lparr>m_kernel := k1\<rparr>)
     }
     else None
   }"

section \<open>Kernel tasks\<close>

text \<open>The constructor of \<^verbatim>\<open>KernelTask\<close>; \<open>runtime\<close> is the address of \<^verbatim>\<open>ktask_runtime\<close> and \<open>space\<close> the kernel's address
  space object.\<close>

definition new_kernel_task :: "addr \<Rightarrow> addr \<Rightarrow> addr \<Rightarrow> addr \<Rightarrow> addr \<Rightarrow> kernel \<Rightarrow> kernel option" where
  "new_kernel_task runtime self stack space entry k = do {
     let s1 = new_task IRQ_CONTEXT_SIZE self space False stack (k_sched k);
     t \<leftarrow> deref (s_tasks s1) self;
     let c = (newKernelCtx new_irq_context)\<lparr>rip := runtime, rsp := m_kernelStackTop t, rdi := self, rsi := entry\<rparr>;
     Some (k\<lparr>k_sched := s1, k_contexts := (k_contexts k)(m_context t \<mapsto> c)\<rparr>)
   }"

section \<open>Descriptors\<close>

text \<open>The address a descriptor leads to, and whether it is present and may be raised from user mode.\<close>

definition gate_target :: "irq_descriptor \<Rightarrow> addr" where
  "gate_target d = ucast (target0 d) OR push_bit 16 (ucast (target1 d)) OR push_bit 32 (ucast (target2 d))"

definition gate_present :: "irq_descriptor \<Rightarrow> bool" where
  "gate_present d \<longleftrightarrow> gate_flags d AND IDT_PRESENT \<noteq> 0"

definition gate_user :: "irq_descriptor \<Rightarrow> bool" where
  "gate_user d \<longleftrightarrow> gate_present d \<and> gate_flags d AND IDT_USER = IDT_USER"

lemma target_split:
  "ucast (ucast (a AND 0xffff) :: uint16_t) OR push_bit 16 (ucast (ucast (drop_bit 16 a AND 0xffff) :: uint16_t)) OR
     push_bit 32 (ucast (ucast (drop_bit 32 a) :: uint32_t)) = (a :: addr)"
proof -
  have m: "(0xffff :: addr) = mask 16" by (simp add: mask_eq_exp_minus_1)
  have A: "n < 32" if "bit a n" "\<not> bit a (32 + (n - 32))" for n using that by (cases "n < 32") auto
  show ?thesis unfolding m by (rule bit_word_eqI, auto simp: bit_simps less_diff_conv2) (erule (1) A)+
qed

lemma idtd_nth:
  "n < length g \<Longrightarrow> idtd i a f st g ! n = (if n = i then (g ! i)\<lparr>target0 := ucast (a AND 0xffff), target1 := ucast (drop_bit 16 a AND 0xffff),
     target2 := ucast (drop_bit 32 a), ist := st, target_selector := 0x08, gate_flags := f\<rparr> else g ! n)"
  by (auto simp: idtd_def)

lemma length_idtd [simp]: "length (idtd i a f st g) = length g"
  by (simp add: idtd_def)

lemma idtd_gate:
  assumes "i < length g"
  shows "gate_target (idtd i a f st g ! i) = a" "gate_flags (idtd i a f st g ! i) = f"
  using assms by (simp_all add: idtd_nth gate_target_def target_split)

lemma fold_idtd:
  assumes "N \<le> length g"
  shows "length (fold (\<lambda>i. idtd i (irq i) (fl i) 0) [0..<N] g) = length g \<and>
     (\<forall>n < length g. if n < N then gate_target (fold (\<lambda>i. idtd i (irq i) (fl i) 0) [0..<N] g ! n) = irq n \<and>
        gate_flags (fold (\<lambda>i. idtd i (irq i) (fl i) 0) [0..<N] g ! n) = fl n
      else fold (\<lambda>i. idtd i (irq i) (fl i) 0) [0..<N] g ! n = g ! n)"
  using assms
proof (induction N)
  case (Suc N)
  let ?h = "fold (\<lambda>i. idtd i (irq i) (fl i) 0) [0..<N] g"
  from Suc have l: "length ?h = length g" and h: "\<And>n. n < length g \<Longrightarrow> if n < N then gate_target (?h ! n) = irq n \<and> gate_flags (?h ! n) = fl n else ?h ! n = g ! n"
    by auto
  have "N < length ?h" using Suc.prems l by simp
  note g = idtd_gate [OF this, of "irq N" "fl N" 0]
  show ?case using h g l by (auto simp: idtd_nth less_Suc_eq)
qed simp

text \<open>The interrupt descriptor table after boot (\<^verbatim>\<open>setup_idt\<close>, \<^verbatim>\<open>idtd\<close>): exactly the vectors 0 to 47 and 0x80 are
  present, each leads to the entry point that was given for it, and user programs can raise the
  vectors 31 (yield) and 0x80 (system call) and no other.\<close>

theorem idt_gates:
  assumes "n < 256" and "g = setup_idt irq irq_syscall (replicate 256 empty_descriptor)"
  shows "gate_present (g ! n) = (n < 48 \<or> n = 0x80) \<and> gate_user (g ! n) = (n = 31 \<or> n = 0x80) \<and>
     (n < 48 \<longrightarrow> gate_target (g ! n) = irq n) \<and> gate_target (g ! 0x80) = irq_syscall"
proof -
  let ?fl = "\<lambda>i. IDT_PRESENT OR (if i = 31 then IDT_USER else IDT_SUPV) OR IDT_GATE :: uint8_t"
  define h where "h = fold (\<lambda>i. idtd i (irq i) (?fl i) 0) [0..<48] (replicate 256 empty_descriptor)"
  have "(48 :: nat) \<le> length (replicate 256 empty_descriptor)" by simp
  note F = fold_idtd [OF this, of irq ?fl, folded h_def, unfolded length_replicate]
  from F have l: "length h = 256" by blast
  from F assms(1) have h: "if n < 48 then gate_target (h ! n) = irq n \<and> gate_flags (h ! n) = ?fl n else h ! n = replicate 256 empty_descriptor ! n"
    by blast
  have g: "g = idtd 0x80 irq_syscall (?fl 31) 0 h" unfolding assms(2) setup_idt_def h_def by simp
  have b: "0x80 < length h" using l by simp
  note s = idtd_gate [OF b, of irq_syscall "?fl 31" 0, folded g]
  have o: "g ! n = h ! n" if "n \<noteq> 0x80" using that assms(1) l g idtd_nth by metis
  consider "n = 0x80" | "n < 48" | "n \<noteq> 0x80" "\<not> n < 48" by linarith
  then show ?thesis
  proof cases
    case 1
    then show ?thesis using s by (simp add: gate_user_def gate_present_def IDT_PRESENT_def IDT_USER_def IDT_GATE_def)
  next
    case 2
    then show ?thesis using s h o by (auto simp: gate_user_def gate_present_def IDT_PRESENT_def IDT_USER_def IDT_SUPV_def IDT_GATE_def)
  next
    case 3
    then show ?thesis using s h o assms(1) by (simp add: gate_user_def gate_present_def empty_descriptor_def)
  qed
qed

theorem idt_gates_witness:
  "gate_user (setup_idt (\<lambda>i. 0xffffffff80100000 + of_nat i) 0xffffffff80200000 (replicate 256 empty_descriptor) ! 31) \<and>
   \<not> gate_user (setup_idt (\<lambda>i. 0xffffffff80100000 + of_nat i) 0xffffffff80200000 (replicate 256 empty_descriptor) ! 14)"
  using idt_gates [of 31, OF _ refl] idt_gates [of 14, OF _ refl] by simp

section \<open>Dispatch\<close>

definition acks :: "size_t \<Rightarrow> (uint16_t \<times> uint8_t) list" where
  "acks irq = (if irq \<ge> 8 then [(0xa0, 0x20), (0x20, 0x20)] else [(0x20, 0x20)])"

text \<open>The scheduler picks a ready task, which may be the one that runs.\<close>

lemma schedule_picks:
  assumes "sched_inv s" and "s_schedEnable s" and "s_currentTask s \<noteq> 0" and "s_tasks s (s_currentTask s) = Some c"
    and "y \<in> set (run_queue s)" and "ready s y"
  shows "\<exists>p t s'. schedule ctx s = Some (if p = s_currentTask s then ctx else m_context t, s') \<and> s_currentTask s' = p \<and> ready s p \<and>
     p \<in> set (run_queue s) \<and> s_tasks s p = Some t \<and>
     (p \<noteq> s_currentTask s \<longrightarrow> s_tasks s' (s_currentTask s) = Some (c\<lparr>m_context := ctx\<rparr>)) \<and>
     (\<forall>x. x \<noteq> s_currentTask s \<longrightarrow> x \<noteq> p \<longrightarrow> s_tasks s' x = s_tasks s x) \<and> s_timerTicks s' = s_timerTicks s \<and> sched_inv s'"
proof -
  have "y \<in> set (rotate1 (run_queue s))" using assms(5) by simp
  from split_first_ready [OF this assms(6)] obtain xs p ys where
    sp: "rotate1 (run_queue s) = xs @ p # ys" "\<forall>x \<in> set xs. \<not> ready s x" "ready s p" by blast
  from getNextTask_finds [OF assms(1) sp] obtain s1 t where
    n: "getNextTask s = Some (p, s1)" "sched_inv s1" "run_queue s1 = p # ys @ xs" "s_tasks s p = Some t"
      "s_tasks s1 = (s_tasks s)(p \<mapsto> snd (schedulable (s_timerTicks s) t))"
      and eq: "s1 = s\<lparr>s_taskList := s_taskList s1, s_tasks := s_tasks s1\<rparr>" by blast
  have tk: "s_timerTicks s1 = s_timerTicks s" by (subst eq) simp
  note f = getNextTask_frame [OF n(1), simplified]
  have "set (run_queue s) = set (xs @ p # ys)" using sp(1) by (metis set_rotate1)
  then have rq: "p \<in> set (run_queue s)" by auto
  have p0: "p \<noteq> 0" using n(2,3) by (auto simp: sched_inv_def)
  have mc: "m_context (snd (schedulable (s_timerTicks s) t)) = m_context t" by (simp add: schedulable_def Let_def)
  show ?thesis
  proof (cases "p = s_currentTask s")
    case True
    then have "schedule ctx s = Some (ctx, s1)" using assms(2) n(1) f by (simp add: schedule_def)
    then show ?thesis using True f sp(3) rq n tk by (intro exI [of _ p] exI [of _ t] exI [of _ s1]) auto
  next
    case False
    obtain cpu where run: "schedule ctx s = Some (m_context t, s1\<lparr>s_tasks := (s_tasks s1)(s_currentTask s \<mapsto> c\<lparr>m_context := ctx\<rparr>), s_cpu := cpu, s_currentTask := p\<rparr>)"
      using assms(2-4) n(1,5) f False p0 mc by (simp add: schedule_def Let_def)
    show ?thesis
      using run False sp(3) rq n(2-5) p0 assms(3) tk by (intro exI [of _ p] exI [of _ t]) (auto simp: sched_inv_def run_queue_def)
  qed
qed

text \<open>C24. The timer interrupt (\<^verbatim>\<open>x86_irq_handler\<close> with vector 32): if some task is ready at the new time, the handler
  returns to a task that is ready, saves the frame of the interrupted task if another one was picked,
  advances the clock by one tick and acknowledges the interrupt once.\<close>

theorem timer_preempts:
  assumes c: "ctx \<noteq> 0" "k_contexts (m_kernel m) ctx = Some c" "irq_id c = 32"
    and irqs: "m_irqs m = None # rest"
    and s: "sched_inv (k_sched (m_kernel m))" "s_schedEnable (k_sched (m_kernel m))" "current (m_kernel m) \<noteq> 0"
      "s_tasks (k_sched (m_kernel m)) (current (m_kernel m)) = Some tc"
    and s1: "s1 = (k_sched (m_kernel m))\<lparr>s_timerTicks := s_timerTicks (k_sched (m_kernel m)) + 1\<rparr>"
    and y: "y \<in> set (run_queue s1)" "ready s1 y"
  shows "\<exists>p t s'. x86_irq_handler call inner ctx m =
       Some (if p = current (m_kernel m) then ctx else m_context t, m\<lparr>m_kernel := (m_kernel m)\<lparr>k_sched := s'\<rparr>, m_out := m_out m @ [(0x20, 0x20)]\<rparr>) \<and>
     s_currentTask s' = p \<and> ready s1 p \<and> s_tasks s1 p = Some t \<and> s_timerTicks s' = s_timerTicks (k_sched (m_kernel m)) + 1 \<and> sched_inv s' \<and>
     (p \<noteq> current (m_kernel m) \<longrightarrow> s_tasks s' (current (m_kernel m)) = Some (tc\<lparr>m_context := ctx\<rparr>))"
proof -
  have inv: "sched_inv s1" "s_schedEnable s1" "s_currentTask s1 \<noteq> 0" "s_tasks s1 (s_currentTask s1) = Some tc"
    using s unfolding s1 by (simp_all add: sched_inv_def run_queue_def)
  have cu: "s_currentTask s1 = current (m_kernel m)" "s_timerTicks s1 = s_timerTicks (k_sched (m_kernel m)) + 1" by (simp_all add: s1)
  from schedule_picks [OF inv y, of ctx, unfolded cu] obtain p t s' where
    r: "schedule ctx s1 = Some (if p = current (m_kernel m) then ctx else m_context t, s')" "s_currentTask s' = p" "ready s1 p" "s_tasks s1 p = Some t"
      "p \<noteq> current (m_kernel m) \<longrightarrow> s_tasks s' (current (m_kernel m)) = Some (tc\<lparr>m_context := ctx\<rparr>)"
      "s_timerTicks s' = s_timerTicks (k_sched (m_kernel m)) + 1" "sched_inv s'" by blast
  have "x86_irq_handler call inner ctx m =
      Some (if p = current (m_kernel m) then ctx else m_context t, m\<lparr>m_kernel := (m_kernel m)\<lparr>k_sched := s'\<rparr>, m_out := m_out m @ [(0x20, 0x20)]\<rparr>)"
    using c irqs r(1) by (simp add: x86_irq_handler_def handle_irq_def outb_def s1 [symmetric])
  then show ?thesis using r(2-7) by blast
qed

text \<open>An interrupt of a device: the handler registered for its line runs, the interrupted task continues, and
  the interrupt is acknowledged at the first controller, for lines 8 and above also at the second.\<close>

theorem device_irq:
  assumes c: "ctx \<noteq> 0" "k_contexts (m_kernel m) ctx = Some c" "32 < irq_id c" "irq_id c < 48" and l: "length (m_irqs m) = 16"
    and f: "m_irqs m ! unat (irq_id c - 32) = Some func" "func (m_kernel m) = Some k'"
  shows "x86_irq_handler call inner ctx m = Some (ctx, m\<lparr>m_kernel := k', m_out := m_out m @ acks (irq_id c - 32)\<rparr>)"
proof -
  have u: "unat (irq_id c - 32) = unat (irq_id c) - 32" using c(3) by (simp add: unat_sub word_le_nat_alt word_less_nat_alt)
  then have b: "unat (irq_id c - 32) < 16" "irq_id c - 32 \<noteq> 0" using c(3,4) by (auto simp: word_less_nat_alt word_unat_eq_iff)
  have n: "\<not> irq_id c < 32" using c(3) by (simp add: word_less_nat_alt)
  show ?thesis using c(1,2,4) n b l f by (simp add: x86_irq_handler_def handle_irq_def outb_def acks_def)
qed

text \<open>The kernel's state once the frame of the calling task is recorded.\<close>

definition entered :: "addr \<Rightarrow> kernel \<Rightarrow> kernel" where
  "entered ctx k = k\<lparr>k_sched := (k_sched k)\<lparr>s_tasks := (s_tasks (k_sched k))(current k \<mapsto> (the (s_tasks (k_sched k) (current k)))\<lparr>m_context := ctx\<rparr>)\<rparr>\<rparr>"

lemma irq_is_syscall:
  assumes "ctx \<noteq> 0" and "k_contexts (m_kernel m) ctx = Some c" and "irq_id c = 0x80" and "current (m_kernel m) \<noteq> 0"
    and "s_tasks (k_sched (m_kernel m)) (current (m_kernel m)) \<noteq> None"
  shows "x86_irq_handler call inner ctx m = do { (ctx1, k1) \<leftarrow> do_syscall call ctx (entered ctx (m_kernel m)); Some (ctx1, m\<lparr>m_kernel := k1\<rparr>) }"
  using assms by (auto simp: x86_irq_handler_def entered_def Let_def)

lemma do_syscall_value:
  assumes "ctx \<noteq> 0" and "k_contexts k ctx = Some c" and "unat (rax c) < 21" and "syscalls ! unat (rax c) = Some f"
    and "call f [rdi c, rsi c, rdx c, rcx c, r8 c, r9 c] k = Some (Value v, k1)" and "k_contexts k1 ctx = Some c1"
  shows "do_syscall call ctx k = Some (ctx, k1\<lparr>k_contexts := (k_contexts k1)(ctx \<mapsto> c1\<lparr>rax := v\<rparr>)\<rparr>)"
  using assms by (simp add: do_syscall_def syscalls_def)

text \<open>C25. A system call (\<^verbatim>\<open>x86_irq_handler\<close> with vector 0x80, \<^verbatim>\<open>do_syscall\<close>): a number outside the table or of an empty entry
  gives -ENOSYS and changes nothing else; otherwise the function in the table is called with the six
  argument registers and the value it returns is put into the return register, all other registers
  being left as they are.\<close>

theorem syscall_dispatch:
  assumes c: "ctx \<noteq> 0" "k_contexts (m_kernel m) ctx = Some c" "irq_id c = 0x80"
    and t: "current (m_kernel m) \<noteq> 0" "s_tasks (k_sched (m_kernel m)) (current (m_kernel m)) \<noteq> None"
    and k: "k = entered ctx (m_kernel m)"
  shows "(21 \<le> unat (rax c) \<or> rax c = 5 \<or> rax c = 8 \<longrightarrow>
      x86_irq_handler call inner ctx m = Some (ctx, m\<lparr>m_kernel := k\<lparr>k_contexts := (k_contexts k)(ctx \<mapsto> c\<lparr>rax := - 38\<rparr>)\<rparr>\<rparr>)) \<and>
    (\<forall>f v k1 c1. unat (rax c) < 21 \<longrightarrow> syscalls ! unat (rax c) = Some f \<longrightarrow>
      call f [rdi c, rsi c, rdx c, rcx c, r8 c, r9 c] k = Some (Value v, k1) \<longrightarrow> k_contexts k1 ctx = Some c1 \<longrightarrow>
      x86_irq_handler call inner ctx m = Some (ctx, m\<lparr>m_kernel := k1\<lparr>k_contexts := (k_contexts k1)(ctx \<mapsto> c1\<lparr>rax := v\<rparr>)\<rparr>\<rparr>))"
proof -
  note h = irq_is_syscall [OF c t, folded k]
  have kc: "k_contexts k ctx = Some c" using c(2) by (simp add: k entered_def)
  have l: "length syscalls = 21" "syscalls ! 5 = None" "syscalls ! 8 = None" by (simp_all add: syscalls_def)
  have "do_syscall call ctx k = Some (ctx, k\<lparr>k_contexts := (k_contexts k)(ctx \<mapsto> c\<lparr>rax := - 38\<rparr>)\<rparr>)"
    if "21 \<le> unat (rax c) \<or> rax c = 5 \<or> rax c = 8"
    using that c(1) kc l by (auto simp: do_syscall_def ENOSYS_def)
  then show ?thesis using do_syscall_value [OF c(1) kc] by (simp add: h)
qed

section \<open>Examples\<close>

text \<open>Thread 100 of the example is interrupted with the vector \<open>irq\<close> and \<open>n\<close> in the register of the call number.
  The handler registered for line 4 resets the process counter.\<close>

definition demo_machine :: "size_t \<Rightarrow> size_t \<Rightarrow> machine" where
  "demo_machine irq n = \<lparr>m_kernel = demo_kernel\<lparr>k_contexts := (k_contexts demo_kernel)(1000 \<mapsto> new_irq_context\<lparr>irq_id := irq, rax := n\<rparr>)\<rparr>,
     m_irqs = (replicate 16 None)[4 := Some (\<lambda>k. Some (k\<lparr>k_pidCounter := 9\<rparr>))], m_out = [], m_cr2 = 0\<rparr>"

definition demo_fb :: stivale_fb where
  "demo_fb = \<lparr>framebuffer_addr = 0xfd000000, framebuffer_pitch = 4096, framebuffer_width = 1024, framebuffer_height = 768, framebuffer_bpp = 32\<rparr>"

lemma demo_machine_sel:
  "k_contexts (m_kernel (demo_machine irq n)) 1000 = Some (new_irq_context\<lparr>irq_id := irq, rax := n\<rparr>)"
  "current (m_kernel (demo_machine irq n)) = 100" "k_sched (m_kernel (demo_machine irq n)) = demo_sched"
  "s_tasks demo_sched 100 = Some (demo_task 1 1000 True)" "s_schedEnable demo_sched" "s_currentTask demo_sched = 100"
  "m_out (demo_machine irq n) = []"
  by (simp_all add: demo_machine_def demo_kernel_def) (simp_all add: demo_sched_def)

theorem timer_preempts_witness:
  "\<exists>ctx' m'. x86_irq_handler (\<lambda>_ _ _. None) 900 1000 (demo_machine 32 0) = Some (ctx', m') \<and> m_out m' = [(0x20, 0x20)] \<and>
     s_timerTicks (k_sched (m_kernel m')) = s_timerTicks demo_sched + 1"
proof -
  have q: "run_queue (demo_sched\<lparr>s_timerTicks := n\<rparr>) = [100, 200, 300]" for n using demo_sched_queue by (simp add: run_queue_def)
  have r: "ready (demo_sched\<lparr>s_timerTicks := n\<rparr>) 300" for n by (simp add: ready_def schedulable_def demo_sched_def demo_task_def Let_def)
  have i: "m_irqs (demo_machine 32 0) = None # (replicate 15 None)[3 := Some (\<lambda>k. Some (k\<lparr>k_pidCounter := 9\<rparr>))]"
    unfolding demo_machine_def by (simp add: eval_nat_numeral)
  show ?thesis
    using timer_preempts [where ctx = 1000 and m = "demo_machine 32 0" and y = 300 and call = "\<lambda>_ _ _. None" and inner = 900, OF _ demo_machine_sel(1) _ i _ _ _ _ refl]
      demo_machine_sel demo_sched_inv q r by auto
qed

theorem device_irq_witness:
  "\<exists>m'. x86_irq_handler (\<lambda>_ _ _. None) 900 1000 (demo_machine 36 0) = Some (1000, m') \<and> m_out m' = [(0x20, 0x20)] \<and> k_pidCounter (m_kernel m') = 9"
  using device_irq [where ctx = 1000 and m = "demo_machine 36 0" and call = "\<lambda>_ _ _. None" and inner = 900 and func = "\<lambda>k. Some (k\<lparr>k_pidCounter := 9\<rparr>)", OF _ demo_machine_sel(1)]
  by (simp add: demo_machine_sel(7) acks_def) (simp add: demo_machine_def)

theorem syscall_dispatch_witness:
  "\<exists>m'. x86_irq_handler (process_calls (\<lambda>_ _ _. None) demo_fb demo_mem 900) 900 1000 (demo_machine 0x80 13) = Some (1000, m') \<and>
     map_option rax (k_contexts (m_kernel m') 1000) = Some 1"
proof -
  let ?m = "demo_machine 0x80 13"
  define k where "k = entered 1000 (m_kernel ?m)"
  have "process_calls (\<lambda>_ _ _. None) demo_fb demo_mem 900 F_getpid args k = Some (Value 1, k)" for args
    by (simp add: process_calls_def sys_getpid_def current_process_def currentUserTask_def k_def entered_def)
      (simp add: demo_machine_def demo_kernel_def demo_sched_def demo_task_def demo_user_task_def demo_proc_def)
  moreover have "k_contexts k 1000 = Some (new_irq_context\<lparr>irq_id := 0x80, rax := 13\<rparr>)" using demo_machine_sel(1) by (simp add: k_def entered_def)
  moreover have "syscalls ! 13 = Some F_getpid" by (simp add: syscalls_def)
  ultimately show ?thesis
    using syscall_dispatch [where ctx = 1000 and m = ?m and call = "process_calls (\<lambda>_ _ _. None) demo_fb demo_mem 900" and inner = 900, OF _ demo_machine_sel(1) _ _ _ k_def] demo_machine_sel
    by auto
qed
end
