(* ===== verification/Drivers.thy ===== *)
theory Drivers
  imports Queue ErrorMsg
begin

text \<open>
  The drivers of the PC platform: the serial port (\<^verbatim>\<open>platform/pc/drivers/serial.cpp\<close>), the PS/2 controller
  (\<^verbatim>\<open>ps2.cpp\<close>), the PCI configuration space (\<^verbatim>\<open>pci.cpp\<close>, \<^verbatim>\<open>kernel/pci\<close>) and the numbering of character devices
  (\<^verbatim>\<open>kernel/dev/uart.cpp\<close>, \<^verbatim>\<open>chardev.cpp\<close>). The hardware behind the ports is a parameter: a state and what reading and
  writing a port does to it. What a theorem relies on is stated as a predicate on the ports. Letting other
  tasks run while polling does not touch the device.
\<close>

section \<open>Ports\<close>

record 'd ports =
  in8 :: "uint16_t \<Rightarrow> 'd \<Rightarrow> uint8_t \<times> 'd"
  out8 :: "uint16_t \<Rightarrow> uint8_t \<Rightarrow> 'd \<Rightarrow> 'd"
  in32 :: "uint16_t \<Rightarrow> 'd \<Rightarrow> uint32_t \<times> 'd"
  out32 :: "uint16_t \<Rightarrow> uint32_t \<Rightarrow> 'd \<Rightarrow> 'd"

section \<open>Serial port\<close>

definition COM1 :: uint16_t where "COM1 = 0x3f8"
definition COM2 :: uint16_t where "COM2 = 0x2f8"

definition setIrqMode :: "'d ports \<Rightarrow> uint16_t \<Rightarrow> bool \<Rightarrow> bool \<Rightarrow> 'd \<Rightarrow> 'd" where
  "setIrqMode P m_port dataReadyIrq txEmptyIrq d =
     (let ier0 = 0;
          ier1 = (if dataReadyIrq then ier0 OR 0x01 else ier0);
          ier2 = (if txEmptyIrq then ier1 OR 0x02 else ier1)
      in out8 P (m_port + 1) ier2 d)"

definition setMode :: "'d ports \<Rightarrow> uint16_t \<Rightarrow> uint8_t \<Rightarrow> uint8_t \<Rightarrow> uint8_t \<Rightarrow> 'd \<Rightarrow> 'd" where
  "setMode P m_port bits parity stop d =
     (let (v, d1) = in8 P (m_port + 3) d; dlab = v AND 0x80
      in out8 P (m_port + 3) (dlab OR bits OR parity OR stop) d1)"

definition setBaudRate :: "'d ports \<Rightarrow> uint16_t \<Rightarrow> uint16_t \<Rightarrow> 'd \<Rightarrow> 'd" where
  "setBaudRate P m_port baud d =
     (let (line_ctrl, d1) = in8 P (m_port + 3) d;
          d2 = out8 P (m_port + 3) (line_ctrl OR 0x80) d1;
          d3 = out8 P m_port (ucast (baud AND 0xff)) d2;
          d4 = out8 P (m_port + 1) (ucast (drop_bit 8 baud)) d3
      in out8 P (m_port + 3) (line_ctrl AND 0x7f) d4)"

text \<open>The constructor; the first component is the interrupt line the handler is registered for.\<close>

definition new_serial :: "'d ports \<Rightarrow> uint16_t \<Rightarrow> bool \<Rightarrow> 'd \<Rightarrow> nat option \<times> 'd" where
  "new_serial P port noIrq d =
     (let d1 = setIrqMode P port False False d;
          d2 = setBaudRate P port 1 d1;
          d3 = setMode P port 0x03 0x00 0x00 d2;
          d4 = out8 P (port + 2) 0x67 d3;
          d5 = out8 P (port + 4) 0x0f d4
      in if \<not> noIrq then (Some (if port = COM1 then 4 else 5), setIrqMode P port True False d5) else (None, d5))"

definition ioctrl :: "'d ports \<Rightarrow> uint16_t \<Rightarrow> size_t \<Rightarrow> size_t \<Rightarrow> 'd \<Rightarrow> int \<times> 'd" where
  "ioctrl P m_port cmd arg d =
     (if cmd = 0 then
        (if arg = 115200 then (0, setBaudRate P m_port 1 d)
         else if arg = 38400 then (0, setBaudRate P m_port 3 d)
         else if arg = 19200 then (0, setBaudRate P m_port 6 d)
         else if arg = 9600 then (0, setBaudRate P m_port 12 d)
         else (- EINVAL, d))
      else (- ENOTSUP, d))"

text \<open>Waiting for the transmitter, and writing one byte.\<close>

partial_function (option) tx_wait :: "'d ports \<Rightarrow> uint16_t \<Rightarrow> 'd \<Rightarrow> 'd option" where
  "tx_wait P m_port d =
     (case in8 P (m_port + 5) d of (v, d1) \<Rightarrow> if v AND 0x20 = 0 then tx_wait P m_port d1 else Some d1)"

definition tx_byte :: "'d ports \<Rightarrow> uint16_t \<Rightarrow> uint8_t \<Rightarrow> 'd \<Rightarrow> 'd option" where
  "tx_byte P m_port b d = do { d1 \<leftarrow> tx_wait P m_port d; Some (out8 P m_port b d1) }"

text \<open>\<^verbatim>\<open>write\<close>: a line feed is preceded by a carriage return, written by a recursive call for one byte.\<close>

fun serial_write_loop :: "'d ports \<Rightarrow> uint16_t \<Rightarrow> uint8_t list \<Rightarrow> 'd \<Rightarrow> 'd option" where
  "serial_write_loop P m_port [] d = Some d"
| "serial_write_loop P m_port (b # bs) d = do {
     d1 \<leftarrow> (if b = 0x0a then tx_byte P m_port 0x0d d else Some d);
     d2 \<leftarrow> tx_byte P m_port b d1;
     serial_write_loop P m_port bs d2
   }"

definition serial_write :: "'d ports \<Rightarrow> uint16_t \<Rightarrow> uint8_t list \<Rightarrow> 'd \<Rightarrow> (nat \<times> 'd) option" where
  "serial_write P m_port buffer d = do { d1 \<leftarrow> serial_write_loop P m_port buffer d; Some (length buffer, d1) }"

text \<open>\<^verbatim>\<open>handleIrq\<close>: up to \<open>n\<close> more bytes are taken from the FIFO; the status is read before the count is looked at.\<close>

fun rx_loop :: "'d ports \<Rightarrow> uint16_t \<Rightarrow> nat \<Rightarrow> 'd \<Rightarrow> uint8_t list \<times> 'd" where
  "rx_loop P m_port 0 d = ([], snd (in8 P (m_port + 5) d))"
| "rx_loop P m_port (Suc n) d =
     (case in8 P (m_port + 5) d of (v, d1) \<Rightarrow>
        if v AND 1 \<noteq> 0
        then case in8 P m_port d1 of (c, d2) \<Rightarrow> case rx_loop P m_port n d2 of (cs, d3) \<Rightarrow> (c # cs, d3)
        else ([], d1))"

definition serial_handleIrq :: "'d ports \<Rightarrow> uint16_t \<Rightarrow> 'd \<Rightarrow> queue \<times> sched \<Rightarrow> ('d \<times> queue \<times> sched) option" where
  "serial_handleIrq P m_port d qs =
     (case rx_loop P m_port 32 d of (buffer, d1) \<Rightarrow> do { (_, qs1) \<leftarrow> queue_write buffer qs; Some (d1, qs1) })"

section \<open>Character devices\<close>

text \<open>\<^verbatim>\<open>UartDevice::getMajor\<close>, with \<open>my\<close> the static variable of the function, and the numbers a new device gets.\<close>

definition uart_getMajor :: "size_t \<times> size_t \<Rightarrow> size_t \<times> (size_t \<times> size_t)" where
  "uart_getMajor st = (case st of (my, majorCounter) \<Rightarrow>
     if my = - 1 then case atomic_add majorCounter 1 of (old, new) \<Rightarrow> (old, (old, new)) else (my, (my, majorCounter)))"

definition new_uart :: "size_t \<Rightarrow> size_t \<times> size_t \<Rightarrow> (size_t \<times> size_t) \<times> size_t \<times> (size_t \<times> size_t)" where
  "new_uart minorCounter st =
     (case uart_getMajor st of (major, st1) \<Rightarrow> case atomic_add minorCounter 1 of (minor, mc1) \<Rightarrow> ((major, minor), mc1, st1))"

section \<open>PS/2 controller\<close>

definition DATA_PORT :: uint16_t where "DATA_PORT = 0x60"
definition CMD_PORT :: uint16_t where "CMD_PORT = 0x64"
definition STATUS_PORT :: uint16_t where "STATUS_PORT = 0x64"

datatype ps2_type = PS2_KEYBOARD | PS2_KEYBOARD_MF2 | PS2_MOUSE | PS2_MOUSE_SCROLL | PS2_MOUSE_5BUTTON | PS2_OTHER

definition ps2ReadConfig :: "'d ports \<Rightarrow> 'd \<Rightarrow> uint8_t \<times> 'd" where
  "ps2ReadConfig P d = in8 P DATA_PORT (out8 P CMD_PORT 0x20 d)"

definition ps2WriteConfig :: "'d ports \<Rightarrow> uint8_t \<Rightarrow> 'd \<Rightarrow> 'd" where
  "ps2WriteConfig P config d = out8 P DATA_PORT config (out8 P CMD_PORT 0x60 d)"

text \<open>The bit \<^verbatim>\<open>outBufferFull\<close> of the status.\<close>

definition outBufferFull :: "'d ports \<Rightarrow> 'd \<Rightarrow> bool \<times> 'd" where
  "outBufferFull P d = (case in8 P STATUS_PORT d of (v, d1) \<Rightarrow> (bit v 0, d1))"

definition ps2FlushOutBuffer :: "'d ports \<Rightarrow> 'd \<Rightarrow> 'd" where
  "ps2FlushOutBuffer P d = snd (in8 P DATA_PORT d)"

text \<open>The loop \<^verbatim>\<open>while (attempts-- && outBufferFull == busy)\<close>: the counter is decremented also when it ends the loop.\<close>

function poll :: "'d ports \<Rightarrow> bool \<Rightarrow> size_t \<Rightarrow> 'd \<Rightarrow> size_t \<times> 'd" where
  "poll P busy attempts d =
     (if attempts = 0 then (attempts - 1, d)
      else case outBufferFull P d of (full, d1) \<Rightarrow>
        if full = busy then poll P busy (attempts - 1) d1 else (attempts - 1, d1))"
  by pat_completeness auto
termination
  by (relation "measure (\<lambda>(_, _, a, _). unat a)") (auto simp: unat_minus_one unat_gt_0)

definition ps2SelfTest :: "'d ports \<Rightarrow> 'd \<Rightarrow> bool \<times> 'd" where
  "ps2SelfTest P d =
     (let d1 = out8 P CMD_PORT 0xaa d;
          (_, d2) = poll P True 5 d1;
          (result, d3) = in8 P DATA_PORT d2
      in (result = 0x55 \<or> result = 0x65, d3))"

definition ps2SetIrqEnable :: "'d ports \<Rightarrow> int \<Rightarrow> bool \<Rightarrow> 'd \<Rightarrow> 'd" where
  "ps2SetIrqEnable P channel enable d =
     (let (config, d1) = ps2ReadConfig P d;
          i = (if channel = 0 then 0 else 1)
      in ps2WriteConfig P (if enable then set_bit i config else unset_bit i config) d1)"

definition ps2SetEnable :: "'d ports \<Rightarrow> int \<Rightarrow> bool \<Rightarrow> 'd \<Rightarrow> 'd" where
  "ps2SetEnable P channel enable d =
     (if channel = 0 then out8 P CMD_PORT (if enable then 0xae else 0xad) d
      else out8 P CMD_PORT (if enable then 0xa8 else 0xa7) d)"

partial_function (option) ps2WaitForAck :: "'d ports \<Rightarrow> 'd \<Rightarrow> (bool \<times> 'd) option" where
  "ps2WaitForAck P d =
     (case outBufferFull P d of (full, d1) \<Rightarrow>
        if \<not> full then ps2WaitForAck P d1 else case in8 P DATA_PORT d1 of (v, d2) \<Rightarrow> Some (v = 0xfa, d2))"

text \<open>\<open>None\<close> is the answer false, with \<open>c\<close> not set.\<close>

definition ps2WaitForByteTimeout :: "'d ports \<Rightarrow> 'd \<Rightarrow> uint8_t option \<times> 'd" where
  "ps2WaitForByteTimeout P d =
     (case poll P False 10 d of (attempts, d1) \<Rightarrow>
        if attempts = 0 then (None, d1) else case in8 P DATA_PORT d1 of (c, d2) \<Rightarrow> (Some c, d2))"

fun ps2_response :: "'d ports \<Rightarrow> nat \<Rightarrow> 'd \<Rightarrow> uint8_t list \<times> 'd" where
  "ps2_response P 0 d = ([], d)"
| "ps2_response P (Suc n) d =
     (case ps2WaitForByteTimeout P d of
        (None, d1) \<Rightarrow> ([], d1)
      | (Some c, d1) \<Rightarrow> case ps2_response P n d1 of (cs, d2) \<Rightarrow> (c # cs, d2))"

definition ps2_classify :: "uint8_t list \<Rightarrow> ps2_type" where
  "ps2_classify response =
     (case response of
        [] \<Rightarrow> PS2_KEYBOARD
      | [a] \<Rightarrow> if a = 0x00 then PS2_MOUSE else if a = 0x03 then PS2_MOUSE_SCROLL else if a = 0x04 then PS2_MOUSE_5BUTTON else PS2_OTHER
      | a # b # _ \<Rightarrow> if a = 0xab \<and> b = 0x83 then PS2_KEYBOARD_MF2 else PS2_OTHER)"

definition ps2Identify :: "'d ports \<Rightarrow> 'd \<Rightarrow> (ps2_type \<times> 'd) option" where
  "ps2Identify P d = do {
     (_, d1) \<leftarrow> ps2WaitForAck P (out8 P DATA_PORT 0xf2 d);
     let (response, d2) = ps2_response P 2 d1;
     Some (ps2_classify response, d2)
   }"

text \<open>The constructor of \<^verbatim>\<open>PS2Device\<close>: the type, the interrupt line and the name it is registered with.\<close>

definition new_ps2_device :: "'d ports \<Rightarrow> int \<Rightarrow> 'd \<Rightarrow> (ps2_type \<times> nat \<times> string \<times> 'd) option" where
  "new_ps2_device P channel d = do {
     let d1 = ps2SetEnable P channel True d;
     (_, d2) \<leftarrow> ps2WaitForAck P (out8 P DATA_PORT 0xf5 d1);
     (type, d3) \<leftarrow> ps2Identify P d2;
     (_, d4) \<leftarrow> ps2WaitForAck P (out8 P DATA_PORT 0xf4 d3);
     let d5 = ps2SetIrqEnable P channel True d4;
     Some (type, if channel = 0 then 1 else 12, if type = PS2_KEYBOARD \<or> type = PS2_KEYBOARD_MF2 then ''keyboard'' else ''mouse'', d5)
   }"

definition ps2_irq :: "'d ports \<Rightarrow> 'd \<Rightarrow> queue \<times> sched \<Rightarrow> ('d \<times> queue \<times> sched) option" where
  "ps2_irq P d qs = (case in8 P DATA_PORT d of (c, d1) \<Rightarrow> do { (_, qs1) \<leftarrow> queue_write [c] qs; Some (d1, qs1) })"

text \<open>\<^verbatim>\<open>ps2_init\<close>: \<open>None\<close> as the device when the self test fails. The number of channels is determined but not used.\<close>

definition ps2_init :: "'d ports \<Rightarrow> 'd \<Rightarrow> ((ps2_type \<times> nat \<times> string) option \<times> 'd) option" where
  "ps2_init P d = do {
     let d1 = ps2SetEnable P 1 False (ps2SetEnable P 0 False d);
     let d2 = ps2FlushOutBuffer P d1;
     let (config, d3) = ps2ReadConfig P d2;
     let couldBeDualChannel = bit config 5;
     let d4 = ps2WriteConfig P (unset_bit 6 (unset_bit 1 (unset_bit 0 config))) d3;
     let (ok, d5) = ps2SelfTest P d4;
     if \<not> ok then Some (None, d5)
     else do {
       let d6 = (if couldBeDualChannel
                 then ps2SetEnable P 1 False (snd (ps2ReadConfig P (ps2SetEnable P 1 True d5))) else d5);
       (type, line, name, d7) \<leftarrow> new_ps2_device P 0 d6;
       Some (Some (type, line, name), d7)
     }
   }"

section \<open>PCI configuration space\<close>

definition calcAddress :: "size_t \<Rightarrow> size_t \<Rightarrow> size_t \<Rightarrow> size_t \<Rightarrow> uint32_t" where
  "calcAddress offset bus slot func =
     ucast (push_bit 16 bus OR push_bit 11 slot OR push_bit 8 func OR (offset AND 0xfc) OR push_bit 31 1)"

definition pci_read32 :: "'d ports \<Rightarrow> size_t \<Rightarrow> size_t \<Rightarrow> size_t \<Rightarrow> size_t \<Rightarrow> 'd \<Rightarrow> uint32_t \<times> 'd" where
  "pci_read32 P offset bus slot func d = in32 P 0xcfc (out32 P 0xcf8 (calcAddress offset bus slot func) d)"

definition pci_write32 :: "'d ports \<Rightarrow> size_t \<Rightarrow> uint32_t \<Rightarrow> size_t \<Rightarrow> size_t \<Rightarrow> size_t \<Rightarrow> 'd \<Rightarrow> 'd" where
  "pci_write32 P offset v bus slot func d = out32 P 0xcfc v (out32 P 0xcf8 (calcAddress offset bus slot func) d)"

definition new_pci_device :: "'d ports \<Rightarrow> size_t \<Rightarrow> size_t \<Rightarrow> size_t \<Rightarrow> 'd \<Rightarrow> (uint16_t \<times> uint16_t) \<times> 'd" where
  "new_pci_device P bus slot func d =
     (case pci_read32 P 0 bus slot func d of (i, d1) \<Rightarrow> ((ucast (i AND 0xffff), ucast (drop_bit 16 i)), d1))"

definition deviceIsPresent :: "'d ports \<Rightarrow> size_t \<Rightarrow> size_t \<Rightarrow> size_t \<Rightarrow> 'd \<Rightarrow> bool \<times> 'd" where
  "deviceIsPresent P bus slot func d =
     (case pci_read32 P 0 bus slot func d of (v, d1) \<Rightarrow> ((ucast (v AND 0xffff) :: uint16_t) \<noteq> 0xffff, d1))"

text \<open>\<^verbatim>\<open>busEnumeration\<close>: the three loops in order; the result are the devices reported.\<close>

definition pci_functions :: "(size_t \<times> size_t \<times> size_t) list" where
  "pci_functions = [(of_nat bus, of_nat slot, of_nat func). bus \<leftarrow> [0..<256], slot \<leftarrow> [0..<32], func \<leftarrow> [0..<8]]"

fun pci_scan :: "'d ports \<Rightarrow> (size_t \<times> size_t \<times> size_t) list \<Rightarrow> 'd \<Rightarrow> (uint16_t \<times> uint16_t) list \<times> 'd" where
  "pci_scan P [] d = ([], d)"
| "pci_scan P ((bus, slot, func) # fs) d =
     (case deviceIsPresent P bus slot func d of (present, d1) \<Rightarrow>
        if \<not> present then pci_scan P fs d1
        else case new_pci_device P bus slot func d1 of (v, d2) \<Rightarrow>
          case pci_scan P fs d2 of (vs, d3) \<Rightarrow> (v # vs, d3))"

definition busEnumeration :: "'d ports \<Rightarrow> 'd \<Rightarrow> (uint16_t \<times> uint16_t) list \<times> 'd" where
  "busEnumeration P d = pci_scan P pci_functions d"

declare poll.simps [simp del]

section \<open>What the drivers rely on\<close>

text \<open>The transmitter of a serial port: reading the line status sends nothing and, if bit 5 is clear, brings
  the moment nearer at which it is set; when it is set, a byte written to the data port is sent.\<close>

definition uart_tx :: "'d ports \<Rightarrow> uint16_t \<Rightarrow> ('d \<Rightarrow> bool) \<Rightarrow> ('d \<Rightarrow> uint8_t list) \<Rightarrow> ('d \<Rightarrow> nat) \<Rightarrow> bool" where
  "uart_tx P port idle sent delay \<longleftrightarrow>
     (\<forall>d v d1. in8 P (port + 5) d = (v, d1) \<longrightarrow> sent d1 = sent d \<and> (if v AND 0x20 = 0 then delay d1 < delay d else idle d1)) \<and>
     (\<forall>d b. idle d \<longrightarrow> sent (out8 P port b d) = sent d @ [b])"

text \<open>The receiver: bit 0 of the line status tells whether the FIFO holds a byte, and reading the data port
  takes the first one.\<close>

definition uart_rx :: "'d ports \<Rightarrow> uint16_t \<Rightarrow> ('d \<Rightarrow> uint8_t list) \<Rightarrow> bool" where
  "uart_rx P port fifo \<longleftrightarrow>
     (\<forall>d v d1. in8 P (port + 5) d = (v, d1) \<longrightarrow> fifo d1 = fifo d \<and> (v AND 1 \<noteq> 0 \<longleftrightarrow> fifo d \<noteq> [])) \<and>
     (\<forall>d c d1. in8 P port d = (c, d1) \<longrightarrow> fifo d \<noteq> [] \<longrightarrow> fifo d = c # fifo d1)"

lemma tx_wait_ok:
  assumes "uart_tx P port idle sent delay"
  shows "\<exists>d'. tx_wait P port d = Some d' \<and> sent d' = sent d \<and> idle d'"
proof (induction "delay d" arbitrary: d rule: less_induct)
  case less
  obtain v d1 where r: "in8 P (port + 5) d = (v, d1)" by fastforce
  with assms have s: "sent d1 = sent d" "if v AND 0x20 = 0 then delay d1 < delay d else idle d1" by (auto simp: uart_tx_def)
  show ?case
  proof (cases "v AND 0x20 = 0")
    case True
    with s less [of d1] show ?thesis by (subst tx_wait.simps) (simp add: r)
  qed (use s r in \<open>subst tx_wait.simps, simp\<close>)
qed

lemma tx_byte_ok:
  assumes "uart_tx P port idle sent delay"
  shows "\<exists>d'. tx_byte P port b d = Some d' \<and> sent d' = sent d @ [b]"
  using tx_wait_ok [OF assms, of d] assms by (auto simp: tx_byte_def uart_tx_def)

definition crlf :: "uint8_t list \<Rightarrow> uint8_t list" where
  "crlf bs = concat (map (\<lambda>b. if b = 0x0a then [0x0d, 0x0a] else [b]) bs)"

lemma serial_write_loop_ok:
  assumes "uart_tx P port idle sent delay"
  shows "\<exists>d'. serial_write_loop P port bs d = Some d' \<and> sent d' = sent d @ crlf bs"
proof (induction bs arbitrary: d)
  case (Cons b bs)
  obtain d1 where d1: "(if b = 0x0a then tx_byte P port 0x0d d else Some d) = Some d1" "sent d1 = sent d @ (if b = 0x0a then [0x0d] else [])"
    using tx_byte_ok [OF assms, of "0x0d" d] by (cases "b = 0x0a") auto
  from tx_byte_ok [OF assms, of b d1] obtain d2 where d2: "tx_byte P port b d1 = Some d2" "sent d2 = sent d1 @ [b]" by blast
  from Cons.IH [of d2] d1 d2 show ?case by (auto simp: crlf_def)
qed (simp add: crlf_def)

text \<open>Writing to the serial port: on a port whose transmitter becomes ready sooner or later, the call returns the
  number of bytes, and exactly these bytes were sent in order, each line feed preceded by a carriage return;
  no byte was written while the transmitter was busy.\<close>

theorem serial_write_correct:
  assumes "uart_tx P port idle sent delay"
  shows "\<exists>d'. serial_write P port bs d = Some (length bs, d') \<and> sent d' = sent d @ crlf bs"
  using serial_write_loop_ok [OF assms, of bs d] by (auto simp: serial_write_def)

lemma rx_loop_ok:
  assumes "uart_rx P port fifo"
  shows "fst (rx_loop P port n d) = take n (fifo d) \<and> fifo (snd (rx_loop P port n d)) = drop n (fifo d)"
proof (induction n arbitrary: d)
  case 0
  obtain v d1 where "in8 P (port + 5) d = (v, d1)" by fastforce
  with assms show ?case by (auto simp: uart_rx_def)
next
  case (Suc n)
  obtain v d1 where r: "in8 P (port + 5) d = (v, d1)" by fastforce
  obtain c d2 where r2: "in8 P port d1 = (c, d2)" by fastforce
  from assms r have f: "fifo d1 = fifo d" "v AND 1 \<noteq> 0 \<longleftrightarrow> fifo d \<noteq> []" by (auto simp: uart_rx_def)
  show ?case
  proof (cases "fifo d = []")
    case False
    with assms r2 f have "fifo d = c # fifo d2" by (auto simp: uart_rx_def)
    with Suc.IH [of d2] False f r r2 show ?thesis by (simp add: split_beta)
  qed (use f r in simp)
qed

text \<open>The interrupt of the serial port: up to 32 bytes go from the FIFO to the receive queue, oldest first, the
  rest stays in the FIFO, and every task that waits for input can run.\<close>

theorem serial_receive:
  assumes "uart_rx P port fifo" and q: "queue_inv q" "klist_inv (q_readSubscribers q)" "distinct (contents (q_readSubscribers q))"
      "\<forall>p \<in> set (contents (q_readSubscribers q)). asleep s p"
  shows "\<exists>d' q' s'. serial_handleIrq P port d (q, s) = Some (d', q', s') \<and> fifo d' = drop 32 (fifo d) \<and> queue_inv q' \<and>
     stored q' = newest (stored q @ take 32 (fifo d)) \<and> (\<forall>p \<in> set (contents (q_readSubscribers q)). running s' p)"
proof -
  obtain bs d' where r: "rx_loop P port 32 d = (bs, d')" by fastforce
  with rx_loop_ok [OF assms(1), of 32 d] have f: "bs = take 32 (fifo d)" "fifo d' = drop 32 (fifo d)" by simp_all
  from queue_write_ok [OF q, of bs] obtain q' s' where "queue_write bs (q, s) = Some (of_nat (length bs), q', s')" "queue_inv q'"
    "stored q' = newest (stored q @ bs)" "\<forall>p \<in> set (contents (q_readSubscribers q)). running s' p" by blast
  with r f show ?thesis by (simp add: serial_handleIrq_def)
qed

text \<open>The output buffer bit at the \<open>n\<close>-th poll from now on.\<close>

definition full_at :: "'d ports \<Rightarrow> 'd \<Rightarrow> nat \<Rightarrow> bool" where
  "full_at P d n = fst (outBufferFull P (((\<lambda>d. snd (outBufferFull P d)) ^^ n) d))"

lemma full_at_simps: "full_at P d 0 = fst (outBufferFull P d)" "full_at P d (Suc n) = full_at P (snd (outBufferFull P d)) n"
  by (simp_all add: full_at_def funpow_Suc_right del: funpow.simps)

lemma poll_zero:
  "fst (poll P busy a d) = 0 \<longleftrightarrow> a \<noteq> 0 \<and> (\<forall>i. Suc i < unat a \<longrightarrow> full_at P d i = busy) \<and> full_at P d (unat a - 1) \<noteq> busy"
proof (induction P busy a d rule: poll.induct)
  case (1 P busy a d)
  show ?case
  proof (cases "a = 0")
    case True
    then show ?thesis by (subst poll.simps) simp
  next
    case a: False
    then obtain n where n: "unat a = Suc n" by (metis nat.exhaust unat_eq_0)
    then have n1: "unat (a - 1) = n" using a by (simp add: unat_minus_one)
    obtain full d1 where r: "outBufferFull P d = (full, d1)" by fastforce
    then have f: "full_at P d 0 = full" "\<And>i. full_at P d (Suc i) = full_at P d1 i" by (simp_all add: full_at_simps)
    have z: "a - 1 = 0 \<longleftrightarrow> n = 0" using n1 by (metis unat_eq_0)
    show ?thesis
    proof (cases "full = busy")
      case True
      have "fst (poll P busy a d) = fst (poll P busy (a - 1) d1)" using a r True by (subst poll.simps) simp
      also have "\<dots> = 0 \<longleftrightarrow> n \<noteq> 0 \<and> (\<forall>i. Suc i < n \<longrightarrow> full_at P d1 i = busy) \<and> full_at P d1 (n - 1) \<noteq> busy"
        using 1 [OF a r [symmetric] True] n1 z by simp
      finally show ?thesis using a n f True by (cases n) (simp_all add: All_less_Suc2)
    next
      case False
      then have "fst (poll P busy a d) = a - 1" using a r by (subst poll.simps) simp
      then show ?thesis using a n f z False by (cases n) auto
    qed
  qed
qed

text \<open>\<^verbatim>\<open>ps2WaitForByteTimeout\<close> reports a timeout exactly if the byte arrives at the tenth poll. If no byte arrives
  during the ten polls, it takes whatever the data port holds and reports success.\<close>

theorem ps2_timeout_inverted:
  "fst (ps2WaitForByteTimeout P d) = None \<longleftrightarrow> (\<forall>i < 9. \<not> full_at P d i) \<and> full_at P d 9"
proof -
  have "fst (ps2WaitForByteTimeout P d) = None \<longleftrightarrow> fst (poll P False 10 d) = 0"
    by (simp add: ps2WaitForByteTimeout_def split: prod.splits)
  also have "\<dots> \<longleftrightarrow> (\<forall>i < 9. \<not> full_at P d i) \<and> full_at P d 9" unfolding poll_zero by (auto simp: less_eq_Suc_le)
  finally show ?thesis .
qed

section \<open>Configuration addresses\<close>

lemma take_bit_small:
  assumes "unat (w :: size_t) < 2 ^ n"
  shows "take_bit n w = w"
proof -
  have "unat (take_bit n w) = unat w" using assms by (simp add: unsigned_take_bit_eq take_bit_nat_eq_self)
  then show ?thesis by (simp add: word_unat_eq_iff)
qed

text \<open>The address of a PCI configuration register holds bus, slot, function and register in separate fields, from
  which they can be read back, and the enable bit is set.\<close>

theorem pci_address_fields:
  assumes "bus < 256" and "slot < 32" and "func < 8" and "offset AND 0xfc = offset"
  shows "drop_bit 16 (calcAddress offset bus slot func) AND 0xff = ucast bus \<and> drop_bit 11 (calcAddress offset bus slot func) AND 0x1f = ucast slot \<and>
     drop_bit 8 (calcAddress offset bus slot func) AND 0x7 = ucast func \<and> calcAddress offset bus slot func AND 0xff = ucast offset \<and>
     bit (calcAddress offset bus slot func) 31"
proof -
  have t: "take_bit 8 bus = bus" "take_bit 5 slot = slot" "take_bit 3 func = func"
    using assms(1-3) by (auto intro!: take_bit_small simp: word_less_nat_alt)
  have b: "bit bus i \<longleftrightarrow> i < 8 \<and> bit bus i" "bit slot i \<longleftrightarrow> i < 5 \<and> bit slot i" "bit func i \<longleftrightarrow> i < 3 \<and> bit func i" for i
    using arg_cong [OF t(1), of "\<lambda>w. bit w i"] arg_cong [OF t(2), of "\<lambda>w. bit w i"] arg_cong [OF t(3), of "\<lambda>w. bit w i"] by (auto simp: bit_simps)
  have fc: "(0xfc :: size_t) = push_bit 2 (mask 6)" by (simp add: mask_eq_exp_minus_1)
  have "bit offset i \<longleftrightarrow> bit offset i \<and> 2 \<le> i \<and> bit (mask 6 :: size_t) (i - 2)" for i
    using arg_cong [OF assms(4) [unfolded fc], of "\<lambda>w. bit w i"] by (simp only: bit_and_iff bit_push_bit_iff possible_bit_word) (auto dest: bit_imp_le_length)
  then have o: "bit offset i \<longleftrightarrow> 2 \<le> i \<and> i < 8 \<and> bit offset i" for i
    using bit_mask_iff [of 6 "i - 2", where 'a = size_t] by auto
  have m: "(0xff :: uint32_t) = mask 8" "(0x1f :: uint32_t) = mask 5" "(0x7 :: uint32_t) = mask 3" by (simp_all add: mask_eq_exp_minus_1)
  have "(2147483648 :: int) = 2 ^ 31" "(2147483648 :: nat) = 2 ^ 31" "(2147483648 :: size_t) = 2 ^ 31" by simp_all
  then have top: "bit (2147483648 :: int) i \<longleftrightarrow> i = 31" "bit (2147483648 :: nat) i \<longleftrightarrow> i = 31" "bit (2147483648 :: size_t) i \<longleftrightarrow> i = 31" for i
    using bit_exp_iff [of 31 i, where 'a = int] bit_exp_iff [of 31 i, where 'a = nat] bit_exp_iff [of 31 i, where 'a = size_t] by auto
  show ?thesis unfolding calcAddress_def m assms(4)
    by (intro conjI bit_word_eqI) (auto simp: bit_simps top dest: b [THEN iffD1] o [THEN iffD1])
qed

section \<open>Examples\<close>

text \<open>A serial port that is busy for three polls after each byte: the bytes sent, the polls still to wait and
  the bytes received.\<close>

type_synonym demo_uart = "uint8_t list \<times> nat \<times> uint8_t list"

definition demo_ports :: "demo_uart ports" where
  "demo_ports = \<lparr>in8 = \<lambda>port (sent, n, fifo).
       if port = COM1 + 5 then ((if n = 0 then 0x20 else 0) OR (if fifo = [] then 0 else 1), (sent, n - 1, fifo))
       else if port = COM1 then (case fifo of [] \<Rightarrow> (0, (sent, n, [])) | c # cs \<Rightarrow> (c, (sent, n, cs))) else (0, (sent, n, fifo)),
     out8 = \<lambda>port b (sent, n, fifo). if port = COM1 \<and> n = 0 then (sent @ [b], 3, fifo) else (sent, n, fifo),
     in32 = \<lambda>_ d. (0, d), out32 = \<lambda>_ _ d. d\<rparr>"

lemma demo_uart_tx: "uart_tx demo_ports COM1 (\<lambda>(_, n, _). n = 0) fst (\<lambda>(_, n, _). n)"
  by (auto simp: uart_tx_def demo_ports_def)

lemma demo_uart_rx: "uart_rx demo_ports COM1 (\<lambda>(_, _, fifo). fifo)"
  by (auto simp: uart_rx_def demo_ports_def COM1_def split: list.splits)

theorem serial_write_witness: "\<exists>d'. serial_write demo_ports COM1 [0x61, 0x0a] ([], 2, []) = Some (2, d') \<and> fst d' = [0x61, 0x0d, 0x0a]"
  using serial_write_correct [OF demo_uart_tx, of "[0x61, 0x0a]" "([], 2, [])"] by (simp add: crlf_def flip: numeral_2_eq_2)

theorem serial_receive_witness:
  "\<exists>d' q' s'. serial_handleIrq demo_ports COM1 ([], 0, [1, 2]) (new_queue (replicate 4096 0) Map.empty, example_sched 9) = Some (d', q', s') \<and> stored q' = [1, 2]"
  using serial_receive [OF demo_uart_rx, of "new_queue (replicate 4096 0) Map.empty" "example_sched 9" "([], 0, [1, 2])"] new_queue_ok
  by (auto simp: newest_def)

theorem ps2_timeout_witness: "fst (ps2WaitForByteTimeout demo_ports ([], 0, [])) \<noteq> None"
proof -
  have "\<not> full_at demo_ports d i" for d i
    by (simp add: full_at_def outBufferFull_def demo_ports_def STATUS_PORT_def COM1_def split_beta)
  then show ?thesis using ps2_timeout_inverted [of demo_ports "([], 0, [])"] by simp
qed

theorem pci_address_witness: "drop_bit 16 (calcAddress 4 2 3 1) AND 0xff = 2 \<and> bit (calcAddress 4 2 3 1) 31"
  using pci_address_fields [of 2 3 1 4] by simp
end
