(* ===== verification/Cmdline.thy ===== *)
theory Cmdline
  imports KString "HOL-Library.Sublist"
begin

text \<open>
  The kernel's command line (\<^verbatim>\<open>kernel/cmdline.cpp\<close>), the modules the boot loader passes (\<^verbatim>\<open>arch/x86_64/module.cpp\<close>)
  and the part of \<^verbatim>\<open>kernel_init\<close> (\<^verbatim>\<open>kernel/boot.cpp\<close>) that finds the first program with both. The line and the
  names are NUL-terminated strings in the memory of the theory \<open>Bytes\<close>; the modules are a chain of records
  whose names are in that memory. An option is \<^verbatim>\<open>key=value\<close>, options are separated by one blank.
\<close>

section \<open>Looking up an option\<close>

text \<open>The result carries the moved pointer \<^verbatim>\<open>sp\<close>, which the code passes by reference.\<close>

partial_function (option) match_name :: "mem \<Rightarrow> addr \<Rightarrow> addr \<Rightarrow> (bool \<times> addr) option" where
  "match_name m name sp = do {
     n \<leftarrow> load m name;
     if n = 0 then Some (True, sp + 1)
     else do {
       c \<leftarrow> load m sp;
       if c = 0 \<or> c = 0x3d then Some (True, sp + 1)
       else if n \<noteq> c then Some (False, sp + 1)
       else match_name m (name + 1) (sp + 1)
     }
   }"

partial_function (option) next_name :: "mem \<Rightarrow> addr \<Rightarrow> (bool \<times> addr) option" where
  "next_name m sp = do {
     c \<leftarrow> load m sp;
     if c \<noteq> 0x20 then if c = 0 then Some (False, sp + 1) else next_name m (sp + 1)
     else Some (True, sp + 1)
   }"

partial_function (option) copy_value :: "addr \<Rightarrow> addr \<Rightarrow> mem \<Rightarrow> (addr \<times> mem) option" where
  "copy_value sp buffer m = do {
     c \<leftarrow> load m sp;
     if c \<noteq> 0 \<and> c \<noteq> 0x20 then do { m1 \<leftarrow> store m buffer c; copy_value (sp + 1) (buffer + 1) m1 }
     else do { m1 \<leftarrow> store m buffer 0; Some (sp, m1) }
   }"

partial_function (option) cmdline_loop :: "addr \<Rightarrow> addr \<Rightarrow> addr \<Rightarrow> mem \<Rightarrow> (bool \<times> mem) option" where
  "cmdline_loop name sp buffer m = do {
     (matched, sp1) \<leftarrow> match_name m name sp;
     if matched then do { (_, m1) \<leftarrow> copy_value sp1 buffer m; Some (True, m1) }
     else do {
       (more, sp2) \<leftarrow> next_name m sp1;
       if more then cmdline_loop name sp2 buffer m else Some (False, m)
     }
   }"

definition cmdline_get :: "addr \<Rightarrow> addr \<Rightarrow> addr \<Rightarrow> mem \<Rightarrow> (bool \<times> mem) option" where
  "cmdline_get s_cmdline name buffer m = do {
     c \<leftarrow> load m name;
     if c = 0 then Some (False, m) else cmdline_loop name s_cmdline buffer m
   }"

section \<open>Boot modules\<close>

record stivale_module =
  md_begin :: uint64_t
  md_end :: uint64_t
  md_string :: addr
  md_next :: uint64_t

fun find_module_loop :: "mem \<Rightarrow> stivale_module store \<Rightarrow> addr \<Rightarrow> nat \<Rightarrow> addr \<Rightarrow> addr option" where
  "find_module_loop m mods name 0 p = Some 0"
| "find_module_loop m mods name (Suc n) p = do {
     md \<leftarrow> deref mods p;
     d \<leftarrow> strcmp m (md_string md) name;
     if d = 0 then Some (md_begin md) else find_module_loop m mods name n (md_next md)
   }"

definition find_module :: "mem \<Rightarrow> stivale_module store \<Rightarrow> addr \<Rightarrow> uint64_t \<Rightarrow> addr \<Rightarrow> addr option" where
  "find_module m mods modules module_count name = find_module_loop m mods name (unat module_count) modules"

text \<open>The end of \<^verbatim>\<open>kernel_init\<close>: the image of the first program; \<open>init\<close> is the address of the literal.\<close>

definition init_program :: "addr \<Rightarrow> addr \<Rightarrow> addr \<Rightarrow> stivale_module store \<Rightarrow> addr \<Rightarrow> uint64_t \<Rightarrow> mem \<Rightarrow> (addr \<times> mem) option" where
  "init_program cmdline init valueBuffer mods modules module_count m = do {
     (found, m1) \<leftarrow> cmdline_get cmdline init valueBuffer m;
     if \<not> found then None
     else do {
       init_bin \<leftarrow> find_module m1 mods modules module_count valueBuffer;
       kassert (init_bin \<noteq> 0);
       Some (init_bin, m1)
     }
   }"

section \<open>What a line means\<close>

type_synonym opt = "uint8_t list \<times> uint8_t list"

fun opt_line :: "opt list \<Rightarrow> uint8_t list" where
  "opt_line [] = []"
| "opt_line [(k, v)] = k @ 0x3d # v"
| "opt_line ((k, v) # os) = k @ 0x3d # v @ 0x20 # opt_line os"

definition wf_opt :: "opt \<Rightarrow> bool" where
  "wf_opt kv \<longleftrightarrow> (case kv of (k, v) \<Rightarrow> set k \<inter> {0, 0x20, 0x3d} = {} \<and> set v \<inter> {0, 0x20} = {})"

text \<open>The comparison stops at the end of the shorter of key and name, so one of them has to be a
  prefix of the other; the value starts one byte behind the place where it stops.\<close>

fun common :: "'a list \<Rightarrow> 'a list \<Rightarrow> nat" where
  "common (a # as) (b # bs) = (if a = b then Suc (common as bs) else 0)"
| "common as bs = 0"

definition comparable :: "'a list \<Rightarrow> 'a list \<Rightarrow> bool" where
  "comparable as bs \<longleftrightarrow> prefix as bs \<or> prefix bs as"

definition opt_value :: "uint8_t list \<Rightarrow> opt \<Rightarrow> uint8_t list" where
  "opt_value ns kv = (case kv of (k, v) \<Rightarrow> drop (Suc (common ns k)) (k @ 0x3d # v))"

lemma common_le: "common as bs \<le> length as" "common as bs \<le> length bs"
  by (induction as bs rule: common.induct) auto

lemma common_self [simp]: "common as as = length as"
  by (induction as) auto

lemma opt_value_exact [simp]: "opt_value k (k, v) = v"
  by (simp add: opt_value_def)

lemma comparable_simps [simp]:
  "comparable [] bs" "comparable as []" "comparable (a # as) (b # bs) \<longleftrightarrow> a = b \<and> comparable as bs"
  by (auto simp: comparable_def)

lemma match_name_ok:
  "str_at m name ns \<Longrightarrow> bytes_at m sp (k @ 0x3d # bs) \<Longrightarrow> set k \<inter> {0, 0x3d} = {} \<Longrightarrow>
   match_name m name sp = Some (comparable ns k, sp + of_nat (Suc (common ns k)))"
proof (induction k arbitrary: ns name sp)
  case Nil
  then have "m sp = Some 0x3d" by (auto dest: bytes_at_first)
  with Nil.prems(1) show ?case
    by (cases ns; subst match_name.simps) (auto simp: load_def str_at_Nil dest!: str_at_Cons)
next
  case (Cons c k)
  then have c: "m sp = Some c" "bytes_at m (sp + 1) (k @ 0x3d # bs)" "c \<noteq> 0" "c \<noteq> 0x3d" "set k \<inter> {0, 0x3d} = {}"
    by (auto dest: bytes_at_first bytes_at_tail)
  show ?case
  proof (cases ns)
    case Nil
    with Cons.prems(1) show ?thesis by (subst match_name.simps) (simp add: load_def str_at_Nil)
  next
    case (Cons n ns')
    with Cons.prems(1) have n: "m name = Some n" "n \<noteq> 0" "str_at m (name + 1) ns'" by (auto dest: str_at_Cons)
    with c Cons Cons.IH [OF n(3) c(2,5)] show ?thesis by (subst match_name.simps) (auto simp: load_def add.assoc)
  qed
qed

lemma next_name_ok:
  "bytes_at m sp (w @ [c]) \<Longrightarrow> set w \<inter> {0, 0x20} = {} \<Longrightarrow> c \<in> {0, 0x20} \<Longrightarrow>
   next_name m sp = Some (c = 0x20, sp + of_nat (Suc (length w)))"
proof (induction w arbitrary: sp)
  case Nil
  then have "m sp = Some c" by (auto dest: bytes_at_first)
  with Nil.prems(3) show ?case by (subst next_name.simps) (auto simp: load_def)
next
  case (Cons a w)
  then have "m sp = Some a" "bytes_at m (sp + 1) (w @ [c])" by (auto dest: bytes_at_first bytes_at_tail)
  with Cons show ?case by (subst next_name.simps) (auto simp: load_def add.assoc)
qed

lemma copy_value_ok:
  assumes "bytes_at m sp (v @ [c])" and "set v \<inter> {0, 0x20} = {}" and "c \<in> {0, 0x20}" and "room m buffer (Suc (length v))"
    and "region buffer (Suc (length v)) \<inter> region sp (Suc (length v)) = {}"
  shows "\<exists>m'. copy_value sp buffer m = Some (sp + of_nat (length v), m') \<and> str_at m' buffer v \<and>
     (\<forall>a. a \<notin> region buffer (Suc (length v)) \<longrightarrow> m' a = m a)"
  using assms
proof (induction v arbitrary: sp buffer m)
  case Nil
  then have "m sp = Some c" "m buffer \<noteq> None" by (auto simp: room_def dest: bytes_at_first)
  with Nil.prems(3) show ?case
    by (subst copy_value.simps) (auto simp: load_def store_def str_at_Nil region_Suc)
next
  case (Cons b v)
  let ?m = "m(buffer \<mapsto> b)"
  have b: "m sp = Some b" "bytes_at m (sp + 1) (v @ [c])"
    using Cons.prems(1) by (auto dest: bytes_at_first bytes_at_tail)
  have l: "Suc (length v) < 2 ^ 64" using Cons.prems(1) by (simp add: bytes_at_def)
  have r: "m buffer \<noteq> None" "room m (buffer + 1) (Suc (length v))"
    using Cons.prems(4) unfolding room_def by (force simp: All_less_Suc2 add.assoc)+
  have "bytes_at ?m (sp + 1) (v @ [c])"
    using b(2) Cons.prems(5) by (subst bytes_at_frame) (auto simp: region_Suc [of _ "Suc _"])
  moreover have "room ?m (buffer + 1) (Suc (length v))" using r(2) by (auto simp: room_def)
  moreover have "region (buffer + 1) (Suc (length v)) \<inter> region (sp + 1) (Suc (length v)) = {}"
    using Cons.prems(5) by (auto simp: region_Suc [of _ "Suc _"])
  ultimately obtain m' where m': "copy_value (sp + 1) (buffer + 1) ?m = Some (sp + 1 + of_nat (length v), m')"
    "str_at m' (buffer + 1) v" "\<forall>a. a \<notin> region (buffer + 1) (Suc (length v)) \<longrightarrow> m' a = ?m a"
    using Cons.IH [OF _ _ Cons.prems(3), of ?m "sp + 1" "buffer + 1"] Cons.prems(2) by (auto simp del: fun_upd_apply)
  have "m' buffer = Some b" using m'(3) first_notin_rest [OF l] by simp
  moreover have "str_at m' buffer (b # v)"
    using m'(2) calculation l Cons.prems(2) by (auto simp: str_at_def bytes_at_Cons)
  ultimately show ?case using m' b r(1) Cons.prems(2)
    by (subst copy_value.simps) (auto simp: load_def store_def add.assoc region_Suc [of _ "Suc _"])
qed

lemma region_shift: "n + k \<le> l \<Longrightarrow> region (p + of_nat n) k \<subseteq> region p l"
proof
  fix a assume "n + k \<le> l" "a \<in> region (p + of_nat n) k"
  then obtain i where "i < k" "a = p + of_nat (n + i)" by (auto simp: region_def add.assoc)
  with \<open>n + k \<le> l\<close> show "a \<in> region p l" unfolding region_def by (intro image_eqI [of _ _ "n + i"]) auto
qed

lemma bytes_at_drop: "bytes_at m p bs \<Longrightarrow> i \<le> length bs \<Longrightarrow> bytes_at m (p + of_nat i) (drop i bs)"
  using bytes_at_append2 [of m p "take i bs" "drop i bs"] by (simp add: min_absorb2)

lemma bytes_at_drop_snoc:
  "bytes_at m p (k @ e # v @ [c]) \<Longrightarrow> i \<le> Suc (length k) \<Longrightarrow> bytes_at m (p + of_nat i) (drop i (k @ e # v) @ [c])"
  using bytes_at_drop [of m p "(k @ e # v) @ [c]" i] unfolding drop_append by simp

section \<open>Correctness of the lookup\<close>

text \<open>One turn of the loop, on the option at the pointer; \<open>c\<close> is the byte behind it.\<close>

lemma one_option:
  assumes b: "bytes_at m sp (k @ 0x3d # v @ [c])" and n: "str_at m name ns" and w: "wf_opt (k, v)" and c: "c \<in> {0, 0x20}"
    and nc: "\<not> comparable ns k"
  shows "cmdline_loop name sp buffer m =
     (if c = 0x20 then cmdline_loop name (sp + of_nat (length (k @ 0x3d # v @ [c]))) buffer m else Some (False, m))"
proof -
  define i where "i = Suc (common ns k)"
  have i: "i \<le> Suc (length k)" using common_le(2) [of ns k] by (simp add: i_def)
  have match: "match_name m name sp = Some (False, sp + of_nat i)"
    using match_name_ok [OF n b] w nc by (auto simp: wf_opt_def i_def)
  have "bytes_at m (sp + of_nat i) (drop i (k @ 0x3d # v) @ [c])"
    using bytes_at_drop_snoc [OF b, of i] i by simp
  moreover have "set (drop i (k @ 0x3d # v)) \<inter> {0, 0x20} = {}" using w by (auto simp: wf_opt_def dest!: in_set_dropD)
  ultimately have "next_name m (sp + of_nat i) = Some (c = 0x20, sp + of_nat i + of_nat (Suc (length (drop i (k @ 0x3d # v)))))"
    using c by (rule next_name_ok)
  also have "sp + of_nat i + of_nat (Suc (length (drop i (k @ 0x3d # v)))) = sp + of_nat (length (k @ 0x3d # v @ [c]))"
    unfolding add.assoc of_nat_add [symmetric] using i by (intro arg_cong [of _ _ "\<lambda>n. sp + of_nat n"]) simp
  finally show ?thesis using match by (subst cmdline_loop.simps) simp
qed

text \<open>The buffer holds \<open>cs\<close>, and nothing else changed.\<close>

definition answered :: "mem \<Rightarrow> addr \<Rightarrow> nat \<Rightarrow> uint8_t list \<Rightarrow> mem \<Rightarrow> bool" where
  "answered m buffer n cs m' \<longleftrightarrow> str_at m' buffer cs \<and> (\<forall>a. a \<notin> region buffer n \<longrightarrow> m' a = m a)"

lemma this_option:
  assumes b: "bytes_at m sp (k @ 0x3d # v @ [c])" and n: "str_at m name ns" and w: "wf_opt (k, v)" and c: "c \<in> {0, 0x20}"
    and nc: "comparable ns k" and r: "room m buffer l" and d: "region buffer l \<inter> region sp l = {}" and l: "length (k @ 0x3d # v @ [c]) \<le> l"
  shows "\<exists>m'. cmdline_loop name sp buffer m = Some (True, m') \<and> answered m buffer l (opt_value ns (k, v)) m'"
proof -
  define i where "i = Suc (common ns k)"
  define cs where "cs = opt_value ns (k, v)"
  have i: "i \<le> Suc (length k)" using common_le(2) [of ns k] by (simp add: i_def)
  have cs: "cs = drop i (k @ 0x3d # v)" by (simp add: cs_def opt_value_def i_def)
  have match: "match_name m name sp = Some (True, sp + of_nat i)"
    using match_name_ok [OF n b] w nc by (auto simp: wf_opt_def i_def)
  have len: "i + Suc (length cs) \<le> l" using i l by (simp add: cs)
  have "bytes_at m (sp + of_nat i) (cs @ [c])"
    using bytes_at_drop_snoc [OF b, of i] i by (simp add: cs)
  moreover have "set cs \<inter> {0, 0x20} = {}" using w by (auto simp: cs wf_opt_def dest!: in_set_dropD)
  moreover have "room m buffer (Suc (length cs))" using r len by (auto simp: room_def)
  moreover have "region buffer (Suc (length cs)) \<inter> region (sp + of_nat i) (Suc (length cs)) = {}"
    using d region_mono [of "Suc (length cs)" l buffer] region_shift [OF len, of sp] len by auto
  ultimately obtain m' where m': "copy_value (sp + of_nat i) buffer m = Some (sp + of_nat i + of_nat (length cs), m')"
    "str_at m' buffer cs" "\<forall>a. a \<notin> region buffer (Suc (length cs)) \<longrightarrow> m' a = m a"
    using copy_value_ok [OF _ _ c] by blast
  then have "answered m buffer l cs m'" using region_mono [of "Suc (length cs)" l buffer] len by (auto simp: answered_def)
  with m'(1) match show ?thesis unfolding cs_def [symmetric] by (subst cmdline_loop.simps) simp
qed

abbreviation selects :: "uint8_t list \<Rightarrow> opt \<Rightarrow> bool" where
  "selects ns kv \<equiv> comparable ns (fst kv)"

lemma cmdline_loop_ok:
  assumes "opts \<noteq> []" and "\<forall>kv\<in>set opts. wf_opt kv" and "bytes_at m sp (opt_line opts @ [0])" and n: "str_at m name ns"
    and "room m buffer l" and "region buffer l \<inter> region sp l = {}" and "Suc (length (opt_line opts)) \<le> l"
  shows "case find (selects ns) opts of
      None \<Rightarrow> cmdline_loop name sp buffer m = Some (False, m)
    | Some kv \<Rightarrow> \<exists>m'. cmdline_loop name sp buffer m = Some (True, m') \<and> answered m buffer l (opt_value ns kv) m'"
  using assms(1-3,5-7)
proof (induction opts arbitrary: sp l rule: opt_line.induct)
  case (2 k v)
  then show ?case using one_option [of m sp k v 0 name ns buffer] this_option [of m sp k v 0 name ns buffer l] n by auto
next
  case (3 k v o1 os)
  let ?os = "o1 # os" and ?o = "k @ 0x3d # v @ [0x20]"
  have b: "bytes_at m sp (?o @ opt_line ?os @ [0])" using "3.prems"(3) by simp
  show ?case
  proof (cases "comparable ns k")
    case True
    then show ?thesis
      using this_option [of m sp k v "0x20", OF _ n] "3.prems" bytes_at_append1 [OF b] by auto
  next
    case False
    define l' where "l' = l - length ?o"
    have l: "length ?o + l' = l" using "3.prems"(6) by (simp add: l'_def)
    have "region buffer l' \<inter> region (sp + of_nat (length ?o)) l' = {}"
      using "3.prems"(5) region_mono [of l' l buffer] region_shift [of "length ?o" l' l sp] l by auto
    moreover have "room m buffer l'" using "3.prems"(4) l by (auto simp: room_def)
    ultimately have "case find (selects ns) ?os of
        None \<Rightarrow> cmdline_loop name (sp + of_nat (length ?o)) buffer m = Some (False, m)
      | Some kv \<Rightarrow> \<exists>m'. cmdline_loop name (sp + of_nat (length ?o)) buffer m = Some (True, m') \<and> answered m buffer l' (opt_value ns kv) m'"
      using "3.IH" [where sp = "sp + of_nat (length ?o)" and l = l'] "3.prems"(2,6) bytes_at_append2 [OF b] l by simp
    moreover have "cmdline_loop name sp buffer m = cmdline_loop name (sp + of_nat (length ?o)) buffer m"
      using one_option [OF bytes_at_append1 [OF b, simplified append_assoc append_Cons] n _ _ False, of buffer] "3.prems"(2) by simp
    moreover have "answered m buffer l' cs m' \<Longrightarrow> answered m buffer l cs m'" for cs m'
      using region_mono [of l' l buffer] l by (auto simp: answered_def)
    moreover have f: "find (selects ns) ((k, v) # ?os) = find (selects ns) ?os" using False by simp
    ultimately show ?thesis unfolding f by (auto simp del: find.simps split: option.splits)
  qed
qed simp

text \<open>A lookup in a line of well-formed options.\<close>

definition cmdline_at :: "mem \<Rightarrow> addr \<Rightarrow> opt list \<Rightarrow> bool" where
  "cmdline_at m s opts \<longleftrightarrow> opts \<noteq> [] \<and> (\<forall>kv\<in>set opts. wf_opt kv) \<and> bytes_at m s (opt_line opts @ [0])"

definition value_room :: "mem \<Rightarrow> addr \<Rightarrow> nat \<Rightarrow> addr \<Rightarrow> bool" where
  "value_room m buffer l s \<longleftrightarrow> room m buffer l \<and> region buffer l \<inter> region s l = {}"

lemma cmdline_get_ok:
  assumes "cmdline_at m s opts" and "str_at m name ns" and "ns \<noteq> []" and "value_room m buffer l s" and "length (opt_line opts) < l"
  shows "case find (selects ns) opts of
      None \<Rightarrow> cmdline_get s name buffer m = Some (False, m)
    | Some kv \<Rightarrow> \<exists>m'. cmdline_get s name buffer m = Some (True, m') \<and> answered m buffer l (opt_value ns kv) m'"
proof -
  obtain c cs where "m name = Some c" "c \<noteq> 0" using assms(2,3) by (cases ns) (auto dest: str_at_Cons)
  with cmdline_loop_ok [of opts m s name ns buffer l] assms show ?thesis
    by (auto simp: cmdline_get_def load_def cmdline_at_def value_room_def split: option.splits)
qed

text \<open>When no other key is comparable with the name, the lookup is that of the association list.\<close>

lemma find_exact:
  assumes "\<forall>kv\<in>set opts. comparable ns (fst kv) \<longrightarrow> fst kv = ns"
  shows "map_option (opt_value ns) (find (selects ns) opts) = map_of opts ns"
  using assms by (induction opts) (auto simp: comparable_def)

section \<open>Correctness of the module search\<close>

fun module_chain :: "mem \<Rightarrow> stivale_module store \<Rightarrow> addr \<Rightarrow> (uint8_t list \<times> addr) list \<Rightarrow> bool" where
  "module_chain m mods p [] = True"
| "module_chain m mods p ((cs, b) # ms) = (p \<noteq> 0 \<and> (case mods p of None \<Rightarrow> False | Some md \<Rightarrow>
     str_at m (md_string md) cs \<and> md_begin md = b \<and> module_chain m mods (md_next md) ms))"

lemma find_module_loop_ok:
  "module_chain m mods p ms \<Longrightarrow> str_at m name ns \<Longrightarrow>
   find_module_loop m mods name (length ms) p = Some (case map_of ms ns of None \<Rightarrow> 0 | Some b \<Rightarrow> b)"
proof (induction ms arbitrary: p)
  case (Cons e ms)
  obtain cs b where e: "e = (cs, b)" by fastforce
  with Cons.prems obtain md where md: "p \<noteq> 0" "mods p = Some md" "str_at m (md_string md) cs" "md_begin md = b"
    "module_chain m mods (md_next md) ms" by (auto split: option.splits)
  from strcmp_correct [OF md(3) Cons.prems(2)] obtain d where "strcmp m (md_string md) name = Some d" "d = 0 \<longleftrightarrow> cs = ns" by auto
  with e md Cons.IH [OF md(5) Cons.prems(2)] show ?case by auto
qed simp

lemma module_chain_frame:
  assumes "module_chain m mods p ms" and "\<And>q md i. mods q = Some md \<Longrightarrow> i < 128 \<Longrightarrow> m' (md_string md + of_nat i) = m (md_string md + of_nat i)"
    and "\<And>e. e \<in> set ms \<Longrightarrow> length (fst e) < 128"
  shows "module_chain m' mods p ms"
  using assms(1,3)
proof (induction ms arbitrary: p)
  case (Cons e ms)
  obtain cs b where e: "e = (cs, b)" by fastforce
  with Cons.prems obtain md where md: "p \<noteq> 0" "mods p = Some md" "str_at m (md_string md) cs" "md_begin md = b"
    "module_chain m mods (md_next md) ms" by (auto split: option.splits)
  have "length cs < 128" using Cons.prems(2) [of e] e by simp
  then have "str_at m' (md_string md) cs" using md(3) assms(2) [OF md(2)] by (auto simp: str_at_def bytes_at_def)
  with e md Cons.IH [OF md(5)] Cons.prems(2) show ?case by auto
qed simp

section \<open>Theorems\<close>

text \<open>The lookup of an option (\<^verbatim>\<open>cmdline_get\<close>), in a line of options in which no other key is a prefix of the name or
  has the name as a prefix: it returns, true exactly when the option is there, with its value as a string in
  the buffer and no other memory changed.\<close>

theorem cmdline_get_correct:
  assumes "cmdline_at m s opts" and "str_at m name ns" and "ns \<noteq> []" and "value_room m buffer l s" and "length (opt_line opts) < l"
    and "\<forall>kv\<in>set opts. comparable ns (fst kv) \<longrightarrow> fst kv = ns"
  shows "case map_of opts ns of
      None \<Rightarrow> cmdline_get s name buffer m = Some (False, m)
    | Some v \<Rightarrow> \<exists>m'. cmdline_get s name buffer m = Some (True, m') \<and> answered m buffer l v m'"
  using cmdline_get_ok [OF assms(1-5)] find_exact [OF assms(6), symmetric] by (auto split: option.splits)

text \<open>Without that condition the first option whose key is comparable with the name answers, and a key that is
  longer than the name answers with the end of the key in front of the value.\<close>

theorem cmdline_get_prefix:
  assumes "cmdline_at m s ((ns @ c # k, v) # opts)" and "str_at m name ns" and "ns \<noteq> []" and "value_room m buffer l s"
    and "length (opt_line ((ns @ c # k, v) # opts)) < l"
  shows "\<exists>m'. cmdline_get s name buffer m = Some (True, m') \<and> answered m buffer l (k @ 0x3d # v) m'"
proof -
  have "common ns (ns @ c # k) = length ns" by (induction ns) auto
  moreover have "comparable ns (ns @ c # k)" by (simp add: comparable_def)
  ultimately show ?thesis using cmdline_get_ok [OF assms] by (simp add: opt_value_def)
qed

text \<open>C34. The first program (\<^verbatim>\<open>kernel_init\<close>): when the command line names a module of the boot loader as \<^verbatim>\<open>init\<close>, its image is found.\<close>

theorem init_program_correct:
  assumes line: "cmdline_at m cmdline opts" "str_at m init ns" "ns \<noteq> []" "value_room m valueBuffer l cmdline" "length (opt_line opts) < l"
      "\<forall>kv\<in>set opts. comparable ns (fst kv) \<longrightarrow> fst kv = ns" "map_of opts ns = Some v"
    and mods: "module_chain m mods modules ms" "unat module_count = length ms" "\<forall>e\<in>set ms. length (fst e) < 128"
      "\<forall>q md i. mods q = Some md \<longrightarrow> i < 128 \<longrightarrow> md_string md + of_nat i \<notin> region valueBuffer l" "map_of ms v = Some b" "b \<noteq> 0"
  shows "\<exists>m'. init_program cmdline init valueBuffer mods modules module_count m = Some (b, m') \<and> answered m valueBuffer l v m'"
proof -
  from cmdline_get_ok [OF line(1-5)] find_exact [OF line(6), symmetric] line(7) obtain m' where
    m': "cmdline_get cmdline init valueBuffer m = Some (True, m')" "answered m valueBuffer l v m'"
    by (auto split: option.splits)
  have "module_chain m' mods modules ms"
    by (rule module_chain_frame [OF mods(1)]) (use m'(2) mods(3,4) in \<open>auto simp: answered_def\<close>)
  then have "find_module m' mods modules module_count valueBuffer = Some b"
    using find_module_loop_ok [of m' mods modules ms valueBuffer v] m'(2) mods(2,5) by (simp add: find_module_def answered_def)
  with m' mods(6) show ?thesis by (simp add: init_program_def)
qed

subsection \<open>Witnesses\<close>

text \<open>Address 100 holds \<^verbatim>\<open>a=b init=sh\<close>, 200 the name \<^verbatim>\<open>init\<close>, 210 the name \<^verbatim>\<open>i\<close>, 600 the name \<^verbatim>\<open>sh\<close> of a module, and 300 is a buffer.\<close>

definition cmd_mem :: mem where
  "cmd_mem = (\<lambda>a. if 300 \<le> a \<and> a < 400 then Some 0 else
     [100 \<mapsto> 97, 101 \<mapsto> 61, 102 \<mapsto> 98, 103 \<mapsto> 32, 104 \<mapsto> 105, 105 \<mapsto> 110, 106 \<mapsto> 105, 107 \<mapsto> 116, 108 \<mapsto> 61, 109 \<mapsto> 115, 110 \<mapsto> 104, 111 \<mapsto> 0,
      200 \<mapsto> 105, 201 \<mapsto> 110, 202 \<mapsto> 105, 203 \<mapsto> 116, 204 \<mapsto> 0, 210 \<mapsto> 105, 211 \<mapsto> 0, 600 \<mapsto> 115, 601 \<mapsto> 104, 602 \<mapsto> 0] a)"

definition cmd_opts :: "opt list" where
  "cmd_opts = [([97], [98]), ([105, 110, 105, 116], [115, 104])]"

definition cmd_modules :: "stivale_module store" where
  "cmd_modules = [1000 \<mapsto> \<lparr>md_begin = 4096, md_end = 8192, md_string = 600, md_next = 0\<rparr>]"

lemma region_iff: "unat p + n \<le> 2 ^ 64 \<Longrightarrow> a \<in> region p n \<longleftrightarrow> unat p \<le> unat a \<and> unat a < unat p + n"
proof
  assume n: "unat p + n \<le> 2 ^ 64"
  {
    assume "a \<in> region p n"
    then obtain i where i: "i < n" "a = p + of_nat i" by (auto simp: region_def)
    with n have "unat a = unat p + i" by (simp add: unat_word_ariths unat_of_nat take_bit_nat_eq_self)
    with i show "unat p \<le> unat a \<and> unat a < unat p + n" by simp
  }
  assume "unat p \<le> unat a \<and> unat a < unat p + n"
  moreover have "a = p + of_nat (unat a - unat p)" using calculation by (simp add: of_nat_diff)
  ultimately show "a \<in> region p n" unfolding region_def by (intro image_eqI [of _ _ "unat a - unat p"]) auto
qed

lemma cmd_strings:
  "cmdline_at cmd_mem 100 cmd_opts" "cmdline_at cmd_mem 104 [([105, 110, 105, 116], [115, 104])]"
  "str_at cmd_mem 200 [105, 110, 105, 116]" "str_at cmd_mem 210 [105]" "str_at cmd_mem 600 [115, 104]"
  by (simp_all add: cmdline_at_def wf_opt_def str_at_def bytes_at_Cons cmd_mem_def cmd_opts_def)

lemma cmd_room: "room cmd_mem 300 50" "region 300 50 \<inter> region 100 50 = {}" "region 300 50 \<inter> region 104 50 = {}"
proof -
  show "room cmd_mem 300 50" unfolding room_def
  proof (intro conjI allI impI)
    fix i :: nat assume i: "i < 50"
    then have "unat (300 + of_nat i :: addr) = 300 + i" by (simp add: unat_word_ariths unat_of_nat take_bit_nat_eq_self)
    then have "300 \<le> (300 + of_nat i :: addr) \<and> (300 + of_nat i :: addr) < 400"
      using i by (simp add: word_le_nat_alt word_less_nat_alt)
    then show "cmd_mem (300 + of_nat i) \<noteq> None" by (simp add: cmd_mem_def)
  qed simp
  show "region 300 50 \<inter> region 100 50 = {}" "region 300 50 \<inter> region 104 50 = {}" by (auto simp: region_iff)
qed

theorem cmdline_get_witness: "\<exists>m'. cmdline_get 100 200 300 cmd_mem = Some (True, m') \<and> str_at m' 300 [115, 104]"
  using cmdline_get_correct [OF cmd_strings(1,3), of 300 50] cmd_room
  by (auto simp: value_room_def cmd_opts_def answered_def)

theorem cmdline_prefix_witness: "\<exists>m'. cmdline_get 104 210 300 cmd_mem = Some (True, m') \<and> str_at m' 300 [105, 116, 61, 115, 104]"
  using cmdline_get_prefix [of cmd_mem 104 "[105]" 110 "[105, 116]" "[115, 104]" "[]" 210 300 50] cmd_strings(2,4) cmd_room
  by (auto simp: value_room_def answered_def)

theorem init_program_witness: "\<exists>m'. init_program 100 200 300 cmd_modules 1000 1 cmd_mem = Some (4096, m')"
proof -
  have "600 + of_nat i \<notin> region 300 50" if "i < 128" for i :: nat
  proof -
    have "unat (600 + of_nat i :: addr) = 600 + i" using that by (simp add: unat_word_ariths unat_of_nat take_bit_nat_eq_self)
    with that show ?thesis by (simp add: region_iff)
  qed
  then have "\<forall>q md i. cmd_modules q = Some md \<longrightarrow> i < 128 \<longrightarrow> md_string md + of_nat i \<notin> region 300 50"
    by (auto simp: cmd_modules_def split: if_splits)
  then show ?thesis
    using init_program_correct [OF cmd_strings(1,3), of 300 50 "[115, 104]" cmd_modules 1000 "[([115, 104], 4096)]" 1 4096] cmd_room cmd_strings(5)
    by (fastforce simp: value_room_def cmd_opts_def cmd_modules_def [THEN fun_cong])
qed

end
