(* ===== verification/Create.thy ===== *)
theory Create
  imports Fork Cmdline
begin

text \<open>
  Threads and processes that are not copies: \<^verbatim>\<open>UserProcess::addTask\<close> and the constructor of \<^verbatim>\<open>UserProcess\<close> in \<^verbatim>\<open>kernel/user_proc.cpp\<close>, whose
  definitions are in the theory \<open>Process\<close>, and the end of \<^verbatim>\<open>kernel_init\<close> (\<^verbatim>\<open>kernel/boot.cpp\<close>), which creates the first process from the
  command line. The results say in which frame a new thread starts and what a new process owns.
\<close>

section \<open>The first process\<close>

text \<open>From the lookup of the option on, less the set-up of the floating point unit. \<open>ld\<close> and \<open>block\<close> are the memory of the
  loader and of its shared pointer, \<open>mainTerm\<close> is the console's shared pointer, null without one. The
  two pointers are copied into the parameters of the constructor; the copies and the two locals are destroyed at the end.\<close>

definition start_init ::
  "addr \<Rightarrow> addr \<Rightarrow> addr \<Rightarrow> stivale_module store \<Rightarrow> addr \<Rightarrow> uint64_t \<Rightarrow> addr \<Rightarrow> addr \<Rightarrow> addr \<Rightarrow> proc_mem \<Rightarrow> addr \<Rightarrow> kernel \<Rightarrow> kernel option" where
  "start_init cmdline init valueBuffer mods modules module_count ld block mainTerm mem stdio k = do {
     (init_bin, m1) \<leftarrow> init_program cmdline init valueBuffer mods modules module_count (k_elf k);
     l \<leftarrow> new_loader m1 init_bin;
     let (loader, sp) = sp_new block ld (k_shared k);
     (arg1, sp1) \<leftarrow> sp_copy loader sp;
     (arg2, sp2) \<leftarrow> sp_copy mainTerm sp1;
     k1 \<leftarrow> new_process mem stdio arg1 arg2 (k\<lparr>k_elf := m1, k_loaders := (k_loaders k)(ld \<mapsto> l), k_shared := sp2\<rparr>);
     (_, sp3) \<leftarrow> sp_clear arg2 (k_shared k1);
     (_, sp4) \<leftarrow> sp_clear arg1 sp3;
     (_, sp5) \<leftarrow> sp_clear loader sp4;
     (_, sp6) \<leftarrow> sp_clear mainTerm sp5;
     Some (k1\<lparr>k_shared := sp6\<rparr>)
   }"

section \<open>New threads\<close>

text \<open>The frame a new thread starts with.\<close>

definition first_frame :: "addr \<Rightarrow> size_t \<Rightarrow> addr \<Rightarrow> addr \<Rightarrow> size_t \<Rightarrow> irq_context" where
  "first_frame entryPoint stackTop arg1 arg2 tid =
     (newUserCtx new_irq_context)\<lparr>rip := entryPoint, rsp := stackTop - 8, rdi := arg1, rsi := arg2, rdx := tid\<rparr>"

abbreviation frame_of :: "addr \<Rightarrow> addr" where
  "frame_of stack \<equiv> stack + KERNEL_STACK_SIZE - IRQ_CONTEXT_SIZE"

text \<open>The process can take a thread at the address \<open>task\<close>.\<close>

definition can_add :: "addr \<Rightarrow> user_proc \<Rightarrow> addr \<Rightarrow> addr \<Rightarrow> addr \<Rightarrow> sched \<Rightarrow> bool" where
  "can_add p pr task it mem s \<longleftrightarrow> p \<noteq> 0 \<and> p_state pr = PRunning \<and> vec_inv (p_stackList pr) \<and> length (elems (p_stackList pr)) < 2 ^ 24 \<and>
     klist_inv (p_taskList pr) \<and> it \<noteq> 0 \<and> it \<notin> set (ptrs (p_taskList pr)) \<and>
     task \<noteq> 0 \<and> s_tasks s task = None \<and> mem \<noteq> 0 \<and> mem \<notin> set (ptrs (s_taskList s)) \<and> sched_inv s \<and> s_schedEnable s"

lemma addTask_ok:
  assumes pr: "k_procs k p = Some pr" and c: "can_add p pr task it mem (k_sched k)"
  shows "\<exists>v q s. addTask p task stack it mem entryPoint arg1 arg2 k = Some (s_tidCounter (k_sched k),
       k\<lparr>k_sched := s, k_contexts := (k_contexts k)(frame_of stack \<mapsto> first_frame entryPoint (stack_top (of_nat (first_free (elems (p_stackList pr))))) arg1 arg2 (s_tidCounter (k_sched k))),
         k_procs := (k_procs k)(p \<mapsto> pr\<lparr>p_stackList := v, p_taskList := q\<rparr>),
         k_userTasks := (k_userTasks k)(task \<mapsto> \<lparr>ut_process = p, ut_stack = stack_top (of_nat (first_free (elems (p_stackList pr)))), ut_threadPtr = 0,
           ut_fpuContext = replicate 512 0\<rparr>)\<rparr>) \<and>
     vec_inv v \<and> elems v = (if first_free (elems (p_stackList pr)) < length (elems (p_stackList pr))
       then (elems (p_stackList pr))[first_free (elems (p_stackList pr)) := True] else elems (p_stackList pr) @ [True]) \<and>
     klist_inv q \<and> contents q = contents (p_taskList pr) @ [task] \<and> sched_inv s \<and> run_queue s = run_queue (k_sched k) @ [task] \<and> ready s task \<and>
     map_option m_context (s_tasks s task) = Some (frame_of stack) \<and> map_option m_addrSpace (s_tasks s task) = Some (p_addrSpace pr) \<and>
     (\<forall>x. x \<noteq> task \<longrightarrow> s_tasks s x = s_tasks (k_sched k) x) \<and> s_currentTask s = current k"
proof -
  note C = c [unfolded can_add_def]
  let ?tid = "s_tidCounter (k_sched k)" and ?top = "stack_top (of_nat (first_free (elems (p_stackList pr))))"
  define s1 where "s1 = new_task IRQ_CONTEXT_SIZE task (p_addrSpace pr) True stack (k_sched k)"
  define nt where "nt = \<lparr>m_tid = ?tid, m_state = RUNNING, m_addrSpace = p_addrSpace pr, m_wakeUpAt = - 1,
      m_kernelStackTop = stack + KERNEL_STACK_SIZE, m_context = frame_of stack, t_isUserTask = True\<rparr>"
  have t1: "s_tasks s1 = (s_tasks (k_sched k))(task \<mapsto> nt)" "s_taskList s1 = s_taskList (k_sched k)" "s_schedEnable s1" "s_currentTask s1 = current k"
    using C by (simp_all add: s1_def nt_def new_task_def getNewTid_def atomic_add_def Let_def)
  have nq: "task \<notin> set (run_queue (k_sched k))" using C by (auto simp: sched_inv_def)
  have i1: "sched_inv s1" "run_queue s1 = run_queue (k_sched k)" using C t1 by (auto simp: sched_inv_def run_queue_def)
  from allocStack_ok [of "p_stackList pr"] C obtain v where
    v: "allocStack (p_stackList pr) = Some (?top, v)" "vec_inv v"
      "elems v = (if first_free (elems (p_stackList pr)) < length (elems (p_stackList pr))
       then (elems (p_stackList pr))[first_free (elems (p_stackList pr)) := True] else elems (p_stackList pr) @ [True])" by auto
  from push_back_abs [of "p_taskList pr" it task] C obtain q where
    q: "push_back task it (p_taskList pr) = Some q" "klist_inv q" "contents q = contents (p_taskList pr) @ [task]" by auto
  have nt: "s_tasks s1 task = Some nt" "m_state nt = RUNNING" by (simp_all add: t1(1) nt_def)
  from insertTask_ok [OF i1(1) t1(3) nt(1) _ nt(2)] nq i1(2) t1(2) C obtain s where
    s: "insertTask task mem s1 = Some s" "sched_inv s" "run_queue s = run_queue (k_sched k) @ [task]" "s_tasks s = s_tasks s1" by auto
  have "addTask p task stack it mem entryPoint arg1 arg2 k = Some (?tid,
       k\<lparr>k_sched := s, k_contexts := (k_contexts k)(frame_of stack \<mapsto> first_frame entryPoint ?top arg1 arg2 ?tid),
         k_procs := (k_procs k)(p \<mapsto> pr\<lparr>p_stackList := v, p_taskList := q\<rparr>),
         k_userTasks := (k_userTasks k)(task \<mapsto> \<lparr>ut_process = p, ut_stack = ?top, ut_threadPtr = 0, ut_fpuContext = replicate 512 0\<rparr>)\<rparr>)"
    using pr C v(1) q(1) s(1,4) nt(1)
    by (simp add: addTask_def new_user_task_def start_task_def s1_def [symmetric] first_frame_def) (simp add: nt_def)
  moreover have "s_currentTask s = current k" using s(1) t1(4) by (auto simp: insertTask_def split: bind_splits)
  moreover have "ready s task" using s(4) nt by (simp add: ready_def schedulable_def Let_def)
  ultimately show ?thesis using v(2,3) q(2,3) s(2-4) t1(1)
    by (intro exI [of _ v] exI [of _ q] exI [of _ s]) (simp add: nt_def)
qed

section \<open>New processes\<close>

text \<open>Inserting an entry into a map uses no address but the new one.\<close>

lemma modify_None: "modify h p f = Some h' \<Longrightarrow> h a = None \<Longrightarrow> h' a = None"
  by (auto simp: modify_def deref_def split: option.splits if_splits)

lemma insert_entry_dom:
  assumes "insert_entry self root par h = Some r" and "h a = None"
  shows "snd r a = None"
proof -
  have "h a = None \<longrightarrow> snd r a = None"
  proof (rule insert_entry.raw_induct [OF _ assms(1), of "\<lambda>self root par h r. h a = None \<longrightarrow> snd r a = None"])
    fix f :: "addr \<Rightarrow> addr \<Rightarrow> addr \<Rightarrow> ('a, 'b) entries \<Rightarrow> (addr \<times> ('a, 'b) entries) option" and self root par h r
    assume IH: "\<And>self root par h r. f self root par h = Some r \<Longrightarrow> h a = None \<longrightarrow> snd r a = None"
    assume "(if root = 0 then do { h1 \<leftarrow> modify h self (m_parent_update (\<lambda>_. par)); Some (self, h1) }
      else do {
        r \<leftarrow> deref h root;
        e \<leftarrow> deref h self;
        if m_key e < m_key r then do {
          (p, h1) \<leftarrow> f self (m_left r) root h;
          h2 \<leftarrow> modify h1 root (m_left_update (\<lambda>_. p));
          Some (root, h2)
        }
        else do {
          (p, h1) \<leftarrow> f self (m_right r) root h;
          h2 \<leftarrow> modify h1 root (m_right_update (\<lambda>_. p));
          Some (root, h2)
        }
      }) = Some r"
    then show "h a = None \<longrightarrow> snd r a = None"
      using IH by (fastforce split: if_splits bind_splits dest: modify_None)
  qed
  with assms(2) show ?thesis by blast
qed

lemma insertOpenFile_dom:
  assumes "insertOpenFile new fd fdNum (m, h) = Some (n, m', h')" and "snd m a = None" and "a \<noteq> new"
  shows "snd m' a = None"
proof -
  obtain p m1 fd1 where s: "map_subscript new fd_null n m = Some (p, m1)" "modify (snd m1) p (m_value_update (\<lambda>_. fd1)) = Some (snd m')"
    using assms(1) by (auto simp: insertOpenFile_def split: bind_splits)
  then have "snd m1 a = None"
    using assms(2,3) by (auto simp: map_subscript_def Let_def split: bind_splits if_splits dest: insert_entry_dom [of _ _ _ _ _ a])
  with s(2) show ?thesis by (auto dest: modify_None)
qed

lemma new_addr_space_ok:
  assumes ok: "spaces_ok vm R lev" and z: "0 < zeros (m_pagemap (v_pages vm))"
  shows "\<exists>n vm'. new_addr_space init kp vm = Some (n, vm') \<and> n \<notin> R \<and> spaces_ok vm' (insert n R) (lev(n := 4)) \<and>
     same_views R (v_mem vm) (v_mem vm') \<and> (\<forall>q. length q = 4 \<longrightarrow> upath q \<longrightarrow> view (v_mem vm') n q = None)"
proof -
  let ?T = "unat (m_totalPages (v_pages vm))" and ?m = "v_mem vm"
  note okd = spaces_okD [OF ok]
  obtain n pm where al: "alloc False (v_pages vm) = Some (n, pm)" using alloc_zeros [OF okd(1,2) z] by blast
  have a1: "unat n < ?T" "refs (v_pages vm) n = 0" "pm_inv pm" "unlocked pm" "pm = set_refs (unat n) 1 (v_pages vm)"
    using alloc_correct [OF okd(1) _ al] okd(2) by auto
  have T: "m_totalPages pm = m_totalPages (v_pages vm)" by (simp add: a1(5) set_refs_def)
  have r1: "refs pm n = 1" "\<And>q. q \<noteq> n \<Longrightarrow> refs pm q = refs (v_pages vm) q" using alloc_frame [OF okd(1) _ al] okd(2) by auto
  have fresh: "a \<noteq> n" if "s \<in> R" "upath q" "length q \<le> 4" "node ?m s q = Some a" for s q a
    using okd(4) [OF that(1,3,2,4)] a1(1,2) by (auto split: if_splits)
  define vm' where "vm' = updateKernelMappings init kp n \<lparr>v_pages = pm, v_mem = clear_frame n ?m\<rparr>"
  note v = new_space_mem [OF vm'_def]
  have cl: "new_addr_space init kp vm = Some (n, vm')" using al by (simp add: new_addr_space_def vm'_def)
  have N1: "node (v_mem vm') s q = node ?m s q" if "s \<in> R" "upath q" "length q \<le> 4" for s q
  proof (rule node_hop_cong)
    fix q' j a assume q: "\<exists>s. q = q' @ j # s" "node ?m s q' = Some a"
    then have "upath q'" "length q' \<le> 4" using that(2,3) upath_append by auto
    then show "hop (v_mem vm') a j = hop ?m a j" using v(2) fresh [OF that(1) _ _ q(2)] by (simp add: hop_def)
  qed
  have N2: "node (v_mem vm') n q = None" if "q \<noteq> []" "upath q" for q
    using that v(3) by (cases q) (auto simp: upath_def pte_zero_def hop_Cons hop_def)
  have data: "v_mem vm' a = ?m a" if "node ?m s q = Some a" "s \<in> R" "upath q" "length q = 4" for s q a
    using v(2) [of a] fresh [OF that(2,3) _ that(1)] that(4) by auto
  have sv: "same_views R ?m (v_mem vm')"
    unfolding same_views_def view_def
  proof (intro ballI allI impI)
    fix s q assume s: "s \<in> R" "length q = 4" "upath q"
    show "map_option (\<lambda>a. map (v_mem vm' a) [0..<512]) (node (v_mem vm') s q) = map_option (\<lambda>a. map (?m a) [0..<512]) (node ?m s q)"
      using N1 [OF s(1,3)] data [OF _ s(1,3,2)] s(2) by (cases "node ?m s q") simp_all
  qed
  have nR: "n \<notin> R" using fresh [of _ "[]"] by auto
  have "spaces_ok vm' (insert n R) (lev(n := 4))"
    unfolding spaces_ok_def
  proof (intro conjI allI impI)
    fix s p a assume s: "s \<in> insert n R" "length p \<le> 4" "upath p" "node (v_mem vm') s p = Some a"
    have "(p = [] \<and> a = n) \<or> (\<exists>s' \<in> R. node ?m s' p = Some a)"
      using s N1 N2 [of p] by (cases "s \<in> R"; cases "p = []") auto
    then have "(lev(n := 4)) a = 4 - length p \<and> (if unat a < unat (m_totalPages (v_pages vm')) then refs (v_pages vm') a \<noteq> 0 else length p = 4)"
    proof (elim disjE conjE bexE)
      fix s' assume h: "s' \<in> R" "node ?m s' p = Some a"
      show ?thesis using okd(4) [OF h(1) s(2,3) h(2)] fresh [OF h(1) s(3,2) h(2)] r1 v(1) T by (auto split: if_splits)
    qed (use a1(1) r1 v(1) T in simp)
    then show "(lev(n := 4)) a = 4 - length p" "if unat a < unat (m_totalPages (v_pages vm')) then refs (v_pages vm') a \<noteq> 0 else length p = 4"
      by blast+
  qed (use a1(3,4) v(1) T okd(3) in auto)
  moreover have "view (v_mem vm') n q = None" if "length q = 4" "upath q" for q using N2 [OF _ that(2)] that(1) by (cases q) (auto simp: view_def)
  ultimately show ?thesis using cl nR sv by blast
qed

text \<open>The three standard descriptors.\<close>

definition stdio_fd :: "addr \<Rightarrow> file_desc" where
  "stdio_fd f = \<lparr>m_valid = True, m_write = True, m_file = f\<rparr>"

lemma insert_std:
  assumes "map_inv m" and "map_fresh new m" and "map_get m n = None" and "counted h fds" and "fd \<in> set fds" and "Suc (length fds) < 2 ^ 63"
  shows "\<exists>m' h'. insertOpenFile new fd (Some n) (m, h) = Some (n, m', h') \<and> map_inv m' \<and> map_get m' = (map_get m)(n \<mapsto> fd) \<and> counted h' (fd # fds) \<and>
     (\<forall>a. a \<noteq> new \<longrightarrow> snd m a = None \<longrightarrow> snd m' a = None)"
proof -
  have "counted h (fd_null # fds)" using assms(4,6) counted_null [of fd_null h fds] by (simp add: fd_null_def)
  from fd_assign_counted [OF this assms(5)] obtain h' where h': "fd_assign fd_null fd h = Some (fd, h')" "counted h' (fd # fds)" by blast
  with insertOpenFile_at [OF assms(1,2), of "Some n" n fd h h'] assms(3) obtain m' where
    "insertOpenFile new fd (Some n) (m, h) = Some (n, m', h')" "map_inv m'" "map_get m' = (map_get m)(n \<mapsto> fd)" by auto
  with h'(2) insertOpenFile_dom [of new fd "Some n" m h n m' h'] show ?thesis by blast
qed

lemma empty_table:
  fixes m :: "(size_t, file_desc) kmap"
  assumes "m = (0, Map.empty)"
  shows "map_inv m" and "map_get m = Map.empty"
proof -
  have r: "map_rep m Leaf" using assms by (simp add: map_rep_def)
  then show "map_inv m" by (auto simp: map_inv_def)
  show "map_get m = Map.empty" using map_get_rep [OF r] by auto
qed

lemma std_files:
  assumes "counted h fds" and "stdio \<noteq> 0" and "h stdio = Some f" and "Suc (Suc (Suc (Suc (length fds)))) < 2 ^ 63"
    and e: "es = [e0, e1, e2]" "distinct es" "0 \<notin> set es"
  shows "\<exists>fs0 m1 fs1 m2 fs2 m3 fs3. fd_new stdio True h = Some (stdio_fd stdio, fs0) \<and>
     insertOpenFile (es ! 0) (stdio_fd stdio) (Some 0) ((0, Map.empty), fs0) = Some (0, m1, fs1) \<and>
     insertOpenFile (es ! 1) (stdio_fd stdio) (Some 1) (m1, fs1) = Some (1, m2, fs2) \<and>
     insertOpenFile (es ! 2) (stdio_fd stdio) (Some 2) (m2, fs2) = Some (2, m3, fs3) \<and>
     map_inv m3 \<and> map_get m3 = [0 \<mapsto> stdio_fd stdio, 1 \<mapsto> stdio_fd stdio, 2 \<mapsto> stdio_fd stdio] \<and> counted fs3 (replicate 4 (stdio_fd stdio) @ fds)"
proof -
  let ?fd = "stdio_fd stdio"
  from counted_add [OF assms(1,3,2), of ?fd] assms(4) obtain fs0 where
    f0: "file_addRef stdio h = Some fs0" "counted fs0 (?fd # fds)" by (auto simp: stdio_fd_def)
  then have n: "fd_new stdio True h = Some (?fd, fs0)" using assms(2) by (simp add: fd_new_def stdio_fd_def)
  have d: "e0 \<noteq> 0" "e1 \<noteq> 0" "e2 \<noteq> 0" "e0 \<noteq> e1" "e0 \<noteq> e2" "e1 \<noteq> e2" using e by auto
  have fr0: "map_fresh e0 (0, Map.empty)" using d by (simp add: map_fresh_def)
  from insert_std [OF empty_table(1) [OF refl] fr0 _ f0(2), of 0 ?fd] assms(4) empty_table(2) [OF refl] obtain m1 fs1 where
    i1: "insertOpenFile e0 ?fd (Some 0) ((0, Map.empty), fs0) = Some (0, m1, fs1)" "map_inv m1" "map_get m1 = [0 \<mapsto> ?fd]" "counted fs1 (?fd # ?fd # fds)"
      "\<forall>a. a \<noteq> e0 \<longrightarrow> snd m1 a = None" by auto
  have fr1: "map_fresh e1 m1" using d i1(5) by (auto simp: map_fresh_def)
  from insert_std [OF i1(2) fr1 _ i1(4), of 1 ?fd] assms(4) i1(3) obtain m2 fs2 where
    i2: "insertOpenFile e1 ?fd (Some 1) (m1, fs1) = Some (1, m2, fs2)" "map_inv m2" "map_get m2 = [0 \<mapsto> ?fd, 1 \<mapsto> ?fd]" "counted fs2 (?fd # ?fd # ?fd # fds)"
      "\<forall>a. a \<noteq> e1 \<longrightarrow> snd m1 a = None \<longrightarrow> snd m2 a = None" by auto
  have fr2: "map_fresh e2 m2" using d i1(5) i2(5) by (auto simp: map_fresh_def)
  from insert_std [OF i2(2) fr2 _ i2(4), of 2 ?fd] assms(4) i2(3) obtain m3 fs3 where
    i3: "insertOpenFile e2 ?fd (Some 2) (m2, fs2) = Some (2, m3, fs3)" "map_inv m3" "map_get m3 = [0 \<mapsto> ?fd, 1 \<mapsto> ?fd, 2 \<mapsto> ?fd]"
      "counted fs3 (?fd # ?fd # ?fd # ?fd # fds)" by auto
  have "replicate 4 ?fd @ fds = ?fd # ?fd # ?fd # ?fd # fds" by (simp add: numeral_eq_Suc)
  with n i1(1) i2(1) i3 show ?thesis unfolding e(1)
    by (intro exI [of _ fs0] exI [of _ m1] exI [of _ fs1] exI [of _ m2] exI [of _ fs2] exI [of _ m3] exI [of _ fs3]) simp
qed

lemma sp_copy_ptr: "sp_copy p h = Some (q, h') \<Longrightarrow> h x = Some d \<Longrightarrow> \<exists>d'. h' x = Some d' \<and> m_ptr d' = m_ptr d"
  by (auto simp: sp_copy_def sp_addRef_def deref_def atomic_add_def kassert_def split: if_splits bind_splits option.splits)

text \<open>What the constructor of a process needs: memory for the new objects, a free frame, and the file behind the
  standard descriptors; and owners of the program and of the terminal, with a valid program.\<close>

definition create_room :: "proc_mem \<Rightarrow> addr \<Rightarrow> kernel \<Rightarrow> file_desc list \<Rightarrow> size_t set \<Rightarrow> (size_t \<Rightarrow> nat) \<Rightarrow> bool" where
  "create_room mem stdio k fds R lev \<longleftrightarrow> fork_fresh mem k \<and> sched_inv (k_sched k) \<and> s_schedEnable (k_sched k) \<and>
     spaces_ok (k_vm k) R lev \<and> 0 < zeros (m_pagemap (v_pages (k_vm k))) \<and>
     counted (k_files k) fds \<and> stdio \<noteq> 0 \<and> k_files k stdio \<noteq> None \<and> Suc (Suc (Suc (Suc (length fds)))) < 2 ^ 63 \<and>
     length (pm_entries mem) = 3 \<and> distinct (pm_entries mem) \<and> 0 \<notin> set (pm_entries mem)"

definition create_owners :: "addr \<Rightarrow> addr \<Rightarrow> kernel \<Rightarrow> addr list \<Rightarrow> addr \<Rightarrow> bool" where
  "create_owners loader term k owners entry \<longleftrightarrow> sp_counted (k_shared k) owners \<and> loader \<in> set owners \<and> term \<in> set owners \<and> Suc (Suc (length owners)) < 2 ^ 63 \<and>
     (\<exists>lp l. map_option m_ptr (k_shared k loader) = Some lp \<and> lp \<noteq> 0 \<and> k_loaders k lp = Some l \<and> ld_valid l \<and> entryAddr (k_elf k) l = Some entry)"

text \<open>The kernel \<open>k'\<close> is \<open>k\<close> with a new process: running, last in the list of processes, with an empty address space of its own that
  changes no other one, the three standard descriptors, and one ready thread about to enter the program at the top of the first stack.\<close>

definition new_proc_in :: "proc_mem \<Rightarrow> addr \<Rightarrow> addr \<Rightarrow> addr \<Rightarrow> addr \<Rightarrow> kernel \<Rightarrow> file_desc list \<Rightarrow> size_t set \<Rightarrow> kernel \<Rightarrow> bool" where
  "new_proc_in mem stdio loader term entry k fds R k' \<longleftrightarrow> (\<exists>pr n. k_procs k' = (k_procs k)(pm_proc mem \<mapsto> pr) \<and>
     p_pid pr = k_pidCounter k \<and> p_state pr = PRunning \<and>
     p_loader pr = loader \<and> p_term pr = term \<and> contents (k_procList k') = contents (k_procList k) @ [pm_proc mem] \<and>
     k_spaces k' (p_addrSpace pr) = Some n \<and> n \<notin> R \<and> (\<exists>lev'. spaces_ok (k_vm k') (insert n R) lev') \<and> same_views R (v_mem (k_vm k)) (v_mem (k_vm k')) \<and>
     (\<forall>q. length q = 4 \<longrightarrow> upath q \<longrightarrow> view (v_mem (k_vm k')) n q = None) \<and>
     map_inv (p_files pr) \<and> map_get (p_files pr) = [0 \<mapsto> stdio_fd stdio, 1 \<mapsto> stdio_fd stdio, 2 \<mapsto> stdio_fd stdio] \<and>
     counted (k_files k') (replicate 3 (stdio_fd stdio) @ fds) \<and>
     threads k' (pm_proc mem) = [pm_task mem] \<and> run_queue (k_sched k') = run_queue (k_sched k) @ [pm_task mem] \<and> ready (k_sched k') (pm_task mem) \<and>
     map_option m_context (s_tasks (k_sched k') (pm_task mem)) = Some (frame_of (pm_stack mem)) \<and>
     k_contexts k' (frame_of (pm_stack mem)) = Some (first_frame entry (stack_top 0) 0 0 (s_tidCounter (k_sched k))) \<and> current k' = current k)"

lemma new_process_ok:
  assumes r: "create_room mem stdio k fds R lev" and o: "create_owners loader term k owners entry"
  shows "\<exists>k'. new_process mem stdio loader term k = Some k' \<and> new_proc_in mem stdio loader term entry k fds R k' \<and>
     sp_counted (k_shared k') (term # loader # owners)"
proof -
  note C = r [unfolded create_room_def] o [unfolded create_owners_def] and F = conjunct1 [OF r [unfolded create_room_def], unfolded fork_fresh_def]
  from new_addr_space_ok [of "k_vm k" R lev True "k_kernelSpace k"] C obtain n vm where
    a: "new_addr_space True (k_kernelSpace k) (k_vm k) = Some (n, vm)" "n \<notin> R" "spaces_ok vm (insert n R) (lev(n := 4))"
      "same_views R (v_mem (k_vm k)) (v_mem vm)" "\<forall>q. length q = 4 \<longrightarrow> upath q \<longrightarrow> view (v_mem vm) n q = None" by auto
  from sp_copy_counted [of "k_shared k" owners loader] C obtain sp1 where
    s1: "sp_copy loader (k_shared k) = Some (loader, sp1)" "sp_counted sp1 (loader # owners)" by auto
  from sp_copy_counted [OF s1(2), of "term"] C obtain sp2 where
    s2: "sp_copy term sp1 = Some (term, sp2)" "sp_counted sp2 (term # loader # owners)" by auto
  from C obtain d lp l where l: "k_shared k loader = Some d" "m_ptr d = lp" "lp \<noteq> 0" "k_loaders k lp = Some l" "ld_valid l" "entryAddr (k_elf k) l = Some entry" by auto
  from sp_copy_ptr [OF s1(1) l(1)] sp_copy_ptr [OF s2(1), of loader] l(2) obtain d2 where d2: "sp2 loader = Some d2" "m_ptr d2 = lp" by metis
  have "loader \<noteq> 0" using C by (auto simp: sp_counted_def)
  with d2 l(3) have get: "sp_get loader sp2 = Some lp" by (simp add: sp_get_def)
  obtain e0 e1 e2 where e: "pm_entries mem = [e0, e1, e2]" using C by (auto simp: numeral_3_eq_3 length_Suc_conv)
  from C obtain f where "k_files k stdio = Some f" by auto
  with std_files [of "k_files k" fds stdio f "pm_entries mem" e0 e1 e2] C e obtain fs0 m1 fs1 m2 fs2 m3 fs3 where
    f: "fd_new stdio True (k_files k) = Some (stdio_fd stdio, fs0)"
     "insertOpenFile (pm_entries mem ! 0) (stdio_fd stdio) (Some 0) ((0, Map.empty), fs0) = Some (0, m1, fs1)"
     "insertOpenFile (pm_entries mem ! 1) (stdio_fd stdio) (Some 1) (m1, fs1) = Some (1, m2, fs2)"
     "insertOpenFile (pm_entries mem ! 2) (stdio_fd stdio) (Some 2) (m2, fs2) = Some (2, m3, fs3)"
     "map_inv m3" "map_get m3 = [0 \<mapsto> stdio_fd stdio, 1 \<mapsto> stdio_fd stdio, 2 \<mapsto> stdio_fd stdio]" "counted fs3 (replicate 4 (stdio_fd stdio) @ fds)" by auto
  define pr where "pr = \<lparr>p_state = PRunning, p_pid = k_pidCounter k, p_addrSpace = pm_space mem, p_loader = loader,
             p_term = term, p_taskList = (new_list, Map.empty), p_stackList = new_vector False, p_files = m3\<rparr>"
  define k1 where "k1 = k\<lparr>k_pidCounter := k_pidCounter k + 1, k_vm := vm, k_spaces := (k_spaces k)(pm_space mem \<mapsto> n), k_shared := sp2, k_files := fs3,
           k_procs := (k_procs k)(pm_proc mem \<mapsto> pr)\<rparr>"
  have k1: "k_procs k1 (pm_proc mem) = Some pr" "k_sched k1 = k_sched k" by (simp_all add: k1_def)
  have slots: "vec_inv (new_vector False)" "elems (new_vector False) = []" by (rule new_vector_ok)+
  have "can_add (pm_proc mem) pr (pm_task mem) (pm_taskItem mem) (pm_schedItem mem) (k_sched k1)"
    using F C slots by (simp add: can_add_def pr_def k1 new_list_ok)
  from addTask_ok [OF k1(1) this, of "pm_stack mem" entry 0 0] slots obtain v q s where
    t: "addTask (pm_proc mem) (pm_task mem) (pm_stack mem) (pm_taskItem mem) (pm_schedItem mem) entry 0 0 k1 = Some (s_tidCounter (k_sched k),
       k1\<lparr>k_sched := s, k_contexts := (k_contexts k1)(frame_of (pm_stack mem) \<mapsto> first_frame entry (stack_top 0) 0 0 (s_tidCounter (k_sched k))),
         k_procs := (k_procs k1)(pm_proc mem \<mapsto> pr\<lparr>p_stackList := v, p_taskList := q\<rparr>),
         k_userTasks := (k_userTasks k1)(pm_task mem \<mapsto> \<lparr>ut_process = pm_proc mem, ut_stack = stack_top 0, ut_threadPtr = 0, ut_fpuContext = replicate 512 0\<rparr>)\<rparr>)"
     "contents q = [pm_task mem]" "run_queue s = run_queue (k_sched k) @ [pm_task mem]" "ready s (pm_task mem)"
     "map_option m_context (s_tasks s (pm_task mem)) = Some (frame_of (pm_stack mem))" "s_currentTask s = current k"
    by (auto simp: k1 pr_def new_list_ok first_free_def)
  from push_back_abs [of "k_procList k" "pm_procItem mem" "pm_proc mem"] F obtain pl where
    pl: "push_back (pm_proc mem) (pm_procItem mem) (k_procList k) = Some pl" "contents pl = contents (k_procList k) @ [pm_proc mem]" by blast
  have "replicate 4 (stdio_fd stdio) @ fds = stdio_fd stdio # replicate 3 (stdio_fd stdio) @ fds" by (simp add: numeral_eq_Suc)
  with f(7) fd_destroy_counted [of fs3 "stdio_fd stdio" "replicate 3 (stdio_fd stdio) @ fds"] obtain fs4 where
    fs4: "fd_destroy (stdio_fd stdio) fs3 = Some fs4" "counted fs4 (replicate 3 (stdio_fd stdio) @ fds)" by auto
  let ?k = "k1\<lparr>k_sched := s, k_contexts := (k_contexts k1)(frame_of (pm_stack mem) \<mapsto> first_frame entry (stack_top 0) 0 0 (s_tidCounter (k_sched k))),
         k_procs := (k_procs k1)(pm_proc mem \<mapsto> pr\<lparr>p_stackList := v, p_taskList := q\<rparr>),
         k_userTasks := (k_userTasks k1)(pm_task mem \<mapsto> \<lparr>ut_process = pm_proc mem, ut_stack = stack_top 0, ut_threadPtr = 0, ut_fpuContext = replicate 512 0\<rparr>),
         k_procList := pl, k_files := fs4\<rparr>"
  have k1f: "k_procList k1 = k_procList k" "k_files k1 = fs3" by (simp_all add: k1_def)
  have "new_process mem stdio loader term k = Some ?k"
    using a(1) s1(1) s2(1) get l(3-6) f(1-4) t(1) pl(1) fs4(1)
    by (simp add: new_process_def getNewPid_def atomic_add_def onAddProcess_def k1f pr_def [symmetric] k1_def [symmetric])
  moreover have "new_proc_in mem stdio loader term entry k fds R ?k"
    unfolding new_proc_in_def using a(2-5) f(5,6) fs4(2) pl(2) t(2-6)
    by (intro exI [of _ "pr\<lparr>p_stackList := v, p_taskList := q\<rparr>"] exI [of _ n]) (auto simp: pr_def k1_def threads_def)
  moreover have "k_shared ?k = sp2" by (simp add: k1_def)
  ultimately show ?thesis using s2(2) by metis
qed

section \<open>Properties\<close>

lemma sp_new_counted:
  assumes "sp_counted h ps" and "block \<noteq> 0" and "h block = None" and "Suc (length ps) < 2 ^ 63"
  shows "sp_new block p h = (block, h(block \<mapsto> \<lparr>m_ptr = p, m_refCount = 1\<rparr>))" and "sp_counted (h(block \<mapsto> \<lparr>m_ptr = p, m_refCount = 1\<rparr>)) (block # ps)"
proof -
  have "count_list ps block = 0" using assms(1-3) by (auto simp: sp_counted_def dest: spec [of _ block])
  then show "sp_counted (h(block \<mapsto> \<lparr>m_ptr = p, m_refCount = 1\<rparr>)) (block # ps)" using assms by (simp add: sp_counted_def)
qed (simp add: sp_new_def)

text \<open>C21. Starting a thread (\<^verbatim>\<open>sys_thread_create\<close>, \<^verbatim>\<open>UserProcess::addTask\<close> and the constructor of \<^verbatim>\<open>UserTask\<close>): the call returns the id of a new thread
  that is ready and last in the run queue. Its registers are the entry point, the top of the lowest stack slot that was free, the two arguments and its id;
  the slot is taken. The other threads, their registers and the other processes are as before.\<close>

theorem thread_create_correct:
  assumes f: "faulting k p t" and c: "can_add p (parent k p) task it mem (k_sched k)" and i: "i = first_free (elems (p_stackList (parent k p)))"
  shows "\<exists>k' pr. sys_thread_create task stack it mem rt0 func arg k = Some (s_tidCounter (k_sched k), k') \<and>
     k_procs k' = (k_procs k)(p \<mapsto> pr) \<and> threads k' p = threads k p @ [task] \<and> run_queue (k_sched k') = run_queue (k_sched k) @ [task] \<and> ready (k_sched k') task \<and>
     i < length (elems (p_stackList pr)) \<and> elems (p_stackList pr) ! i \<and> (\<forall>j < length (elems (p_stackList (parent k p))). j \<noteq> i \<longrightarrow> elems (p_stackList pr) ! j = elems (p_stackList (parent k p)) ! j) \<and>
     map_option m_context (s_tasks (k_sched k') task) = Some (frame_of stack) \<and>
     k_contexts k' = (k_contexts k)(frame_of stack \<mapsto> first_frame rt0 (stack_top (of_nat i)) func arg (s_tidCounter (k_sched k))) \<and>
     (\<forall>x. x \<noteq> task \<longrightarrow> s_tasks (k_sched k') x = s_tasks (k_sched k) x) \<and> k_vm k' = k_vm k \<and> k_files k' = k_files k \<and> current k' = current k"
proof -
  have ok: "proc_ok k p" "current k \<in> set (threads k p)" "t_isUserTask (the (s_tasks (k_sched k) (current k)))" using f by (simp_all add: faulting_def)
  note cp = current_process_ok [OF ok]
  then obtain pr where pr: "k_procs k p = Some pr" by blast
  with c i have c': "can_add p pr task it mem (k_sched k)" and i': "i = first_free (elems (p_stackList pr))" by simp_all
  have le: "i \<le> length (elems (p_stackList pr))" unfolding i' first_free_def by (simp add: length_takeWhile_le)
  from addTask_ok [OF pr c', of stack rt0 func arg, folded i'] obtain v q s where
    a: "addTask p task stack it mem rt0 func arg k = Some (s_tidCounter (k_sched k),
       k\<lparr>k_sched := s, k_contexts := (k_contexts k)(frame_of stack \<mapsto> first_frame rt0 (stack_top (of_nat i)) func arg (s_tidCounter (k_sched k))),
         k_procs := (k_procs k)(p \<mapsto> pr\<lparr>p_stackList := v, p_taskList := q\<rparr>),
         k_userTasks := (k_userTasks k)(task \<mapsto> \<lparr>ut_process = p, ut_stack = stack_top (of_nat i), ut_threadPtr = 0, ut_fpuContext = replicate 512 0\<rparr>)\<rparr>)"
      (is "_ = Some (_, ?k)")
     "elems v = (if i < length (elems (p_stackList pr)) then (elems (p_stackList pr))[i := True] else elems (p_stackList pr) @ [True])"
     "contents q = contents (p_taskList pr) @ [task]" "run_queue s = run_queue (k_sched k) @ [task]" "ready s task"
     "map_option m_context (s_tasks s task) = Some (frame_of stack)" "\<forall>x. x \<noteq> task \<longrightarrow> s_tasks s x = s_tasks (k_sched k) x" "s_currentTask s = current k"
    by blast
  have "sys_thread_create task stack it mem rt0 func arg k = Some (s_tidCounter (k_sched k), ?k)" using cp(1) a(1) by (simp add: sys_thread_create_def)
  moreover have "i < length (elems v)" "elems v ! i" "\<forall>j < length (elems (p_stackList pr)). j \<noteq> i \<longrightarrow> elems v ! j = elems (p_stackList pr) ! j"
    using le by (auto simp: a(2) nth_append)
  ultimately show ?thesis using a(3-8) pr
    by (intro exI [of _ ?k] exI [of _ "pr\<lparr>p_stackList := v, p_taskList := q\<rparr>"]) (simp add: threads_def)
qed

text \<open>C20. Starting the first process (the end of \<^verbatim>\<open>kernel_init\<close>): when the boot loader brought a valid image for the option \<^verbatim>\<open>init\<close> and
  there is a console, the kernel gains a process that owns the program and shares the console; it has an address space of its own without
  a single page, the three standard descriptors, and one thread at the entry point of the image.\<close>

theorem start_init_correct:
  assumes img: "init_program cmdline init valueBuffer mods modules module_count (k_elf k) = Some (b, m1)"
      "new_loader m1 b = Some l" "ld_valid l" "entryAddr m1 l = Some entry"
    and r: "create_room mem stdio k fds R lev" and sp: "sp_counted (k_shared k) (mainTerm # owners)" "length owners + 6 < 2 ^ 63"
    and fresh: "ld \<noteq> 0" "block \<noteq> 0" "k_shared k block = None"
  shows "\<exists>k'. start_init cmdline init valueBuffer mods modules module_count ld block mainTerm mem stdio k = Some k' \<and>
     new_proc_in mem stdio block mainTerm entry k fds R k' \<and> sp_counted (k_shared k') (mainTerm # block # owners)"
proof -
  note n = sp_new_counted [OF sp(1) fresh(2,3), of ld]
  let ?sp = "(k_shared k)(block \<mapsto> \<lparr>m_ptr = ld, m_refCount = 1\<rparr>)"
  from sp_copy_counted [OF n(2), of block] sp(2) obtain sp1 where
    c1: "sp_copy block ?sp = Some (block, sp1)" "sp_counted sp1 (block # block # mainTerm # owners)" by auto
  from sp_copy_counted [OF c1(2), of mainTerm] sp(2) obtain sp2 where
    c2: "sp_copy mainTerm sp1 = Some (mainTerm, sp2)" "sp_counted sp2 (mainTerm # block # block # mainTerm # owners)" by auto
  from sp_copy_ptr [OF c1(1), of block] sp_copy_ptr [OF c2(1), of block] obtain d where d: "sp2 block = Some d" "m_ptr d = ld" by (metis fun_upd_same shared_ptr_data.select_convs(1))
  define k0 where "k0 = k\<lparr>k_elf := m1, k_loaders := (k_loaders k)(ld \<mapsto> l), k_shared := sp2\<rparr>"
  have "create_room mem stdio k0 fds R lev" using r by (simp add: create_room_def k0_def fork_fresh_def)
  moreover have "create_owners block mainTerm k0 (mainTerm # block # block # mainTerm # owners) entry"
    using c2(2) d img(3,4) fresh(1) sp(2) by (simp add: create_owners_def k0_def)
  ultimately obtain k1 where k1: "new_process mem stdio block mainTerm k0 = Some k1" "new_proc_in mem stdio block mainTerm entry k0 fds R k1"
    "sp_counted (k_shared k1) (mainTerm # block # mainTerm # block # block # mainTerm # owners)" using new_process_ok by blast
  from sp_clear_counted [OF k1(3)] obtain sp3 x3 where s3: "sp_clear mainTerm (k_shared k1) = Some (x3, sp3)"
    "sp_counted sp3 (block # mainTerm # block # block # mainTerm # owners)" by blast
  from sp_clear_counted [OF s3(2)] obtain sp4 x4 where s4: "sp_clear block sp3 = Some (x4, sp4)" "sp_counted sp4 (mainTerm # block # block # mainTerm # owners)" by blast
  have "sp_counted sp4 (block # mainTerm # block # mainTerm # owners)" by (rule iffD1 [OF sp_counted_perm s4(2)]) simp
  from sp_clear_counted [OF this] obtain sp5 x5 where s5: "sp_clear block sp4 = Some (x5, sp5)" "sp_counted sp5 (mainTerm # block # mainTerm # owners)" by blast
  from sp_clear_counted [OF s5(2)] obtain sp6 x6 where s6: "sp_clear mainTerm sp5 = Some (x6, sp6)" "sp_counted sp6 (block # mainTerm # owners)" by blast
  have "sp_counted sp6 (mainTerm # block # owners)" by (rule iffD1 [OF sp_counted_perm s6(2)]) simp
  moreover have "start_init cmdline init valueBuffer mods modules module_count ld block mainTerm mem stdio k = Some (k1\<lparr>k_shared := sp6\<rparr>)"
    using img(1,2) n(1) c1(1) c2(1) k1(1) s3(1) s4(1) s5(1) s6(1) sp(2) by (simp add: start_init_def k0_def [symmetric])
  moreover have "new_proc_in mem stdio block mainTerm entry k fds R (k1\<lparr>k_shared := sp6\<rparr>)"
    using k1(2) by (simp add: new_proc_in_def k0_def threads_def)
  ultimately show ?thesis by simp
qed

text \<open>Without a console the shared pointer handed to the first process is empty, and its copy constructor dereferences it: whatever the
  command line and the image are, the kernel does not get past this point.\<close>

theorem no_console_no_init: "start_init cmdline init valueBuffer mods modules module_count ld block 0 mem stdio k = None"
proof -
  have "sp_copy 0 h = None" for h by (simp add: sp_copy_def sp_addRef_def deref_def)
  then show ?thesis by (auto simp: start_init_def sp_new_def split: bind_splits)
qed

section \<open>Example\<close>

text \<open>The binary of the loader's example as the module \<^verbatim>\<open>sh\<close>, next to a command line that names it.\<close>

definition boot_elf :: mem where
  "boot_elf = (\<lambda>a. if 0x8000 \<le> a then demo_elf a else cmd_mem a)"

definition boot_modules :: "stivale_module store" where
  "boot_modules = map_option (\<lambda>md. md\<lparr>md_begin := 0x8000\<rparr>) \<circ> cmd_modules"

definition boot_mem :: proc_mem where
  "boot_mem = demo_mem\<lparr>pm_entries := [801, 802, 803]\<rparr>"

declare match_name.simps [code] next_name.simps [code] copy_value.simps [code] cmdline_loop.simps [code] strcmp.simps [code]

lemma boot_image: "(case init_program 100 200 300 boot_modules 1000 1 boot_elf of None \<Rightarrow> False | Some (b, m1) \<Rightarrow>
    (case new_loader m1 b of None \<Rightarrow> False | Some l \<Rightarrow> ld_valid l \<and> entryAddr m1 l = Some 0))"
  by code_simp

definition boot_kernel :: kernel where
  "boot_kernel = demo_kernel\<lparr>k_elf := boot_elf, k_files := [900 \<mapsto> \<lparr>m_refs = 1, f_kind = DeviceFile 0\<rparr>]\<rparr>"

lemma boot_room: "create_room boot_mem 900 boot_kernel [stdio_fd 900] {0, 5} demo_level"
proof -
  have "fork_fresh boot_mem boot_kernel" using demo_fork_fresh(1) by (simp add: fork_fresh_def boot_mem_def boot_kernel_def)
  moreover have "k_sched boot_kernel = demo_sched" "k_vm boot_kernel = demo_vm" by (simp_all add: boot_kernel_def demo_kernel_def)
  moreover have "counted (k_files boot_kernel) [stdio_fd 900]" by (simp add: counted_def boot_kernel_def stdio_fd_def)
  moreover have "s_schedEnable demo_sched" by (simp add: demo_sched_def)
  ultimately show ?thesis using demo_sched_inv demo_spaces demo_pages(4)
    by (simp add: create_room_def boot_kernel_def boot_mem_def)
qed

theorem start_init_correct_witness:
  "\<exists>k'. start_init 100 200 300 boot_modules 1000 1 690 680 620 boot_mem 900 boot_kernel = Some k' \<and>
     new_proc_in boot_mem 900 680 620 0 boot_kernel [stdio_fd 900] {0, 5} k'"
proof -
  obtain b m1 l where img: "init_program 100 200 300 boot_modules 1000 1 (k_elf boot_kernel) = Some (b, m1)" "new_loader m1 b = Some l" "ld_valid l" "entryAddr m1 l = Some 0"
    using boot_image by (auto simp: boot_kernel_def split: option.splits)
  have sp: "sp_counted (k_shared boot_kernel) [620, 600]" "k_shared boot_kernel 680 = None" by (simp_all add: boot_kernel_def demo_kernel_def sp_counted_def)
  show ?thesis using start_init_correct [OF img boot_room sp(1), of 690 680] sp(2) by auto
qed

theorem thread_create_correct_witness:
  "\<exists>k'. sys_thread_create 740 16384 760 780 5 6 7 demo_kernel = Some (4, k') \<and> threads k' 500 = threads demo_kernel 500 @ [740] \<and>
     k_contexts k' (frame_of 16384) = Some (first_frame 5 (stack_top 2) 6 7 4)"
proof -
  have k: "k_sched demo_kernel = demo_sched" "s_tidCounter demo_sched = 4" "s_tasks demo_sched 740 = None" "s_schedEnable demo_sched"
    by (simp_all add: demo_kernel_def demo_sched_def)
  have v: "vec_inv (p_stackList demo_proc)" "elems (p_stackList demo_proc) = [True, True]" "first_free [True, True] = 2" "p_state demo_proc = PRunning"
    by (simp_all add: demo_proc_def vec_inv_def elems_def first_free_def)
  have "can_add 500 (parent demo_kernel 500) 740 760 780 (k_sched demo_kernel)"
    unfolding can_add_def demo_parent k v demo_threads_ptrs demo_sched_ptrs using v(1) demo_threads_inv demo_sched_inv k(3,4) by simp
  from thread_create_correct [OF demo_faulting this refl, of 16384 5 6 7] show ?thesis unfolding demo_parent v k by auto
qed

end
