(* ===== verification/Console.thy ===== *)
theory Console
  imports KString
begin

text \<open>
  The text console: the C library's keyboard decoder (\<^verbatim>\<open>libc/generic/koerix/keyboard.c\<close>) and drawing routines
  (\<^verbatim>\<open>framebuffer.c\<close>), and the terminal of \<^verbatim>\<open>env/textcon.c\<close> that uses them. The keyboard device is the sequence of
  scan codes still to be read; a read from an empty one waits forever. The framebuffer is a partial map from
  addresses to pixels, a write outside of it faults; the font is in the memory of the theory \<open>Bytes\<close>. Lines,
  which the code draws with floating point numbers, are a parameter.
\<close>

section \<open>Keyboard\<close>

definition NONE :: uint8_t where "NONE = 0x80"

definition layout_base :: "uint8_t list" where
  "layout_base = [
     NONE, 0x92, NONE, 0x8e, 0x8c, 0x8a, 0x8b, 0x95, NONE, 0x93, 0x91, 0x8f, 0x8d,
     0x83, 96, NONE, NONE, 0x88, 0x86, NONE, 0x85,
     113, 49, NONE, NONE, NONE, 121, 115, 97, 119, 50, NONE,
     NONE, 99, 120, 100, 101, 52, 51, NONE, NONE, 32, 118, 102,
     116, 114, 53, NONE, NONE, 110, 98, 104, 103, 121, 54, NONE,
     NONE, NONE, 109, 106, 117, 55, 56, NONE, NONE, 44, 107, 105,
     111, 48, 57, NONE, NONE, 46, 45, 108, 59, 112, 115, NONE,
     NONE, NONE, 39, NONE, 117, 61, NONE, NONE, 0x89, 0x87,
     10, 43, NONE, 92, NONE, NONE, NONE, NONE, NONE, NONE, NONE,
     8, NONE, NONE, 49, NONE, 52, 55, NONE, NONE, NONE,
     48, 46, 50, 53, 54, 56, 0x81, 0x96, 0x94, 43, 51, 45,
     42, 57, 0x97, NONE, NONE, NONE, NONE, 0x90]"

text \<open>\<^verbatim>\<open>kbd_init\<close>, with the result of opening the device.\<close>

definition kbd_init :: "int \<Rightarrow> int \<Rightarrow> int \<times> int" where
  "kbd_init fd kbd_fd = (if fd < 0 then (fd, kbd_fd) else (0, fd))"

fun do_getchar :: "uint8_t list \<Rightarrow> (uint8_t \<times> uint8_t list) option" where
  "do_getchar [] = None"
| "do_getchar (c # input) = Some (c, input)"

text \<open>The decoder calls itself until a key has a character.\<close>

function kbd_getchar :: "uint8_t list \<Rightarrow> (uint8_t \<times> uint8_t list) option" where
  "kbd_getchar input =
     (case do_getchar input of
        None \<Rightarrow> None
      | Some (c, input1) \<Rightarrow>
          if unat c < length layout_base
          then let c1 = layout_base ! unat c in if c1 < 0x80 then Some (c1, input1) else kbd_getchar input1
          else if c = 0xf0 \<or> c = 0xe0
          then case do_getchar input1 of None \<Rightarrow> None | Some (_, input2) \<Rightarrow> kbd_getchar input2
          else Some (0, input1))"
  by pat_completeness auto
termination
  by (relation "measure length") (auto elim!: do_getchar.elims)

declare kbd_getchar.simps [simp del]

lemma kbd_getchar_Nil [simp]: "kbd_getchar [] = None"
  by (simp add: kbd_getchar.simps)

lemma kbd_getchar_Cons:
  "kbd_getchar (c # cs) =
     (if unat c < length layout_base
      then if layout_base ! unat c < 0x80 then Some (layout_base ! unat c, cs) else kbd_getchar cs
      else if c = 0xf0 \<or> c = 0xe0 then case cs of [] \<Rightarrow> None | _ # cs' \<Rightarrow> kbd_getchar cs' else Some (0, cs))"
  by (subst kbd_getchar.simps) (simp add: Let_def split: list.split)

text \<open>What the user does: pressing and releasing a key of the table, pressing one with an extended code.\<close>

datatype key_event = Press uint8_t | Release uint8_t | PressExt uint8_t | ReleaseExt uint8_t

fun scan_codes :: "key_event \<Rightarrow> uint8_t list" where
  "scan_codes (Press k) = [k]"
| "scan_codes (Release k) = [0xf0, k]"
| "scan_codes (PressExt k) = [0xe0, k]"
| "scan_codes (ReleaseExt k) = [0xe0, 0xf0, k]"

fun key_char :: "key_event \<Rightarrow> uint8_t option" where
  "key_char (Press k) = (if unat k < length layout_base \<and> layout_base ! unat k < 0x80 then Some (layout_base ! unat k) else None)"
| "key_char (ReleaseExt k) = (if unat k < length layout_base \<and> layout_base ! unat k < 0x80 then Some (layout_base ! unat k) else None)"
| "key_char e = None"

fun on_layout :: "key_event \<Rightarrow> bool" where
  "on_layout (Press k) = (unat k < length layout_base)"
| "on_layout (ReleaseExt k) = (unat k < length layout_base)"
| "on_layout e = True"

lemma length_layout: "length layout_base = 131"
  by (simp add: layout_base_def)

lemma kbd_event:
  "on_layout e \<Longrightarrow> kbd_getchar (scan_codes e @ input) = (case key_char e of Some c \<Rightarrow> Some (c, input) | None \<Rightarrow> kbd_getchar input)"
  by (cases e) (simp_all add: kbd_getchar_Cons length_layout)

text \<open>Events without a character are skipped, the first with one is the answer; that includes the release of a key
  with an extended code, whose last byte the decoder takes for a press.\<close>

lemma kbd_getchar_skip:
  "(\<And>e. e \<in> set es \<Longrightarrow> on_layout e \<and> key_char e = None) \<Longrightarrow> kbd_getchar (concat (map scan_codes es) @ input) = kbd_getchar input"
  by (induction es) (simp_all add: kbd_event)

section \<open>Framebuffer\<close>

record fb_struct =
  fb_width :: size_t
  fb_height :: size_t
  fb_pitch :: size_t
  fb_bpp :: size_t
  fb_ptr :: addr

text \<open>The header of a font, with the address it is at.\<close>

record psf_font =
  f_addr :: addr
  f_magic :: uint32_t
  f_version :: uint32_t
  f_headersize :: uint32_t
  f_flags :: uint32_t
  f_numglyph :: uint32_t
  f_bytesperglyph :: uint32_t
  f_height :: uint32_t
  f_width :: uint32_t

type_synonym pixels = "addr \<Rightarrow> uint32_t option"

text \<open>\<^verbatim>\<open>fb_init\<close>, with the answers of the system call \<^verbatim>\<open>fb_info\<close>.\<close>

definition fb_init :: "(nat \<Rightarrow> int) \<Rightarrow> fb_struct \<Rightarrow> int \<times> fb_struct" where
  "fb_init fb_info fb =
     (if fb_info 1 < 0 then (fb_info 1, fb)
      else (0, fb\<lparr>fb_ptr := word_of_int (fb_info 1), fb_width := word_of_int (fb_info 2), fb_height := word_of_int (fb_info 3),
                fb_pitch := word_of_int (fb_info 4), fb_bpp := word_of_int (fb_info 5)\<rparr>))"

definition color :: "uint32_t \<Rightarrow> uint32_t \<Rightarrow> uint32_t \<Rightarrow> uint32_t" where
  "color r g b = (b AND 0xff) OR push_bit 8 (g AND 0xff) OR push_bit 16 (r AND 0xff)"

definition COLOR_WHITE :: uint32_t where "COLOR_WHITE = color 0xff 0xff 0xff"
definition COLOR_BLACK :: uint32_t where "COLOR_BLACK = color 0 0 0"

text \<open>The macro \<^verbatim>\<open>framebuffer(x, y)\<close> as the target of an assignment.\<close>

definition pixel_addr :: "fb_struct \<Rightarrow> size_t \<Rightarrow> size_t \<Rightarrow> addr" where
  "pixel_addr fb x y = fb_ptr fb + 4 * (fb_pitch fb * y + x)"

definition set_pixel :: "fb_struct \<Rightarrow> size_t \<Rightarrow> size_t \<Rightarrow> uint32_t \<Rightarrow> pixels \<Rightarrow> pixels option" where
  "set_pixel fb x y v px = (case px (pixel_addr fb x y) of None \<Rightarrow> None | Some _ \<Rightarrow> Some (px(pixel_addr fb x y \<mapsto> v)))"

text \<open>\<^verbatim>\<open>fb_putc\<close>: the columns \<open>w - k\<close> to \<open>w - 1\<close> of a line, then the lines \<open>h - k\<close> to \<open>h - 1\<close>.\<close>

fun putc_columns :: "fb_struct \<Rightarrow> size_t \<Rightarrow> size_t \<Rightarrow> uint8_t \<Rightarrow> uint32_t \<Rightarrow> uint32_t \<Rightarrow> nat \<Rightarrow> nat \<Rightarrow> pixels \<Rightarrow> pixels option" where
  "putc_columns fb x y glyph_word fg bg w 0 px = Some px"
| "putc_columns fb x y glyph_word fg bg w (Suc k) px = do {
     let j = w - Suc k;
     px1 \<leftarrow> set_pixel fb (x + of_nat j) y (if bit glyph_word (w - j - 1) then fg else bg) px;
     putc_columns fb x y glyph_word fg bg w k px1
   }"

fun putc_lines :: "mem \<Rightarrow> fb_struct \<Rightarrow> size_t \<Rightarrow> size_t \<Rightarrow> addr \<Rightarrow> size_t \<Rightarrow> uint32_t \<Rightarrow> uint32_t \<Rightarrow> nat \<Rightarrow> nat \<Rightarrow> nat \<Rightarrow> pixels \<Rightarrow> pixels option" where
  "putc_lines m fb x y glyph bytes_per_line fg bg w h 0 px = Some px"
| "putc_lines m fb x y glyph bytes_per_line fg bg w h (Suc k) px = do {
     let i = h - Suc k;
     glyph_word \<leftarrow> load m glyph;
     px1 \<leftarrow> putc_columns fb x (y + of_nat i) glyph_word fg bg w w px;
     putc_lines m fb x y (glyph + bytes_per_line) bytes_per_line fg bg w h k px1
   }"

definition bytes_per_line :: "psf_font \<Rightarrow> size_t" where
  "bytes_per_line font = ucast ((f_width font + 7) div 8)"

text \<open>A \<^verbatim>\<open>char\<close> is signed and compared as an unsigned number.\<close>

definition glyph_addr :: "psf_font \<Rightarrow> uint8_t \<Rightarrow> addr" where
  "glyph_addr font c =
     (let index = (if (scast c :: uint32_t) < f_numglyph font then scast c else 0 :: size_t)
      in f_addr font + ucast (f_headersize font) + index * ucast (f_bytesperglyph font))"

definition fb_putc :: "mem \<Rightarrow> psf_font \<Rightarrow> fb_struct \<Rightarrow> size_t \<Rightarrow> size_t \<Rightarrow> uint8_t \<Rightarrow> uint32_t \<Rightarrow> uint32_t \<Rightarrow> pixels \<Rightarrow> pixels option" where
  "fb_putc m font fb x y c fg_color bg_color px =
     putc_lines m fb x y (glyph_addr font c) (bytes_per_line font) fg_color bg_color
       (unat (f_width font)) (unat (f_height font)) (unat (f_height font)) px"

text \<open>\<^verbatim>\<open>fb_draw_rect\<close>; \<open>draw_line\<close> is \<^verbatim>\<open>fb_draw_line\<close>.\<close>

lemma unat_Suc_less: "j < je \<Longrightarrow> unat (j + 1) = Suc (unat j)"
  for j je :: "'a::len word"
  using unat_less_pow [of je] by (simp add: word_less_nat_alt unat_word_ariths mod_less [OF le_less_trans [of "Suc (unat j)" "unat je"]])

function rect_column :: "fb_struct \<Rightarrow> uint32_t \<Rightarrow> size_t \<Rightarrow> size_t \<Rightarrow> size_t \<Rightarrow> pixels \<Rightarrow> pixels option" where
  "rect_column fb col i j je px =
     (if j < je then set_pixel fb i j col px \<bind> rect_column fb col i (j + 1) je else Some px)"
  by pat_completeness auto
termination
  by (relation "measure (\<lambda>(_, _, _, j, je, _). unat je - unat j)") (auto simp: unat_Suc_less word_less_nat_alt intro!: diff_less_mono2)

function rect_columns :: "fb_struct \<Rightarrow> uint32_t \<Rightarrow> size_t \<Rightarrow> size_t \<Rightarrow> size_t \<Rightarrow> size_t \<Rightarrow> pixels \<Rightarrow> pixels option" where
  "rect_columns fb col i ie y je px =
     (if i < ie then rect_column fb col i y je px \<bind> rect_columns fb col (i + 1) ie y je else Some px)"
  by pat_completeness auto
termination
  by (relation "measure (\<lambda>(_, _, i, ie, _). unat ie - unat i)") (auto simp: unat_Suc_less word_less_nat_alt intro!: diff_less_mono2)

declare rect_column.simps [simp del] rect_columns.simps [simp del]

definition fb_draw_rect ::
  "(size_t \<Rightarrow> uint32_t \<Rightarrow> size_t \<Rightarrow> size_t \<Rightarrow> size_t \<Rightarrow> size_t \<Rightarrow> pixels \<Rightarrow> pixels option) \<Rightarrow> fb_struct \<Rightarrow>
   size_t \<Rightarrow> uint32_t \<Rightarrow> size_t \<Rightarrow> size_t \<Rightarrow> size_t \<Rightarrow> size_t \<Rightarrow> bool \<Rightarrow> pixels \<Rightarrow> pixels option" where
  "fb_draw_rect draw_line fb stroke col x y width height fill px =
     (if fill then rect_columns fb col x (x + width) y (y + height) px
      else do {
        px1 \<leftarrow> draw_line stroke col x y (x + width) y px;
        px2 \<leftarrow> draw_line stroke col (x + width) y (x + width) (y + height) px1;
        px3 \<leftarrow> draw_line stroke col x (y + height) (x + width) (y + height) px2;
        draw_line stroke col x y x (y + height) px3
      })"

section \<open>Terminal\<close>

record terminal =
  pos_x :: size_t
  pos_y :: size_t
  term_pixels :: pixels

definition term_putc :: "mem \<Rightarrow> psf_font \<Rightarrow> fb_struct \<Rightarrow> size_t \<Rightarrow> uint8_t \<Rightarrow> terminal \<Rightarrow> terminal option" where
  "term_putc m font fb term_width c t =
     (if c = 0x0a \<or> c = 0x0d then Some (t\<lparr>pos_x := 0, pos_y := pos_y t + 1\<rparr>)
      else do {
        let (px, c1) = (if c = 0x08 then (pos_x t - 1, 0x20) else (pos_x t, c));
        px' \<leftarrow> fb_putc m font fb (px * ucast (f_width font)) (pos_y t * ucast (f_height font)) c1 COLOR_WHITE COLOR_BLACK (term_pixels t);
        let px1 = px + 1;
        Some (if px1 = term_width then t\<lparr>pos_x := 0, pos_y := pos_y t + 1, term_pixels := px'\<rparr>
              else t\<lparr>pos_x := px1, term_pixels := px'\<rparr>)
      })"

fun term_puts :: "mem \<Rightarrow> psf_font \<Rightarrow> fb_struct \<Rightarrow> size_t \<Rightarrow> uint8_t list \<Rightarrow> terminal \<Rightarrow> terminal option" where
  "term_puts m font fb term_width [] t = Some t"
| "term_puts m font fb term_width (c # cs) t = term_putc m font fb term_width c t \<bind> term_puts m font fb term_width cs"

text \<open>\<^verbatim>\<open>drawText\<close>, on the characters of the string.\<close>

fun drawText :: "mem \<Rightarrow> psf_font \<Rightarrow> fb_struct \<Rightarrow> size_t \<Rightarrow> size_t \<Rightarrow> size_t \<Rightarrow> uint8_t list \<Rightarrow> uint32_t \<Rightarrow> uint32_t \<Rightarrow> pixels \<Rightarrow> pixels option" where
  "drawText m font fb x y x_offset [] fg bg px = Some px"
| "drawText m font fb x y x_offset (c # cs) fg bg px = do {
     px1 \<leftarrow> fb_putc m font fb (x + x_offset) y c fg bg px;
     drawText m font fb x y (x_offset + ucast (f_width font)) cs fg bg px1
   }"

section \<open>Drawing on the screen\<close>

text \<open>The pixel at column \<open>X\<close> of line \<open>Y\<close>, and a screen all of whose pixels can be written.\<close>

definition paddr :: "fb_struct \<Rightarrow> nat \<times> nat \<Rightarrow> addr" where
  "paddr fb p = pixel_addr fb (of_nat (fst p)) (of_nat (snd p))"

definition on_screen :: "fb_struct \<Rightarrow> (nat \<times> nat) set" where
  "on_screen fb = {..<unat (fb_width fb)} \<times> {..<unat (fb_height fb)}"

definition wf_fb :: "fb_struct \<Rightarrow> bool" where
  "wf_fb fb \<longleftrightarrow> unat (fb_width fb) \<le> unat (fb_pitch fb) \<and> unat (fb_ptr fb) + 4 * (unat (fb_pitch fb) * unat (fb_height fb)) \<le> 2 ^ 64"

definition screen :: "fb_struct \<Rightarrow> pixels \<Rightarrow> bool" where
  "screen fb px \<longleftrightarrow> wf_fb fb \<and> (\<forall>p\<in>on_screen fb. px (paddr fb p) \<noteq> None)"

definition drawn :: "fb_struct \<Rightarrow> (nat \<times> nat) set \<Rightarrow> (nat \<times> nat \<Rightarrow> uint32_t) \<Rightarrow> pixels \<Rightarrow> pixels \<Rightarrow> bool" where
  "drawn fb A f px px' \<longleftrightarrow> (\<forall>p\<in>A. px' (paddr fb p) = Some (f p)) \<and> (\<forall>a. a \<notin> paddr fb ` A \<longrightarrow> px' a = px a)"

lemma unat_paddr:
  assumes "wf_fb fb" and "p \<in> on_screen fb"
  shows "unat (paddr fb p) = unat (fb_ptr fb) + 4 * (unat (fb_pitch fb) * snd p + fst p)"
proof -
  let ?n = "unat (fb_pitch fb) * snd p + fst p"
  have p: "fst p < unat (fb_width fb)" "snd p < unat (fb_height fb)" using assms(2) by (auto simp: on_screen_def)
  have "?n < unat (fb_pitch fb) * Suc (snd p)" using p(1) assms(1) by (simp add: wf_fb_def)
  also have "\<dots> \<le> unat (fb_pitch fb) * unat (fb_height fb)" using p(2) by (intro mult_le_mono2) simp
  finally have n: "unat (fb_ptr fb) + 4 * ?n < 2 ^ 64" using assms(1) by (simp add: wf_fb_def)
  have "paddr fb p = of_nat (unat (fb_ptr fb) + 4 * ?n)" by (simp add: paddr_def pixel_addr_def)
  also have "unat \<dots> = unat (fb_ptr fb) + 4 * ?n" using n by (intro unat_of_nat_small) simp
  finally show ?thesis .
qed

lemma paddr_inj:
  assumes "wf_fb fb"
  shows "inj_on (paddr fb) (on_screen fb)"
proof (rule inj_onI)
  fix p q assume p: "p \<in> on_screen fb" and q: "q \<in> on_screen fb" and "paddr fb p = paddr fb q"
  then have "unat (paddr fb p) = unat (paddr fb q)" by simp
  then have e: "unat (fb_pitch fb) * snd p + fst p = unat (fb_pitch fb) * snd q + fst q"
    unfolding unat_paddr [OF assms p] unat_paddr [OF assms q] by simp
  have l: "fst p < unat (fb_pitch fb)" "fst q < unat (fb_pitch fb)" using p q assms by (auto simp: on_screen_def wf_fb_def)
  have "snd p = snd q" using arg_cong [OF e, of "\<lambda>n. n div unat (fb_pitch fb)"] l by simp
  with e show "p = q" by (simp add: prod_eq_iff)
qed

lemma screen_drawn: "screen fb px \<Longrightarrow> drawn fb A f px px' \<Longrightarrow> screen fb px'"
  unfolding screen_def drawn_def by (metis image_iff option.distinct(1))

lemma drawn_nil: "drawn fb {} f px px"
  by (simp add: drawn_def)

lemma set_pixel_ok:
  assumes "screen fb px" and "p \<in> on_screen fb"
  shows "\<exists>px'. set_pixel fb (of_nat (fst p)) (of_nat (snd p)) v px = Some px' \<and> drawn fb {p} (\<lambda>_. v) px px'"
  using assms by (auto simp: set_pixel_def screen_def drawn_def paddr_def)

text \<open>Drawing two parts one after the other.\<close>

lemma drawn_un:
  assumes "screen fb px" and "A \<union> B \<subseteq> on_screen fb" and "drawn fb A f px px1" and "drawn fb B f px1 px2"
  shows "drawn fb (A \<union> B) f px px2"
proof -
  have "px2 (paddr fb p) = Some (f p)" if "p \<in> A" "p \<notin> B" for p
  proof -
    have "paddr fb p \<notin> paddr fb ` B"
      using that assms(1,2) inj_on_image_mem_iff [OF paddr_inj, of fb p B] by (auto simp: screen_def)
    with assms(3,4) that show ?thesis by (simp add: drawn_def)
  qed
  moreover have "px2 a = px a" if "a \<notin> paddr fb ` (A \<union> B)" for a
    using that assms(3,4) by (simp add: drawn_def image_Un)
  ultimately show ?thesis using assms(4) by (auto simp: drawn_def)
qed

lemma drawn_cong: "(\<And>p. p \<in> A \<Longrightarrow> f p = g p) \<Longrightarrow> drawn fb A f px px' = drawn fb A g px px'"
  by (simp add: drawn_def)

lemma box_on_screen:
  "X + w \<le> unat (fb_width fb) \<Longrightarrow> Y + h \<le> unat (fb_height fb) \<Longrightarrow> {X..<X + w} \<times> {Y..<Y + h} \<subseteq> on_screen fb"
  by (auto simp: on_screen_def)

definition glyph_pixel :: "(nat \<Rightarrow> uint8_t) \<Rightarrow> nat \<Rightarrow> nat \<Rightarrow> nat \<Rightarrow> uint32_t \<Rightarrow> uint32_t \<Rightarrow> nat \<times> nat \<Rightarrow> uint32_t" where
  "glyph_pixel G w X Y fg bg p = (if bit (G (snd p - Y)) (w - (fst p - X) - 1) then fg else bg)"

lemma putc_columns_ok:
  assumes "screen fb px" and "X + w \<le> unat (fb_width fb)" and "Y < unat (fb_height fb)" and "k \<le> w"
  shows "\<exists>px'. putc_columns fb (of_nat X) (of_nat Y) g fg bg w k px = Some px' \<and>
     drawn fb ({X + (w - k)..<X + w} \<times> {Y}) (glyph_pixel (\<lambda>_. g) w X Y fg bg) px px'"
  using assms(1,4)
proof (induction k arbitrary: px)
  case 0
  then show ?case by (auto simp: drawn_nil)
next
  case (Suc k)
  let ?j = "w - Suc k" and ?f = "glyph_pixel (\<lambda>_. g) w X Y fg bg"
  let ?p = "(X + ?j, Y)"
  have p: "?p \<in> on_screen fb" using Suc.prems(2) assms(2,3) by (auto simp: on_screen_def)
  from set_pixel_ok [OF Suc.prems(1) p, of "?f ?p"] obtain px1 where
    px1: "set_pixel fb (of_nat (X + ?j)) (of_nat Y) (?f ?p) px = Some px1" "drawn fb {?p} (\<lambda>_. ?f ?p) px px1" by auto
  from px1(2) have d1: "drawn fb {?p} ?f px px1" by (rule drawn_cong [THEN iffD1, rotated]) simp
  from Suc.IH [OF screen_drawn [OF Suc.prems(1) d1]] Suc.prems(2) obtain px' where
    px': "putc_columns fb (of_nat X) (of_nat Y) g fg bg w k px1 = Some px'" "drawn fb ({X + (w - k)..<X + w} \<times> {Y}) ?f px1 px'" by auto
  have s: "{?p} \<union> {X + (w - k)..<X + w} \<times> {Y} = {X + ?j..<X + w} \<times> {Y}" using Suc.prems(2) by auto
  have "{X + ?j..<X + w} \<times> {Y} \<subseteq> on_screen fb" using assms(2,3) by (auto simp: on_screen_def)
  from drawn_un [OF Suc.prems(1) _ d1 px'(2), unfolded s, OF this]
  have "drawn fb ({X + ?j..<X + w} \<times> {Y}) ?f px px'" .
  moreover have "?f ?p = (if bit g (w - ?j - 1) then fg else bg)" by (simp add: glyph_pixel_def)
  ultimately show ?case using px1(1) px'(1) by (auto simp: Let_def)
qed

lemma putc_lines_ok:
  assumes "screen fb px" and "X + w \<le> unat (fb_width fb)" and "Y + h \<le> unat (fb_height fb)" and "k \<le> h"
    and G: "\<And>i. i < h \<Longrightarrow> m (glyph + of_nat i * bpl) = Some (G i)"
  shows "\<exists>px'. putc_lines m fb (of_nat X) (of_nat Y) (glyph + of_nat (h - k) * bpl) bpl fg bg w h k px = Some px' \<and>
     drawn fb ({X..<X + w} \<times> {Y + (h - k)..<Y + h}) (glyph_pixel G w X Y fg bg) px px'"
  using assms(1,4)
proof (induction k arbitrary: px)
  case 0
  then show ?case by (auto simp: drawn_nil)
next
  case (Suc k)
  let ?i = "h - Suc k" and ?f = "glyph_pixel G w X Y fg bg"
  have i: "?i < h" "Suc ?i = h - k" using Suc.prems(2) by auto
  from putc_columns_ok [OF Suc.prems(1) assms(2), of "Y + ?i" w "G ?i" fg bg] assms(3) i(1) obtain px1 where
    px1: "putc_columns fb (of_nat X) (of_nat (Y + ?i)) (G ?i) fg bg w w px = Some px1"
      "drawn fb ({X..<X + w} \<times> {Y + ?i}) (glyph_pixel (\<lambda>_. G ?i) w X (Y + ?i) fg bg) px px1" by auto
  from px1(2) have d1: "drawn fb ({X..<X + w} \<times> {Y + ?i}) ?f px px1"
    by (rule drawn_cong [THEN iffD1, rotated]) (auto simp: glyph_pixel_def)
  from Suc.IH [OF screen_drawn [OF Suc.prems(1) d1]] Suc.prems(2) obtain px' where
    px': "putc_lines m fb (of_nat X) (of_nat Y) (glyph + of_nat (h - k) * bpl) bpl fg bg w h k px1 = Some px'"
      "drawn fb ({X..<X + w} \<times> {Y + (h - k)..<Y + h}) ?f px1 px'" by auto
  have s: "{X..<X + w} \<times> {Y + ?i} \<union> {X..<X + w} \<times> {Y + (h - k)..<Y + h} = {X..<X + w} \<times> {Y + ?i..<Y + h}" using i by auto
  have "{X..<X + w} \<times> {Y + ?i..<Y + h} \<subseteq> on_screen fb" using assms(2,3) by (auto simp: on_screen_def)
  from drawn_un [OF Suc.prems(1) _ d1 px'(2), unfolded s, OF this]
  have "drawn fb ({X..<X + w} \<times> {Y + ?i..<Y + h}) ?f px px'" .
  moreover have "glyph + of_nat (h - k) * bpl = glyph + of_nat ?i * bpl + bpl" unfolding i(2) [symmetric] by (simp add: algebra_simps)
  ultimately show ?case using px1(1) px'(1) G [OF i(1)] by (auto simp: Let_def load_def add.assoc)
qed

text \<open>A font whose glyphs can be read; a line of a glyph is its first byte.\<close>

definition font_ok :: "mem \<Rightarrow> psf_font \<Rightarrow> bool" where
  "font_ok m font \<longleftrightarrow> 0 < unat (f_width font) \<and> unat (f_width font) \<le> 32 \<and> 0 < unat (f_height font) \<and>
     (\<forall>c i. i < unat (f_height font) \<longrightarrow> m (glyph_addr font c + of_nat i * bytes_per_line font) \<noteq> None)"

definition glyph :: "mem \<Rightarrow> psf_font \<Rightarrow> uint8_t \<Rightarrow> nat \<Rightarrow> uint8_t" where
  "glyph m font c i = the (m (glyph_addr font c + of_nat i * bytes_per_line font))"

lemma fb_putc_ok:
  assumes "font_ok m font" and "screen fb px" and "X + unat (f_width font) \<le> unat (fb_width fb)" and "Y + unat (f_height font) \<le> unat (fb_height fb)"
  shows "\<exists>px'. fb_putc m font fb (of_nat X) (of_nat Y) c fg bg px = Some px' \<and>
     drawn fb ({X..<X + unat (f_width font)} \<times> {Y..<Y + unat (f_height font)}) (glyph_pixel (glyph m font c) (unat (f_width font)) X Y fg bg) px px'"
proof -
  have "m (glyph_addr font c + of_nat i * bytes_per_line font) = Some (glyph m font c i)" if "i < unat (f_height font)" for i
    using assms(1) that by (auto simp: font_ok_def glyph_def)
  from putc_lines_ok [OF assms(2-4) order_refl, of m "glyph_addr font c", OF this, of fg bg] show ?thesis
    by (simp add: fb_putc_def)
qed

lemma drawn_frame:
  "screen fb px \<Longrightarrow> drawn fb A f px px' \<Longrightarrow> A \<subseteq> on_screen fb \<Longrightarrow> p \<in> on_screen fb \<Longrightarrow> p \<notin> A \<Longrightarrow> px' (paddr fb p) = px (paddr fb p)"
  using inj_on_image_mem_iff [OF paddr_inj, of fb p A] by (simp add: drawn_def screen_def)

lemma rect_column_ok:
  assumes "screen fb px" and "unat i < unat (fb_width fb)" and "unat je \<le> unat (fb_height fb)"
  shows "\<exists>px'. rect_column fb col i j je px = Some px' \<and> drawn fb ({unat i} \<times> {unat j..<unat je}) (\<lambda>_. col) px px'"
  using assms
proof (induction fb col i j je px rule: rect_column.induct)
  case (1 fb col i j je px)
  show ?case
  proof (cases "j < je")
    case True
    then have j: "unat j < unat je" "unat (j + 1) = Suc (unat j)" by (simp_all add: word_less_nat_alt unat_Suc_less)
    from set_pixel_ok [OF "1.prems"(1), of "(unat i, unat j)" col] "1.prems"(2,3) j(1) obtain px1 where
      px1: "set_pixel fb i j col px = Some px1" "drawn fb {(unat i, unat j)} (\<lambda>_. col) px px1" by (auto simp: on_screen_def)
    from "1.IH" [OF True px1(1) screen_drawn [OF "1.prems"(1) px1(2)] "1.prems"(2,3)] obtain px' where
      px': "rect_column fb col i (j + 1) je px1 = Some px'" "drawn fb ({unat i} \<times> {unat (j + 1)..<unat je}) (\<lambda>_. col) px1 px'" by auto
    have s: "{(unat i, unat j)} \<union> {unat i} \<times> {unat (j + 1)..<unat je} = {unat i} \<times> {unat j..<unat je}" using j by auto
    have "{unat i} \<times> {unat j..<unat je} \<subseteq> on_screen fb" using "1.prems"(2,3) by (auto simp: on_screen_def)
    from drawn_un [OF "1.prems"(1) _ px1(2) px'(2), unfolded s, OF this] px1(1) px'(1) True show ?thesis
      by (subst rect_column.simps) simp
  next
    case False
    then show ?thesis by (subst rect_column.simps) (auto simp: drawn_nil word_less_nat_alt)
  qed
qed

lemma rect_columns_ok:
  assumes "screen fb px" and "unat ie \<le> unat (fb_width fb)" and "unat je \<le> unat (fb_height fb)"
  shows "\<exists>px'. rect_columns fb col i ie y je px = Some px' \<and> drawn fb ({unat i..<unat ie} \<times> {unat y..<unat je}) (\<lambda>_. col) px px'"
  using assms
proof (induction fb col i ie y je px rule: rect_columns.induct)
  case (1 fb col i ie y je px)
  show ?case
  proof (cases "i < ie")
    case True
    then have i: "unat i < unat ie" "unat (i + 1) = Suc (unat i)" by (simp_all add: word_less_nat_alt unat_Suc_less)
    from rect_column_ok [OF "1.prems"(1) _ "1.prems"(3), of i col y] "1.prems"(2) i(1) obtain px1 where
      px1: "rect_column fb col i y je px = Some px1" "drawn fb ({unat i} \<times> {unat y..<unat je}) (\<lambda>_. col) px px1" by auto
    from "1.IH" [OF True px1(1) screen_drawn [OF "1.prems"(1) px1(2)] "1.prems"(2,3)] obtain px' where
      px': "rect_columns fb col (i + 1) ie y je px1 = Some px'" "drawn fb ({unat (i + 1)..<unat ie} \<times> {unat y..<unat je}) (\<lambda>_. col) px1 px'" by auto
    have s: "{unat i} \<times> {unat y..<unat je} \<union> {unat (i + 1)..<unat ie} \<times> {unat y..<unat je} = {unat i..<unat ie} \<times> {unat y..<unat je}"
      using i by auto
    have "{unat i..<unat ie} \<times> {unat y..<unat je} \<subseteq> on_screen fb" using "1.prems"(2,3) by (auto simp: on_screen_def)
    from drawn_un [OF "1.prems"(1) _ px1(2) px'(2), unfolded s, OF this] px1(1) px'(1) True show ?thesis
      by (subst rect_columns.simps) simp
  next
    case False
    then show ?thesis by (subst rect_columns.simps) (auto simp: drawn_nil word_less_nat_alt)
  qed
qed

section \<open>The terminal against a grid of characters\<close>

text \<open>The specification: a grid of characters and the position of the cursor, \<open>W\<close> characters to a line.\<close>

type_synonym grid = "(nat \<times> nat \<rightharpoonup> uint8_t) \<times> nat \<times> nat"

definition grid_putc :: "nat \<Rightarrow> uint8_t \<Rightarrow> grid \<Rightarrow> grid" where
  "grid_putc W c = (\<lambda>(g, x, y).
     if c = 0x0a \<or> c = 0x0d then (g, 0, Suc y)
     else if Suc x = W then (g((x, y) \<mapsto> c), 0, Suc y) else (g((x, y) \<mapsto> c), Suc x, y))"

definition grid_puts :: "nat \<Rightarrow> uint8_t list \<Rightarrow> grid \<Rightarrow> grid" where
  "grid_puts W = fold (grid_putc W)"

definition grid_row :: "grid \<Rightarrow> nat" where
  "grid_row = (\<lambda>(g, x, y). y)"

definition cell :: "psf_font \<Rightarrow> nat \<times> nat \<Rightarrow> (nat \<times> nat) set" where
  "cell font = (\<lambda>(x, y). {x * unat (f_width font)..<x * unat (f_width font) + unat (f_width font)} \<times>
     {y * unat (f_height font)..<y * unat (f_height font) + unat (f_height font)})"

definition shows_char :: "mem \<Rightarrow> psf_font \<Rightarrow> fb_struct \<Rightarrow> pixels \<Rightarrow> nat \<times> nat \<Rightarrow> uint8_t \<Rightarrow> bool" where
  "shows_char m font fb px q c \<longleftrightarrow> (\<forall>p\<in>cell font q. px (paddr fb p) =
     Some (glyph_pixel (glyph m font c) (unat (f_width font)) (fst q * unat (f_width font)) (snd q * unat (f_height font)) COLOR_WHITE COLOR_BLACK p))"

text \<open>A screen with room for \<open>W\<close> characters in each of \<open>H\<close> lines.\<close>

definition geometry :: "mem \<Rightarrow> psf_font \<Rightarrow> fb_struct \<Rightarrow> nat \<Rightarrow> nat \<Rightarrow> bool" where
  "geometry m font fb W H \<longleftrightarrow> font_ok m font \<and> 0 < W \<and> W * unat (f_width font) \<le> unat (fb_width fb) \<and> H * unat (f_height font) \<le> unat (fb_height fb)"

definition represents :: "mem \<Rightarrow> psf_font \<Rightarrow> fb_struct \<Rightarrow> nat \<Rightarrow> nat \<Rightarrow> terminal \<Rightarrow> grid \<Rightarrow> bool" where
  "represents m font fb W H t = (\<lambda>(g, x, y). screen fb (term_pixels t) \<and> pos_x t = of_nat x \<and> pos_y t = of_nat y \<and> x < W \<and>
     (\<forall>q c. g q = Some c \<longrightarrow> fst q < W \<and> snd q < H \<and> shows_char m font fb (term_pixels t) q c))"

lemma cell_inside:
  assumes "geometry m font fb W H" and "x < W" and "y < H"
  shows "x * unat (f_width font) + unat (f_width font) \<le> unat (fb_width fb)"
    and "y * unat (f_height font) + unat (f_height font) \<le> unat (fb_height fb)" and "cell font (x, y) \<subseteq> on_screen fb"
proof -
  have "Suc x * unat (f_width font) \<le> W * unat (f_width font)" "Suc y * unat (f_height font) \<le> H * unat (f_height font)"
    using assms(2,3) by (intro mult_le_mono1; simp)+
  with assms(1) show a: "x * unat (f_width font) + unat (f_width font) \<le> unat (fb_width fb)"
    and b: "y * unat (f_height font) + unat (f_height font) \<le> unat (fb_height fb)" by (auto simp: geometry_def)
  show "cell font (x, y) \<subseteq> on_screen fb" using box_on_screen [OF a b] by (simp add: cell_def)
qed

lemma div_in_box: "n * w \<le> (k::nat) \<Longrightarrow> k < n * w + w \<Longrightarrow> k div w = n"
  by (simp add: div_nat_eqI mult.commute)

lemma cell_disjoint: "p \<in> cell font q \<Longrightarrow> p \<in> cell font r \<Longrightarrow> q = r"
  by (cases q; cases r) (auto simp: cell_def dest!: div_in_box)

text \<open>Writing one character changes one cell.\<close>

lemma draw_cell:
  assumes "geometry m font fb W H" and "represents m font fb W H t (g, x', y')" and "x < W" and "y < H"
  shows "\<exists>px'. fb_putc m font fb (of_nat x * ucast (f_width font)) (of_nat y * ucast (f_height font)) c COLOR_WHITE COLOR_BLACK (term_pixels t) = Some px' \<and>
     screen fb px' \<and> (\<forall>q d. (g((x, y) \<mapsto> c)) q = Some d \<longrightarrow> fst q < W \<and> snd q < H \<and> shows_char m font fb px' q d)"
proof -
  let ?w = "unat (f_width font)" and ?h = "unat (f_height font)"
  have s: "screen fb (term_pixels t)" and r: "\<And>q d. g q = Some d \<Longrightarrow> fst q < W \<and> snd q < H \<and> shows_char m font fb (term_pixels t) q d"
    using assms(2) by (auto simp: represents_def)
  note ci = cell_inside [OF assms(1,3,4)]
  from fb_putc_ok [OF _ s ci(1,2), of m c COLOR_WHITE COLOR_BLACK] assms(1) obtain px' where
    px': "fb_putc m font fb (of_nat (x * ?w)) (of_nat (y * ?h)) c COLOR_WHITE COLOR_BLACK (term_pixels t) = Some px'"
      "drawn fb (cell font (x, y)) (glyph_pixel (glyph m font c) ?w (x * ?w) (y * ?h) COLOR_WHITE COLOR_BLACK) (term_pixels t) px'"
    by (auto simp: geometry_def cell_def)
  have new: "shows_char m font fb px' (x, y) c" using px'(2) by (simp add: shows_char_def drawn_def)
  have "shows_char m font fb px' q d" if q: "g q = Some d" "q \<noteq> (x, y)" for q d
    unfolding shows_char_def
  proof
    fix p assume p: "p \<in> cell font q"
    have "p \<in> on_screen fb" using cell_inside(3) [OF assms(1), of "fst q" "snd q"] r [OF q(1)] p by auto
    moreover have "p \<notin> cell font (x, y)" using cell_disjoint [OF p] q(2) by blast
    ultimately have "px' (paddr fb p) = term_pixels t (paddr fb p)" by (rule drawn_frame [OF s px'(2) ci(3)])
    with r [OF q(1)] p show "px' (paddr fb p) = Some (glyph_pixel (glyph m font d) ?w (fst q * ?w) (snd q * ?h) COLOR_WHITE COLOR_BLACK p)"
      by (simp add: shows_char_def)
  qed
  with new r assms(3,4) screen_drawn [OF s px'(2)] px'(1) show ?thesis by (auto split: if_splits)
qed

lemma geometry_width: "geometry m font fb W H \<Longrightarrow> W < 2 ^ 64"
proof -
  assume g: "geometry m font fb W H"
  then have "W * 1 \<le> W * unat (f_width font)" by (intro mult_le_mono2) (auto simp: geometry_def font_ok_def)
  also have "\<dots> \<le> unat (fb_width fb)" using g by (simp add: geometry_def)
  finally show ?thesis using unat_less_pow [of "fb_width fb"] by simp
qed

lemma term_putc_ok:
  assumes "geometry m font fb W H" and "represents m font fb W H t G" and "grid_row G < H" and "c \<noteq> 0x08"
  shows "\<exists>t'. term_putc m font fb (of_nat W) c t = Some t' \<and> represents m font fb W H t' (grid_putc W c G)"
proof -
  obtain g x y where G: "G = (g, x, y)" by (cases G)
  have p: "pos_x t = of_nat x" "pos_y t = of_nat y" "x < W" and y: "y < H"
    using assms(2,3) by (auto simp: G represents_def grid_row_def)
  have e: "of_nat x + 1 = (of_nat W :: size_t) \<longleftrightarrow> Suc x = W"
  proof
    assume "of_nat x + 1 = (of_nat W :: size_t)"
    then have "unat (of_nat (Suc x) :: size_t) = unat (of_nat W :: size_t)" by (simp add: add.commute)
    then show "Suc x = W" using geometry_width [OF assms(1)] p(3) by (simp add: unat_of_nat_small del: of_nat_Suc unat_of_nat)
  qed (auto simp: add.commute)
  show ?thesis
  proof (cases "c = 0x0a \<or> c = 0x0d")
    case True
    then show ?thesis using assms(1,2) p by (auto simp: term_putc_def grid_putc_def G represents_def geometry_def add.commute)
  next
    case False
    from draw_cell [OF assms(1) assms(2) [unfolded G] p(3) y, of c] obtain px' where
      px': "fb_putc m font fb (of_nat x * ucast (f_width font)) (of_nat y * ucast (f_height font)) c COLOR_WHITE COLOR_BLACK (term_pixels t) = Some px'"
        "screen fb px'" "\<forall>q d. (g((x, y) \<mapsto> c)) q = Some d \<longrightarrow> fst q < W \<and> snd q < H \<and> shows_char m font fb px' q d" by blast
    have "term_putc m font fb (of_nat W) c t =
       Some (if Suc x = W then t\<lparr>pos_x := 0, pos_y := of_nat y + 1, term_pixels := px'\<rparr> else t\<lparr>pos_x := of_nat x + 1, term_pixels := px'\<rparr>)"
      using False assms(4) px'(1) by (simp add: term_putc_def p e Let_def)
    with px'(2,3) False p show ?thesis
      by (auto simp: grid_putc_def G represents_def add.commute simp del: fun_upd_apply)
  qed
qed

lemma grid_row_mono: "grid_row G \<le> grid_row (grid_putc W c G)"
  by (cases G) (simp add: grid_row_def grid_putc_def)

lemma grid_row_puts: "grid_row G \<le> grid_row (grid_puts W cs G)"
proof (induction cs arbitrary: G)
  case (Cons c cs)
  from order_trans [OF grid_row_mono Cons.IH] show ?case by (simp add: grid_puts_def)
qed (simp add: grid_puts_def)

lemma term_puts_ok:
  assumes "geometry m font fb W H" and "represents m font fb W H t G" and "grid_row (grid_puts W cs G) < H" and "0x08 \<notin> set cs"
  shows "\<exists>t'. term_puts m font fb (of_nat W) cs t = Some t' \<and> represents m font fb W H t' (grid_puts W cs G)"
  using assms(2-)
proof (induction cs arbitrary: t G)
  case (Cons c cs)
  let ?G = "grid_putc W c G"
  have e: "grid_puts W (c # cs) G = grid_puts W cs ?G" by (simp add: grid_puts_def)
  have "grid_row G < H" using Cons.prems(2) grid_row_mono [of G W c] grid_row_puts [of ?G W cs] by (simp add: e)
  with term_putc_ok [OF assms(1) Cons.prems(1), of c] Cons.prems(3) obtain t1 where
    t1: "term_putc m font fb (of_nat W) c t = Some t1" "represents m font fb W H t1 ?G" by auto
  from Cons.IH [OF t1(2)] Cons.prems(2,3) t1(1) show ?case by (simp add: e)
qed (simp add: grid_puts_def)

section \<open>Theorems\<close>


text \<open>A backspace (\<^verbatim>\<open>term_puts\<close>) blanks the cell in front of the cursor and leaves the cursor where it was, so the next
  character does not take the place of the one erased.\<close>

theorem backspace_stays:
  assumes "geometry m font fb W H" and "represents m font fb W H t (g, Suc x, y)" and "y < H"
  shows "\<exists>t'. term_putc m font fb (of_nat W) 0x08 t = Some t' \<and> represents m font fb W H t' (g((x, y) \<mapsto> 0x20), Suc x, y)"
proof -
  have p: "pos_x t = of_nat x + 1" "pos_y t = of_nat y" "x < W" "Suc x < W" using assms(2) by (auto simp: represents_def add.commute)
  have e: "of_nat x + 1 \<noteq> (of_nat W :: size_t)"
  proof
    assume "of_nat x + 1 = (of_nat W :: size_t)"
    then have "unat (of_nat (Suc x) :: size_t) = unat (of_nat W :: size_t)" by (simp add: add.commute)
    then show False using geometry_width [OF assms(1)] p(4) by (simp add: unat_of_nat_small del: of_nat_Suc unat_of_nat)
  qed
  from draw_cell [OF assms(1,2) p(3) assms(3), of "0x20"] obtain px' where
    px': "fb_putc m font fb (of_nat x * ucast (f_width font)) (of_nat y * ucast (f_height font)) 0x20 COLOR_WHITE COLOR_BLACK (term_pixels t) = Some px'"
      "screen fb px'" "\<forall>q d. (g((x, y) \<mapsto> 0x20)) q = Some d \<longrightarrow> fst q < W \<and> snd q < H \<and> shows_char m font fb px' q d" by blast
  have "term_putc m font fb (of_nat W) 0x08 t = Some (t\<lparr>pos_x := of_nat x + 1, term_pixels := px'\<rparr>)"
    using px'(1) e by (simp add: term_putc_def p Let_def)
  with px'(2,3) p show ?thesis by (auto simp: represents_def add.commute simp del: fun_upd_apply)
qed

text \<open>A filled rectangle (\<^verbatim>\<open>fb_draw_rect\<close>) inside the screen: exactly its pixels get the colour.\<close>

theorem fb_draw_rect_correct:
  assumes "screen fb px" and "unat x + unat width \<le> unat (fb_width fb)" and "unat y + unat height \<le> unat (fb_height fb)"
  shows "\<exists>px'. fb_draw_rect draw_line fb stroke col x y width height True px = Some px' \<and>
     drawn fb ({unat x..<unat x + unat width} \<times> {unat y..<unat y + unat height}) (\<lambda>_. col) px px'"
proof -
  have "unat (x + width) = unat x + unat width" "unat (y + height) = unat y + unat height"
    using assms(2,3) unat_less_pow [of "fb_width fb"] unat_less_pow [of "fb_height fb"] by (simp_all add: unat_word_ariths)
  with rect_columns_ok [OF assms(1), of "x + width" "y + height" col x y] assms(2,3) show ?thesis by (simp add: fb_draw_rect_def)
qed

text \<open>The keyboard decoder (\<^verbatim>\<open>kbd_getchar\<close>) skips every event without a character and answers the first one that has
  one; the release of a key with an extended code counts as a press of the key with the same last byte.\<close>

theorem kbd_getchar_first:
  assumes "\<forall>e\<in>set es. on_layout e \<and> key_char e = None" and "key_char e = Some c"
  shows "kbd_getchar (concat (map scan_codes es) @ scan_codes e @ input) = Some (c, input)"
proof -
  have "on_layout e" using assms(2) by (cases e) (auto split: if_splits)
  with kbd_event [of e input] assms(2) show ?thesis by (simp add: kbd_getchar_skip [OF assms(1) [rule_format]])
qed

text \<open>Releasing the extended key with code 0x74 types what the plain key 0x74 would have typed.\<close>

theorem kbd_witness: "kbd_getchar [0xf0, 0x1c, 0xe0, 0x74, 0xe0, 0xf0, 0x74, 0x1c] = Some (56, [0x1c])"
  using kbd_getchar_first [of "[Release 0x1c, PressExt 0x74]" "ReleaseExt 0x74" 56 "[0x1c]"] by (auto simp: layout_base_def NONE_def)

text \<open>A screen of 24 by 4 pixels with a font of 8 by 2, all of whose glyphs are the same.\<close>

definition small_font :: psf_font where
  "small_font = \<lparr>f_addr = 0, f_magic = 0x864ab572, f_version = 0, f_headersize = 32, f_flags = 0, f_numglyph = 128, f_bytesperglyph = 2, f_height = 2, f_width = 8\<rparr>"

definition small_fb :: fb_struct where
  "small_fb = \<lparr>fb_width = 24, fb_height = 4, fb_pitch = 24, fb_bpp = 4, fb_ptr = 4096\<rparr>"

definition small_term :: "nat \<Rightarrow> terminal" where
  "small_term x = \<lparr>pos_x = of_nat x, pos_y = 0, term_pixels = (\<lambda>_. Some 0)\<rparr>"

lemma small_ok:
  "geometry (\<lambda>_. Some 0x81) small_font small_fb 3 2" "screen small_fb (\<lambda>_. Some 0)"
  "x < 3 \<Longrightarrow> represents (\<lambda>_. Some 0x81) small_font small_fb 3 2 (small_term x) (Map.empty, x, 0)"
  by (simp_all add: geometry_def font_ok_def small_font_def small_fb_def represents_def small_term_def screen_def wf_fb_def)


theorem backspace_witness:
  "\<exists>t'. term_putc (\<lambda>_. Some 0x81) small_font small_fb 3 0x08 (small_term 1) = Some t' \<and> pos_x t' = 1"
  using backspace_stays [OF small_ok(1) small_ok(3) [of "Suc 0"]] by (auto simp: represents_def)

theorem fb_draw_rect_witness: "\<exists>px'. fb_draw_rect (\<lambda>_ _ _ _ _ _. Some) small_fb 2 7 1 1 3 2 True (\<lambda>_. Some 0) = Some px' \<and> px' (paddr small_fb (2, 1)) = Some 7"
  using fb_draw_rect_correct [OF small_ok(2), of 1 3 1 2 "\<lambda>_ _ _ _ _ _. Some" 2 7] by (auto simp: small_fb_def drawn_def)

end
