(* ===== verification/DebugStream.thy ===== *)
theory DebugStream
  imports Drivers KString
begin

text \<open>
  The kernel's debug output: \<^verbatim>\<open>kernel/debug_stream.cpp\<close>, \<^verbatim>\<open>kernel/debug.cpp\<close> and \<^verbatim>\<open>platform/pc/drivers/qemu.cpp\<close>. A message is collected in a
  buffer of 256 bytes in the memory of the theory \<open>Bytes\<close> by the operations \<^verbatim>\<open>operator<<\<close>, and the destructor sends it to
  the second serial port and to the main terminal. The terminal's file is a parameter.
\<close>

section \<open>The stream\<close>

datatype modifier = HEX | DEC

definition DEBUG_HEX :: modifier where "DEBUG_HEX = HEX"
definition DEBUG_DEC :: modifier where "DEBUG_DEC = HEX"

definition OUTPUT_ENABLE :: uint32_t where "OUTPUT_ENABLE = push_bit 10 1"

definition BUFFER_SIZE :: size_t where "BUFFER_SIZE = 256"

record dstream =
  m_buffer :: addr
  m_destPtr :: addr
  m_currentMode :: modifier
  m_loglevel :: uint32_t

definition new_dstream :: "addr \<Rightarrow> uint32_t \<Rightarrow> mem \<Rightarrow> (dstream \<times> mem) option" where
  "new_dstream buffer loglevel m = do {
     m1 \<leftarrow> store m buffer 0;
     Some (\<lparr>m_buffer = buffer, m_destPtr = buffer, m_currentMode = DEC, m_loglevel = loglevel\<rparr>, m1)
   }"

definition put_mode :: "modifier \<Rightarrow> dstream \<Rightarrow> dstream" where
  "put_mode modif ds = ds\<lparr>m_currentMode := modif\<rparr>"

definition getBase :: "dstream \<Rightarrow> int" where
  "getBase ds = (case m_currentMode ds of HEX \<Rightarrow> 16 | DEC \<Rightarrow> 10)"

definition hex_char :: "size_t \<Rightarrow> uint8_t" where
  "hex_char nibble = (if nibble > 0xf then 42 else if nibble \<ge> 0xa then ucast (97 + nibble - 0xa) else ucast (48 + nibble))"

definition basePrefix :: "dstream \<Rightarrow> mem \<Rightarrow> (dstream \<times> mem) option" where
  "basePrefix ds m =
     (if getBase ds = 16 then do {
        m1 \<leftarrow> store m (m_destPtr ds) 48;
        m2 \<leftarrow> store m1 (m_destPtr ds + 1) 120;
        Some (ds\<lparr>m_destPtr := m_destPtr ds + 2\<rparr>, m2)
      }
      else Some (ds, m))"

definition put_str :: "addr \<Rightarrow> dstream \<Rightarrow> mem \<Rightarrow> (dstream \<times> mem) option" where
  "put_str str ds m = do {
     (_, m1) \<leftarrow> strcat (m_destPtr ds) str m;
     len \<leftarrow> strlen m1 str;
     Some (ds\<lparr>m_destPtr := m_destPtr ds + len\<rparr>, m1)
   }"

definition put_char :: "uint8_t \<Rightarrow> dstream \<Rightarrow> mem \<Rightarrow> (dstream \<times> mem) option" where
  "put_char c ds m = do {
     m1 \<leftarrow> store m (m_destPtr ds) c;
     m2 \<leftarrow> store m1 (m_destPtr ds + 1) 0;
     Some (ds\<lparr>m_destPtr := m_destPtr ds + 1\<rparr>, m2)
   }"

text \<open>The end of the numeric operations: the pointer moves to the end of the string in the buffer.\<close>

definition to_end :: "dstream \<Rightarrow> mem \<Rightarrow> (dstream \<times> mem) option" where
  "to_end ds m = do { len \<leftarrow> strlen m (m_buffer ds); Some (ds\<lparr>m_destPtr := m_buffer ds + len\<rparr>, m) }"

definition put_size :: "size_t \<Rightarrow> dstream \<Rightarrow> mem \<Rightarrow> (dstream \<times> mem) option" where
  "put_size i ds m = do {
     (ds1, m1) \<leftarrow> basePrefix ds m;
     (_, m2) \<leftarrow> ultoa i (m_destPtr ds1) (getBase ds1) m1;
     to_end ds1 m2
   }"

definition put_int32 :: "int \<Rightarrow> dstream \<Rightarrow> mem \<Rightarrow> (dstream \<times> mem) option" where
  "put_int32 i ds m = do {
     (ds1, m1) \<leftarrow> basePrefix ds m;
     (_, m2) \<leftarrow> itoa i (m_destPtr ds1) (getBase ds1) m1;
     to_end ds1 m2
   }"

definition put_uint32 :: "uint32_t \<Rightarrow> dstream \<Rightarrow> mem \<Rightarrow> (dstream \<times> mem) option" where
  "put_uint32 i ds m = do {
     (ds1, m1) \<leftarrow> basePrefix ds m;
     (_, m2) \<leftarrow> utoa i (m_destPtr ds1) (getBase ds1) m1;
     to_end ds1 m2
   }"

definition put_uint64 :: "uint64_t \<Rightarrow> dstream \<Rightarrow> mem \<Rightarrow> (dstream \<times> mem) option" where
  "put_uint64 i ds m = put_size i ds m"

text \<open>The loop of \<^verbatim>\<open>operator<<(void*)\<close>: the nibbles below \<open>n\<close>, the highest first.\<close>

fun ptr_nibbles :: "size_t \<Rightarrow> nat \<Rightarrow> addr \<Rightarrow> mem \<Rightarrow> (addr \<times> mem) option" where
  "ptr_nibbles p 0 dest m = Some (dest, m)"
| "ptr_nibbles p (Suc n) dest m = do {
     m1 \<leftarrow> store m dest (hex_char (drop_bit (n * 4) p AND 0xf));
     ptr_nibbles p n (dest + 1) m1
   }"

definition put_ptr :: "addr \<Rightarrow> dstream \<Rightarrow> mem \<Rightarrow> (dstream \<times> mem) option" where
  "put_ptr p ds m = do {
     m1 \<leftarrow> store m (m_destPtr ds) 48;
     m2 \<leftarrow> store m1 (m_destPtr ds + 1) 120;
     (dest, m3) \<leftarrow> ptr_nibbles p 16 (m_destPtr ds + 2) m2;
     m4 \<leftarrow> store m3 dest 0;
     Some (ds\<lparr>m_destPtr := dest\<rparr>, m4)
   }"

section \<open>Output\<close>

definition debug_print_init :: "'d ports \<Rightarrow> 'd \<Rightarrow> 'd" where
  "debug_print_init P d =
     (let d1 = out8 P (COM2 + 1) 0x00 d;
          d2 = out8 P (COM2 + 3) 0x80 d1;
          d3 = out8 P (COM2 + 0) 1 d2;
          d4 = out8 P (COM2 + 1) 0 d3;
          d5 = out8 P (COM2 + 3) 0x03 d4;
          d6 = out8 P (COM2 + 2) 0x67 d5
      in out8 P (COM2 + 4) 0x0f d6)"

definition debug_putchar :: "'d ports \<Rightarrow> uint8_t \<Rightarrow> 'd \<Rightarrow> 'd option" where
  "debug_putchar P c d = do { d1 \<leftarrow> tx_wait P COM2 d; Some (out8 P COM2 c d1) }"

partial_function (option) debug_print :: "'d ports \<Rightarrow> mem \<Rightarrow> addr \<Rightarrow> 'd \<Rightarrow> 'd option" where
  "debug_print P m str d = do {
     c \<leftarrow> load m str;
     if c = 0 then Some d
     else do {
       d1 \<leftarrow> (if c = 0x0a then debug_putchar P 0x0d d else Some d);
       d2 \<leftarrow> debug_putchar P c d1;
       debug_print P m (str + 1) d2
     }
   }"

text \<open>What the destructor uses: whether output is set up, the device and the main terminal, if there is one, with
  \<open>term_write\<close> its operation on a number of bytes at an address.\<close>

record ('d, 't) dbg_out =
  s_initialized :: bool
  s_port :: 'd
  s_mainTerm :: "'t option"

definition debug_flush ::
  "'d ports \<Rightarrow> (mem \<Rightarrow> addr \<Rightarrow> size_t \<Rightarrow> 't \<Rightarrow> 't option) \<Rightarrow> dstream \<Rightarrow> mem \<Rightarrow> ('d, 't) dbg_out \<Rightarrow> ('d, 't) dbg_out option" where
  "debug_flush P term_write ds m out = do {
     kassert (m_destPtr ds - m_buffer ds < BUFFER_SIZE);
     if \<not> s_initialized out then Some out
     else if m_loglevel ds AND OUTPUT_ENABLE = 0 then Some out
     else do {
       d \<leftarrow> debug_print P m (m_buffer ds) (s_port out);
       case s_mainTerm out of
         None \<Rightarrow> Some (out\<lparr>s_port := d\<rparr>)
       | Some t \<Rightarrow> do {
           len \<leftarrow> strlen m (m_buffer ds);
           t1 \<leftarrow> term_write m (m_buffer ds) len t;
           Some (out\<lparr>s_port := d, s_mainTerm := Some t1\<rparr>)
         }
     }
   }"

section \<open>Text of a message\<close>

datatype part = Text addr "uint8_t list" | Char uint8_t | Size size_t | Int32 int | UInt32 uint32_t | Ptr addr | Mode modifier

fun put_part :: "part \<Rightarrow> dstream \<times> mem \<Rightarrow> (dstream \<times> mem) option" where
  "put_part (Text p cs) (ds, m) = put_str p ds m"
| "put_part (Char c) (ds, m) = put_char c ds m"
| "put_part (Size n) (ds, m) = put_size n ds m"
| "put_part (Int32 i) (ds, m) = put_int32 i ds m"
| "put_part (UInt32 n) (ds, m) = put_uint32 n ds m"
| "put_part (Ptr p) (ds, m) = put_ptr p ds m"
| "put_part (Mode md) (ds, m) = Some (put_mode md ds, m)"

fun put_parts :: "part list \<Rightarrow> dstream \<times> mem \<Rightarrow> (dstream \<times> mem) option" where
  "put_parts [] s = Some s"
| "put_parts (x # xs) s = put_part x s \<bind> put_parts xs"

definition unsigned_text :: "nat \<Rightarrow> nat \<Rightarrow> uint8_t list" where
  "unsigned_text b n = rev (map digit_char (ldigits b n))"

definition signed_text :: "nat \<Rightarrow> int \<Rightarrow> uint8_t list" where
  "signed_text b i = (if i < 0 then 45 # unsigned_text b (nat (- i)) else unsigned_text b (nat i))"

definition hex_prefix :: "modifier \<Rightarrow> uint8_t list" where
  "hex_prefix md = (case md of HEX \<Rightarrow> [48, 120] | DEC \<Rightarrow> [])"

definition radix :: "modifier \<Rightarrow> nat" where
  "radix md = (case md of HEX \<Rightarrow> 16 | DEC \<Rightarrow> 10)"

fun nibbles_text :: "size_t \<Rightarrow> nat \<Rightarrow> uint8_t list" where
  "nibbles_text p 0 = []"
| "nibbles_text p (Suc n) = hex_char (drop_bit (n * 4) p AND 0xf) # nibbles_text p n"

fun part_text :: "modifier \<Rightarrow> part \<Rightarrow> uint8_t list" where
  "part_text md (Text p cs) = cs"
| "part_text md (Char c) = [c]"
| "part_text md (Size n) = hex_prefix md @ unsigned_text (radix md) (unat n)"
| "part_text md (Int32 i) = hex_prefix md @ signed_text (radix md) i"
| "part_text md (UInt32 n) = hex_prefix md @ unsigned_text (radix md) (unat n)"
| "part_text md (Ptr p) = [48, 120] @ nibbles_text p 16"
| "part_text md (Mode md') = []"

fun part_mode :: "modifier \<Rightarrow> part \<Rightarrow> modifier" where
  "part_mode md (Mode md') = md'"
| "part_mode md x = md"

fun parts_text :: "modifier \<Rightarrow> part list \<Rightarrow> uint8_t list" where
  "parts_text md [] = []"
| "parts_text md (x # xs) = part_text md x @ parts_text (part_mode md x) xs"

section \<open>Appending\<close>

text \<open>The message so far.\<close>

definition holds :: "dstream \<Rightarrow> mem \<Rightarrow> uint8_t list \<Rightarrow> bool" where
  "holds ds m cs \<longleftrightarrow> str_at m (m_buffer ds) cs \<and> room m (m_buffer ds) 256 \<and> m_destPtr ds = m_buffer ds + of_nat (length cs) \<and> length cs < 256"

text \<open>Strings behind one another.\<close>

lemma region_disjoint_after:
  assumes "n + k \<le> 2 ^ 64"
  shows "region p n \<inter> region (p + of_nat n) k = {}"
proof -
  have "p + of_nat i \<noteq> p + of_nat (n + j)" if "i < n" "j < k" for i j
    using addr_inj [of i "n + j" p] that assms by auto
  then show ?thesis by (force simp: region_def add.assoc)
qed

lemma str_at_extend:
  assumes "str_at m p cs" and "str_at m' (p + of_nat (length cs)) ds" and "\<forall>a. a \<notin> region (p + of_nat (length cs)) (Suc (length ds)) \<longrightarrow> m' a = m a"
    and "length cs + Suc (length ds) \<le> 2 ^ 64"
  shows "str_at m' p (cs @ ds)"
proof -
  have "m' (p + of_nat i) = Some ((cs @ ds @ [0]) ! i)" if i: "i < length cs + Suc (length ds)" for i
  proof (cases "i < length cs")
    case True
    then have "p + of_nat i \<in> region p (length cs)" by (auto simp: region_def)
    then have "p + of_nat i \<notin> region (p + of_nat (length cs)) (Suc (length ds))" using region_disjoint_after [OF assms(4), of p] by auto
    then have "m' (p + of_nat i) = m (p + of_nat i)" using assms(3) by simp
    also have "\<dots> = Some (cs ! i)" using assms(1) True bytes_at_nth [of m p "cs @ [0]" i] by (simp add: str_at_def nth_append)
    finally show ?thesis using True by (simp add: nth_append)
  next
    case False
    then obtain j where j: "i = length cs + j" "j < Suc (length ds)" using i by (metis add_less_cancel_left le_Suc_ex not_less)
    then have "m' (p + of_nat (length cs) + of_nat j) = Some ((ds @ [0]) ! j)"
      using assms(2) bytes_at_nth [of m' "p + of_nat (length cs)" "ds @ [0]" j] by (simp add: str_at_def)
    then show ?thesis using j by (simp add: nth_append add.assoc)
  qed
  with assms(1,2,4) show ?thesis by (simp add: str_at_def bytes_at_def)
qed

lemma str_at_ConsI: "m p = Some c \<Longrightarrow> c \<noteq> 0 \<Longrightarrow> str_at m (p + 1) cs \<Longrightarrow> Suc (length cs) < 2 ^ 64 \<Longrightarrow> str_at m p (c # cs)"
  by (simp add: str_at_def bytes_at_Cons)

text \<open>\<open>written m p cs m'\<close>: the string was written at \<open>p\<close>, and nothing else.\<close>

definition written :: "mem \<Rightarrow> addr \<Rightarrow> uint8_t list \<Rightarrow> mem \<Rightarrow> bool" where
  "written m p cs m' \<longleftrightarrow> str_at m' p cs \<and> (\<forall>a. a \<notin> region p (Suc (length cs)) \<longrightarrow> m' a = m a)"

lemma written_nil: "m p \<noteq> None \<Longrightarrow> store m p 0 = Some (m(p \<mapsto> 0)) \<and> written m p [] (m(p \<mapsto> 0))"
  by (auto simp: written_def store_def str_at_Nil region_Suc)

lemma written_Cons:
  assumes "written (m(p \<mapsto> c)) (p + 1) cs m'" and "c \<noteq> 0" and "Suc (length cs) < 2 ^ 64"
  shows "written m p (c # cs) m'"
proof -
  have "m' p = Some c" using assms(1) first_notin_rest [OF assms(3), of p] by (simp add: written_def)
  then have "str_at m' p (c # cs)" using assms by (intro str_at_ConsI) (auto simp: written_def)
  moreover have "m' a = m a" if "a \<notin> region p (Suc (Suc (length cs)))" for a
    using that assms(1) unfolding region_Suc [of p "Suc _"] by (auto simp: written_def)
  ultimately show ?thesis by (simp add: written_def)
qed

lemma holds_append:
  assumes "holds ds m cs" and "written m (m_destPtr ds) es m'" and "length cs + length es < 256"
  shows "holds (ds\<lparr>m_destPtr := m_destPtr ds + of_nat (length es)\<rparr>) m' (cs @ es)"
proof -
  let ?b = "m_buffer ds"
  have h: "str_at m ?b cs" "room m ?b 256" "m_destPtr ds = ?b + of_nat (length cs)" using assms(1) by (auto simp: holds_def)
  have w: "str_at m' (?b + of_nat (length cs)) es" "\<forall>a. a \<notin> region (?b + of_nat (length cs)) (Suc (length es)) \<longrightarrow> m' a = m a"
    using assms(2) h(3) by (auto simp: written_def)
  have "str_at m' ?b (cs @ es)" using str_at_extend [OF h(1) w] assms(3) by simp
  moreover have "m' a \<noteq> None" if a: "a \<in> region (?b + of_nat (length cs)) (Suc (length es))" for a
  proof -
    from a obtain j where "j < Suc (length es)" "a = ?b + of_nat (length cs) + of_nat j" by (auto simp: region_def)
    with bytes_at_nth [of m' "?b + of_nat (length cs)" "es @ [0]" j] w(1) show ?thesis by (simp add: str_at_def)
  qed
  then have "room m' ?b 256" using h(2) w(2) unfolding room_def by metis
  ultimately show ?thesis using assms(3) h(3) by (simp add: holds_def add.assoc)
qed

lemma room_dest:
  assumes "holds ds m cs" and "length cs + n \<le> 256"
  shows "room m (m_destPtr ds) n"
  unfolding room_def
proof (intro conjI allI impI)
  fix i assume "i < n"
  with assms have "m (m_buffer ds + of_nat (length cs + i)) \<noteq> None" by (auto simp: holds_def room_def simp del: of_nat_add)
  with assms(1) show "m (m_destPtr ds + of_nat i) \<noteq> None" by (simp add: holds_def add.assoc)
qed (use assms(2) in simp)

section \<open>Numbers\<close>

lemma unsigned_text_ok: "2 \<le> b \<Longrightarrow> b \<le> 36 \<Longrightarrow> 0 \<notin> set (unsigned_text b n)"
  using digits_nonzero(1) [of b n] by (simp add: unsigned_text_def)

lemma unsigned_ok:
  fixes v bw :: "'a::len word"
  assumes "2 \<le> unat bw" and "unat bw \<le> 36" and "room m str (Suc (length (unsigned_text (unat bw) (unat v))))"
    and "length (unsigned_text (unat bw) (unat v)) < 256"
  shows "\<exists>m'. (do { (p, m1) \<leftarrow> udigits bw v str m; m2 \<leftarrow> store m1 p 0; strrev str m2 }) = Some (str, m') \<and>
     written m str (unsigned_text (unat bw) (unat v)) m'"
proof -
  let ?ds = "ldigits (unat bw) (unat v)"
  have l: "length ?ds < 2 ^ 64" and r: "room m str (length ?ds)" "room m str (Suc (length ?ds))"
    using assms(3,4) by (auto simp: unsigned_text_def intro: room_le)
  from udigits_correct [OF assms(1,2) r(1)] obtain m1 where
    m1: "udigits bw v str m = Some (str + of_nat (length ?ds), m1)" "bytes_at m1 str (map digit_char ?ds)"
      "\<forall>a. a \<notin> region str (length ?ds) \<longrightarrow> m1 a = m a" by blast
  have "m1 (str + of_nat (length ?ds)) \<noteq> None"
    using m1(3) next_notin_region [OF l] room_at [OF r(2), of "length ?ds"] by simp
  with finish_number [OF m1(2) digits_nonzero(1) [OF assms(1,2)]] l obtain m' where
    "(do { m2 \<leftarrow> store m1 (str + of_nat (length ?ds)) 0; strrev str m2 }) = Some (str, m')"
    "str_at m' str (rev (map digit_char ?ds))" "\<forall>a. a \<notin> region str (Suc (length ?ds)) \<longrightarrow> m' a = m1 a" by auto
  moreover have "region str (length ?ds) \<subseteq> region str (Suc (length ?ds))" by (rule region_mono) simp
  ultimately show ?thesis using m1(1,3) by (auto simp: written_def unsigned_text_def)
qed

lemma signed_ok:
  assumes "2 \<le> base" and "base \<le> 36" and "- (2 ^ (w - 1)) < v" and "room m str (Suc (length (signed_text (nat base) v)))"
    and "length (signed_text (nat base) v) < 256"
  shows "\<exists>m'. stoa w v str base m = Some (str, m') \<and> written m str (signed_text (nat base) v) m'"
proof -
  define u where "u = (if v < 0 then - v else v)"
  let ?b = "nat base"
  let ?ds = "ldigits ?b (nat u)"
  define tail where "tail = (if v < 0 then [45 :: uint8_t] else [])"
  let ?n = "length ?ds + length tail"
  have b: "2 \<le> ?b" "?b \<le> 36" using assms(1,2) by simp_all
  have t: "signed_text ?b v = rev (map digit_char ?ds @ tail)" by (simp add: signed_text_def unsigned_text_def u_def tail_def)
  then have l: "?n < 256" and r: "room m str (Suc ?n)" using assms(4,5) by (simp_all add: add.commute)
  have l64: "length ?ds < 2 ^ 64" using l by simp
  have u: "0 \<le> u" by (simp add: u_def)
  from sdigits_correct [OF assms(1,2) u, of m str] room_le [OF r, of "length ?ds"] obtain m1 where
    m1: "sdigits base u str m = Some (str + of_nat (length ?ds), m1)" "bytes_at m1 str (map digit_char ?ds)"
      "\<forall>a. a \<notin> region str (length ?ds) \<longrightarrow> m1 a = m a" by auto
  define m2 where "m2 = (if v < 0 then m1(str + of_nat (length ?ds) \<mapsto> 45) else m1)"
  have mapped: "m1 (str + of_nat k) \<noteq> None" if k: "k \<le> ?n" for k
  proof (cases "str + of_nat k \<in> region str (length ?ds)")
    case True
    then obtain j where "j < length ?ds" "str + of_nat k = str + of_nat j" by (auto simp: region_def)
    with bytes_at_nth [OF m1(2), of j] show ?thesis by simp
  qed (use m1(3) room_at [OF r, of k] k in auto)
  have by2: "bytes_at m2 str (map digit_char ?ds @ tail)"
    using m1(2) next_notin_region [OF l64, of str] l64 by (auto simp: m2_def tail_def bytes_at_frame intro!: bytes_at_snoc)
  have z: "0 \<notin> set (map digit_char ?ds @ tail)" using digits_nonzero(1) [OF b, of "nat u"] by (auto simp: tail_def)
  have nn: "m2 (str + of_nat (length (map digit_char ?ds @ tail))) \<noteq> None" using mapped [of ?n] by (simp add: m2_def)
  from finish_number [OF by2 z nn] l obtain m' where
    m': "(do { m3 \<leftarrow> store m2 (str + of_nat ?n) 0; strrev str m3 }) = Some (str, m')" "str_at m' str (rev (map digit_char ?ds @ tail))"
      "\<forall>a. a \<notin> region str (Suc ?n) \<longrightarrow> m' a = m2 a" by auto
  have sub: "region str (length ?ds) \<subseteq> region str (Suc ?n)" by (rule region_mono) simp
  have "v < 0 \<Longrightarrow> str + of_nat (length ?ds) \<in> region str (Suc ?n)" by (auto simp: region_def tail_def)
  then have "m' a = m a" if "a \<notin> region str (Suc ?n)" for a using that m'(3) m1(3) sub by (auto simp: m2_def)
  with m'(2) have "written m str (signed_text ?b v) m'" by (simp add: written_def t add.commute)
  moreover have "stoa w v str base m = Some (str, m')"
  proof -
    have "str + of_nat ?n = (if v < 0 then str + of_nat (length ?ds) + 1 else str + of_nat (length ?ds))" by (simp add: tail_def add.assoc add.commute)
    from m1(1) m'(1) [unfolded this] assms(3) mapped [of "length ?ds"] show ?thesis
      by (cases "v < 0") (auto simp: stoa_def Let_def u_def m2_def store_def)
  qed
  ultimately show ?thesis by blast
qed

lemma getBase_radix: "nat (getBase ds) = radix (m_currentMode ds)" "2 \<le> getBase ds" "getBase ds \<le> 36" "2 \<le> radix md" "radix md \<le> 36"
  by (auto simp: getBase_def radix_def split: modifier.splits)

text \<open>The numeric operations: a prefix, then the digits.\<close>

lemma put_number:
  assumes h: "holds ds m cs" and l: "length cs + length (hex_prefix (m_currentMode ds) @ es) < 256"
    and num: "\<And>str m1. room m1 str (Suc (length es)) \<Longrightarrow> \<exists>m'. num str (getBase ds) m1 = Some (str, m') \<and> written m1 str es m'"
  shows "\<exists>ds' m'. (do { (ds1, m1) \<leftarrow> basePrefix ds m; (_, m2) \<leftarrow> num (m_destPtr ds1) (getBase ds1) m1; to_end ds1 m2 }) = Some (ds', m') \<and>
     holds ds' m' (cs @ hex_prefix (m_currentMode ds) @ es) \<and> m_currentMode ds' = m_currentMode ds \<and> m_buffer ds' = m_buffer ds \<and>
     m_loglevel ds' = m_loglevel ds \<and> written m (m_destPtr ds) (hex_prefix (m_currentMode ds) @ es) m'"
proof -
  let ?p = "m_destPtr ds" and ?x = "hex_prefix (m_currentMode ds)"
  have "\<exists>ds1 m1 m2. basePrefix ds m = Some (ds1, m1) \<and> num (m_destPtr ds1) (getBase ds1) m1 = Some (m_destPtr ds1, m2) \<and>
     written m ?p (?x @ es) m2 \<and> ds1 = ds\<lparr>m_destPtr := m_destPtr ds1\<rparr>"
  proof (cases "m_currentMode ds")
    case HEX
    let ?m = "m(?p \<mapsto> 48, ?p + 1 \<mapsto> 120)"
    have r: "room m ?p (Suc (Suc (Suc (length es))))" using room_dest [OF h] l HEX by (simp add: hex_prefix_def)
    have r1: "m ?p \<noteq> None" "room (m(?p \<mapsto> 48)) (?p + 1) (Suc (Suc (length es)))" using room_tail [OF r] by blast+
    have "(m(?p \<mapsto> 48)) (?p + 1) \<noteq> None" "room ?m (?p + 1 + 1) (Suc (length es))" using room_tail [OF r1(2)] by blast+
    then have r2: "(m(?p \<mapsto> 48)) (?p + 1) \<noteq> None" "room ?m (?p + 2) (Suc (length es))" by (simp_all add: add.assoc)
    from num [OF r2(2)] obtain m2 where m2: "num (?p + 2) (getBase ds) ?m = Some (?p + 2, m2)" "written ?m (?p + 2) es m2" by blast
    have "written (m(?p \<mapsto> 48)) (?p + 1) (120 # es) m2"
      using m2(2) l by (intro written_Cons) (simp_all add: add.assoc)
    from written_Cons [OF this] l have "written m ?p (48 # 120 # es) m2" by simp
    moreover have "basePrefix ds m = Some (ds\<lparr>m_destPtr := ?p + 2\<rparr>, ?m)"
      using HEX r1(1) r2(1) by (auto simp: basePrefix_def getBase_def store_def)
    ultimately show ?thesis using m2(1) HEX by (auto simp: hex_prefix_def getBase_def)
  next
    case DEC
    from num [OF room_dest [OF h, of "Suc (length es)"]] l obtain m2 where "num ?p (getBase ds) m = Some (?p, m2)" "written m ?p es m2"
      by (auto simp: DEC hex_prefix_def)
    with DEC show ?thesis by (auto simp: basePrefix_def getBase_def hex_prefix_def)
  qed
  then obtain ds1 m1 m2 where d: "basePrefix ds m = Some (ds1, m1)" "num (m_destPtr ds1) (getBase ds1) m1 = Some (m_destPtr ds1, m2)"
    "written m ?p (?x @ es) m2" "ds1 = ds\<lparr>m_destPtr := m_destPtr ds1\<rparr>" by blast
  have b: "m_buffer ds1 = m_buffer ds" "m_currentMode ds1 = m_currentMode ds" "m_loglevel ds1 = m_loglevel ds"
    by (subst d(4); simp)+
  from holds_append [OF h d(3) l] have h2: "holds (ds\<lparr>m_destPtr := ?p + of_nat (length (?x @ es))\<rparr>) m2 (cs @ ?x @ es)" .
  then have "strlen m2 (m_buffer ds) = Some (of_nat (length (cs @ ?x @ es)))" by (intro strlen_correct) (simp add: holds_def)
  then have "to_end ds1 m2 = Some (ds1\<lparr>m_destPtr := m_buffer ds + of_nat (length (cs @ ?x @ es))\<rparr>, m2)"
    by (simp add: to_end_def b)
  moreover have "holds (ds1\<lparr>m_destPtr := m_buffer ds + of_nat (length (cs @ ?x @ es))\<rparr>) m2 (cs @ ?x @ es)"
    using h2 by (simp add: holds_def b)
  ultimately show ?thesis using d(1-3) b by auto
qed

section \<open>Every operation appends its text\<close>

text \<open>The text of a part can be written behind \<open>n\<close> bytes: strings are outside of the buffer, no byte is zero, and the least
  integer, whose negation overflows, is left out.\<close>

fun part_ok :: "addr \<Rightarrow> mem \<Rightarrow> part \<Rightarrow> bool" where
  "part_ok b m (Text p cs) = (str_at m p cs \<and> region p (Suc (length cs)) \<inter> region b 256 = {})"
| "part_ok b m (Char c) = (c \<noteq> 0)"
| "part_ok b m (Int32 i) = (- (2 ^ 31) < i \<and> i < 2 ^ 31)"
| "part_ok b m x = True"

definition appends :: "dstream \<Rightarrow> mem \<Rightarrow> uint8_t list \<Rightarrow> uint8_t list \<Rightarrow> dstream \<Rightarrow> mem \<Rightarrow> bool" where
  "appends ds m cs es ds' m' \<longleftrightarrow> holds ds' m' (cs @ es) \<and> m_buffer ds' = m_buffer ds \<and> m_loglevel ds' = m_loglevel ds \<and>
     written m (m_destPtr ds) es m'"

lemma dest_in_buffer:
  assumes "holds ds m cs" and "length cs + n \<le> 256"
  shows "region (m_destPtr ds) n \<subseteq> region (m_buffer ds) 256"
proof
  fix a assume "a \<in> region (m_destPtr ds) n"
  then obtain i where "i < n" "a = m_buffer ds + of_nat (length cs + i)" using assms(1) by (auto simp: region_def holds_def add.assoc)
  then show "a \<in> region (m_buffer ds) 256" unfolding region_def using assms(2) by (intro image_eqI [of _ _ "length cs + i"]) auto
qed

lemma put_char_ok:
  assumes "holds ds m cs" and "c \<noteq> 0" and "length cs + 1 < 256"
  shows "\<exists>ds' m'. put_char c ds m = Some (ds', m') \<and> appends ds m cs [c] ds' m' \<and> m_currentMode ds' = m_currentMode ds"
proof -
  let ?p = "m_destPtr ds"
  have r: "room m ?p (Suc (Suc 0))" using room_dest [OF assms(1), of 2] assms(3) by (simp add: numeral_2_eq_2)
  have r1: "m ?p \<noteq> None" "room (m(?p \<mapsto> c)) (?p + 1) (Suc 0)" using room_tail [OF r] by blast+
  have n: "(m(?p \<mapsto> c)) (?p + 1) \<noteq> None" using room_tail [OF r1(2)] by blast
  have "written m ?p [c] (m(?p \<mapsto> c, ?p + 1 \<mapsto> 0))" using written_Cons [OF conjunct2 [OF written_nil [of "m(?p \<mapsto> c)" "?p + 1", OF n]] assms(2)] by simp
  with holds_append [OF assms(1) this] assms(3) n r1(1) show ?thesis by (auto simp: put_char_def store_def appends_def)
qed

lemma put_str_ok:
  assumes "holds ds m cs" and "part_ok (m_buffer ds) m (Text p es)" and "length cs + length es < 256"
  shows "\<exists>ds' m'. put_str p ds m = Some (ds', m') \<and> appends ds m cs es ds' m' \<and> m_currentMode ds' = m_currentMode ds"
proof -
  let ?q = "m_destPtr ds"
  have s: "str_at m p es" "region p (Suc (length es)) \<inter> region (m_buffer ds) 256 = {}" using assms(2) by simp_all
  have z: "m ?q = Some 0"
  proof -
    have "bytes_at m (m_buffer ds + of_nat (length cs)) [0]" using assms(1) by (auto simp: holds_def str_at_def dest: bytes_at_append2)
    with assms(1) show ?thesis by (auto simp: holds_def dest: bytes_at_first)
  qed
  then have e: "str_end m ?q = Some ?q" by (subst str_end.simps) (simp add: load_def)
  have d: "region ?q (length es + 1) \<inter> region p (length es + 1) = {}"
    using dest_in_buffer [OF assms(1), of "Suc (length es)"] assms(3) s(2) by auto
  have r: "room m ?q (length es + 1)" by (rule room_dest [OF assms(1)]) (use assms(3) in simp)
  have "length es + 1 < 2 ^ 64" using assms(3) by simp
  from strcpy_correct [OF s(1) r d this] obtain m' where
    m': "strcpy ?q p m = Some (?q, m')" "str_at m' ?q es" "\<forall>a. a \<notin> region ?q (length es + 1) \<longrightarrow> m' a = m a" by blast
  then have w: "written m ?q es m'" by (simp add: written_def)
  have "m a = m' a" if "a \<in> region p (length (es @ [0]))" for a using that m'(3) d by fastforce
  then have "bytes_at m p (es @ [0]) = bytes_at m' p (es @ [0])" by (rule bytes_at_cong)
  with s(1) have "str_at m' p es" by (simp add: str_at_def)
  then have "strlen m' p = Some (of_nat (length es))" by (rule strlen_correct)
  with e m'(1) w holds_append [OF assms(1) w assms(3)] show ?thesis by (auto simp: put_str_def strcat_def appends_def)
qed

lemma hex_char_nonzero: "hex_char (w AND 0xf) \<noteq> 0"
proof -
  have "w AND 0xf \<le> 0xf" by (rule word_and_le1)
  then have "unat (w AND 0xf) \<in> set [0..<16]" by (simp add: word_le_nat_alt)
  moreover have "\<forall>n\<in>set [0..<16]. hex_char (of_nat n) \<noteq> 0" by code_simp
  ultimately have "hex_char (of_nat (unat (w AND 0xf))) \<noteq> 0" by (rule bspec [rotated])
  then show ?thesis by simp
qed

lemma put_ptr_ok:
  assumes "holds ds m cs" and "length cs + 18 < 256"
  shows "\<exists>ds' m'. put_ptr p ds m = Some (ds', m') \<and> appends ds m cs ([48, 120] @ nibbles_text p 16) ds' m' \<and> m_currentMode ds' = m_currentMode ds"
proof -
  let ?q = "m_destPtr ds"
  have len: "length (nibbles_text p n) = n" for n by (induction n) auto
  have nz: "hex_char (w AND 0xf) \<noteq> 0" for w by (rule hex_char_nonzero)
  have nib: "\<exists>m'. (do { (dest, m3) \<leftarrow> ptr_nibbles p n q m; m4 \<leftarrow> store m3 dest 0; Some (dest, m4) }) = Some (q + of_nat n, m') \<and>
      written m q (nibbles_text p n) m'" if "room m q (Suc n)" "n < 256" for n q m
    using that
  proof (induction n arbitrary: q m)
    case 0
    then show ?case using written_nil [of m q] room_tail(1) [OF 0(1)] by auto
  next
    case (Suc n)
    let ?c = "hex_char (drop_bit (n * 4) p AND 0xf)"
    have r: "m q \<noteq> None" "room (m(q \<mapsto> ?c)) (q + 1) (Suc n)" using room_tail [OF Suc.prems(1)] by blast+
    from Suc.IH [OF r(2)] Suc.prems(2) obtain m' where
      m': "(do { (dest, m3) \<leftarrow> ptr_nibbles p n (q + 1) (m(q \<mapsto> ?c)); m4 \<leftarrow> store m3 dest 0; Some (dest, m4) }) = Some (q + 1 + of_nat n, m')"
        "written (m(q \<mapsto> ?c)) (q + 1) (nibbles_text p n) m'" by (auto simp del: fun_upd_apply)
    from written_Cons [OF m'(2) nz] len [of n] Suc.prems(2) have "written m q (?c # nibbles_text p n) m'" by simp
    with m'(1) r(1) show ?case by (auto simp: store_def add.assoc)
  qed
  let ?m = "m(?q \<mapsto> 48, ?q + 1 \<mapsto> 120)"
  have r: "room m ?q (Suc (Suc (Suc 16)))" using room_dest [OF assms(1), of 19] assms(2) by simp
  have r1: "m ?q \<noteq> None" "room (m(?q \<mapsto> 48)) (?q + 1) (Suc (Suc 16))" using room_tail [OF r] by blast+
  have "(m(?q \<mapsto> 48)) (?q + 1) \<noteq> None" "room ?m (?q + 1 + 1) (Suc 16)" using room_tail [OF r1(2)] by blast+
  then have r2: "(m(?q \<mapsto> 48)) (?q + 1) \<noteq> None" "room ?m (?q + 2) (Suc 16)" by (simp_all add: add.assoc)
  from nib [OF r2(2)] obtain m' where
    m': "(do { (dest, m3) \<leftarrow> ptr_nibbles p 16 (?q + 2) ?m; m4 \<leftarrow> store m3 dest 0; Some (dest, m4) }) = Some (?q + 2 + of_nat 16, m')"
      "written ?m (?q + 2) (nibbles_text p 16) m'" by auto
  have "written (m(?q \<mapsto> 48)) (?q + 1) (120 # nibbles_text p 16) m'"
    using m'(2) len [of 16] by (intro written_Cons) (simp_all add: add.assoc)
  from written_Cons [OF this] len [of 16] have w: "written m ?q ([48, 120] @ nibbles_text p 16) m'" by simp
  have "put_ptr p ds m = Some (ds\<lparr>m_destPtr := ?q + of_nat (length ([48, 120] @ nibbles_text p 16))\<rparr>, m')"
    using m'(1) r1(1) r2(1) len [of 16] by (auto simp: put_ptr_def store_def add.assoc split: Option.bind_splits)
  with holds_append [OF assms(1) w] assms(2) len [of 16] w show ?thesis by (auto simp: appends_def)
qed

lemma put_part_ok:
  assumes h: "holds ds m cs" and p: "part_ok (m_buffer ds) m x" and l: "length cs + length (part_text (m_currentMode ds) x) < 256"
  shows "\<exists>ds' m'. put_part x (ds, m) = Some (ds', m') \<and> appends ds m cs (part_text (m_currentMode ds) x) ds' m' \<and>
     m_currentMode ds' = part_mode (m_currentMode ds) x"
proof (cases x)
  case (Text q es)
  with put_str_ok [OF h, of q es] p l show ?thesis by simp
next
  case (Char c)
  with put_char_ok [OF h, of c] p l show ?thesis by simp
next
  case (Size n)
  let ?es = "unsigned_text (radix (m_currentMode ds)) (unat n)"
  have "unat (word_of_int (getBase ds) :: uint64_t) = radix (m_currentMode ds)" by (simp add: getBase_def radix_def split: modifier.split)
  then have "\<exists>m'. ultoa n str (getBase ds) m1 = Some (str, m') \<and> written m1 str ?es m'" if "room m1 str (Suc (length ?es))" for str m1
    using unsigned_ok [of "word_of_int (getBase ds)" m1 str n] that l Size getBase_radix(4,5) [of "m_currentMode ds"] by (simp add: ultoa_def)
  from put_number [OF h, of ?es "ultoa n", OF _ this] l Size show ?thesis by (auto simp: put_size_def appends_def)
next
  case (Int32 i)
  let ?es = "signed_text (radix (m_currentMode ds)) i"
  have "\<exists>m'. itoa i str (getBase ds) m1 = Some (str, m') \<and> written m1 str ?es m'" if "room m1 str (Suc (length ?es))" for str m1
    using signed_ok [OF getBase_radix(2,3), of 32 i m1 str ds] that l p Int32 by (simp add: itoa_def getBase_radix(1))
  from put_number [OF h, of ?es "itoa i", OF _ this] l Int32 show ?thesis by (auto simp: put_int32_def appends_def)
next
  case (UInt32 n)
  let ?es = "unsigned_text (radix (m_currentMode ds)) (unat n)"
  have "unat (word_of_int (getBase ds) :: uint32_t) = radix (m_currentMode ds)" by (simp add: getBase_def radix_def split: modifier.split)
  then have "\<exists>m'. utoa n str (getBase ds) m1 = Some (str, m') \<and> written m1 str ?es m'" if "room m1 str (Suc (length ?es))" for str m1
    using unsigned_ok [of "word_of_int (getBase ds)" m1 str n] that l UInt32 getBase_radix(4,5) [of "m_currentMode ds"] by (simp add: utoa_def)
  from put_number [OF h, of ?es "utoa n", OF _ this] l UInt32 show ?thesis by (auto simp: put_uint32_def appends_def)
next
  case (Ptr q)
  have "length (nibbles_text q n) = n" for n by (induction n) auto
  with put_ptr_ok [OF h, of q] l Ptr show ?thesis by simp
next
  case (Mode md)
  have "written m (m_destPtr ds) [] m"
    using h by (auto simp: written_def holds_def str_at_def dest: bytes_at_append2)
  with h Mode show ?thesis by (auto simp: put_mode_def appends_def holds_def)
qed

lemma part_ok_frame:
  assumes "part_ok b m x" and "\<And>a. a \<notin> region b 256 \<Longrightarrow> m' a = m a"
  shows "part_ok b m' x"
proof (cases x)
  case (Text p cs)
  with assms have "m a = m' a" if "a \<in> region p (length (cs @ [0]))" for a using that by fastforce
  then have "bytes_at m p (cs @ [0]) = bytes_at m' p (cs @ [0])" by (rule bytes_at_cong)
  with assms(1) Text show ?thesis by (simp add: str_at_def)
qed (use assms(1) in auto)

lemma put_parts_ok:
  assumes "holds ds m cs" and "\<forall>x\<in>set xs. part_ok (m_buffer ds) m x" and "length cs + length (parts_text (m_currentMode ds) xs) < 256"
  shows "\<exists>ds' m'. put_parts xs (ds, m) = Some (ds', m') \<and> holds ds' m' (cs @ parts_text (m_currentMode ds) xs) \<and>
     m_buffer ds' = m_buffer ds \<and> m_loglevel ds' = m_loglevel ds \<and> (\<forall>a. a \<notin> region (m_buffer ds) 256 \<longrightarrow> m' a = m a)"
  using assms
proof (induction xs arbitrary: ds m cs)
  case (Cons x xs)
  let ?md = "m_currentMode ds"
  from put_part_ok [OF Cons.prems(1), of x] Cons.prems(2,3) obtain ds1 m1 where
    s: "put_part x (ds, m) = Some (ds1, m1)" "appends ds m cs (part_text ?md x) ds1 m1" "m_currentMode ds1 = part_mode ?md x" by auto
  have b: "m_buffer ds1 = m_buffer ds" "m_loglevel ds1 = m_loglevel ds" "holds ds1 m1 (cs @ part_text ?md x)"
    using s(2) by (auto simp: appends_def)
  have fr: "m1 a = m a" if "a \<notin> region (m_buffer ds) 256" for a
    using that s(2) dest_in_buffer [OF Cons.prems(1), of "Suc (length (part_text ?md x))"] Cons.prems(3) by (auto simp: appends_def written_def)
  have "\<forall>y\<in>set xs. part_ok (m_buffer ds1) m1 y" using Cons.prems(2) part_ok_frame [OF _ fr] by (simp add: b)
  from Cons.IH [OF b(3) this] Cons.prems(3) s(1,3) b fr show ?case by auto
qed simp

lemma debug_print_serial: "str_at m p cs \<Longrightarrow> debug_print P m p d = serial_write_loop P COM2 cs d"
proof (induction cs arbitrary: p d)
  case Nil
  then show ?case by (subst debug_print.simps) (simp add: str_at_Nil load_def)
next
  case (Cons c cs)
  from str_at_Cons [OF Cons.prems] have c: "m p = Some c" "c \<noteq> 0" "str_at m (p + 1) cs" by auto
  with Cons.IH [OF c(3)] show ?case
    by (subst debug_print.simps) (simp add: load_def debug_putchar_def tx_byte_def)
qed

section \<open>Theorems\<close>

text \<open>C33. A message from the constructor of its stream to the destructor (\<^verbatim>\<open>DebugStream\<close>): when its text fits into the buffer, the parts are
  formatted one behind the other, each number in the base set last, the text reaches the second serial port with a
  carriage return in front of every line feed, the main terminal gets the same bytes, and no memory outside of
  the buffer changes.\<close>

theorem debug_message:
  assumes "room m buffer 256" and "\<forall>x\<in>set xs. part_ok buffer m x" and "length (parts_text DEC xs) < 256"
    and "s_initialized out" and "loglevel AND OUTPUT_ENABLE \<noteq> 0" and u: "uart_tx P COM2 idle sent delay"
    and w: "\<And>m cs t. bytes_at m buffer cs \<Longrightarrow> term_write m buffer (of_nat (length cs)) t = Some (accept cs t)"
  shows "\<exists>ds m1 ds' m' out'. new_dstream buffer loglevel m = Some (ds, m1) \<and> put_parts xs (ds, m1) = Some (ds', m') \<and>
     debug_flush P term_write ds' m' out = Some out' \<and> sent (s_port out') = sent (s_port out) @ crlf (parts_text DEC xs) \<and>
     s_mainTerm out' = map_option (accept (parts_text DEC xs)) (s_mainTerm out) \<and> (\<forall>a. a \<notin> region buffer 256 \<longrightarrow> m' a = m a)"
proof -
  let ?ds = "\<lparr>m_buffer = buffer, m_destPtr = buffer, m_currentMode = DEC, m_loglevel = loglevel\<rparr>" and ?m = "m(buffer \<mapsto> 0)" and ?t = "parts_text DEC xs"
  have b: "m buffer \<noteq> None" using room_at [OF assms(1), of 0] by simp
  then have new: "new_dstream buffer loglevel m = Some (?ds, ?m)" by (auto simp: new_dstream_def store_def)
  have h: "holds ?ds ?m []" using assms(1) by (auto simp: holds_def str_at_Nil room_def)
  have fr: "?m a = m a" if "a \<notin> region buffer 256" for a using that region_first [of 256 buffer] by auto
  then have ok: "\<forall>x\<in>set xs. part_ok (m_buffer ?ds) ?m x" using assms(2) part_ok_frame [of buffer m _ ?m] by (auto simp del: fun_upd_apply)
  from put_parts_ok [OF h ok] assms(3) obtain ds' m' where
    p: "put_parts xs (?ds, ?m) = Some (ds', m')" "holds ds' m' ?t" "m_buffer ds' = buffer" "m_loglevel ds' = loglevel"
      "\<forall>a. a \<notin> region buffer 256 \<longrightarrow> m' a = ?m a" by auto
  have s: "str_at m' buffer ?t" "m_destPtr ds' - m_buffer ds' = of_nat (length ?t)" using p(2,3) by (auto simp: holds_def)
  have len: "unat (of_nat (length ?t) :: size_t) = length ?t" using assms(3) by (intro unat_of_nat_small) simp
  then have lt: "m_destPtr ds' - m_buffer ds' < BUFFER_SIZE" using s(2) assms(3) by (simp add: BUFFER_SIZE_def word_less_nat_alt del: unat_of_nat)
  from serial_write_loop_ok [OF u, of ?t "s_port out"] debug_print_serial [OF s(1), of P "s_port out"] obtain d where
    d: "debug_print P m' buffer (s_port out) = Some d" "sent d = sent (s_port out) @ crlf ?t" by auto
  have "term_write m' buffer (of_nat (length ?t)) t = Some (accept ?t t)" for t
    using s(1) by (intro w) (auto simp: str_at_def dest: bytes_at_append1)
  with d lt assms(4,5) p(3,4) strlen_correct [OF s(1)]
  have "\<exists>out'. debug_flush P term_write ds' m' out = Some out' \<and> sent (s_port out') = sent (s_port out) @ crlf ?t \<and>
     s_mainTerm out' = map_option (accept ?t) (s_mainTerm out)"
    by (cases "s_mainTerm out") (auto simp: debug_flush_def)
  moreover have "m' a = m a" if "a \<notin> region buffer 256" for a using p(5) that fr by simp
  ultimately show ?thesis using new p(1) by blast
qed

text \<open>Numbers read back from a message.\<close>

lemma unsigned_text_number: "2 \<le> b \<Longrightarrow> b \<le> 36 \<Longrightarrow> number b (unsigned_text b n) = n"
  by (simp add: unsigned_text_def ldigits_value)

text \<open>A buffer at 1000, and a port that is ready at once.\<close>

definition log_ports :: "uint8_t list ports" where
  "log_ports = \<lparr>in8 = (\<lambda>_ d. (0x20, d)), out8 = (\<lambda>p b d. if p = COM2 then d @ [b] else d), in32 = (\<lambda>_ d. (0, d)), out32 = (\<lambda>_ _ d. d)\<rparr>"

lemma log_ports_tx: "uart_tx log_ports COM2 (\<lambda>_. True) (\<lambda>d. d) (\<lambda>_. 0)"
  by (simp add: uart_tx_def log_ports_def)

theorem debug_message_witness:
  "\<exists>ds m1 ds' m' out'. new_dstream 1000 (OUTPUT_ENABLE OR 7) (\<lambda>_. Some 0) = Some (ds, m1) \<and>
     put_parts [Char 110, Char 61, Size 42, Char 10] (ds, m1) = Some (ds', m') \<and>
     debug_flush log_ports (\<lambda>_ _ _ t. Some t) ds' m' \<lparr>s_initialized = True, s_port = [], s_mainTerm = None :: unit option\<rparr> = Some out' \<and>
     s_port out' = [110, 61, 52, 50, 13, 10]"
proof -
  have t: "parts_text DEC [Char 110, Char 61, Size 42, Char 10] = [110, 61, 52, 50, 10]"
    by (simp add: hex_prefix_def radix_def unsigned_text_def ldigits.simps digit_char_def)
  show ?thesis
    using debug_message [of "\<lambda>_. Some 0" 1000 "[Char 110, Char 61, Size 42, Char 10]"
        "\<lparr>s_initialized = True, s_port = [], s_mainTerm = None :: unit option\<rparr>" "OUTPUT_ENABLE OR 7", OF _ _ _ _ _ log_ports_tx, of "\<lambda>_ _ _ t. Some t" "\<lambda>_ t. t"]
    unfolding t by (simp add: room_def OUTPUT_ENABLE_def crlf_def) blast
qed

end
