(* ===== verification/Gpio.thy ===== *)
theory Gpio
  imports Prelude
begin

text \<open>
  The pins of the Raspberry Pi (\<^verbatim>\<open>platform/raspi/drivers/gpio.cpp\<close>) and its debug port (\<^verbatim>\<open>debug_print.cpp\<close>), which uses them. A word of this
  processor has 32 bits. The hardware behind the memory-mapped registers is a parameter: a state and what reading
  and writing a register, named by its offset, does to it. Waiting for a number of cycles changes nothing.
\<close>

unbundle bit_operations_syntax

section \<open>Registers\<close>

record 'd mmio =
  rd :: "uint32_t \<Rightarrow> 'd \<Rightarrow> uint32_t \<times> 'd"
  wr :: "uint32_t \<Rightarrow> uint32_t \<Rightarrow> 'd \<Rightarrow> 'd"

definition GPFSEL0 :: uint32_t where "GPFSEL0 = 0x00200000"
definition GPFSEL1 :: uint32_t where "GPFSEL1 = 0x00200004"
definition GPFSEL2 :: uint32_t where "GPFSEL2 = 0x00200008"
definition GPFSEL3 :: uint32_t where "GPFSEL3 = 0x0020000c"
definition GPFSEL4 :: uint32_t where "GPFSEL4 = 0x00200010"
definition GPFSEL5 :: uint32_t where "GPFSEL5 = 0x00200014"
definition GPSET0 :: uint32_t where "GPSET0 = 0x0020001c"
definition GPSET1 :: uint32_t where "GPSET1 = 0x00200020"
definition GPCLR0 :: uint32_t where "GPCLR0 = 0x00200028"
definition GPCLR1 :: uint32_t where "GPCLR1 = 0x0020002c"
definition GPHEN0 :: uint32_t where "GPHEN0 = 0x00200064"
definition GPPUD :: uint32_t where "GPPUD = 0x00200094"
definition GPPUDCLK0 :: uint32_t where "GPPUDCLK0 = 0x00200098"
definition GPPUDCLK1 :: uint32_t where "GPPUDCLK1 = 0x0020009c"

lemmas gpio_regs = GPFSEL0_def GPFSEL1_def GPFSEL2_def GPFSEL3_def GPFSEL4_def GPFSEL5_def GPSET0_def GPSET1_def GPCLR0_def GPCLR1_def
  GPHEN0_def GPPUD_def GPPUDCLK0_def GPPUDCLK1_def

datatype pin_mode = MODE_INPUT | MODE_OUTPUT | MODE_ALT0 | MODE_ALT1 | MODE_ALT2 | MODE_ALT3 | MODE_ALT4 | MODE_ALT5

fun pin_mode_value :: "pin_mode \<Rightarrow> uint32_t" where
  "pin_mode_value MODE_INPUT = 0"
| "pin_mode_value MODE_OUTPUT = 1"
| "pin_mode_value MODE_ALT0 = 4"
| "pin_mode_value MODE_ALT1 = 5"
| "pin_mode_value MODE_ALT2 = 6"
| "pin_mode_value MODE_ALT3 = 7"
| "pin_mode_value MODE_ALT4 = 3"
| "pin_mode_value MODE_ALT5 = 2"

datatype pull_mode = PULL_NONE | PULL_UP | PULL_DOWN

fun pull_mode_value :: "pull_mode \<Rightarrow> uint32_t" where
  "pull_mode_value PULL_NONE = 0"
| "pull_mode_value PULL_UP = 1"
| "pull_mode_value PULL_DOWN = 2"

datatype trigger_mode = TRIGGER_HIGH | TRIGGER_LOW | TRIGGER_RISE | TRIGGER_FALL

section \<open>Operations\<close>

text \<open>The register that \<^verbatim>\<open>setPinMode\<close> selects; \<open>None\<close> where it returns at once.\<close>

definition select_register :: "nat \<Rightarrow> uint32_t option" where
  "select_register pin =
     (if pin < 10 then Some GPFSEL0 else if pin < 20 then Some GPFSEL1 else if pin < 30 then Some GPFSEL2
      else if pin < 40 then Some GPFSEL3 else if pin < 50 then Some GPFSEL4 else if pin < 54 then Some GPFSEL5 else None)"

text \<open>For a pin above 53 the pointer to the clock register has no value.\<close>

definition setPullMode :: "'d mmio \<Rightarrow> nat \<Rightarrow> pull_mode \<Rightarrow> 'd \<Rightarrow> 'd option" where
  "setPullMode P pin pullMode d =
     (if pin < 54 then
        let CLKREG = (if pin < 32 then GPPUDCLK0 else GPPUDCLK1);
            d1 = wr P GPPUD (pull_mode_value pullMode) d;
            d2 = wr P CLKREG (push_bit (pin mod 32) 1) d1;
            d3 = wr P CLKREG 0 d2
        in Some (wr P GPPUD 0 d3)
      else None)"

definition mode_bits :: "nat \<Rightarrow> pin_mode \<Rightarrow> uint32_t \<Rightarrow> uint32_t" where
  "mode_bits gpfIndex pinMode r =
     (let modeValue = pin_mode_value pinMode AND 0x7
      in (r AND NOT (push_bit (gpfIndex * 3) 0x7)) OR push_bit (gpfIndex * 3) modeValue)"

definition setPinMode :: "'d mmio \<Rightarrow> nat \<Rightarrow> pin_mode \<Rightarrow> pull_mode \<Rightarrow> 'd \<Rightarrow> 'd option" where
  "setPinMode P pin pinMode pullMode d =
     (case select_register pin of
        None \<Rightarrow> Some d
      | Some GPFREG \<Rightarrow> case rd P GPFREG d of (r, d1) \<Rightarrow>
          setPullMode P pin pullMode (wr P GPFREG (mode_bits (pin mod 10) pinMode r) d1))"

definition setTriggerMode :: "'d mmio \<Rightarrow> nat \<Rightarrow> trigger_mode \<Rightarrow> 'd \<Rightarrow> 'd" where
  "setTriggerMode P pin triggerMode d =
     (let ENREG = (case triggerMode of TRIGGER_HIGH \<Rightarrow> GPHEN0 | TRIGGER_LOW \<Rightarrow> GPHEN0 | TRIGGER_RISE \<Rightarrow> GPHEN0 | TRIGGER_FALL \<Rightarrow> GPHEN0);
          ENREG1 = (if pin \<ge> 32 then ENREG + 4 else ENREG)
      in case rd P ENREG1 d of (r, d1) \<Rightarrow> wr P ENREG1 (r OR push_bit (pin mod 32) 1) d1)"

definition setPin :: "'d mmio \<Rightarrow> nat \<Rightarrow> bool \<Rightarrow> 'd \<Rightarrow> 'd option" where
  "setPin P pin enabled d = do {
     GPSREG \<leftarrow> (if pin < 32 \<and> enabled then Some GPSET0 else if pin < 54 \<and> enabled then Some GPSET1
                 else if pin < 32 then Some GPCLR0 else if pin < 54 then Some GPCLR1 else None);
     let (r, d1) = rd P GPSREG d;
     Some (wr P GPSREG (r OR push_bit (pin mod 32) 1) d1)
   }"

section \<open>Debug port\<close>

definition AUX_ENABLE :: uint32_t where "AUX_ENABLE = 0x00215004"
definition AUX_MU_IO :: uint32_t where "AUX_MU_IO = 0x00215040"
definition AUX_MU_LSR :: uint32_t where "AUX_MU_LSR = 0x00215054"

definition raspi_debug_init :: "'d mmio \<Rightarrow> 'd \<Rightarrow> 'd option" where
  "raspi_debug_init P d = do {
     d1 \<leftarrow> setPinMode P 14 MODE_ALT5 PULL_NONE d;
     d2 \<leftarrow> setPinMode P 15 MODE_ALT5 PULL_NONE d1;
     let (r, d3) = rd P AUX_ENABLE d2;
     let d4 = wr P AUX_ENABLE (r OR 1) d3;
     let d5 = wr P 0x00215060 0 d4;
     let d6 = wr P 0x0021504c 3 d5;
     let d7 = wr P 0x00215050 0 d6;
     let d8 = wr P 0x00215044 0 d7;
     let d9 = wr P 0x00215048 0xc6 d8;
     let d10 = wr P 0x00215068 270 d9;
     Some (wr P 0x00215060 2 d10)
   }"

partial_function (option) aux_wait :: "'d mmio \<Rightarrow> 'd \<Rightarrow> 'd option" where
  "aux_wait P d = (case rd P AUX_MU_LSR d of (v, d1) \<Rightarrow> if v AND 0x20 = 0 then aux_wait P d1 else Some d1)"

fun raspi_debug_print :: "'d mmio \<Rightarrow> uint8_t list \<Rightarrow> 'd \<Rightarrow> 'd option" where
  "raspi_debug_print P [] d = Some d"
| "raspi_debug_print P (c # cs) d = do {
     d1 \<leftarrow> aux_wait P d;
     raspi_debug_print P cs (wr P AUX_MU_IO (ucast c) d1)
   }"

section \<open>Theorems\<close>

text \<open>A register that keeps what is written to it and that no access to another register changes.\<close>

definition keeps :: "'d mmio \<Rightarrow> uint32_t \<Rightarrow> ('d \<Rightarrow> uint32_t) \<Rightarrow> bool" where
  "keeps P a reg \<longleftrightarrow> (\<forall>d. fst (rd P a d) = reg d \<and> reg (snd (rd P a d)) = reg d) \<and> (\<forall>v d. reg (wr P a v d) = v) \<and>
     (\<forall>b v d. b \<noteq> a \<longrightarrow> reg (wr P b v d) = reg d)"

lemma bit_seven: "bit (7 :: int) k \<longleftrightarrow> k < 3"
  using bit_mask_iff [where 'a = int, of 3 k] by (simp add: mask_eq_exp_minus_1)

lemma bit_mode_bits:
  assumes "i < 10" and "n < 32"
  shows "bit (mode_bits i md r) n = (if 3 * i \<le> n \<and> n < 3 * i + 3 then bit (pin_mode_value md) (n - 3 * i) else bit r n)"
proof -
  have "k < 3" if "bit (pin_mode_value md) k" for k
    using that by (cases md) (auto simp: bit_simps bit_seven bit_numeral_rec split: nat.splits)
  then show ?thesis using assms by (auto simp: mode_bits_def Let_def bit_simps bit_seven mult.commute)
qed

text \<open>Setting the mode of a pin (\<^verbatim>\<open>setPinMode\<close>): its three bits in its register hold the mode, and no bit of another pin changes.\<close>

theorem setPinMode_field:
  assumes "select_register pin = Some a" and "keeps P a reg"
  shows "\<exists>d'. setPinMode P pin md pull d = Some d' \<and>
     (\<forall>n < 32. bit (reg d') n = (if n div 3 = pin mod 10 then bit (pin_mode_value md) (n mod 3) else bit (reg d) n))"
proof -
  have pin: "pin < 54" and ne: "a \<noteq> GPPUD" "a \<noteq> GPPUDCLK0" "a \<noteq> GPPUDCLK1"
    using assms(1) by (auto simp: select_register_def gpio_regs split: if_splits)
  obtain r d1 where r: "rd P a d = (r, d1)" by fastforce
  with assms(2) have "r = reg d" by (metis fst_conv keeps_def)
  moreover have "\<exists>d'. setPullMode P pin pull d2 = Some d' \<and> reg d' = reg d2" for d2
    using pin ne assms(2) by (auto simp: setPullMode_def Let_def keeps_def)
  then obtain d' where "setPullMode P pin pull (wr P a (mode_bits (pin mod 10) md r) d1) = Some d'"
    "reg d' = reg (wr P a (mode_bits (pin mod 10) md r) d1)" by blast
  moreover have "reg (wr P a v d1) = v" for v using assms(2) by (simp add: keeps_def)
  moreover have "bit (mode_bits (pin mod 10) md (reg d)) n =
      (if n div 3 = pin mod 10 then bit (pin_mode_value md) (n mod 3) else bit (reg d) n)" if "n < 32" for n
  proof -
    have "3 * (pin mod 10) \<le> n \<and> n < 3 * (pin mod 10) + 3 \<longleftrightarrow> n div 3 = pin mod 10" by (auto simp: div_nat_eqI)
    moreover have "n div 3 = pin mod 10 \<Longrightarrow> n - 3 * (pin mod 10) = n mod 3" by (metis minus_mult_div_eq_mod)
    ultimately show ?thesis using bit_mode_bits [of "pin mod 10" n md "reg d"] that by simp
  qed
  ultimately show ?thesis using assms(1) r by (simp add: setPinMode_def)
qed

text \<open>The trigger mode (\<^verbatim>\<open>setTriggerMode\<close>): whatever the mode, the pin is enabled in the register for a high level.\<close>

theorem setTriggerMode_ignored: "setTriggerMode P pin tm d = setTriggerMode P pin TRIGGER_HIGH d"
  by (cases tm) (simp_all add: setTriggerMode_def)

definition demo_mmio :: "uint32_t mmio" where
  "demo_mmio = \<lparr>rd = (\<lambda>a d. (d, d)), wr = (\<lambda>a v d. if a = GPFSEL1 then v else d)\<rparr>"

theorem setPinMode_witness: "\<exists>d'. setPinMode demo_mmio 14 MODE_ALT5 PULL_NONE 0 = Some d' \<and> bit d' 13 \<and> \<not> bit d' 12 \<and> \<not> bit d' 20"
proof -
  have "keeps demo_mmio GPFSEL1 (\<lambda>d. d)" by (simp add: keeps_def demo_mmio_def)
  with setPinMode_field [of 14 GPFSEL1 demo_mmio "\<lambda>d. d" MODE_ALT5 PULL_NONE 0] show ?thesis
    by (auto simp: select_register_def bit_numeral_rec)
qed

end
