(* ===== verification/Gdt.thy ===== *)
theory Gdt
  imports Prelude
begin

text \<open>
  The segment descriptors of \<^verbatim>\<open>arch/x86_64/include/x86/gdt.h\<close> and the descriptor of the task state segment, as the words the
  processor reads. The bit fields of \<^verbatim>\<open>tssd_t\<close> are written out at their positions; its reserved fields keep the zeros
  of the static table. Loading the registers of the processor is left out.
\<close>

unbundle bit_operations_syntax

definition PRESENT :: uint64_t where "PRESENT = push_bit 47 1"
definition DPL_USER :: uint64_t where "DPL_USER = push_bit 45 1 OR push_bit 46 1"
definition CODE :: uint64_t where "CODE = push_bit 41 1 OR push_bit 43 1 OR push_bit 44 1"
definition DATA :: uint64_t where "DATA = push_bit 41 1 OR push_bit 44 1"
definition MAX_LIMIT :: uint64_t where "MAX_LIMIT = 0x8f00000000ffff"
definition LONGMODE :: uint64_t where "LONGMODE = push_bit 53 1"
definition OPSIZE32 :: uint64_t where "OPSIZE32 = push_bit 54 1"

lemmas segment_bits = PRESENT_def DPL_USER_def CODE_def DATA_def MAX_LIMIT_def LONGMODE_def OPSIZE32_def

definition TSS_SIZE :: uint64_t where "TSS_SIZE = 104"

text \<open>The fields of the segment that the kernel writes.\<close>

record tss =
  rsp0 :: uint64_t
  iopb_offset :: uint16_t

text \<open>\<^verbatim>\<open>setup_tss\<close>: the two words of the descriptor of the segment at \<open>a\<close>.\<close>

definition tss_low :: "uint64_t \<Rightarrow> uint64_t" where
  "tss_low a =
     (let base1 = a AND 0xffffff; base2 = drop_bit 24 a
      in TSS_SIZE OR push_bit 16 base1 OR push_bit 40 0x09 OR push_bit 45 0x03 OR push_bit 47 0x01 OR push_bit 56 (base2 AND 0xff))"

definition tss_high :: "uint64_t \<Rightarrow> uint64_t" where
  "tss_high a = (let base2 = drop_bit 24 a in drop_bit 8 base2)"

definition setup_tss :: "uint64_t \<Rightarrow> tss \<Rightarrow> (uint64_t \<times> uint64_t) \<times> tss" where
  "setup_tss a s_tss = ((tss_low a, tss_high a), s_tss\<lparr>iopb_offset := ucast TSS_SIZE\<rparr>)"

definition setup_gdt :: "uint64_t \<Rightarrow> tss \<Rightarrow> uint64_t list \<times> tss" where
  "setup_gdt a s_tss =
     (case setup_tss a s_tss of ((low, high), s_tss1) \<Rightarrow>
       ([0,
         PRESENT OR LONGMODE OR MAX_LIMIT OR CODE,
         PRESENT OR LONGMODE OR MAX_LIMIT OR DATA,
         PRESENT OR LONGMODE OR MAX_LIMIT OR CODE OR DPL_USER,
         PRESENT OR LONGMODE OR MAX_LIMIT OR DATA OR DPL_USER,
         PRESENT OR OPSIZE32 OR MAX_LIMIT OR CODE OR DPL_USER,
         PRESENT OR OPSIZE32 OR MAX_LIMIT OR DATA OR DPL_USER,
         low, high], s_tss1))"

definition setKernelStackPtr :: "size_t \<Rightarrow> tss \<Rightarrow> tss" where
  "setKernelStackPtr stackptr s_tss = s_tss\<lparr>rsp0 := stackptr\<rparr>"

section \<open>What the processor reads\<close>

definition descriptor :: "uint64_t list \<Rightarrow> uint16_t \<Rightarrow> uint64_t" where
  "descriptor gdt selector = gdt ! (unat selector div 8)"

definition seg_dpl :: "uint64_t \<Rightarrow> uint64_t" where
  "seg_dpl e = drop_bit 45 e AND 3"

definition seg_executable :: "uint64_t \<Rightarrow> bool" where
  "seg_executable e = bit e 43"

definition tss_base :: "uint64_t \<Rightarrow> uint64_t \<Rightarrow> uint64_t" where
  "tss_base low high = (drop_bit 16 low AND 0xffffff) OR push_bit 24 (drop_bit 56 low AND 0xff) OR push_bit 32 (high AND 0xffffffff)"

lemma bit_low_masks: "bit (255 :: int) k \<longleftrightarrow> k < 8" "bit (16777215 :: int) k \<longleftrightarrow> k < 24" "bit (4294967295 :: int) k \<longleftrightarrow> k < 32"
  "bit (104 :: int) k \<Longrightarrow> k < 8" "bit (9 :: int) k \<Longrightarrow> k < 8" "bit (3 :: int) k \<longleftrightarrow> k < 2"
  using bit_mask_iff [where 'a = int, of 8 k] bit_mask_iff [where 'a = int, of 24 k] bit_mask_iff [where 'a = int, of 32 k]
    bit_mask_iff [where 'a = int, of 2 k] by (simp_all add: mask_eq_exp_minus_1) (auto simp: bit_numeral_rec split: nat.splits)

lemma bit_shifted: "n < 24 \<Longrightarrow> \<not> bit (150994944 :: int) n" "n < 24 \<Longrightarrow> \<not> bit (1610612736 :: int) n" "n < 24 \<Longrightarrow> \<not> bit (2147483648 :: int) n"
proof -
  have e: "(150994944 :: int) = push_bit 24 9" "(1610612736 :: int) = push_bit 29 3" "(2147483648 :: int) = push_bit 31 1"
    by (simp_all add: push_bit_eq_mult)
  show "n < 24 \<Longrightarrow> \<not> bit (150994944 :: int) n" "n < 24 \<Longrightarrow> \<not> bit (1610612736 :: int) n" "n < 24 \<Longrightarrow> \<not> bit (2147483648 :: int) n"
    unfolding e by (simp_all only: bit_push_bit_iff not_le) auto
qed

lemma bit_byte3: "bit (4278190080 :: int) n \<longleftrightarrow> 24 \<le> n \<and> n < 32"
proof -
  have e: "(4278190080 :: int) = push_bit 24 255" by (simp add: push_bit_eq_mult)
  show ?thesis unfolding e by (simp only: bit_push_bit_iff bit_low_masks(1)) auto
qed

lemma bit_upper: "bit (18446744069414584320 :: int) n \<longleftrightarrow> 32 \<le> n \<and> n < 64"
proof -
  have e: "(18446744069414584320 :: int) = push_bit 32 4294967295" by (simp add: push_bit_eq_mult)
  show ?thesis unfolding e by (simp only: bit_push_bit_iff bit_low_masks(3)) auto
qed

lemma tss_base_ok: "tss_base (tss_low a) (tss_high a) = a"
proof (rule bit_word_eqI)
  fix n assume "n < LENGTH(64)"
  then have n: "n < 64" by simp
  consider "n < 24" | "24 \<le> n" "n < 32" | "32 \<le> n" by linarith
  then show "bit (tss_base (tss_low a) (tss_high a)) n = bit a n"
  proof cases
    case 1
    then show ?thesis by (auto simp: bit_shifted tss_base_def tss_low_def tss_high_def TSS_SIZE_def Let_def bit_simps bit_low_masks dest: bit_low_masks(4,5))
  next
    case 2
    then show ?thesis by (auto simp: bit_byte3 tss_base_def tss_low_def tss_high_def TSS_SIZE_def Let_def bit_simps bit_low_masks dest: bit_low_masks(4,5))
  next
    case 3
    then show ?thesis using n by (auto simp: bit_upper tss_base_def tss_low_def tss_high_def TSS_SIZE_def Let_def bit_simps bit_low_masks dest: bit_low_masks(4,5))
  qed
qed

text \<open>The table (\<^verbatim>\<open>setup_gdt\<close>): the selectors of the kernel have privilege 0 and those of programs privilege 3, code is
  executable and data is not, and the processor finds the task state segment at its address. Its descriptor has
  privilege 3, too.\<close>

theorem gdt_correct:
  assumes "setup_gdt a t = (gdt, t')"
  shows "seg_dpl (descriptor gdt 0x08) = 0" and "seg_dpl (descriptor gdt 0x10) = 0" and "seg_dpl (descriptor gdt 0x1b) = 3" and "seg_dpl (descriptor gdt 0x23) = 3"
    and "seg_executable (descriptor gdt 0x08)" and "\<not> seg_executable (descriptor gdt 0x10)" and "seg_executable (descriptor gdt 0x1b)" and "\<not> seg_executable (descriptor gdt 0x23)"
    and "tss_base (descriptor gdt 0x3b) (gdt ! 8) = a"
  using assms by (auto simp: setup_gdt_def setup_tss_def descriptor_def seg_dpl_def seg_executable_def segment_bits tss_base_ok bit_numeral_rec)

theorem gdt_witness: "seg_dpl (descriptor (fst (setup_gdt 0x123456789abc \<lparr>rsp0 = 0, iopb_offset = 0\<rparr>)) 0x1b) = 3"
  using gdt_correct(3) [of "0x123456789abc" "\<lparr>rsp0 = 0, iopb_offset = 0\<rparr>", OF surjective_pairing] .

end
