(* ===== verification/Spec2Isabelle.thy ===== *)
theory Spec2Isabelle
  imports Mutex Queue LibcString ErrorMsg UserProc Heap CopyOnWrite PrintfText Fork Interrupt Drivers Cmdline Create Console DebugStream Gpio Gdt
begin

text \<open>
  Koerix is a small operating system kernel in C++ for x86-64 with a C library. This development models
  the kernel's memory management, tasks, processes, files and kernel entry, and the parts of the C library
  that programs use to format and to move text, and proves what these parts promise one another.

  \<^bold>\<open>The program.\<close> An interrupt or a system call enters the kernel through the descriptor table and
  \<^verbatim>\<open>x86_irq_handler\<close>. The timer leads to the scheduler, vector 0x80 to the system call table, a fault of the
  floating point unit to its lazy switch, a page fault to a handler that carries out kill requests, copies
  pages shared by fork, extends stacks and loads the program on demand. A process owns an address space,
  a table of open files, stack slots and a list of threads; a cleanup that runs in the idle task takes dead
  threads and processes apart. Address spaces are page tables in frames that the page map counts; the kernel's
  own objects come from the heap. Lists, maps, vectors and shared pointers are the kernel's own containers.

  \<^bold>\<open>Conventions.\<close> The theory \<open>Prelude\<close> fixes them. A call that can panic, fault or run forever is a function into
  \<open>option\<close>, \<open>None\<close> meaning that it does not return; error numbers are ordinary values. Pointers are 64-bit words,
  the objects behind them are in one store per class, and machine integers keep their width. Memory that the code
  takes from the heap is an argument of the operation, which the theorems require to be unused. An operation that
  a lock protects is one step, except where the interleaving is the point (\<open>Mutex\<close>, the gap in \<open>Fork\<close>).
  A task switch returns the frame of the task that runs next.

  \<^bold>\<open>Theories and sources.\<close>
  \<^item> \<open>Klist\<close>: \<^verbatim>\<open>kernel/include/lib/list.h\<close>, \<^verbatim>\<open>canary.h\<close>; doubly linked lists over a pointer store, every operation
    against the list of items it stands for; the locale of list operations is used by the scheduler and the queues.
  \<^item> \<open>KMap\<close>: \<^verbatim>\<open>kernel/include/lib/map.h\<close>; the search tree, insertion, lookup, copying, and the faults of erasing.
  \<^item> \<open>Vector\<close>, \<open>SharedPtr\<close>, \<open>Handles\<close>: \<^verbatim>\<open>vector.h\<close>, \<^verbatim>\<open>shared_ptr.h\<close>; \<open>Handles\<close> is the interface of counted references that
    descriptors and shared pointers both provide.
  \<^item> \<open>Sync\<close>, \<open>Mutex\<close>: \<^verbatim>\<open>arch/x86_64/atomic.S\<close>, \<^verbatim>\<open>kernel/sync\<close>; the mutex as interleaved steps of many tasks, mutual
    exclusion as an invariant, and a run in which a wake-up is lost.
  \<^item> \<open>PageMap\<close>, \<open>AddrSpace\<close>, \<open>CopyOnWrite\<close>: \<^verbatim>\<open>kernel/mm/pagemap.cpp\<close>, \<^verbatim>\<open>arch/x86_64/pagemap.cpp\<close>, \<^verbatim>\<open>arch/x86_64/addr_space.cpp\<close>; reference
    counts of frames, mapping and unmapping of pages as changes of exactly one leaf, and clone and copy on
    write as operations that no address space can observe.
  \<^item> \<open>Heap\<close>: \<^verbatim>\<open>kernel/mm/heap.cpp\<close>; kmalloc and kfree refine first fit on a list of blocks.
  \<^item> \<open>Sched\<close>: \<^verbatim>\<open>kernel/task.cpp\<close>, \<^verbatim>\<open>kernel/sched/scheduler.cpp\<close>; the choice of the next task, the switch, bounded waiting.
  \<^item> \<open>Queue\<close>, \<open>FileSys\<close>, \<open>UserProc\<close>: \<^verbatim>\<open>kernel/queue.cpp\<close>, \<^verbatim>\<open>kernel/fs\<close>, \<^verbatim>\<open>kernel/pipe.cpp\<close>, \<^verbatim>\<open>kernel/dev/devfs.cpp\<close>, and of \<^verbatim>\<open>kernel/user_proc.cpp\<close> the stack
    slots and open files; the ring buffer, reference counts of files, lookup, mounting, the descriptor calls.
  \<^item> \<open>Loader\<close>, \<open>UserTask\<close>, \<open>Process\<close>, \<open>Fork\<close>: \<^verbatim>\<open>kernel/loader.cpp\<close>, \<^verbatim>\<open>kernel/user_task.cpp\<close>, \<^verbatim>\<open>kernel/fpu.cpp\<close>, \<^verbatim>\<open>arch/x86_64/context.cpp\<close>,
    \<^verbatim>\<open>kernel/user_proc.cpp\<close>, \<^verbatim>\<open>kernel/sched/proc_list.cpp\<close>, \<^verbatim>\<open>task_syscalls.cpp\<close>; demand loading, lazy floating point state, exit, cleanup
    and fork on the record \<open>kernel\<close>, which holds the state all of them share.
  \<^item> \<open>PageFault\<close>, \<open>Interrupt\<close>: \<^verbatim>\<open>kernel/mm/page_fault.cpp\<close>, \<^verbatim>\<open>arch/x86_64/idt.cpp\<close>, \<^verbatim>\<open>interrupt.cpp\<close>, \<^verbatim>\<open>syscall.cpp\<close> and the small system calls.
  \<^item> \<open>Drivers\<close>, \<open>DebugStream\<close>: \<^verbatim>\<open>platform/pc/drivers\<close>, \<^verbatim>\<open>kernel/pci\<close>, \<^verbatim>\<open>kernel/dev/uart.cpp\<close>, \<^verbatim>\<open>kernel/debug_stream.cpp\<close>, \<^verbatim>\<open>kernel/debug.cpp\<close>; the serial port,
    the PS/2 controller, PCI, and the debug messages that the serial port carries. The devices are parameters.
  \<^item> \<open>Cmdline\<close>, \<open>Gdt\<close>: \<^verbatim>\<open>kernel/cmdline.cpp\<close>, \<^verbatim>\<open>arch/x86_64/module.cpp\<close>, \<^verbatim>\<open>arch/x86_64/include/x86/gdt.h\<close>; the option that names the first program and
    the module it is in, and the segment descriptors.
  \<^item> \<open>Create\<close>: the end of \<^verbatim>\<open>kernel/boot.cpp\<close>, which makes the first process of that module, and what a new process and a new thread start with.
  \<^item> \<open>Console\<close>: \<^verbatim>\<open>libc/generic/koerix\<close>, \<^verbatim>\<open>env/textcon.c\<close>; the keyboard decoder, the framebuffer, and the terminal as a grid of characters.
  \<^item> \<open>Gpio\<close>: \<^verbatim>\<open>platform/raspi/drivers\<close>; the pins and the debug port of the Raspberry Pi.
  \<^item> \<open>Bytes\<close>, \<open>KString\<close>, \<open>LibcString\<close>, \<open>ErrorMsg\<close>: \<^verbatim>\<open>kernel/lib/string.c\<close>, \<^verbatim>\<open>libc/generic/string\<close>, \<^verbatim>\<open>kernel/lib/error_msg.c\<close>.
  \<^item> \<open>Stdio\<close>, \<open>Printf\<close>, \<open>PrintfText\<close>: \<^verbatim>\<open>libc/generic/stdio\<close>; buffered streams over a device and the formatter.

  \<^bold>\<open>Bounds and fuel.\<close> Loops over lists, tables and bytes recurse on a count that the code itself uses. Loops
  that could run forever (the search for a ready task, for a free descriptor, the walks through lists and
  trees, the cleanup, waiting for a device) are partial functions, and the theorems state that they return. The
  page map is taken to have at most two to the power of 28 frames, the width of a page table entry's frame number; reference
  counts of frames are bytes, so the theorems on sharing ask for room below 256.

  \<^bold>\<open>Not modelled.\<close> The ports for i386 and ARM, whose address spaces and interrupts are empty functions; assembly entry
  stubs and the loading of control registers; the calls of debug messages inside other functions and the stack
  trace, which do not change the state; floating point conversions of the formatter, lines on the framebuffer
  and the mathematical functions, which are parameters; locks inside the C library, which nothing enables; the
  rest of the boot sequence and the programs in \<^verbatim>\<open>env\<close>, except where named above.

  \<^bold>\<open>What follows\<close> is the composition of all parts: fork, from the interrupt to the return to user mode.
\<close>

section \<open>Fork as a system call\<close>

text \<open>C18. Fork from the interrupt to the return (\<^verbatim>\<open>x86_irq_handler\<close>, \<^verbatim>\<open>do_syscall\<close>, \<^verbatim>\<open>sys_fork\<close>): when a thread raises vector 0x80 with the
  number of fork, the handler returns to the same frame, in which only the return register has
  changed and holds the id of the new process; the new thread is ready and its frame is the caller's
  with 0 in the return register; no address space sees a change of its memory.\<close>

theorem fork_system_call:
  assumes c: "ctx \<noteq> 0" "k_contexts (m_kernel m) ctx = Some c" "irq_id c = 0x80" "rax c = 12"
    and k: "k = entered ctx (m_kernel m)" and cur: "current (m_kernel m) \<noteq> 0" "s_tasks (k_sched (m_kernel m)) (current (m_kernel m)) \<noteq> None"
    and f: "faulting k p t" "fork_space k t R lev" "fork_shared mem k p owners fds tr" "fork_fresh mem k"
      "ctx \<noteq> pm_stack mem + KERNEL_STACK_SIZE - IRQ_CONTEXT_SIZE"
  shows "\<exists>k' ctx'. x86_irq_handler (process_calls other fb mem inner) inner ctx m = Some (ctx, m\<lparr>m_kernel := k'\<rparr>) \<and>
     k_contexts k' ctx = Some (c\<lparr>rax := k_pidCounter k\<rparr>) \<and> map_option p_pid (k_procs k' (pm_proc mem)) = Some (k_pidCounter k) \<and>
     map_option m_context (s_tasks (k_sched k') (pm_task mem)) = Some ctx' \<and> k_contexts k' ctx' = Some (c\<lparr>rax := 0\<rparr>) \<and>
     ready (k_sched k') (pm_task mem) \<and> current k' = current k \<and> same_views R (v_mem (k_vm k)) (v_mem (k_vm k'))"
proof -
  define tc where "tc = (the (s_tasks (k_sched (m_kernel m)) (current (m_kernel m))))\<lparr>m_context := ctx\<rparr>"
  have ck: "k_contexts k ctx = Some c" using c(2) by (simp add: k entered_def)
  have cf: "caller_frame mem k tc c" using c(1) ck f(5) by (simp add: caller_frame_def k entered_def tc_def)
  from fork_ok [OF f(1-4) cf] obtain k' ctx' child where
    r: "sys_fork mem k = Some (k_pidCounter k, k')" "k_procs k' (pm_proc mem) = Some child" "p_pid child = k_pidCounter k"
      "same_views R (v_mem (k_vm k)) (v_mem (k_vm k'))" "ready (k_sched k') (pm_task mem)"
      "map_option m_context (s_tasks (k_sched k') (pm_task mem)) = Some ctx'" "k_contexts k' ctx' = Some (c\<lparr>rax := 0\<rparr>)" "k_contexts k' (m_context tc) = Some c"
      "current k' = current k" "ctx' \<noteq> m_context tc" by blast
  have kc: "k_contexts k' ctx = Some c" "ctx' \<noteq> ctx" using r(8,10) by (simp_all add: tc_def)
  have s: "unat (rax c) < 21" "syscalls ! unat (rax c) = Some F_fork" by (simp_all add: c(4) syscalls_def)
  have pc: "process_calls other fb mem inner F_fork args k = Some (Value (k_pidCounter k), k')" for args
    using r(1) by (simp add: process_calls_def)
  have "do_syscall (process_calls other fb mem inner) ctx k = Some (ctx, k'\<lparr>k_contexts := (k_contexts k')(ctx \<mapsto> c\<lparr>rax := k_pidCounter k\<rparr>)\<rparr>)"
    by (rule do_syscall_value [OF c(1) ck s _ kc(1)]) (rule pc)
  then show ?thesis using irq_is_syscall [OF c(1-3) cur, folded k] r kc(2)
    by (intro exI [of _ "k'\<lparr>k_contexts := (k_contexts k')(ctx \<mapsto> c\<lparr>rax := k_pidCounter k\<rparr>)\<rparr>"] exI [of _ ctx']) simp
qed

text \<open>The example, with the system call number of fork in the caller's frame.\<close>

lemma demo_entered:
  defines "k \<equiv> entered 1000 (m_kernel (demo_machine 0x80 12))"
  shows "faulting k 500 0" "fork_space k 0 {0, 5} demo_level" "fork_shared demo_mem k 500 [600, 620] [] Leaf" "fork_fresh demo_mem k" "k_pidCounter k = 2"
proof -
  have e: "demo_sched\<lparr>s_tasks := (s_tasks demo_sched)(100 \<mapsto> (demo_task 1 1000 True)\<lparr>m_context := 1000\<rparr>)\<rparr> = demo_sched"
    by (simp add: demo_sched_def demo_task_def fun_upd_idem)
  have "k_sched k = demo_sched" using e demo_machine_sel(2,3,4) by (simp add: k_def entered_def)
  then have k: "k = demo_kernel\<lparr>k_contexts := k_contexts k\<rparr>"
    by (simp add: k_def entered_def demo_machine_def) (simp add: demo_kernel_def)
  define cs where "cs = k_contexts k"
  have k: "k = demo_kernel\<lparr>k_contexts := cs\<rparr>" using k by (simp add: cs_def)
  have so: "stack_of (demo_kernel\<lparr>k_contexts := cs\<rparr>) = stack_of demo_kernel" by (rule ext) (simp add: stack_of_def)
  show "faulting k 500 0" using demo_faulting unfolding k
    by (simp add: faulting_def proc_ok_def threads_ok_def thread_ok_def threads_def so killed_def)
  show "fork_space k 0 {0, 5} demo_level" "fork_shared demo_mem k 500 [600, 620] [] Leaf" "fork_fresh demo_mem k" "k_pidCounter k = 2"
    using demo_fork_space demo_fork_shared demo_fork_fresh(1) unfolding k by (simp_all add: fork_space_def fork_shared_def fork_fresh_def demo_kernel_def)
qed

theorem fork_system_call_witness:
  "\<exists>k' ctx'. x86_irq_handler (process_calls (\<lambda>_ _ _. None) demo_fb demo_mem 900) 900 1000 (demo_machine 0x80 12) = Some (1000, (demo_machine 0x80 12)\<lparr>m_kernel := k'\<rparr>) \<and>
     map_option rax (k_contexts k' 1000) = Some 2 \<and> map_option rax (k_contexts k' ctx') = Some 0"
proof -
  note d = demo_entered
  have n: "(1000 :: addr) \<noteq> pm_stack demo_mem + KERNEL_STACK_SIZE - IRQ_CONTEXT_SIZE" by (simp add: demo_mem_def KERNEL_STACK_SIZE_def IRQ_CONTEXT_SIZE_def)
  have c: "current (m_kernel (demo_machine 0x80 12)) \<noteq> 0" "s_tasks (k_sched (m_kernel (demo_machine 0x80 12))) (current (m_kernel (demo_machine 0x80 12))) \<noteq> None"
    by (simp_all add: demo_machine_sel)
  have i: "irq_id (new_irq_context\<lparr>irq_id := 0x80, rax := 12\<rparr>) = 0x80" "rax (new_irq_context\<lparr>irq_id := 0x80, rax := 12\<rparr>) = 12" by simp_all
  from fork_system_call [where m = "demo_machine 0x80 12", OF _ demo_machine_sel(1) i refl c d(1-4) n, of "\<lambda>_ _ _. None" demo_fb 900]
  obtain k' ctx' where "x86_irq_handler (process_calls (\<lambda>_ _ _. None) demo_fb demo_mem 900) 900 1000 (demo_machine 0x80 12) = Some (1000, (demo_machine 0x80 12)\<lparr>m_kernel := k'\<rparr>)"
    "k_contexts k' 1000 = Some (new_irq_context\<lparr>irq_id := 0x80, rax := 2\<rparr>)" "k_contexts k' ctx' = Some (new_irq_context\<lparr>irq_id := 0x80, rax := 0\<rparr>)" unfolding d(5) by auto
  then show ?thesis by (intro exI [of _ k'] exI [of _ ctx']) simp
qed

end
